(* ===== verification/Prelude.thy ===== *)
theory Prelude
  imports Main "HOL-Library.Word" "HOL-Library.Sublist"
begin

unbundle bit_operations_syntax

text \<open>
  Shared vocabulary of the development.

  C strings are \<open>char list\<close>s without a NUL byte: a pointer \<open>const char *p\<close> into a
  string is the suffix it points to, \<open>*p\<close> is \<open>peek\<close> (NUL at the end of the string) and
  \<open>p++\<close> is \<open>tl\<close>. A growable byte buffer (\<open>buf\<close> of ds4_server.c) is the list of the bytes it
  holds, which may contain NUL bytes; reading a buffer back as a C string is \<open>c_str\<close>.

  A parser \<open>bool f(const char **p, T *out)\<close> is a function
  \<open>string \<Rightarrow> (T \<times> string) option\<close>: None is the return value false, the second component
  the advanced pointer. The collection \<open>parser_suffix\<close> gathers the facts that parsers
  only ever move the pointer forward.
\<close>

section \<open>Words, bytes and C strings\<close>

type_synonym u8 = "8 word"
type_synonym u16 = "16 word"
type_synonym u32 = "32 word"
type_synonym u64 = "64 word"
type_synonym cstr = "string"
type_synonym 'a parser = "string \<Rightarrow> ('a \<times> string) option"

named_theorems parser_suffix \<open>parsers return a suffix of their input\<close>
named_theorems cstring_intro \<open>operations that keep strings free of NUL bytes\<close>

abbreviation NUL :: char where "NUL \<equiv> CHR 0x00"
abbreviation DQ :: char where "DQ \<equiv> CHR 0x22"
abbreviation BACKSLASH :: char where "BACKSLASH \<equiv> CHR 0x5C"
abbreviation NL :: char where "NL \<equiv> CHR 0x0A"

definition byte_of :: "char \<Rightarrow> nat" where
  "byte_of c = of_char c"

definition peek :: "string \<Rightarrow> char" where
  "peek s = (case s of [] \<Rightarrow> NUL | c # _ \<Rightarrow> c)"

definition cstring :: "string \<Rightarrow> bool" where
  "cstring s \<longleftrightarrow> NUL \<notin> set s"

definition c_str :: "string \<Rightarrow> string" where
  "c_str b = takeWhile (\<lambda>c. c \<noteq> NUL) b"

text \<open>\<open>isspace\<close> of the C locale.\<close>

definition isspace :: "char \<Rightarrow> bool" where
  "isspace c \<longleftrightarrow> c = CHR '' '' \<or> (9 \<le> byte_of c \<and> byte_of c \<le> 13)"

lemma byte_of_less [simp]: "byte_of c < 256"
  unfolding byte_of_def by simp

lemma byte_of_inject [simp]: "byte_of c = byte_of d \<longleftrightarrow> c = d"
  by (simp add: byte_of_def)

lemma byte_of_char_of [simp]: "byte_of (char_of n) = n mod 256" for n :: nat
  by (simp add: byte_of_def)

lemma char_of_byte_of [simp]: "char_of (byte_of c) = c"
  by (simp add: byte_of_def)

lemma peek_simps [simp]: "peek [] = NUL" "peek (c # s) = c"
  by (simp_all add: peek_def)

lemma peek_eq_Cons: "c \<noteq> NUL \<Longrightarrow> peek s = c \<longleftrightarrow> (\<exists>r. s = c # r)"
  by (cases s) auto

lemma peek_not_Nil: "peek s = c \<Longrightarrow> c \<noteq> NUL \<Longrightarrow> s \<noteq> []"
  by (cases s) auto

lemma length_tl_peek: "peek s = c \<Longrightarrow> c \<noteq> NUL \<Longrightarrow> length (tl s) < length s"
  by (cases s) auto

lemma peek_append [simp]: "s \<noteq> [] \<Longrightarrow> peek (s @ t) = peek s"
  by (cases s) auto

lemma cstring_simps [simp]:
  "cstring []"
  "cstring (c # s) \<longleftrightarrow> c \<noteq> NUL \<and> cstring s"
  "cstring (s @ t) \<longleftrightarrow> cstring s \<and> cstring t"
  by (auto simp: cstring_def)

lemma cstring_suffix [cstring_intro]: "suffix r s \<Longrightarrow> cstring s \<Longrightarrow> cstring r"
  by (auto simp: cstring_def suffix_def)

lemma cstring_peek: "cstring s \<Longrightarrow> peek s = NUL \<longleftrightarrow> s = []"
  by (cases s) auto

lemma c_str_cstring [cstring_intro]: "cstring (c_str b)"
  unfolding c_str_def cstring_def by (auto dest: set_takeWhileD)

lemma c_str_id: "cstring b \<Longrightarrow> c_str b = b"
  by (auto simp: c_str_def cstring_def takeWhile_eq_all_conv)

lemma isspace_NUL [simp]: "\<not> isspace NUL"
  by (simp add: isspace_def byte_of_def)

section \<open>Suffixes: pointers only move forward\<close>

lemma suffix_tl [parser_suffix]: "suffix (tl s) s"
  by (cases s) (auto simp: suffix_Cons)

lemma suffix_tl_trans: "suffix s t \<Longrightarrow> suffix (tl s) t"
  by (meson suffix_tl suffix_order.trans)

lemma suffix_drop_trans: "suffix s t \<Longrightarrow> suffix (drop n s) t"
  by (meson suffix_drop suffix_order.trans)

lemma suffix_dropWhile_trans: "suffix s t \<Longrightarrow> suffix (dropWhile P s) t"
  by (meson suffix_dropWhile suffix_order.trans)

lemma suffix_length: "suffix r s \<Longrightarrow> length r \<le> length s"
  by (rule suffix_length_le)

lemma suffix_Cons_length: "suffix r (c # s) \<Longrightarrow> r \<noteq> c # s \<Longrightarrow> length r \<le> length s"
  by (auto simp: suffix_Cons dest: suffix_length)

section \<open>Option bind for parser chains\<close>

lemma bind_Some_iff [simp]: "Option.bind x f = Some y \<longleftrightarrow> (\<exists>a. x = Some a \<and> f a = Some y)"
  by (cases x) auto

lemma map_option_Some_iff: "map_option f x = Some y \<longleftrightarrow> (\<exists>a. x = Some a \<and> y = f a)"
  by (cases x) auto

lemma drop_length_append: "drop (length a) (a @ b) = b"
  by simp

lemma take_length_append: "take (length a) (a @ b) = a"
  by simp

lemma suffix_exI: "s = p @ r \<Longrightarrow> suffix r s"
  by (auto simp: suffix_def)

section \<open>\<open>strstr\<close>\<close>

fun strstr :: "string \<Rightarrow> string \<Rightarrow> nat option" where
  "strstr hay needle =
     (if prefix needle hay then Some 0
      else case hay of [] \<Rightarrow> None | _ # h \<Rightarrow> map_option Suc (strstr h needle))"

declare strstr.simps [simp del]

definition occurs_at :: "string \<Rightarrow> string \<Rightarrow> nat \<Rightarrow> bool" where
  "occurs_at hay needle i \<longleftrightarrow> i \<le> length hay \<and> prefix needle (drop i hay)"

lemma strstr_Some: "strstr hay needle = Some i \<Longrightarrow> occurs_at hay needle i"
proof (induction hay arbitrary: i)
  case Nil
  then show ?case
    by (auto simp: strstr.simps [of "[]"] occurs_at_def split: if_splits)
next
  case (Cons c h)
  then show ?case
    by (auto simp: strstr.simps [of "c # h"] occurs_at_def split: if_splits)
qed

lemma strstr_first: "strstr hay needle = Some i \<Longrightarrow> occurs_at hay needle j \<Longrightarrow> i \<le> j"
proof (induction hay arbitrary: i j)
  case Nil
  then show ?case
    by (auto simp: strstr.simps [of "[]"] split: if_splits)
next
  case (Cons c h)
  show ?case
  proof (cases "prefix needle (c # h)")
    case True
    with Cons.prems show ?thesis by (simp add: strstr.simps [of "c # h"])
  next
    case False
    with Cons.prems obtain k where k: "strstr h needle = Some k" "i = Suc k"
      by (auto simp: strstr.simps [of "c # h"])
    from False Cons.prems(2) obtain m where "j = Suc m" "occurs_at h needle m"
      by (cases j) (auto simp: occurs_at_def)
    with k Cons.IH show ?thesis by simp
  qed
qed

lemma strstr_None: "strstr hay needle = None \<Longrightarrow> \<not> occurs_at hay needle i"
proof (induction hay arbitrary: i)
  case Nil
  then show ?case
    by (auto simp: strstr.simps [of "[]"] occurs_at_def split: if_splits)
next
  case (Cons c h)
  then have "\<not> prefix needle (c # h)" "strstr h needle = None"
    by (auto simp: strstr.simps [of "c # h"] split: if_splits)
  with Cons.IH show ?case by (cases i) (auto simp: occurs_at_def)
qed

lemma prefix_iff_take: "prefix p s \<longleftrightarrow> take (length p) s = p"
  by (metis append_eq_conv_conj prefix_def)

lemma occurs_at_append:
  "occurs_at (hay @ more) needle i \<Longrightarrow> i + length needle \<le> length hay \<Longrightarrow> occurs_at hay needle i"
  by (simp add: occurs_at_def prefix_iff_take)

lemma occurs_at_length: "occurs_at hay needle i \<Longrightarrow> i + length needle \<le> length hay"
  by (auto simp: occurs_at_def dest: prefix_length_le)

end
