(* ===== verification/Json.thy ===== *)
theory Json
  imports Prelude Complex_Main
begin

text \<open>
  The JSON reader of ds4_server.c (\<open>json_ws\<close> .. \<open>json_content\<close>): a selective recursive-descent
  reader over a C string that hands back decoded strings, numbers, raw slices and concatenated
  text content. \<open>strtod\<close> and the narrowing casts of C are modelled at the end of the first
  section: a double is \<open>Fin q\<close> with the rational it holds, an infinity or a NaN, and decimal
  literals are rounded to nearest-even at 53 (\<open>double\<close>) or 24 (\<open>float\<close>) bits.
\<close>

section \<open>White space, literals, strings\<close>

definition json_ws :: "string \<Rightarrow> string" where
  "json_ws s = dropWhile isspace s"

definition json_lit :: "string \<Rightarrow> string \<Rightarrow> string option" where
  "json_lit lit s = (if prefix lit s then Some (drop (length lit) s) else None)"

definition json_hex :: "char \<Rightarrow> int" where
  "json_hex c =
     (if byte_of CHR ''0'' \<le> byte_of c \<and> byte_of c \<le> byte_of CHR ''9''
        then int (byte_of c) - int (byte_of CHR ''0'')
      else if byte_of CHR ''a'' \<le> byte_of c \<and> byte_of c \<le> byte_of CHR ''f''
        then 10 + int (byte_of c) - int (byte_of CHR ''a'')
      else if byte_of CHR ''A'' \<le> byte_of c \<and> byte_of c \<le> byte_of CHR ''F''
        then 10 + int (byte_of c) - int (byte_of CHR ''A'')
      else - 1)"

definition cast_char :: "u32 \<Rightarrow> char" where
  "cast_char w = char_of (unat w)"

definition utf8_put :: "string \<Rightarrow> u32 \<Rightarrow> string" where
  "utf8_put b cp =
     (if cp \<le> 0x7f then b @ [cast_char cp]
      else if cp \<le> 0x7ff then
        b @ [cast_char (0xc0 OR drop_bit 6 cp),
             cast_char (0x80 OR (cp AND 0x3f))]
      else if cp \<le> 0xffff then
        b @ [cast_char (0xe0 OR drop_bit 12 cp),
             cast_char (0x80 OR (drop_bit 6 cp AND 0x3f)),
             cast_char (0x80 OR (cp AND 0x3f))]
      else
        b @ [cast_char (0xf0 OR drop_bit 18 cp),
             cast_char (0x80 OR (drop_bit 12 cp AND 0x3f)),
             cast_char (0x80 OR (drop_bit 6 cp AND 0x3f)),
             cast_char (0x80 OR (cp AND 0x3f))])"

text \<open>The four-digit loop of \<open>json_u16\<close>; reading at the end of the string yields NUL, which is
  no hexadecimal digit.\<close>

fun json_u16_digits :: "nat \<Rightarrow> u32 \<Rightarrow> string \<Rightarrow> u32 option" where
  "json_u16_digits 0 cp s = Some cp"
| "json_u16_digits (Suc n) cp s =
     (let h = json_hex (peek s) in
      if h < 0 then None
      else json_u16_digits n (push_bit 4 cp OR word_of_int h) (tl s))"

definition json_u16 :: "string \<Rightarrow> (u32 \<times> string) option" where
  "json_u16 s =
     (if peek s \<noteq> BACKSLASH \<or> peek (tl s) \<noteq> CHR ''u'' then None
      else case json_u16_digits 4 0 (drop 2 s) of
             None \<Rightarrow> None
           | Some cp \<Rightarrow> Some (cp, drop 6 s))"

definition json_simple_escape :: "char \<Rightarrow> char option" where
  "json_simple_escape c =
     (if c = DQ then Some DQ
      else if c = BACKSLASH then Some BACKSLASH
      else if c = CHR ''/'' then Some (CHR ''/'')
      else if c = CHR ''b'' then Some (CHR 0x08)
      else if c = CHR ''f'' then Some (CHR 0x0C)
      else if c = CHR ''n'' then Some (CHR 0x0A)
      else if c = CHR ''r'' then Some (CHR 0x0D)
      else if c = CHR ''t'' then Some (CHR 0x09)
      else None)"

text \<open>The case \<open>'u'\<close> of the escape switch: the pointer is moved back to the backslash, and a
  high surrogate is joined with a following low surrogate. As in the code the second
  \<open>json_u16\<close> moves the pointer whenever it succeeds, whatever it read.\<close>

definition json_unicode_escape :: "string \<Rightarrow> (u32 \<times> string) option" where
  "json_unicode_escape s =
     (case json_u16 s of
        None \<Rightarrow> None
      | Some (cp, s1) \<Rightarrow>
          if 0xd800 \<le> cp \<and> cp \<le> 0xdbff then
            (case json_u16 s1 of
               None \<Rightarrow> Some (cp, s1)
             | Some (lo, s2) \<Rightarrow>
                 if 0xdc00 \<le> lo \<and> lo \<le> 0xdfff
                 then Some (0x10000 + push_bit 10 (cp - 0xd800) + (lo - 0xdc00), s2)
                 else Some (cp, s2))
          else Some (cp, s1))"

lemma json_u16_length: "json_u16 s = Some (cp, r) \<Longrightarrow> length r < length s"
  by (cases s) (auto simp: json_u16_def split: if_splits option.splits)

lemma json_unicode_escape_length:
  "json_unicode_escape s = Some (cp, r) \<Longrightarrow> length r < length s"
  by (auto simp: json_unicode_escape_def split: if_splits option.splits dest!: json_u16_length)

text \<open>The main loop of \<open>json_string\<close>, from behind the opening quote to behind the closing one;
  \<open>b\<close> is the buffer.\<close>

function json_string_loop :: "string \<Rightarrow> string \<Rightarrow> (string \<times> string) option" where
  "json_string_loop b s =
     (case s of
        [] \<Rightarrow> None
      | c # r \<Rightarrow>
          if c = DQ then Some (b, r)
          else if c \<noteq> BACKSLASH then json_string_loop (b @ [c]) r
          else (case json_simple_escape (peek r) of
                  Some d \<Rightarrow> json_string_loop (b @ [d]) (tl r)
                | None \<Rightarrow>
                    if peek r = CHR ''u'' then
                      (case json_unicode_escape s of
                         None \<Rightarrow> None
                       | Some (cp, r') \<Rightarrow> json_string_loop (utf8_put b cp) r')
                    else None))"
  by pat_completeness auto
termination
  by (relation "measure (\<lambda>(b, s). length s)") (auto dest: json_unicode_escape_length)

declare json_string_loop.simps [simp del]

definition json_string :: "string \<Rightarrow> (cstr \<times> string) option" where
  "json_string s0 =
     (let s = json_ws s0 in
      if peek s \<noteq> DQ then None
      else case json_string_loop [] (tl s) of
             None \<Rightarrow> None
           | Some (b, r) \<Rightarrow> Some (c_str b, r))"

section \<open>Numbers: \<open>strtod\<close> and the casts of C\<close>

datatype double = Fin rat | Inf bool | NaN
  \<comment> \<open>\<open>Inf True\<close> is minus infinity\<close>

definition pow2 :: "int \<Rightarrow> rat" where
  "pow2 e = (if e \<ge> 0 then 2 ^ nat e else 1 / 2 ^ nat (- e))"

fun bitlen :: "nat \<Rightarrow> nat" where
  "bitlen n = (if n = 0 then 0 else Suc (bitlen (n div 2)))"

declare bitlen.simps [simp del]

text \<open>The exponent of the leading bit of a positive rational.\<close>

definition ilog2 :: "rat \<Rightarrow> int" where
  "ilog2 x =
     (let (n, d) = quotient_of x;
          k = int (bitlen (nat n)) - int (bitlen (nat d))
      in if pow2 k \<le> x then k else k - 1)"

definition round_half_even :: "rat \<Rightarrow> int" where
  "round_half_even x =
     (let f = \<lfloor>x\<rfloor>; r = x - of_int f in
      if r < 1/2 then f else if r > 1/2 then f + 1 else if even f then f else f + 1)"

text \<open>Round a rational to a binary format with \<open>p\<close> significant bits, least exponent
  \<open>emin\<close> (subnormals) and values below \<open>2 ^ emax\<close>.\<close>

definition round_binary :: "nat \<Rightarrow> int \<Rightarrow> int \<Rightarrow> rat \<Rightarrow> double" where
  "round_binary p emin emax q =
     (if q = 0 then Fin 0
      else let x = \<bar>q\<bar>;
               e = max (ilog2 x - int p + 1) emin;
               y = of_int (round_half_even (x / pow2 e)) * pow2 e
           in if y \<ge> pow2 emax then Inf (q < 0) else Fin (if q < 0 then - y else y))"

definition to_double :: "rat \<Rightarrow> double" where
  "to_double q = round_binary 53 (- 1074) 1024 q"

fun float_cast :: "double \<Rightarrow> double" where
  "float_cast (Fin q) = round_binary 24 (- 149) 128 q"
| "float_cast d = d"

fun dless :: "double \<Rightarrow> double \<Rightarrow> bool" where
  "dless NaN _ = False"
| "dless _ NaN = False"
| "dless (Inf m) (Inf n) = (m \<and> \<not> n)"
| "dless (Inf m) (Fin _) = m"
| "dless (Fin _) (Inf n) = (\<not> n)"
| "dless (Fin a) (Fin b) = (a < b)"

text \<open>\<open>(int)v\<close> and \<open>(uint64_t)v\<close>: truncation where the value fits. Elsewhere the conversion is
  undefined in C; the model takes the saturating conversions of arm64, the platform of the Metal
  build (NaN gives 0).\<close>

definition rat_trunc :: "rat \<Rightarrow> int" where
  "rat_trunc q = (if q < 0 then - \<lfloor>- q\<rfloor> else \<lfloor>q\<rfloor>)"

definition INT_MAX :: int where "INT_MAX = 2147483647"
definition INT_MIN :: int where "INT_MIN = - 2147483648"

fun cast_int :: "double \<Rightarrow> int" where
  "cast_int (Fin q) = max INT_MIN (min INT_MAX (rat_trunc q))"
| "cast_int (Inf m) = (if m then INT_MIN else INT_MAX)"
| "cast_int NaN = 0"

fun cast_u64 :: "double \<Rightarrow> u64" where
  "cast_u64 (Fin q) = word_of_int (max 0 (min (2 ^ 64 - 1) (rat_trunc q)))"
| "cast_u64 (Inf m) = (if m then 0 else - 1)"
| "cast_u64 NaN = 0"

definition isdigit :: "char \<Rightarrow> bool" where
  "isdigit c \<longleftrightarrow> 48 \<le> byte_of c \<and> byte_of c \<le> 57"

definition tolower :: "char \<Rightarrow> char" where
  "tolower c = (if 65 \<le> byte_of c \<and> byte_of c \<le> 90 then char_of (byte_of c + 32) else c)"

definition digits_val :: "nat \<Rightarrow> string \<Rightarrow> nat" where
  "digits_val base ds = foldl (\<lambda>n c. base * n + nat (json_hex c)) 0 ds"

text \<open>The optional exponent part: a letter, an optional sign and at least one digit.\<close>

definition strtod_exponent :: "char \<Rightarrow> string \<Rightarrow> int \<times> string" where
  "strtod_exponent letter s =
     (if tolower (peek s) \<noteq> letter then (0, s)
      else let t = tl s;
               neg = (peek t = CHR ''-'');
               u = (if peek t = CHR ''-'' \<or> peek t = CHR ''+'' then tl t else t);
               ds = takeWhile isdigit u
           in if ds = [] then (0, s)
              else ((if neg then - 1 else 1) * int (digits_val 10 ds), dropWhile isdigit u))"

definition strtod_mantissa ::
  "nat \<Rightarrow> (char \<Rightarrow> bool) \<Rightarrow> string \<Rightarrow> (nat \<times> nat \<times> string) option" where
  \<comment> \<open>the digits as one integer, how many of them are behind the point, the rest\<close>
  "strtod_mantissa base digit s =
     (let ip = takeWhile digit s; r = dropWhile digit s;
          fp = (if peek r = CHR ''.'' then takeWhile digit (tl r) else []);
          r' = (if peek r = CHR ''.'' then dropWhile digit (tl r) else r)
      in if ip = [] \<and> fp = [] then None
         else Some (digits_val base (ip @ fp), length fp, r'))"

definition strtod_hex :: "string \<Rightarrow> (rat \<times> string) option" where
  "strtod_hex s =
     (if peek s = CHR ''0'' \<and> tolower (peek (tl s)) = CHR ''x'' then
        (case strtod_mantissa 16 (\<lambda>c. json_hex c \<ge> 0) (drop 2 s) of
           None \<Rightarrow> None
         | Some (m, k, r) \<Rightarrow>
             let (e, r') = strtod_exponent (CHR ''p'') r
             in Some (of_nat m * pow2 (e - 4 * int k), r'))
      else None)"

definition strtod_decimal :: "string \<Rightarrow> (rat \<times> string) option" where
  "strtod_decimal s =
     (case strtod_mantissa 10 isdigit s of
        None \<Rightarrow> None
      | Some (m, k, r) \<Rightarrow>
          let (e, r') = strtod_exponent (CHR ''e'') r; x = e - int k
          in Some (if x \<ge> 0 then of_nat m * 10 ^ nat x else of_nat m / 10 ^ nat (- x), r'))"

definition strtod_special :: "string \<Rightarrow> (double \<times> string) option" where
  "strtod_special s =
     (if map tolower (take 8 s) = ''infinity'' then Some (Inf False, drop 8 s)
      else if map tolower (take 3 s) = ''inf'' then Some (Inf False, drop 3 s)
      else if map tolower (take 3 s) = ''nan'' then
        (let t = drop 3 s;
             u = dropWhile (\<lambda>c. isdigit c \<or> c = CHR ''_'' \<or>
                                (97 \<le> byte_of (tolower c) \<and> byte_of (tolower c) \<le> 122)) (tl t)
         in if peek t = CHR ''('' \<and> peek u = CHR '')'' then Some (NaN, tl u) else Some (NaN, t))
      else None)"

fun dneg :: "double \<Rightarrow> double" where
  "dneg (Fin q) = Fin (- q)"
| "dneg (Inf m) = Inf (\<not> m)"
| "dneg NaN = NaN"

definition strtod :: "string \<Rightarrow> (double \<times> string) option" where
  \<comment> \<open>None: no conversion, \<open>end == p\<close>\<close>
  "strtod s0 =
     (let s = dropWhile isspace s0;
          neg = (peek s = CHR ''-'');
          u = (if peek s = CHR ''-'' \<or> peek s = CHR ''+'' then tl s else s);
          sgn = (\<lambda>d. if neg then dneg d else d)
      in case strtod_special u of
           Some (d, r) \<Rightarrow> Some (sgn d, r)
         | None \<Rightarrow>
             (case strtod_hex u of
                Some (q, r) \<Rightarrow> Some (sgn (to_double q), r)
              | None \<Rightarrow>
                  (case strtod_decimal u of
                     Some (q, r) \<Rightarrow> Some (sgn (to_double q), r)
                   | None \<Rightarrow> None)))"

definition json_number :: "double parser" where
  "json_number s = strtod (json_ws s)"

definition json_int :: "int parser" where
  "json_int s =
     (case json_number s of
        None \<Rightarrow> None
      | Some (v, r) \<Rightarrow>
          let v1 = (if dless v (Fin 0) then Fin 0 else v);
              v2 = (if dless (Fin (of_int INT_MAX)) v1 then Fin (of_int INT_MAX) else v1)
          in Some (cast_int v2, r))"

definition json_bool :: "bool parser" where
  "json_bool s0 =
     (let s = json_ws s0 in
      case json_lit ''true'' s of
        Some r \<Rightarrow> Some (True, r)
      | None \<Rightarrow>
          (case json_lit ''false'' s of
             Some r \<Rightarrow> Some (False, r)
           | None \<Rightarrow> None))"

section \<open>Progress of the scalar readers\<close>

lemma json_ws_suffix [parser_suffix]: "suffix (json_ws s) s"
  by (simp add: json_ws_def suffix_dropWhile)

lemma json_ws_length: "length (json_ws s) \<le> length s"
  by (simp add: json_ws_suffix suffix_length)

lemma peek_json_ws: "\<not> isspace (peek (json_ws s))"
  unfolding json_ws_def by (induction s) auto

lemma json_ws_idem [simp]: "json_ws (json_ws s) = json_ws s"
  unfolding json_ws_def by (induction s) auto

lemma json_ws_no_space: "\<not> isspace (peek s) \<Longrightarrow> json_ws s = s"
  by (cases s) (auto simp: json_ws_def)

lemma json_lit_Some: "json_lit lit s = Some r \<longleftrightarrow> s = lit @ r"
  by (auto simp: json_lit_def prefix_def)

lemma json_lit_suffix [parser_suffix]: "json_lit lit s = Some r \<Longrightarrow> suffix r s"
  by (auto simp: json_lit_Some suffix_def)

lemma json_u16_suffix [parser_suffix]: "json_u16 s = Some (cp, r) \<Longrightarrow> suffix r s"
  by (auto simp: json_u16_def suffix_drop split: if_splits option.splits)

lemma json_unicode_escape_suffix [parser_suffix]:
  "json_unicode_escape s = Some (cp, r) \<Longrightarrow> suffix r s"
  by (auto simp: json_unicode_escape_def split: if_splits option.splits
           dest!: json_u16_suffix intro: suffix_order.trans)

text \<open>The loop equation, one branch at a time.\<close>

lemma json_string_loop_step:
  "json_string_loop b [] = None"
  "json_string_loop b (DQ # r) = Some (b, r)"
  "c \<noteq> DQ \<Longrightarrow> c \<noteq> BACKSLASH \<Longrightarrow> json_string_loop b (c # r) = json_string_loop (b @ [c]) r"
  "json_simple_escape (peek r) = Some d \<Longrightarrow>
     json_string_loop b (BACKSLASH # r) = json_string_loop (b @ [d]) (tl r)"
  "json_simple_escape (peek r) = None \<Longrightarrow> peek r \<noteq> CHR ''u'' \<Longrightarrow>
     json_string_loop b (BACKSLASH # r) = None"
  "json_simple_escape (peek r) = None \<Longrightarrow> peek r = CHR ''u'' \<Longrightarrow>
     json_string_loop b (BACKSLASH # r) =
       (case json_unicode_escape (BACKSLASH # r) of
          None \<Rightarrow> None | Some (cp, r') \<Rightarrow> json_string_loop (utf8_put b cp) r')"
  by (subst json_string_loop.simps, simp)+

lemma json_string_loop_suffix:
  "json_string_loop b s = Some (x, r) \<Longrightarrow> suffix r s \<and> length r < length s"
proof (induction b s rule: json_string_loop.induct)
  case (1 b s)
  show ?case
  proof (cases s)
    case Nil
    with 1(4) show ?thesis by (simp add: json_string_loop_step)
  next
    case (Cons c t)
    consider (close) "c = DQ" | (plain) "c \<noteq> DQ" "c \<noteq> BACKSLASH"
      | (simple) d where "c = BACKSLASH" "json_simple_escape (peek t) = Some d"
      | (uni) "c = BACKSLASH" "json_simple_escape (peek t) = None"
      by fastforce
    then show ?thesis
    proof cases
      case close
      with 1(4) Cons show ?thesis by (auto simp: json_string_loop_step suffix_Cons)
    next
      case plain
      with 1(1)[OF Cons] 1(4) Cons show ?thesis
        by (auto simp: json_string_loop_step suffix_Cons)
    next
      case simple
      with 1(3)[OF Cons] 1(4) Cons have "suffix r (tl t) \<and> length r < length (tl t)"
        by (auto simp: json_string_loop_step)
      then have "suffix r t" "length r < length t"
        using suffix_tl [of t] by (auto intro: suffix_order.trans)
      with Cons show ?thesis by (auto simp: suffix_Cons)
    next
      case uni
      with 1(4) Cons obtain cp r' where *: "json_unicode_escape s = Some (cp, r')"
        "json_string_loop (utf8_put b cp) r' = Some (x, r)" "peek t = CHR ''u''"
        by (cases "peek t = CHR ''u''") (auto simp: json_string_loop_step split: option.splits)
      from uni * 1(2)[OF Cons] have "suffix r r' \<and> length r < length r'" by auto
      then show ?thesis
        using json_unicode_escape_suffix [OF *(1)] suffix_length [OF json_unicode_escape_suffix [OF *(1)]]
        by (auto intro: suffix_order.trans)
    qed
  qed
qed

lemma json_string_progress: "json_string s = Some (x, r) \<Longrightarrow> suffix r s \<and> length r < length s"
proof -
  assume "json_string s = Some (x, r)"
  then obtain b where "json_string_loop [] (tl (json_ws s)) = Some (b, r)"
    by (auto simp: json_string_def Let_def split: if_splits option.splits)
  then have "suffix r (tl (json_ws s))" "length r < length (tl (json_ws s))"
    by (auto dest: json_string_loop_suffix)
  moreover have "suffix (tl (json_ws s)) s"
    by (simp add: suffix_tl_trans json_ws_suffix)
  ultimately show ?thesis
    by (meson less_le_trans suffix_length suffix_order.trans)
qed

lemmas json_string_suffix [parser_suffix] = json_string_progress [THEN conjunct1]
lemmas json_string_length = json_string_progress [THEN conjunct2]

lemma json_string_cstring [cstring_intro]: "json_string s = Some (x, r) \<Longrightarrow> cstring x"
  by (auto simp: json_string_def Let_def c_str_cstring split: if_splits option.splits)

lemma strtod_exponent_suffix: "strtod_exponent l s = (e, r) \<Longrightarrow> suffix r s"
  by (auto simp: strtod_exponent_def Let_def split: if_splits
           intro: suffix_dropWhile_trans suffix_tl_trans suffix_tl)

lemma takeWhile_suffix_drop: "takeWhile P s \<noteq> [] \<Longrightarrow> length (dropWhile P s) < length s"
  by (cases s) (auto split: if_splits simp: le_imp_less_Suc length_dropWhile_le)

lemma strtod_mantissa_progress:
  "strtod_mantissa base digit s = Some (m, k, r) \<Longrightarrow> suffix r s \<and> length r < length s"
proof -
  assume a: "strtod_mantissa base digit s = Some (m, k, r)"
  let ?r = "dropWhile digit s"
  let ?q = "if peek ?r = CHR ''.'' then dropWhile digit (tl ?r) else ?r"
  from a have r: "r = ?q"
    and ne: "takeWhile digit s \<noteq> [] \<or> peek ?r = CHR ''.''"
    by (auto simp: strtod_mantissa_def Let_def split: if_splits)
  have 1: "suffix ?q ?r"
    by (auto intro: suffix_dropWhile_trans suffix_tl)
  have 2: "suffix ?r s" by (simp add: suffix_dropWhile)
  have "length ?q < length s"
  proof (cases "peek ?r = CHR ''.''")
    case True
    then have "length ?q < length ?r"
      using length_tl_peek [OF True] length_dropWhile_le [of digit "tl ?r"] by simp
    with suffix_length [OF 2] show ?thesis by linarith
  next
    case False
    with ne have "takeWhile digit s \<noteq> []" by simp
    from takeWhile_suffix_drop [OF this] False show ?thesis by simp
  qed
  with 1 2 r show ?thesis by (auto intro: suffix_order.trans)
qed

lemma strtod_hex_progress: "strtod_hex s = Some (q, r) \<Longrightarrow> suffix r s \<and> length r < length s"
  by (auto simp: strtod_hex_def split: if_splits option.splits prod.splits
           dest!: strtod_mantissa_progress strtod_exponent_suffix
           dest: suffix_length intro: suffix_order.trans suffix_drop)

lemma strtod_decimal_progress:
  "strtod_decimal s = Some (q, r) \<Longrightarrow> suffix r s \<and> length r < length s"
  by (auto simp: strtod_decimal_def Let_def split: if_splits option.splits prod.splits
           dest!: strtod_mantissa_progress strtod_exponent_suffix
           dest: suffix_length intro: suffix_order.trans)

lemma map_take_nonempty: "map f (take n s) = c # cs \<Longrightarrow> 0 < n \<and> s \<noteq> []"
  by (cases n; cases s) auto

lemma drop_progress: "s \<noteq> [] \<Longrightarrow> 0 < n \<Longrightarrow> suffix r (drop n s) \<Longrightarrow> suffix r s \<and> length r < length s"
  using suffix_length [of r "drop n s"] suffix_drop [of n s]
  by (cases s) (auto intro: suffix_order.trans)

lemma strtod_special_progress:
  "strtod_special s = Some (d, r) \<Longrightarrow> suffix r s \<and> length r < length s"
  by (rule drop_progress [of s 3 r], insert suffix_drop [of 5 "drop 3 s"])
     (auto simp: strtod_special_def Let_def split: if_splits
           intro: suffix_tl_trans suffix_dropWhile_trans suffix_tl)

lemma strtod_progress: "strtod s0 = Some (d, r) \<Longrightarrow> suffix r s0 \<and> length r < length s0"
proof -
  assume a: "strtod s0 = Some (d, r)"
  let ?s = "dropWhile isspace s0"
  let ?u = "if peek ?s = CHR ''-'' \<or> peek ?s = CHR ''+'' then tl ?s else ?s"
  from a have "suffix r ?u \<and> length r < length ?u"
    by (auto simp: strtod_def Let_def split: if_splits option.splits prod.splits
             dest!: strtod_special_progress strtod_hex_progress strtod_decimal_progress)
  moreover have "suffix ?u s0"
    by (auto simp: suffix_dropWhile intro: suffix_tl_trans)
  ultimately show ?thesis
    by (meson less_le_trans suffix_length suffix_order.trans)
qed

lemma json_number_progress: "json_number s = Some (d, r) \<Longrightarrow> suffix r s \<and> length r < length s"
  unfolding json_number_def
  by (meson strtod_progress json_ws_suffix less_le_trans suffix_length suffix_order.trans)

lemmas json_number_suffix [parser_suffix] = json_number_progress [THEN conjunct1]
lemmas json_number_length = json_number_progress [THEN conjunct2]

lemma json_int_suffix [parser_suffix]: "json_int s = Some (i, r) \<Longrightarrow> suffix r s"
  by (auto simp: json_int_def Let_def split: option.splits dest: json_number_suffix)

lemma json_bool_suffix [parser_suffix]: "json_bool s = Some (i, r) \<Longrightarrow> suffix r s"
  by (auto simp: json_bool_def Let_def split: option.splits
           dest!: json_lit_suffix intro: suffix_order.trans json_ws_suffix)

end
