(* ===== verification/JsonValue.thy ===== *)
theory JsonValue
  imports Json
begin

text \<open>
  The structural part of the JSON reader: skipping a value of any shape, cutting out its raw
  text, minifying it, and the two lenient loops (over the members of an object, over the elements
  of an array) that every request parser of ds4_server.c repeats. A C string has no NUL inside, so
  \<open>**p == 0\<close> is \<open>s = []\<close>.

  Recursive calls carry a test that the pointer has moved. The test is never false: it is what
  makes HOL accept the recursion, and \<open>json_skip_array_loop_eq\<close>, \<open>json_skip_object_loop_eq\<close> and
  the lemmas \<open>members_eq\<close> and \<open>elems_eq\<close> of the two handler locales give the equations without it.
\<close>

section \<open>Skipping a value\<close>

lemma length_json_ws_tl: "peek s = c \<Longrightarrow> c \<noteq> NUL \<Longrightarrow> length (json_ws (tl s)) < length s"
  by (meson json_ws_length le_less_trans length_tl_peek)

function json_skip_value :: "string \<Rightarrow> string option"
  and json_skip_array :: "string \<Rightarrow> string option"
  and json_skip_array_loop :: "string \<Rightarrow> string option"
  and json_skip_object :: "string \<Rightarrow> string option"
  and json_skip_object_loop :: "string \<Rightarrow> string option" where
  "json_skip_value s0 =
     (let s = json_ws s0 in
      if peek s = DQ then map_option snd (json_string s)
      else if peek s = CHR ''{'' then json_skip_object s
      else if peek s = CHR ''['' then json_skip_array s
      else case json_lit ''true'' s of Some r \<Rightarrow> Some r
         | None \<Rightarrow> (case json_lit ''false'' s of Some r \<Rightarrow> Some r
         | None \<Rightarrow> (case json_lit ''null'' s of Some r \<Rightarrow> Some r
         | None \<Rightarrow> map_option snd (json_number s))))"
| "json_skip_array s0 =
     (let s = json_ws s0 in
      if peek s \<noteq> CHR ''['' then None
      else let s1 = json_ws (tl s) in
           if peek s1 = CHR '']'' then Some (tl s1) else json_skip_array_loop s1)"
| "json_skip_array_loop s =
     (case json_skip_value s of
        None \<Rightarrow> None
      | Some s1 \<Rightarrow>
          let s2 = json_ws s1 in
          if peek s2 = CHR '']'' then Some (tl s2)
          else if peek s2 \<noteq> CHR '','' then None
          else if length s2 \<le> length s then json_skip_array_loop (tl s2) else None)"
| "json_skip_object s0 =
     (let s = json_ws s0 in
      if peek s \<noteq> CHR ''{'' then None
      else let s1 = json_ws (tl s) in
           if peek s1 = CHR ''}'' then Some (tl s1) else json_skip_object_loop s1)"
| "json_skip_object_loop s =
     (case json_string s of
        None \<Rightarrow> None
      | Some (key, s1) \<Rightarrow>
          let s2 = json_ws s1 in
          if peek s2 \<noteq> CHR '':'' then None
          else case json_skip_value (tl s2) of
                 None \<Rightarrow> None
               | Some s3 \<Rightarrow>
                   let s4 = json_ws s3 in
                   if peek s4 = CHR ''}'' then Some (tl s4)
                   else if peek s4 \<noteq> CHR '','' then None
                   else if length s4 \<le> length s then json_skip_object_loop (tl s4) else None)"
  by pat_completeness auto

termination
proof (relation "measure (\<lambda>x. case x of
    Inl (Inl s) \<Rightarrow> 4 * length s + 2
  | Inl (Inr s) \<Rightarrow> 4 * length s + 1
  | Inr (Inl s) \<Rightarrow> 4 * length s + 3
  | Inr (Inr (Inl s)) \<Rightarrow> 4 * length s + 1
  | Inr (Inr (Inr s)) \<Rightarrow> 4 * length s + 3)", goal_cases)
  case (3 s0 x)
  then show ?case using json_ws_length [of s0] by simp
next
  case (2 s0 x)
  then show ?case using json_ws_length [of s0] by simp
next
  case (4 s0 x xa)
  then show ?case
    using length_json_ws_tl [of x "CHR ''[''"] json_ws_length [of s0] by simp
next
  case (5 s)
  then show ?case by simp
next
  case (6 s x xa)
  then show ?case using length_tl_peek [of xa "CHR '',''"] by auto
next
  case (7 s0 x xa)
  then show ?case
    using length_json_ws_tl [of x "CHR ''{''"] json_ws_length [of s0] by simp
next
  case (8 s x xa y xb)
  then show ?case
    using json_string_length json_ws_length [of y] length_tl_peek [of xb "CHR '':''"] by force
next
  case (9 s x xa y xb xc xd)
  then show ?case using length_tl_peek [of xd "CHR '',''"] by auto
qed simp

declare json_skip_value.simps [simp del]
declare json_skip_array.simps [simp del]
declare json_skip_array_loop.simps [simp del]
declare json_skip_object.simps [simp del]
declare json_skip_object_loop.simps [simp del]

definition moves :: "string \<Rightarrow> string \<Rightarrow> bool" where
  "moves s r \<longleftrightarrow> suffix r s \<and> length r < length s"

lemma movesI: "suffix r s \<Longrightarrow> length r < length s \<Longrightarrow> moves s r"
  by (simp add: moves_def)

lemma moves_suffix: "moves s r \<Longrightarrow> suffix r s"
  by (simp add: moves_def)

lemma moves_length: "moves s r \<Longrightarrow> length r < length s"
  by (simp add: moves_def)

lemma moves_trans: "moves s r \<Longrightarrow> suffix t r \<Longrightarrow> moves s t"
  by (auto simp: moves_def intro: suffix_order.trans dest: suffix_length)

lemma moves_trans': "suffix r s \<Longrightarrow> moves r t \<Longrightarrow> moves s t"
  by (auto simp: moves_def intro: suffix_order.trans dest: suffix_length)

lemma moves_tl: "peek s = c \<Longrightarrow> c \<noteq> NUL \<Longrightarrow> moves s (tl s)"
  using length_tl_peek [of s c] by (simp add: moves_def suffix_tl)

lemma moves_tl_ne: "s \<noteq> [] \<Longrightarrow> moves s (tl s)"
  by (cases s) (auto simp: moves_def suffix_Cons)

lemma moves_behind: "peek s = c \<Longrightarrow> c \<noteq> NUL \<Longrightarrow> suffix r (json_ws (tl s)) \<Longrightarrow> moves s r"
  by (blast intro: moves_trans moves_tl suffix_order.trans json_ws_suffix)

lemma moves_ws: "moves s t \<Longrightarrow> moves s (json_ws t)"
  by (rule moves_trans [OF _ json_ws_suffix])

lemma moves_ws_le: "moves s t \<Longrightarrow> length (json_ws t) \<le> length s"
  by (drule moves_ws, drule moves_length) simp

lemma moves_ws_tl: "peek (json_ws s) = c \<Longrightarrow> c \<noteq> NUL \<Longrightarrow> moves s (tl (json_ws s))"
  by (rule moves_trans' [OF json_ws_suffix moves_tl])

lemma json_string_moves: "json_string s = Some (x, r) \<Longrightarrow> moves s r"
  by (simp add: moves_def json_string_progress)

lemma json_number_moves: "json_number s = Some (x, r) \<Longrightarrow> moves s r"
  by (simp add: moves_def json_number_progress)

lemma json_lit_moves: "json_lit lit s = Some r \<Longrightarrow> lit \<noteq> [] \<Longrightarrow> moves s r"
  by (auto simp: moves_def json_lit_Some suffix_def)

lemma json_skip_moves:
  "json_skip_value s = Some r \<Longrightarrow> moves s r"
  "json_skip_array s = Some r \<Longrightarrow> moves s r"
  "json_skip_array_loop s = Some r \<Longrightarrow> moves s r"
  "json_skip_object s = Some r \<Longrightarrow> moves s r"
  "json_skip_object_loop s = Some r \<Longrightarrow> moves s r"
proof (induction s and s and s and s and s arbitrary: r and r and r and r and r
    rule: json_skip_value_json_skip_array_json_skip_array_loop_json_skip_object_json_skip_object_loop.induct)
  case (1 s0)
  let ?s = "json_ws s0"
  from 1(3) have "moves ?s r"
    by (auto simp: json_skip_value.simps [of s0] Let_def split: if_splits option.splits
             intro: 1(1)[OF refl] 1(2)[OF refl] json_lit_moves json_string_moves json_number_moves)
  then show ?case by (rule moves_trans' [OF json_ws_suffix])
next
  case (2 s0)
  let ?s = "json_ws s0" and ?s1 = "json_ws (tl (json_ws s0))"
  from 2(2) have br: "peek ?s = CHR ''[''"
    by (auto simp: json_skip_array.simps [of s0] Let_def split: if_splits)
  have eq: "json_skip_array s0 = (if peek ?s1 = CHR '']'' then Some (tl ?s1) else json_skip_array_loop ?s1)"
    by (subst json_skip_array.simps) (simp only: br Let_def simp_thms if_False)
  with 2(2) consider "r = tl ?s1" | "json_skip_array_loop ?s1 = Some r" "peek ?s1 \<noteq> CHR '']''"
    by (cases "peek ?s1 = CHR '']''") simp_all
  then have "suffix r ?s1"
  proof cases
    case 1
    then show ?thesis by (simp add: suffix_tl)
  next
    case 2
    then show ?thesis using "2.IH" [OF refl _ refl] br by (simp add: moves_suffix)
  qed
  moreover have "moves s0 ?s1"
    by (intro moves_ws moves_ws_tl [OF br]) simp
  ultimately show ?case by (rule moves_trans [rotated])
next
  case (3 s)
  then obtain s1 where s1: "json_skip_value s = Some s1" "moves s s1"
    by (auto simp: json_skip_array_loop.simps [of s] split: option.splits)
  then have ws: "moves s (json_ws s1)" by (simp add: moves_ws)
  have eq: "json_skip_array_loop s =
      (if peek (json_ws s1) = CHR '']'' then Some (tl (json_ws s1))
       else if peek (json_ws s1) \<noteq> CHR '','' then None
       else if length (json_ws s1) \<le> length s then json_skip_array_loop (tl (json_ws s1)) else None)"
    by (subst json_skip_array_loop.simps) (simp only: s1(1) option.case Let_def)
  with 3(3) consider "r = tl (json_ws s1)"
    | "json_skip_array_loop (tl (json_ws s1)) = Some r" "peek (json_ws s1) = CHR '',''"
      "length (json_ws s1) \<le> length s"
    by (cases "peek (json_ws s1) = CHR '']''"; cases "peek (json_ws s1) = CHR '',''";
        cases "length (json_ws s1) \<le> length s") simp_all
  then have "suffix r (json_ws s1)"
  proof cases
    case 2
    then have "moves (tl (json_ws s1)) r"
      using "3.IH"(2) [OF s1(1) refl] by simp
    then show ?thesis by (blast intro: suffix_order.trans suffix_tl moves_suffix)
  qed (simp add: suffix_tl)
  with ws show ?case by (rule moves_trans)
next
  case (4 s0)
  let ?s = "json_ws s0" and ?s1 = "json_ws (tl (json_ws s0))"
  from 4(2) have br: "peek ?s = CHR ''{''"
    by (auto simp: json_skip_object.simps [of s0] Let_def split: if_splits)
  have eq: "json_skip_object s0 = (if peek ?s1 = CHR ''}'' then Some (tl ?s1) else json_skip_object_loop ?s1)"
    by (subst json_skip_object.simps) (simp only: br Let_def simp_thms if_False)
  with 4(2) consider "r = tl ?s1" | "json_skip_object_loop ?s1 = Some r" "peek ?s1 \<noteq> CHR ''}''"
    by (cases "peek ?s1 = CHR ''}''") simp_all
  then have "suffix r ?s1"
  proof cases
    case 1
    then show ?thesis by (simp add: suffix_tl)
  next
    case 2
    then show ?thesis using "4.IH" [OF refl _ refl] br by (simp add: moves_suffix)
  qed
  moreover have "moves s0 ?s1"
    by (intro moves_ws moves_ws_tl [OF br]) simp
  ultimately show ?case by (rule moves_trans [rotated])
next
  case (5 s)
  from 5(3) obtain key s1 s3 where s1: "json_string s = Some (key, s1)"
    and col: "peek (json_ws s1) = CHR '':''" and s3: "json_skip_value (tl (json_ws s1)) = Some s3"
    by (auto simp: json_skip_object_loop.simps [of s] Let_def split: if_splits option.splits)
  have "moves (tl (json_ws s1)) s3"
    using "5.IH"(1) [OF s1 refl refl] col s3 by simp
  moreover have "suffix (tl (json_ws s1)) s1"
    by (blast intro: suffix_tl_trans json_ws_suffix)
  ultimately have ws: "moves s (json_ws s3)"
    using json_string_moves [OF s1]
    by (meson json_ws_suffix moves_suffix moves_trans suffix_order.trans)
  have eq: "json_skip_object_loop s =
      (if peek (json_ws s3) = CHR ''}'' then Some (tl (json_ws s3))
       else if peek (json_ws s3) \<noteq> CHR '','' then None
       else if length (json_ws s3) \<le> length s then json_skip_object_loop (tl (json_ws s3)) else None)"
    by (subst json_skip_object_loop.simps)
       (simp only: s1 s3 col option.case prod.case Let_def simp_thms if_False)
  with 5(3) consider "r = tl (json_ws s3)"
    | "json_skip_object_loop (tl (json_ws s3)) = Some r" "peek (json_ws s3) = CHR '',''"
      "length (json_ws s3) \<le> length s"
    by (cases "peek (json_ws s3) = CHR ''}''"; cases "peek (json_ws s3) = CHR '',''";
        cases "length (json_ws s3) \<le> length s") simp_all
  then have "suffix r (json_ws s3)"
  proof cases
    case 2
    then have "moves (tl (json_ws s3)) r"
      using "5.IH"(2) [OF s1 refl refl _ s3 refl] col by simp
    then show ?thesis by (blast intro: suffix_order.trans suffix_tl moves_suffix)
  qed (simp add: suffix_tl)
  with ws show ?case by (rule moves_trans)
qed

lemma json_skip_value_suffix [parser_suffix]: "json_skip_value s = Some r \<Longrightarrow> suffix r s"
  by (simp add: json_skip_moves(1) moves_suffix)

lemma json_skip_array_loop_eq:
  "json_skip_array_loop s =
     (case json_skip_value s of
        None \<Rightarrow> None
      | Some s1 \<Rightarrow>
          let s2 = json_ws s1 in
          if peek s2 = CHR '']'' then Some (tl s2)
          else if peek s2 \<noteq> CHR '','' then None
          else json_skip_array_loop (tl s2))"
  by (subst json_skip_array_loop.simps)
     (auto simp: Let_def split: option.splits
           dest!: json_skip_moves(1) moves_ws_le)

lemma json_skip_object_loop_eq:
  "json_skip_object_loop s =
     (case json_string s of
        None \<Rightarrow> None
      | Some (key, s1) \<Rightarrow>
          let s2 = json_ws s1 in
          if peek s2 \<noteq> CHR '':'' then None
          else case json_skip_value (tl s2) of
                 None \<Rightarrow> None
               | Some s3 \<Rightarrow>
                   let s4 = json_ws s3 in
                   if peek s4 = CHR ''}'' then Some (tl s4)
                   else if peek s4 \<noteq> CHR '','' then None
                   else json_skip_object_loop (tl s4))"
proof -
  have "length (json_ws s3) \<le> length s"
    if "json_string s = Some (key, s1)" "json_skip_value (tl (json_ws s1)) = Some s3" for key s1 s3
    by (meson that json_skip_value_suffix json_string_suffix json_ws_suffix suffix_length
        suffix_order.trans suffix_tl)
  then show ?thesis
    by (subst json_skip_object_loop.simps) (auto simp: Let_def split: option.splits)
qed

end
