(* ===== verification/JsonLoops.thy ===== *)
theory JsonLoops
  imports JsonValue
begin

text \<open>
  Raw values, minification, and the two lenient loops that the request parsers of ds4_server.c
  repeat:
  \<^item> \<open>json_members h a s\<close>: \<open>while (**p && **p != '}') { key; ws; ':'; h; ws; ','?; ws }\<close>
    followed by \<open>if (**p != '}') fail; (*p)++\<close>, where \<open>h key\<close> reads the value of one member and
    updates the state \<open>a\<close>;
  \<^item> \<open>json_elems h a s\<close>: the same over the elements of an array.

  The two locales are the interface of a handler: it only moves the pointer forward (for an
  element: it moves it). Each handler of the parsers is an interpretation, which gives its loop
  the equation of the code and the fact that it only moves forward.
\<close>

section \<open>Raw values and minification\<close>

definition slice :: "string \<Rightarrow> string \<Rightarrow> string" where
  \<comment> \<open>the bytes between two pointers into the same string\<close>
  "slice start r = take (length start - length r) start"

definition json_raw_value :: "string \<Rightarrow> (cstr \<times> string) option" where
  "json_raw_value s0 =
     (let start = json_ws s0 in
      case json_skip_value start of
        None \<Rightarrow> None
      | Some r \<Rightarrow> Some (slice start r, r))"

fun json_minify_loop :: "bool \<Rightarrow> bool \<Rightarrow> string \<Rightarrow> string \<Rightarrow> string" where
  "json_minify_loop in_string escape b [] = b"
| "json_minify_loop in_string escape b (c # s) =
     (if in_string then
        (let b' = b @ [c] in
         if escape then json_minify_loop True False b' s
         else if c = BACKSLASH then json_minify_loop True True b' s
         else if c = DQ then json_minify_loop False False b' s
         else json_minify_loop True False b' s)
      else if c = DQ then json_minify_loop True escape (b @ [c]) s
      else if \<not> isspace c then json_minify_loop False escape (b @ [c]) s
      else json_minify_loop False escape b s)"

definition json_minify_raw_value :: "cstr option \<Rightarrow> cstr" where
  "json_minify_raw_value json =
     (let p = (case json of Some j \<Rightarrow> j | None \<Rightarrow> ''null'');
          start = json_ws p
      in case json_skip_value start of
           None \<Rightarrow> p
         | Some r \<Rightarrow> json_minify_loop False False [] (slice start r))"

section \<open>The member and element loops\<close>

definition json_sep :: "string \<Rightarrow> string" where
  "json_sep s =
     (let s1 = json_ws s; s2 = (if peek s1 = CHR '','' then tl s1 else s1) in json_ws s2)"

lemma json_sep_suffix [parser_suffix]: "suffix (json_sep s) s"
  by (auto simp: json_sep_def Let_def intro: suffix_order.trans [OF json_ws_suffix]
           json_ws_suffix suffix_tl_trans)

lemma json_sep_length: "length (json_sep s) \<le> length s"
  by (rule suffix_length [OF json_sep_suffix])

lemma moves_sep: "moves s t \<Longrightarrow> moves s (json_sep t)"
  by (rule moves_trans [OF _ json_sep_suffix])

function json_members ::
  "(cstr \<Rightarrow> 'a \<Rightarrow> string \<Rightarrow> ('a \<times> string) option) \<Rightarrow> 'a \<Rightarrow> string \<Rightarrow> ('a \<times> string) option" where
  "json_members h a s =
     (if s = [] then None
      else if peek s = CHR ''}'' then Some (a, tl s)
      else case json_string s of
             None \<Rightarrow> None
           | Some (key, s1) \<Rightarrow>
               let s2 = json_ws s1 in
               if peek s2 \<noteq> CHR '':'' then None
               else case h key a (tl s2) of
                      None \<Rightarrow> None
                    | Some (a', s3) \<Rightarrow>
                        if length s3 < length s then json_members h a' (json_sep s3) else None)"
  by pat_completeness auto
termination
  by (relation "measure (\<lambda>(h, a, s). length s)") (auto intro: le_less_trans [OF json_sep_length])

function json_elems ::
  "('a \<Rightarrow> string \<Rightarrow> ('a \<times> string) option) \<Rightarrow> 'a \<Rightarrow> string \<Rightarrow> ('a \<times> string) option" where
  "json_elems h a s =
     (if s = [] then None
      else if peek s = CHR '']'' then Some (a, tl s)
      else case h a s of
             None \<Rightarrow> None
           | Some (a', s1) \<Rightarrow>
               if length s1 < length s then json_elems h a' (json_sep s1) else None)"
  by pat_completeness auto
termination
  by (relation "measure (\<lambda>(h, a, s). length s)") (auto intro: le_less_trans [OF json_sep_length])

declare json_members.simps [simp del]
declare json_elems.simps [simp del]

locale member_handler =
  fixes h :: "cstr \<Rightarrow> 'a \<Rightarrow> string \<Rightarrow> ('a \<times> string) option"
  assumes handler_suffix: "h key a s = Some (a', r) \<Longrightarrow> suffix r s"
begin

lemma handler_shorter:
  assumes "json_string s = Some (key, s1)" and "h key a (tl (json_ws s1)) = Some (a', s3)"
  shows "moves s s3"
proof -
  have "suffix s3 s1"
    by (meson assms(2) handler_suffix json_ws_suffix suffix_order.trans suffix_tl)
  then show ?thesis by (rule moves_trans [OF json_string_moves [OF assms(1)]])
qed

text \<open>The loop without the test that the pointer moved: the loop of the code.\<close>

lemma members_eq:
  "json_members h a s =
     (if s = [] then None
      else if peek s = CHR ''}'' then Some (a, tl s)
      else case json_string s of
             None \<Rightarrow> None
           | Some (key, s1) \<Rightarrow>
               let s2 = json_ws s1 in
               if peek s2 \<noteq> CHR '':'' then None
               else case h key a (tl s2) of
                      None \<Rightarrow> None
                    | Some (a', s3) \<Rightarrow> json_members h a' (json_sep s3))"
  by (subst json_members.simps)
     (auto simp: Let_def split: option.splits dest: handler_shorter moves_length)

lemma members_moves: "json_members h a s = Some (a', r) \<Longrightarrow> moves s r"
proof (induction "length s" arbitrary: a s rule: less_induct)
  case less
  show ?case
  proof (cases "peek s = CHR ''}''")
    case True
    with less.prems show ?thesis
      by (auto simp: json_members.simps [of h a s] moves_tl_ne split: if_splits)
  next
    case False
    with less.prems obtain key s1 b s3 where
      *: "json_string s = Some (key, s1)" "h key a (tl (json_ws s1)) = Some (b, s3)"
      "json_members h b (json_sep s3) = Some (a', r)"
      by (auto simp: members_eq [of a s] Let_def split: if_splits option.splits)
    then have sep: "moves s (json_sep s3)" by (simp add: handler_shorter moves_sep)
    have "moves (json_sep s3) r"
      by (rule less.hyps [OF moves_length [OF sep] *(3)])
    with sep show ?thesis by (blast intro: moves_trans moves_suffix)
  qed
qed

lemma members_suffix: "json_members h a s = Some (a', r) \<Longrightarrow> suffix r s"
  by (rule moves_suffix [OF members_moves])

text \<open>An invariant of the state that every member keeps holds at the end of the object.\<close>

lemma members_invariant:
  assumes keep: "\<And>key b t b' t'. I b \<Longrightarrow> cstring t \<Longrightarrow> cstring key \<Longrightarrow> h key b t = Some (b', t') \<Longrightarrow> I b'"
  shows "json_members h a s = Some (a', r) \<Longrightarrow> I a \<Longrightarrow> cstring s \<Longrightarrow> I a'"
proof (induction "length s" arbitrary: a s rule: less_induct)
  case less
  show ?case
  proof (cases "peek s = CHR ''}''")
    case True
    with less.prems show ?thesis
      by (simp add: json_members.simps [of h a s] split: if_splits)
  next
    case False
    with less.prems(1) obtain key s1 b s3 where
      *: "json_string s = Some (key, s1)" "h key a (tl (json_ws s1)) = Some (b, s3)"
      "json_members h b (json_sep s3) = Some (a', r)"
      by (auto simp: members_eq [of a s] Let_def split: if_splits option.splits)
    then have sep: "moves s (json_sep s3)" by (simp add: handler_shorter moves_sep)
    have "cstring (tl (json_ws s1))"
      by (meson * cstring_suffix json_string_suffix json_ws_suffix less.prems(3) suffix_tl_trans
          suffix_order.trans)
    with * less.prems(2) have "I b" by (blast intro: keep json_string_cstring)
    moreover have "cstring (json_sep s3)"
      using sep less.prems(3) by (blast intro: cstring_suffix moves_suffix)
    ultimately show ?thesis using less.hyps [OF moves_length [OF sep] *(3)] by blast
  qed
qed

end

locale elem_handler =
  fixes h :: "'a \<Rightarrow> string \<Rightarrow> ('a \<times> string) option"
  assumes handler_moves: "h a s = Some (a', r) \<Longrightarrow> moves s r"
begin

lemma elems_eq:
  "json_elems h a s =
     (if s = [] then None
      else if peek s = CHR '']'' then Some (a, tl s)
      else case h a s of
             None \<Rightarrow> None
           | Some (a', s1) \<Rightarrow> json_elems h a' (json_sep s1))"
  by (subst json_elems.simps)
     (auto simp: Let_def split: option.splits dest: handler_moves moves_length)

lemma elems_moves: "json_elems h a s = Some (a', r) \<Longrightarrow> moves s r"
proof (induction "length s" arbitrary: a s rule: less_induct)
  case less
  show ?case
  proof (cases "peek s = CHR '']''")
    case True
    with less.prems show ?thesis
      by (auto simp: json_elems.simps [of h a s] moves_tl_ne split: if_splits)
  next
    case False
    with less.prems obtain b s1 where
      *: "h a s = Some (b, s1)" "json_elems h b (json_sep s1) = Some (a', r)"
      by (auto simp: elems_eq [of a s] Let_def split: if_splits option.splits)
    then have sep: "moves s (json_sep s1)" by (simp add: handler_moves moves_sep)
    have "moves (json_sep s1) r"
      by (rule less.hyps [OF moves_length [OF sep] *(2)])
    with sep show ?thesis by (blast intro: moves_trans moves_suffix)
  qed
qed

lemma elems_suffix: "json_elems h a s = Some (a', r) \<Longrightarrow> suffix r s"
  by (rule moves_suffix [OF elems_moves])

lemma elems_invariant:
  assumes keep: "\<And>b t b' t'. I b \<Longrightarrow> cstring t \<Longrightarrow> h b t = Some (b', t') \<Longrightarrow> I b'"
  shows "json_elems h a s = Some (a', r) \<Longrightarrow> I a \<Longrightarrow> cstring s \<Longrightarrow> I a'"
proof (induction "length s" arbitrary: a s rule: less_induct)
  case less
  show ?case
  proof (cases "peek s = CHR '']''")
    case True
    with less.prems show ?thesis
      by (simp add: json_elems.simps [of h a s] split: if_splits)
  next
    case False
    with less.prems(1) obtain b s1 where
      *: "h a s = Some (b, s1)" "json_elems h b (json_sep s1) = Some (a', r)"
      by (auto simp: elems_eq [of a s] Let_def split: if_splits option.splits)
    then have sep: "moves s (json_sep s1)" by (simp add: handler_moves moves_sep)
    from * less.prems have "I b" by (blast intro: keep)
    moreover have "cstring (json_sep s1)"
      using sep less.prems(3) by (blast intro: cstring_suffix moves_suffix)
    ultimately show ?thesis using less.hyps [OF moves_length [OF sep] *(2)] by blast
  qed
qed

end

section \<open>Raw values: what is handed out\<close>

lemma slice_append: "suffix r s \<Longrightarrow> slice s r @ r = s"
  by (auto simp: slice_def suffix_def)

lemma slice_suffix_append [simp]: "slice (p @ r) r = p"
  by (simp add: slice_def)

lemma json_raw_value_suffix [parser_suffix]: "json_raw_value s = Some (v, r) \<Longrightarrow> suffix r s"
  by (auto simp: json_raw_value_def Let_def split: option.splits
           dest!: json_skip_value_suffix intro: suffix_order.trans json_ws_suffix)

lemma json_raw_value_moves: "json_raw_value s = Some (v, r) \<Longrightarrow> moves s r"
  by (auto simp: json_raw_value_def Let_def split: option.splits
           dest!: json_skip_moves(1) intro: moves_trans' [OF json_ws_suffix])

lemma json_raw_value_concat: "json_raw_value s = Some (v, r) \<Longrightarrow> json_ws s = v @ r"
  by (auto simp: json_raw_value_def Let_def slice_append split: option.splits
           dest!: json_skip_value_suffix)

lemma json_raw_value_cstring [cstring_intro]:
  "json_raw_value s = Some (v, r) \<Longrightarrow> cstring s \<Longrightarrow> cstring v"
  by (metis cstring_simps(3) cstring_suffix json_raw_value_concat json_ws_suffix)

section \<open>Text content\<close>

text \<open>\<open>json_content\<close>: a string, or an array of strings and of objects whose \<open>text\<close> members are
  concatenated; every other value counts as empty text.\<close>

definition json_content_member :: "cstr \<Rightarrow> string \<Rightarrow> string \<Rightarrow> (string \<times> string) option" where
  "json_content_member key b s =
     (if key = ''text'' then
        (case json_string s of None \<Rightarrow> None | Some (t, r) \<Rightarrow> Some (b @ t, r))
      else case json_skip_value s of None \<Rightarrow> None | Some r \<Rightarrow> Some (b, r))"

definition json_content_elem :: "string \<Rightarrow> string \<Rightarrow> (string \<times> string) option" where
  "json_content_elem b s =
     (if peek s = DQ then
        (case json_string s of None \<Rightarrow> None | Some (t, r) \<Rightarrow> Some (b @ t, r))
      else if peek s = CHR ''{'' then json_members json_content_member b (json_ws (tl s))
      else case json_skip_value s of None \<Rightarrow> None | Some r \<Rightarrow> Some (b, r))"

definition json_content :: "cstr parser" where
  "json_content s0 =
     (let s = json_ws s0 in
      if peek s = DQ then json_string s
      else case json_lit ''null'' s of
             Some r \<Rightarrow> Some ([], r)
           | None \<Rightarrow>
               if peek s \<noteq> CHR ''['' then
                 (case json_skip_value s of None \<Rightarrow> None | Some r \<Rightarrow> Some ([], r))
               else (case json_elems json_content_elem [] (json_ws (tl s)) of
                       None \<Rightarrow> None
                     | Some (b, r) \<Rightarrow> Some (c_str b, r)))"

interpretation content_member: member_handler json_content_member
  by unfold_locales
     (auto simp: json_content_member_def split: if_splits option.splits intro: parser_suffix)

interpretation content_elem: elem_handler json_content_elem
proof
  fix a s a' r
  assume "json_content_elem a s = Some (a', r)"
  then show "moves s r"
    by (auto simp: json_content_elem_def split: if_splits option.splits
             intro: json_string_moves json_skip_moves(1) moves_behind content_member.members_suffix)
qed

end
