(* ===== verification/Controls.thy ===== *)
theory Controls
  imports JsonLoops
begin

text \<open>
  Request controls of ds4_server.c that do not depend on messages: thinking modes (with the
  mode functions of ds4.c), stop sequences, stream options, and the two rules that decide how much
  generated text may be streamed: \<open>stop_list_stream_safe_len\<close> holds back what may become a stop
  sequence, \<open>utf8_stream_safe_len\<close> holds back an incomplete UTF-8 character.

  A \<open>stop_list\<close> is the list of its strings and the recorded maximal length; the capacity of the C
  array is a matter of allocation only.
\<close>

section \<open>Thinking modes\<close>

datatype think_mode = THINK_NONE | THINK_HIGH | THINK_MAX

definition ds4_think_mode_enabled :: "think_mode \<Rightarrow> bool" where
  "ds4_think_mode_enabled mode \<longleftrightarrow> mode = THINK_HIGH \<or> mode = THINK_MAX"

definition DS4_THINK_MAX_MIN_CONTEXT :: u32 where
  "DS4_THINK_MAX_MIN_CONTEXT = 393216"

definition ds4_think_mode_for_context :: "think_mode \<Rightarrow> int \<Rightarrow> think_mode" where
  "ds4_think_mode_for_context mode ctx_size =
     (if mode = THINK_MAX \<and>
         word_of_int (if ctx_size > 0 then ctx_size else 0) < DS4_THINK_MAX_MIN_CONTEXT
      then THINK_HIGH else mode)"

definition think_mode_from_enabled :: "bool \<Rightarrow> think_mode \<Rightarrow> think_mode" where
  "think_mode_from_enabled enabled effort =
     (if \<not> enabled then THINK_NONE
      else if effort = THINK_MAX then THINK_MAX else THINK_HIGH)"

definition parse_reasoning_effort_name :: "cstr \<Rightarrow> think_mode option" where
  "parse_reasoning_effort_name s =
     (if s = ''max'' then Some THINK_MAX
      else if s = ''xhigh'' \<or> s = ''high'' \<or> s = ''medium'' \<or> s = ''low'' then Some THINK_HIGH
      else None)"

text \<open>The parsers below take the current value of the variable they may overwrite.\<close>

definition parse_reasoning_effort_value :: "think_mode \<Rightarrow> think_mode parser" where
  "parse_reasoning_effort_value out s0 =
     (let s = json_ws s0 in
      case json_lit ''null'' s of
        Some r \<Rightarrow> Some (out, r)
      | None \<Rightarrow>
          (case json_string s of
             None \<Rightarrow> None
           | Some (effort, r) \<Rightarrow>
               (case parse_reasoning_effort_name effort of
                  None \<Rightarrow> None
                | Some m \<Rightarrow> Some (m, r))))"

definition skip_member :: "'a \<Rightarrow> 'a parser" where
  \<comment> \<open>the final \<open>else if (!json_skip_value(p)) fail\<close> of the member loops\<close>
  "skip_member a s = (case json_skip_value s of None \<Rightarrow> None | Some r \<Rightarrow> Some (a, r))"

definition thinking_member :: "cstr \<Rightarrow> bool \<Rightarrow> bool parser" where
  "thinking_member key enabled s =
     (if key = ''type'' then
        (case json_string s of
           None \<Rightarrow> None
         | Some (type, r) \<Rightarrow>
             Some (if type = ''enabled'' then True
                   else if type = ''disabled'' then False else enabled, r))
      else skip_member enabled s)"

definition parse_thinking_control_value :: "bool \<Rightarrow> bool parser" where
  "parse_thinking_control_value enabled s0 =
     (let s = json_ws s0 in
      case json_lit ''null'' s of
        Some r \<Rightarrow> Some (enabled, r)
      | None \<Rightarrow>
          if peek s = CHR ''t'' \<or> peek s = CHR ''f'' then json_bool s
          else if peek s \<noteq> CHR ''{'' then skip_member enabled s
          else json_members thinking_member enabled (json_ws (tl s)))"

definition effort_member :: "cstr \<Rightarrow> think_mode \<Rightarrow> think_mode parser" where
  "effort_member key effort s =
     (if key = ''effort'' then parse_reasoning_effort_value effort s
      else skip_member effort s)"

definition parse_output_config_effort :: "think_mode \<Rightarrow> think_mode parser" where
  "parse_output_config_effort effort s0 =
     (let s = json_ws s0 in
      case json_lit ''null'' s of
        Some r \<Rightarrow> Some (effort, r)
      | None \<Rightarrow>
          if peek s \<noteq> CHR ''{'' then skip_member effort s
          else json_members effort_member effort (json_ws (tl s)))"

definition model_alias_disables_thinking :: "cstr \<Rightarrow> bool" where
  "model_alias_disables_thinking model \<longleftrightarrow> model = ''deepseek-chat''"

definition model_alias_enables_thinking :: "cstr \<Rightarrow> bool" where
  "model_alias_enables_thinking model \<longleftrightarrow> model = ''deepseek-reasoner''"

definition stream_options_member :: "cstr \<Rightarrow> bool \<Rightarrow> bool parser" where
  "stream_options_member key include_usage s =
     (if key = ''include_usage'' then json_bool s else skip_member include_usage s)"

definition parse_stream_options :: "bool \<Rightarrow> bool parser" where
  "parse_stream_options include_usage s0 =
     (let s = json_ws s0 in
      if peek s \<noteq> CHR ''{'' then skip_member include_usage s
      else json_members stream_options_member include_usage (json_ws (tl s)))"

section \<open>Stop sequences\<close>

record stop_list =
  stop_v :: "cstr list"
  max_len :: nat

definition stop_list_clear :: "stop_list \<Rightarrow> stop_list" where
  "stop_list_clear stops = stops\<lparr>stop_v := [], max_len := 0\<rparr>"

definition stop_list_push :: "stop_list \<Rightarrow> cstr \<Rightarrow> stop_list" where
  "stop_list_push stops s =
     (if s = [] then stops
      else stops\<lparr>stop_v := stop_v stops @ [s],
                 max_len := (if length s > max_len stops then length s else max_len stops)\<rparr>)"

definition parse_stop_elem :: "stop_list \<Rightarrow> stop_list parser" where
  "parse_stop_elem out s =
     (if peek s = DQ then
        (case json_string s of None \<Rightarrow> None | Some (x, r) \<Rightarrow> Some (stop_list_push out x, r))
      else skip_member out s)"

definition parse_stop :: "stop_list \<Rightarrow> stop_list parser" where
  "parse_stop out0 s0 =
     (let s = json_ws s0; out = stop_list_clear out0 in
      if peek s = DQ then
        (case json_string s of None \<Rightarrow> None | Some (x, r) \<Rightarrow> Some (stop_list_push out x, r))
      else if peek s \<noteq> CHR ''['' then skip_member out s
      else json_elems parse_stop_elem out (json_ws (tl s)))"

fun stop_list_find_loop ::
  "cstr list \<Rightarrow> string \<Rightarrow> nat \<Rightarrow> (nat \<times> nat) option \<Rightarrow> (nat \<times> nat) option" where
  "stop_list_find_loop [] text from best = best"
| "stop_list_find_loop (v # vs) text from best =
     (case strstr (drop from text) v of
        None \<Rightarrow> stop_list_find_loop vs text from best
      | Some i \<Rightarrow>
          let ppos = from + i; plen = length v in
          stop_list_find_loop vs text from
            (case best of
               None \<Rightarrow> Some (ppos, plen)
             | Some (best_pos, best_len) \<Rightarrow>
                 if ppos < best_pos then Some (ppos, plen) else Some (best_pos, best_len)))"

definition stop_list_find_from :: "stop_list \<Rightarrow> string \<Rightarrow> nat \<Rightarrow> (nat \<times> nat) option" where
  "stop_list_find_from stops text from =
     (if stop_v stops = [] then None
      else stop_list_find_loop (stop_v stops) text from None)"

definition stop_list_stream_safe_len :: "stop_list \<Rightarrow> nat \<Rightarrow> nat" where
  "stop_list_stream_safe_len stops text_len =
     (if stop_v stops = [] \<or> max_len stops \<le> 1 then text_len
      else let hold = max_len stops - 1 in
           if text_len > hold then text_len - hold else 0)"

section \<open>UTF-8 boundaries\<close>

definition utf8_expected_len :: "char \<Rightarrow> nat" where
  "utf8_expected_len c =
     (let b = byte_of c in
      if b < 0x80 then 1
      else if b \<ge> 0xc2 \<and> b \<le> 0xdf then 2
      else if b \<ge> 0xe0 \<and> b \<le> 0xef then 3
      else if b \<ge> 0xf0 \<and> b \<le> 0xf4 then 4
      else 1)"

definition is_cont :: "char \<Rightarrow> bool" where
  "is_cont c \<longleftrightarrow> (word_of_nat (byte_of c) :: u8) AND 0xc0 = 0x80"

function utf8_back :: "string \<Rightarrow> nat \<Rightarrow> nat \<Rightarrow> nat \<Rightarrow> nat" where
  "utf8_back s start p cont =
     (if p > start \<and> cont < 4 \<and> is_cont (s ! (p - 1))
      then utf8_back s start (p - 1) (cont + 1) else p)"
  by pat_completeness auto
termination
  by (relation "measure (\<lambda>(s, start, p, cont). p)") auto

declare utf8_back.simps [simp del]

definition utf8_stream_safe_len :: "string \<Rightarrow> nat \<Rightarrow> nat \<Rightarrow> bool \<Rightarrow> nat" where
  "utf8_stream_safe_len s start limit final =
     (if final \<or> limit \<le> start then limit
      else let p = utf8_back s start limit 0 in
           if p = limit then
             (if utf8_expected_len (s ! (limit - 1)) > 1 then limit - 1 else limit)
           else if p = start \<and> is_cont (s ! p) then start
           else let lead = p - 1; need = utf8_expected_len (s ! lead) in
                if limit - lead < need then lead else limit)"

section \<open>The handlers of the control parsers\<close>

lemma skip_member_suffix [parser_suffix]: "skip_member a s = Some (a', r) \<Longrightarrow> suffix r s"
  by (auto simp: skip_member_def split: option.splits dest: json_skip_value_suffix)

lemma skip_member_moves: "skip_member a s = Some (a', r) \<Longrightarrow> moves s r"
  by (auto simp: skip_member_def split: option.splits dest: json_skip_moves(1))

lemma skip_member_same: "skip_member a s = Some (a', r) \<Longrightarrow> a' = a"
  by (auto simp: skip_member_def split: option.splits)

lemma parse_reasoning_effort_value_suffix [parser_suffix]:
  "parse_reasoning_effort_value out s = Some (m, r) \<Longrightarrow> suffix r s"
  by (auto simp: parse_reasoning_effort_value_def Let_def split: option.splits
           dest!: json_lit_suffix json_string_suffix
           intro: suffix_order.trans json_ws_suffix)

interpretation thinking: member_handler thinking_member
  by unfold_locales
     (auto simp: thinking_member_def split: if_splits option.splits
           intro: json_string_suffix skip_member_suffix)

interpretation effort: member_handler effort_member
  by unfold_locales
     (auto simp: effort_member_def split: if_splits
           intro: parse_reasoning_effort_value_suffix skip_member_suffix)

interpretation stream_options: member_handler stream_options_member
  by unfold_locales
     (auto simp: stream_options_member_def split: if_splits
           intro: json_bool_suffix skip_member_suffix)

interpretation stop_elem: elem_handler parse_stop_elem
  by unfold_locales
     (auto simp: parse_stop_elem_def split: if_splits option.splits
           intro: json_string_moves skip_member_moves)

lemma behind_suffix: "suffix r (json_ws (tl (json_ws s))) \<Longrightarrow> suffix r s"
  by (meson json_ws_suffix suffix_order.trans suffix_tl_trans)

lemma ws_suffix_trans: "suffix r (json_ws s) \<Longrightarrow> suffix r s"
  by (meson json_ws_suffix suffix_order.trans)

lemma parse_thinking_control_value_suffix [parser_suffix]:
  "parse_thinking_control_value e s = Some (e', r) \<Longrightarrow> suffix r s"
  by (auto simp: parse_thinking_control_value_def Let_def split: option.splits if_splits
           intro: ws_suffix_trans behind_suffix json_lit_suffix json_bool_suffix
             skip_member_suffix thinking.members_suffix)

lemma parse_output_config_effort_suffix [parser_suffix]:
  "parse_output_config_effort e s = Some (e', r) \<Longrightarrow> suffix r s"
  by (auto simp: parse_output_config_effort_def Let_def split: option.splits if_splits
           intro: ws_suffix_trans behind_suffix json_lit_suffix
             skip_member_suffix effort.members_suffix)

lemma parse_stream_options_suffix [parser_suffix]:
  "parse_stream_options e s = Some (e', r) \<Longrightarrow> suffix r s"
  by (auto simp: parse_stream_options_def Let_def split: option.splits if_splits
           intro: ws_suffix_trans behind_suffix skip_member_suffix stream_options.members_suffix)

lemma parse_stop_suffix [parser_suffix]: "parse_stop e s = Some (e', r) \<Longrightarrow> suffix r s"
  by (auto simp: parse_stop_def Let_def split: option.splits if_splits
           intro: ws_suffix_trans behind_suffix skip_member_suffix stop_elem.elems_suffix
             json_string_suffix)

section \<open>Stop lists are well formed\<close>

definition stop_wf :: "stop_list \<Rightarrow> bool" where
  "stop_wf stops \<longleftrightarrow>
     (\<forall>v \<in> set (stop_v stops). v \<noteq> [] \<and> length v \<le> max_len stops)"

lemma stop_wf_clear [simp]: "stop_wf (stop_list_clear s)"
  by (simp add: stop_wf_def stop_list_clear_def)

lemma stop_wf_push: "stop_wf stops \<Longrightarrow> stop_wf (stop_list_push stops s)"
  by (fastforce simp: stop_wf_def stop_list_push_def)

lemma parse_stop_elem_wf:
  "parse_stop_elem out s = Some (out', r) \<Longrightarrow> stop_wf out \<Longrightarrow> stop_wf out'"
  by (auto simp: parse_stop_elem_def split: if_splits option.splits
           dest: skip_member_same intro: stop_wf_push)

lemma parse_stop_wf: "cstring s \<Longrightarrow> parse_stop out s = Some (out', r) \<Longrightarrow> stop_wf out'"
proof -
  assume cs: "cstring s" and a: "parse_stop out s = Some (out', r)"
  have cs': "cstring (json_ws (tl (json_ws s)))"
    using cs by (rule cstring_suffix [rotated]) (rule behind_suffix, simp)
  have "stop_wf out'" if "json_elems parse_stop_elem (stop_list_clear out) (json_ws (tl (json_ws s))) = Some (out', r)"
    by (rule stop_elem.elems_invariant [where I = stop_wf, OF _ that _ cs'])
       (auto intro: parse_stop_elem_wf)
  with a show ?thesis
    by (auto simp: parse_stop_def Let_def split: if_splits option.splits
             dest: skip_member_same intro: stop_wf_push)
qed

section \<open>The earliest stop sequence\<close>

definition stop_occurs :: "cstr list \<Rightarrow> string \<Rightarrow> nat \<Rightarrow> nat \<Rightarrow> nat \<Rightarrow> bool" where
  \<comment> \<open>some sequence of length \<open>n\<close> occurs in the text at \<open>pos \<ge> from\<close>\<close>
  "stop_occurs vs text from pos n \<longleftrightarrow>
     from \<le> pos \<and> (\<exists>v \<in> set vs. length v = n \<and> occurs_at text v pos)"

definition best_stop :: "cstr list \<Rightarrow> string \<Rightarrow> nat \<Rightarrow> (nat \<times> nat) option \<Rightarrow> bool" where
  "best_stop vs text from best =
     (case best of
        None \<Rightarrow> (\<forall>pos n. \<not> stop_occurs vs text from pos n)
      | Some (pos, n) \<Rightarrow> stop_occurs vs text from pos n \<and>
          (\<forall>pos' n'. stop_occurs vs text from pos' n' \<longrightarrow> pos \<le> pos'))"

lemma occurs_at_drop:
  "from \<le> length text \<Longrightarrow> occurs_at (drop from text) v i \<longleftrightarrow> occurs_at text v (from + i)"
  by (auto simp: occurs_at_def add.commute)

lemma stop_occurs_Cons:
  "stop_occurs (v # vs) text from pos n \<longleftrightarrow>
     stop_occurs vs text from pos n \<or> from \<le> pos \<and> length v = n \<and> occurs_at text v pos"
  by (auto simp: stop_occurs_def)

lemma stop_occurs_append:
  "stop_occurs (us @ vs) text from pos n \<longleftrightarrow>
     stop_occurs us text from pos n \<or> stop_occurs vs text from pos n"
  by (auto simp: stop_occurs_def)

lemma best_stop_step:
  assumes best: "best_stop us text from best" and le: "from \<le> length text"
  shows "best_stop (us @ [v]) text from
     (case strstr (drop from text) v of
        None \<Rightarrow> best
      | Some i \<Rightarrow>
          (case best of
             None \<Rightarrow> Some (from + i, length v)
           | Some (bp, bl) \<Rightarrow> if from + i < bp then Some (from + i, length v) else Some (bp, bl)))"
proof (cases "strstr (drop from text) v")
  case None
  then have "\<not> occurs_at text v pos" if "from \<le> pos" for pos
    using strstr_None [OF None, of "pos - from"] that le by (simp add: occurs_at_drop)
  with None best show ?thesis
    by (auto simp: best_stop_def stop_occurs_append stop_occurs_def split: option.splits)
next
  case (Some i)
  have at: "occurs_at text v (from + i)"
    using strstr_Some [OF Some] le by (simp add: occurs_at_drop)
  have first: "from + i \<le> pos" if "from \<le> pos" "occurs_at text v pos" for pos
    using strstr_first [OF Some, of "pos - from"] that le by (simp add: occurs_at_drop)
  show ?thesis
  proof (cases best)
    case None
    with best Some at first show ?thesis
      by (auto simp: best_stop_def stop_occurs_append stop_occurs_def)
  next
    case (Some b)
    obtain bp bl where b: "b = (bp, bl)" by (cases b)
    have old: "stop_occurs us text from bp bl"
      and least: "\<And>pos' n'. stop_occurs us text from pos' n' \<Longrightarrow> bp \<le> pos'"
      using best Some b by (auto simp: best_stop_def)
    have new: "stop_occurs [v] text from pos' n' \<longleftrightarrow> from \<le> pos' \<and> length v = n' \<and> occurs_at text v pos'"
      for pos' n' by (simp add: stop_occurs_def)
    show ?thesis
    proof (cases "from + i < bp")
      case True
      then show ?thesis
        using Some b \<open>strstr _ _ = Some i\<close> at least first
        by (fastforce simp: best_stop_def stop_occurs_append new)
    next
      case False
      then show ?thesis
        using Some b \<open>strstr _ _ = Some i\<close> old least first
        by (fastforce simp: best_stop_def stop_occurs_append new)
    qed
  qed
qed

lemma stop_list_find_loop_best:
  "best_stop us text from best \<Longrightarrow> from \<le> length text \<Longrightarrow>
     best_stop (us @ vs) text from (stop_list_find_loop vs text from best)"
proof (induction vs arbitrary: us best)
  case (Cons v vs)
  from Cons.IH [OF best_stop_step [OF Cons.prems, of v] Cons.prems(2)]
  show ?case by (cases "strstr (drop from text) v") (simp_all add: Let_def)
qed simp

lemma stop_list_find_best:
  "from \<le> length text \<Longrightarrow>
     best_stop (stop_v stops) text from (stop_list_find_from stops text from)"
  using stop_list_find_loop_best [of "[]" "text" "from" None "stop_v stops"]
  by (auto simp: stop_list_find_from_def best_stop_def stop_occurs_def)

section \<open>Streaming never passes the start of a stop sequence\<close>

text \<open>
  C29. What \<open>stop_list_stream_safe_len\<close> releases of a text without a stop sequence stays before
  every stop sequence that a continuation of the text may complete: the server never sends a byte
  of a stop sequence to the client, however generation goes on.
\<close>

theorem stop_stream_safe:
  assumes wf: "stop_wf stops" and le: "from \<le> length text"
    and no_hit: "stop_list_find_from stops text from = None"
    and hit: "stop_list_find_from stops (text @ later) from = Some (pos, n)"
  shows "stop_list_stream_safe_len stops (length text) \<le> pos"
proof -
  have "best_stop (stop_v stops) (text @ later) from (Some (pos, n))"
    using stop_list_find_best [of "from" "text @ later" stops] hit le by simp
  then obtain v where v: "v \<in> set (stop_v stops)" "occurs_at (text @ later) v pos" "from \<le> pos"
    by (auto simp: best_stop_def stop_occurs_def)
  have "\<not> occurs_at text v pos"
    using stop_list_find_best [OF le, of stops] no_hit v
    by (auto simp: best_stop_def stop_occurs_def)
  with v(2) have "length text < pos + length v"
    by (meson leI occurs_at_append)
  moreover from wf v have "length v \<le> max_len stops" "v \<noteq> []"
    by (auto simp: stop_wf_def)
  moreover from v(1) have "stop_v stops \<noteq> []" by auto
  ultimately show ?thesis
    by (cases v) (auto simp: stop_list_stream_safe_len_def Let_def)
qed

theorem stop_stream_safe_witness:
  "\<exists>stops pos n.
     stop_list_find_from stops ''ab EN'' 0 = None \<and>
     stop_list_find_from stops (''ab EN'' @ ''D.'') 0 = Some (pos, n) \<and>
     stop_list_stream_safe_len stops (length ''ab EN'') \<le> pos"
proof -
  let ?stops = "stop_list_push \<lparr>stop_v = [], max_len = 0\<rparr> ''END''"
  have wf: "stop_wf ?stops" by code_simp
  have le: "0 \<le> length ''ab EN''" by simp
  have no: "stop_list_find_from ?stops ''ab EN'' 0 = None" by code_simp
  have hit: "stop_list_find_from ?stops (''ab EN'' @ ''D.'') 0 = Some (3, 3)" by code_simp
  from stop_stream_safe [OF wf le no hit] no hit show ?thesis by blast
qed

section \<open>Streaming never cuts a UTF-8 character\<close>

text \<open>The abstract view of a text: a sequence of units, each a lead byte followed by exactly the
  continuation bytes it announces. A byte that announces nothing is a unit of its own.\<close>

fun utf8_text :: "string \<Rightarrow> bool" where
  "utf8_text [] = True"
| "utf8_text (c # r) =
     (\<not> is_cont c \<and> utf8_expected_len c - 1 \<le> length r \<and>
      list_all is_cont (take (utf8_expected_len c - 1) r) \<and>
      utf8_text (drop (utf8_expected_len c - 1) r))"

lemma utf8_expected_len_bounds: "1 \<le> utf8_expected_len c \<and> utf8_expected_len c \<le> 4"
  by (auto simp: utf8_expected_len_def Let_def)

text \<open>A window into a text is a text followed by the beginning of one unit.\<close>

lemma utf8_text_window:
  "utf8_text (w @ later) \<Longrightarrow>
     \<exists>u t. w = u @ t \<and> utf8_text u \<and>
       (t = [] \<or> (\<exists>c cs. t = c # cs \<and> \<not> is_cont c \<and> list_all is_cont cs \<and>
                    length t < utf8_expected_len c))"
proof (induction w rule: length_induct)
  case (1 w)
  show ?case
  proof (cases w)
    case (Cons c r)
    let ?n = "utf8_expected_len c - 1"
    from 1(2) Cons have c: "\<not> is_cont c" "list_all is_cont (take ?n (r @ later))"
      "utf8_text (drop ?n (r @ later))" by auto
    show ?thesis
    proof (cases "length r < ?n")
      case True
      with c have "list_all is_cont r" "length (c # r) < utf8_expected_len c" by auto
      with c Cons show ?thesis
        by (intro exI [of _ "[]"] exI [of _ w]) auto
    next
      case False
      with c have "utf8_text (drop ?n r @ later)" by simp
      moreover have "length (drop ?n r) < length w" using Cons by simp
      ultimately obtain u t where ut: "drop ?n r = u @ t" "utf8_text u"
        "t = [] \<or> (\<exists>c cs. t = c # cs \<and> \<not> is_cont c \<and> list_all is_cont cs \<and>
           length t < utf8_expected_len c)"
        using 1(1) by blast
      let ?u = "c # take ?n r @ u"
      have "w = ?u @ t" using Cons ut(1) by (metis append_Cons append_assoc append_take_drop_id)
      moreover have "utf8_text ?u" using c ut(2) False by (simp add: not_less)
      ultimately show ?thesis using ut(3) by blast
    qed
  qed simp
qed

lemma utf8_text_last_unit:
  "utf8_text u \<Longrightarrow> u \<noteq> [] \<Longrightarrow>
     \<exists>u' c cs. u = u' @ c # cs \<and> utf8_text u' \<and> \<not> is_cont c \<and> list_all is_cont cs \<and>
       length (c # cs) = utf8_expected_len c"
proof (induction u rule: length_induct)
  case (1 u)
  then obtain c r where u: "u = c # r" by (cases u) auto
  let ?n = "utf8_expected_len c - 1" and ?rest = "drop (utf8_expected_len c - 1) r"
  from 1(2) u have c: "\<not> is_cont c" "?n \<le> length r" "list_all is_cont (take ?n r)" "utf8_text ?rest"
    by auto
  show ?case
  proof (cases "?rest = []")
    case True
    with c have "take ?n r = r" "length r = ?n" by auto
    with c u utf8_expected_len_bounds [of c] show ?thesis
      by (intro exI [of _ "[]"] exI [of _ c] exI [of _ r]) auto
  next
    case False
    with 1(1) u c(4) obtain u' d ds where
      d: "?rest = u' @ d # ds" "utf8_text u'" "\<not> is_cont d" "list_all is_cont ds"
         "length (d # ds) = utf8_expected_len d"
      by (metis drop_drop length_Cons length_drop less_Suc_eq_le diff_le_self)
    have "u = (c # take ?n r @ u') @ d # ds"
      using u d(1) by (metis append_Cons append_assoc append_take_drop_id)
    moreover have "utf8_text (c # take ?n r @ u')" using c d(2) by simp
    ultimately show ?thesis using d by blast
  qed
qed

lemma utf8_back_stops:
  assumes "q \<le> p" and "\<forall>i. q \<le> i \<and> i < p \<longrightarrow> is_cont (s ! i)"
    and "start < q" and "\<not> is_cont (s ! (q - 1))" and "cont + (p - q) \<le> 4"
  shows "utf8_back s start p cont = q"
  using assms
proof (induction "p - q" arbitrary: p cont)
  case 0
  then show ?case by (subst utf8_back.simps) auto
next
  case (Suc n)
  then have "is_cont (s ! (p - 1))" by auto
  moreover from Suc have "utf8_back s start (p - 1) (cont + 1) = q"
    by (intro Suc.hyps(1)) auto
  moreover from Suc have "p > start \<and> cont < 4" by linarith
  ultimately show ?case by (subst utf8_back.simps) simp
qed

text \<open>The result on a window that ends in a lead byte with continuation bytes behind it.\<close>

lemma utf8_stream_safe_len_tail:
  assumes w: "drop start (take limit s) = u @ c # cs" and bnd: "start \<le> limit" "limit \<le> length s"
    and c: "\<not> is_cont c" and cs: "list_all is_cont cs" "length cs \<le> 3"
  shows "utf8_stream_safe_len s start limit False =
    (if length (c # cs) < utf8_expected_len c then limit - length (c # cs) else limit)"
proof -
  let ?q = "limit - length cs"
  have len: "limit - start = length u + Suc (length cs)"
    using arg_cong [OF w, of length] bnd by simp
  have at: "s ! (start + i) = (u @ c # cs) ! i" if "i < limit - start" for i
  proof -
    have "(drop start (take limit s)) ! i = s ! (start + i)" using that bnd by simp
    with w show ?thesis by simp
  qed
  have lead: "s ! (?q - 1) = c"
  proof -
    have "?q - 1 = start + length u" using len bnd by simp
    then show ?thesis using at [of "length u"] len by simp
  qed
  have conts: "is_cont (s ! i)" if "?q \<le> i" "i < limit" for i
  proof -
    have "s ! i = (u @ c # cs) ! (i - start)" using at [of "i - start"] that len bnd by simp
    also have "\<dots> = cs ! (i - ?q)" using that len bnd
      by (auto simp: nth_append nth_Cons' intro!: arg_cong [where f = "\<lambda>n. cs ! n"])
    finally show ?thesis using cs that len by (auto simp: list_all_length)
  qed
  have bk: "utf8_back s start limit 0 = ?q"
    using conts lead c cs len bnd by (intro utf8_back_stops) auto
  show ?thesis
  proof (cases cs)
    case Nil
    with bk lead len bnd show ?thesis by (auto simp: utf8_stream_safe_len_def)
  next
    case (Cons d ds)
    with len bnd have "?q \<noteq> limit" "?q \<noteq> start" "limit - (?q - 1) = Suc (length cs)"
      "?q - 1 = limit - length (c # cs)" "\<not> limit \<le> start"
      by auto
    with bk lead show ?thesis by (simp add: utf8_stream_safe_len_def Let_def)
  qed
qed

text \<open>
  If the text a client has received ends at a character boundary (\<open>start\<close>) and the generated
  bytes continue to a text, the next delta of a stream again ends at a character boundary, holds
  back at most three bytes, and holds nothing back when the window is already complete.
\<close>

theorem utf8_stream_safe:
  assumes valid: "utf8_text (drop start (take limit s) @ later)"
    and bnd: "start \<le> limit" "limit \<le> length s"
  shows "utf8_text (drop start (take (utf8_stream_safe_len s start limit False) s)) \<and>
    start \<le> utf8_stream_safe_len s start limit False \<and>
    utf8_stream_safe_len s start limit False \<le> limit \<and>
    limit - utf8_stream_safe_len s start limit False \<le> 3 \<and>
    (utf8_text (drop start (take limit s)) \<longrightarrow> utf8_stream_safe_len s start limit False = limit)"
    (is "?P (utf8_stream_safe_len s start limit False)")
proof -
  let ?w = "drop start (take limit s)"
  obtain u t where w: "?w = u @ t" "utf8_text u" and
    t: "t = [] \<or> (\<exists>c cs. t = c # cs \<and> \<not> is_cont c \<and> list_all is_cont cs \<and>
                    length t < utf8_expected_len c)"
    using utf8_text_window [OF valid] by blast
  from t show ?thesis
  proof
    assume "t = []"
    show ?thesis
    proof (cases "u = []")
      case True
      with w \<open>t = []\<close> bnd have "limit \<le> start" by simp
      then show ?thesis using bnd by (auto simp: utf8_stream_safe_len_def)
    next
      case False
      then obtain u' c cs where last: "u = u' @ c # cs" "\<not> is_cont c" "list_all is_cont cs"
        "length (c # cs) = utf8_expected_len c"
        using utf8_text_last_unit [OF w(2)] by blast
      then have "utf8_stream_safe_len s start limit False = limit"
        using utf8_stream_safe_len_tail [of start limit s u' c cs] w \<open>t = []\<close> bnd
          utf8_expected_len_bounds [of c] by simp
      with w \<open>t = []\<close> bnd show ?thesis by simp
    qed
  next
    assume "\<exists>c cs. t = c # cs \<and> \<not> is_cont c \<and> list_all is_cont cs \<and> length t < utf8_expected_len c"
    then obtain c cs where t: "t = c # cs" "\<not> is_cont c" "list_all is_cont cs"
      "length (c # cs) < utf8_expected_len c" by blast
    have len: "limit - start = length u + length t" using arg_cong [OF w(1), of length] bnd by simp
    have sl: "utf8_stream_safe_len s start limit False = start + length u"
      using utf8_stream_safe_len_tail [of start limit s u c cs] w t bnd len
        utf8_expected_len_bounds [of c] by simp
    have "drop start (take (start + length u) s) = take (length u) ?w"
      using len bnd by (simp add: drop_take min_def)
    with w have "drop start (take (start + length u) s) = u" by simp
    moreover have "\<not> utf8_text ?w"
    proof
      assume "utf8_text ?w"
      moreover have "utf8_text (u @ v) \<Longrightarrow> utf8_text u \<Longrightarrow> utf8_text v" for v
        by (induction u rule: utf8_text.induct) (auto simp: not_le)
      ultimately have "utf8_text t" using w by auto
      with t show False by auto
    qed
    ultimately show ?thesis
      using sl w t len bnd utf8_expected_len_bounds [of c] by auto
  qed
qed

theorem utf8_stream_safe_witness:
  "utf8_text ''a'' \<and> utf8_stream_safe_len [CHR ''a'', CHR 0xE2, CHR 0x82] 0 3 False = 1"
proof -
  have valid: "utf8_text (drop 0 (take 3 [CHR ''a'', CHR 0xE2, CHR 0x82]) @ [CHR 0xAC])"
    by code_simp
  have eval: "utf8_stream_safe_len [CHR ''a'', CHR 0xE2, CHR 0x82] 0 3 False = 1"
    by code_simp
  show ?thesis
    using utf8_stream_safe [OF valid] eval by simp
qed

end
