(* ===== verification/DsmlText.thy ===== *)
theory DsmlText
  imports JsonLoops
begin

text \<open>
  Text escaping of ds4_server.c: JSON string literals (\<open>json_escape\<close>), and the DSML markup in
  which tool calls are written into prompts and read back from generated text. Multi-byte
  characters are their UTF-8 bytes: the full-width bar of the DSML tags is EF BD 9C. A buffer
  argument comes first and the result is the buffer with the text appended.
\<close>

section \<open>Tags\<close>

definition BAR :: string where "BAR = [CHR 0xEF, CHR 0xBD, CHR 0x9C]"
definition DS4_DSML :: string where "DS4_DSML = BAR @ ''DSML'' @ BAR"
definition DS4_DSML_SHORT :: string where "DS4_DSML_SHORT = ''DSML'' @ BAR"

definition DS4_TOOL_CALLS_START :: string where
  "DS4_TOOL_CALLS_START = ''<'' @ DS4_DSML @ ''tool_calls>''"
definition DS4_TOOL_CALLS_END :: string where
  "DS4_TOOL_CALLS_END = ''</'' @ DS4_DSML @ ''tool_calls>''"
definition DS4_INVOKE_START :: string where
  "DS4_INVOKE_START = ''<'' @ DS4_DSML @ ''invoke''"
definition DS4_INVOKE_END :: string where
  "DS4_INVOKE_END = ''</'' @ DS4_DSML @ ''invoke>''"
definition DS4_PARAM_START :: string where
  "DS4_PARAM_START = ''<'' @ DS4_DSML @ ''parameter''"
definition DS4_PARAM_END :: string where
  "DS4_PARAM_END = ''</'' @ DS4_DSML @ ''parameter>''"
definition DS4_TOOL_CALLS_START_SHORT :: string where
  "DS4_TOOL_CALLS_START_SHORT = ''<'' @ DS4_DSML_SHORT @ ''tool_calls>''"
definition DS4_TOOL_CALLS_END_SHORT :: string where
  "DS4_TOOL_CALLS_END_SHORT = ''</'' @ DS4_DSML_SHORT @ ''tool_calls>''"
definition DS4_INVOKE_START_SHORT :: string where
  "DS4_INVOKE_START_SHORT = ''<'' @ DS4_DSML_SHORT @ ''invoke''"
definition DS4_INVOKE_END_SHORT :: string where
  "DS4_INVOKE_END_SHORT = ''</'' @ DS4_DSML_SHORT @ ''invoke>''"
definition DS4_PARAM_START_SHORT :: string where
  "DS4_PARAM_START_SHORT = ''<'' @ DS4_DSML_SHORT @ ''parameter''"
definition DS4_PARAM_END_SHORT :: string where
  "DS4_PARAM_END_SHORT = ''</'' @ DS4_DSML_SHORT @ ''parameter>''"

lemmas dsml_tag_defs =
  DS4_TOOL_CALLS_START_def DS4_TOOL_CALLS_END_def DS4_INVOKE_START_def DS4_INVOKE_END_def
  DS4_PARAM_START_def DS4_PARAM_END_def DS4_DSML_def BAR_def

lemmas dsml_short_tag_defs =
  DS4_TOOL_CALLS_START_SHORT_def DS4_TOOL_CALLS_END_SHORT_def DS4_INVOKE_START_SHORT_def
  DS4_INVOKE_END_SHORT_def DS4_PARAM_START_SHORT_def DS4_PARAM_END_SHORT_def
  DS4_DSML_SHORT_def

section \<open>JSON string literals\<close>

definition hex_digit :: "nat \<Rightarrow> char" where
  "hex_digit n = (if n < 10 then char_of (n + 48) else char_of (n + 87))"

definition json_escape_char :: "char \<Rightarrow> string" where
  "json_escape_char c =
     (if c = DQ \<or> c = BACKSLASH then [BACKSLASH, c]
      else if c = NL then [BACKSLASH, CHR ''n'']
      else if c = CHR 0x0D then [BACKSLASH, CHR ''r'']
      else if c = CHR 0x09 then [BACKSLASH, CHR ''t'']
      else if byte_of c < 0x20 then
        [BACKSLASH, CHR ''u'', CHR ''0'', CHR ''0'',
         hex_digit (byte_of c div 16), hex_digit (byte_of c mod 16)]
      else [c])"

fun json_escape_loop :: "string \<Rightarrow> cstr \<Rightarrow> string" where
  "json_escape_loop b [] = b"
| "json_escape_loop b (c # s) = json_escape_loop (b @ json_escape_char c) s"

definition json_escape :: "string \<Rightarrow> cstr \<Rightarrow> string" where
  "json_escape b s = json_escape_loop (b @ [DQ]) s @ [DQ]"

definition json_escape_n :: "string \<Rightarrow> string \<Rightarrow> nat \<Rightarrow> string" where
  "json_escape_n b s n = json_escape b (c_str (take n s))"

definition json_escape_fragment_n :: "string \<Rightarrow> string \<Rightarrow> nat \<Rightarrow> string" where
  "json_escape_fragment_n b s n = json_escape_loop b (take n s)"

section \<open>DSML text\<close>

fun append_dsml_attr_escaped :: "string \<Rightarrow> cstr \<Rightarrow> string" where
  "append_dsml_attr_escaped b [] = b"
| "append_dsml_attr_escaped b (c # s) =
     append_dsml_attr_escaped
       (b @ (if c = CHR ''&'' then ''&amp;''
             else if c = CHR ''<'' then ''&lt;''
             else if c = CHR ''>'' then ''&gt;''
             else if c = DQ then ''&quot;''
             else [c])) s"

fun append_dsml_text_escaped :: "string \<Rightarrow> cstr \<Rightarrow> string" where
  "append_dsml_text_escaped b [] = b"
| "append_dsml_text_escaped b (c # s) =
     append_dsml_text_escaped
       (b @ (if c = CHR ''&'' then ''&amp;''
             else if c = CHR ''<'' then ''&lt;''
             else if c = CHR ''>'' then ''&gt;''
             else [c])) s"

fun append_dsml_parameter_text :: "string \<Rightarrow> cstr \<Rightarrow> string" where
  "append_dsml_parameter_text b [] = b"
| "append_dsml_parameter_text b (c # s) =
     append_dsml_parameter_text
       (b @ (if prefix DS4_PARAM_END (c # s) then ''&lt;'' else [c])) s"

fun append_dsml_json_literal :: "string \<Rightarrow> cstr \<Rightarrow> string" where
  "append_dsml_json_literal b [] = b"
| "append_dsml_json_literal b (c # s) =
     append_dsml_json_literal
       (b @ (if prefix DS4_PARAM_END (c # s) then [BACKSLASH] @ ''u003c'' else [c])) s"

text \<open>The loop of \<open>dsml_unescape_text\<close>: an entity is replaced and skipped, a stray ampersand is
  kept.\<close>

function dsml_unescape_loop :: "string \<Rightarrow> cstr \<Rightarrow> string" where
  "dsml_unescape_loop b s =
     (case s of
        [] \<Rightarrow> b
      | c # r \<Rightarrow>
          if c \<noteq> CHR ''&'' then dsml_unescape_loop (b @ [c]) r
          else if prefix ''&amp;'' s then dsml_unescape_loop (b @ ''&'') (drop 5 s)
          else if prefix ''&lt;'' s then dsml_unescape_loop (b @ ''<'') (drop 4 s)
          else if prefix ''&gt;'' s then dsml_unescape_loop (b @ ''>'') (drop 4 s)
          else if prefix ''&quot;'' s then dsml_unescape_loop (b @ [DQ]) (drop 6 s)
          else if prefix ''&apos;'' s then dsml_unescape_loop (b @ [CHR 0x27]) (drop 6 s)
          else dsml_unescape_loop (b @ ''&'') r)"
  by pat_completeness auto
termination
  by (relation "measure (\<lambda>(b, s). length s)") auto

declare dsml_unescape_loop.simps [simp del]

definition dsml_unescape_text :: "cstr \<Rightarrow> cstr" where
  "dsml_unescape_text s = dsml_unescape_loop [] s"

section \<open>Escaping and reading back JSON strings\<close>

lemma json_escape_loop_append: "json_escape_loop b s = b @ json_escape_loop [] s"
proof (induction s arbitrary: b)
  case (Cons c s)
  show ?case
    using Cons [of "b @ json_escape_char c"] Cons [of "json_escape_char c"] by simp
qed simp

lemma json_escape_loop_Cons: "json_escape_loop [] (c # s) = json_escape_char c @ json_escape_loop [] s"
  using json_escape_loop_append [of "json_escape_char c" s] by simp

lemma json_hex_hex_digit: "n < 16 \<Longrightarrow> json_hex (hex_digit n) = int n"
  by (auto simp: json_hex_def hex_digit_def byte_of_def)

lemma json_hex_0: "json_hex (CHR ''0'') = 0"
  by (simp add: json_hex_def byte_of_def)

text \<open>The control characters: \<open>\\u00xy\<close> is read back as the byte it came from.\<close>

lemma u32_nibbles:
  assumes "n < 32"
  shows "push_bit 4 (word_of_nat (n div 16)) OR word_of_nat (n mod 16) = (word_of_nat n :: u32)"
proof -
  have "list_all (\<lambda>k. push_bit 4 (word_of_nat (k div 16)) OR word_of_nat (k mod 16) =
          (word_of_nat k :: u32)) [0..<32]"
    by code_simp
  with assms show ?thesis by (auto simp: list_all_iff)
qed

lemma json_u16_digits_4:
  "json_u16_digits 4 cp s = json_u16_digits (Suc (Suc (Suc (Suc 0)))) cp s"
  by (simp only: numeral_eq_Suc pred_numeral_simps BitM.simps arith_simps numeral_One)

lemma json_u16_control:
  assumes "n < 32"
  shows "json_u16 ([BACKSLASH, CHR ''u'', CHR ''0'', CHR ''0'', hex_digit (n div 16), hex_digit (n mod 16)] @ r)
    = Some (word_of_nat n, r)"
proof -
  have hex: "json_hex (hex_digit (n div 16)) = int (n div 16)" "json_hex (hex_digit (n mod 16)) = int (n mod 16)"
    using assms by (simp_all add: json_hex_hex_digit less_mult_imp_div_less)
  have "json_u16_digits 4 0 ([CHR ''0'', CHR ''0'', hex_digit (n div 16), hex_digit (n mod 16)] @ r) =
      Some (push_bit 4 (word_of_nat (n div 16)) OR word_of_nat (n mod 16))"
    by (simp add: json_u16_digits_4 hex json_hex_0 Let_def)
  then show ?thesis
    using u32_nibbles [OF assms] by (simp add: json_u16_def)
qed

lemma utf8_put_ascii: "n < 128 \<Longrightarrow> utf8_put b (word_of_nat n) = b @ [char_of n]"
  by (simp add: utf8_put_def cast_char_def word_le_nat_alt unat_of_nat)

lemma json_string_loop_escape_char:
  assumes "c \<noteq> NUL"
  shows "json_string_loop b (json_escape_char c @ r) = json_string_loop (b @ [c]) r"
proof -
  consider "c = DQ \<or> c = BACKSLASH \<or> c = NL \<or> c = CHR 0x0D \<or> c = CHR 0x09"
    | (control) "byte_of c < 32" "c \<noteq> NL" "c \<noteq> CHR 0x0D" "c \<noteq> CHR 0x09" "c \<noteq> DQ" "c \<noteq> BACKSLASH"
    | (plain) "\<not> byte_of c < 32" "c \<noteq> DQ" "c \<noteq> BACKSLASH"
    by blast
  then show ?thesis
  proof cases
    case 1
    then show ?thesis
      by (auto simp: json_escape_char_def json_string_loop_step json_simple_escape_def)
  next
    case control
    let ?n = "byte_of c"
    have esc: "json_escape_char c = [BACKSLASH, CHR ''u'', CHR ''0'', CHR ''0'',
        hex_digit (?n div 16), hex_digit (?n mod 16)]"
      using control by (simp add: json_escape_char_def)
    have "json_unicode_escape (json_escape_char c @ r) = Some (word_of_nat ?n, r)"
      using json_u16_control [OF control(1), of r] control(1)
      by (simp add: json_unicode_escape_def esc word_le_nat_alt unat_of_nat)
    then show ?thesis
      using control(1)
      by (simp add: esc json_string_loop_step json_simple_escape_def utf8_put_ascii)
  next
    case plain
    then have "json_escape_char c = [c]" by (auto simp: json_escape_char_def byte_of_def)
    with plain show ?thesis by (simp add: json_string_loop_step)
  qed
qed

lemma json_string_loop_escape:
  "cstring s \<Longrightarrow> json_string_loop b (json_escape_loop [] s @ DQ # r) = Some (b @ s, r)"
proof (induction s arbitrary: b)
  case Nil
  show ?case by (simp add: json_string_loop_step)
next
  case (Cons c s)
  have "json_string_loop b (json_escape_loop [] (c # s) @ DQ # r) =
      json_string_loop (b @ [c]) (json_escape_loop [] s @ DQ # r)"
    using Cons.prems json_string_loop_escape_char [of c b "json_escape_loop [] s @ DQ # r"]
    by (simp add: json_escape_loop_Cons del: json_escape_loop.simps)
  also have "\<dots> = Some (b @ c # s, r)"
    using Cons.IH [of "b @ [c]"] Cons.prems by simp
  finally show ?case .
qed

lemma json_string_escape: "cstring s \<Longrightarrow> json_string (json_escape [] s @ rest) = Some (s, rest)"
  using json_string_loop_escape [of s "[]" rest]
    json_escape_loop_append [of "[DQ]" s] json_ws_no_space [of "DQ # json_escape_loop [] s @ DQ # rest"]
  by (simp add: json_string_def json_escape_def c_str_id isspace_def byte_of_def)

text \<open>
  C32. Reading a literal that \<open>json_escape\<close> wrote gives back exactly the string, whatever text
  follows, for every C string (control bytes, quotes, backslashes and arbitrary high bytes
  included).
\<close>

theorem json_escape_roundtrip:
  assumes "cstring s"
  shows "json_string (json_escape [] s @ rest) = Some (s, rest)"
  using assms by (rule json_string_escape)

theorem json_escape_roundtrip_witness:
  "json_string (json_escape [] [CHR ''a'', DQ, CHR 0x01, CHR 0xE2] @ '', x'') =
     Some ([CHR ''a'', DQ, CHR 0x01, CHR 0xE2], '', x'')"
  by (rule json_escape_roundtrip) simp

section \<open>Entities round trip\<close>

lemma dsml_unescape_step:
  "dsml_unescape_loop b [] = b"
  "c \<noteq> CHR ''&'' \<Longrightarrow> dsml_unescape_loop b (c # r) = dsml_unescape_loop (b @ [c]) r"
  "dsml_unescape_loop b (''&amp;'' @ r) = dsml_unescape_loop (b @ ''&'') r"
  "dsml_unescape_loop b (''&lt;'' @ r) = dsml_unescape_loop (b @ ''<'') r"
  "dsml_unescape_loop b (''&gt;'' @ r) = dsml_unescape_loop (b @ ''>'') r"
  "dsml_unescape_loop b (''&quot;'' @ r) = dsml_unescape_loop (b @ [DQ]) r"
  by (subst dsml_unescape_loop.simps, simp)+

text \<open>The three renderers are a buffer followed by a per-character image.\<close>

definition attr_char :: "char \<Rightarrow> string" where
  "attr_char c = (if c = CHR ''&'' then ''&amp;'' else if c = CHR ''<'' then ''&lt;''
     else if c = CHR ''>'' then ''&gt;'' else if c = DQ then ''&quot;'' else [c])"

definition text_char :: "char \<Rightarrow> string" where
  "text_char c = (if c = CHR ''&'' then ''&amp;'' else if c = CHR ''<'' then ''&lt;''
     else if c = CHR ''>'' then ''&gt;'' else [c])"

lemma append_dsml_attr_escaped_concat:
  "append_dsml_attr_escaped b s = b @ concat (map attr_char s)"
  by (induction b s rule: append_dsml_attr_escaped.induct) (simp_all add: attr_char_def)

lemma append_dsml_text_escaped_concat:
  "append_dsml_text_escaped b s = b @ concat (map text_char s)"
  by (induction b s rule: append_dsml_text_escaped.induct) (simp_all add: text_char_def)

lemma dsml_unescape_attr_char: "dsml_unescape_loop b (attr_char c @ r) = dsml_unescape_loop (b @ [c]) r"
  using dsml_unescape_step(3-6) [of b r] by (simp add: attr_char_def dsml_unescape_step(2))

lemma dsml_unescape_text_char: "dsml_unescape_loop b (text_char c @ r) = dsml_unescape_loop (b @ [c]) r"
  using dsml_unescape_step(3-6) [of b r] by (simp add: text_char_def dsml_unescape_step(2))

lemma dsml_unescape_attr: "dsml_unescape_loop b (concat (map attr_char s)) = b @ s"
  by (induction s arbitrary: b) (simp_all add: dsml_unescape_attr_char dsml_unescape_step(1))

lemma dsml_unescape_text_chars: "dsml_unescape_loop b (concat (map text_char s)) = b @ s"
  by (induction s arbitrary: b) (simp_all add: dsml_unescape_text_char dsml_unescape_step(1))

text \<open>
  C38. The parser of generated DSML undoes the entity escapes of attribute values and of tool
  results exactly, for every string.
\<close>

theorem dsml_escape_roundtrip:
  "dsml_unescape_text (append_dsml_attr_escaped [] s) = s \<and>
   dsml_unescape_text (append_dsml_text_escaped [] s) = s"
  by (simp add: dsml_unescape_text_def append_dsml_attr_escaped_concat
      append_dsml_text_escaped_concat dsml_unescape_attr dsml_unescape_text_chars)

lemma attr_escaped_no_quote: "DQ \<notin> set (append_dsml_attr_escaped [] s)"
  by (auto simp: append_dsml_attr_escaped_concat attr_char_def)

lemma attr_escaped_no_gt: "CHR ''>'' \<notin> set (append_dsml_attr_escaped [] s)"
  by (auto simp: append_dsml_attr_escaped_concat attr_char_def)

section \<open>Parameter values\<close>

fun param_text :: "string \<Rightarrow> string" where
  "param_text [] = []"
| "param_text (c # s) =
     (if prefix DS4_PARAM_END (c # s) then ''&lt;'' else [c]) @ param_text s"

lemma append_dsml_parameter_text_eq: "append_dsml_parameter_text b s = b @ param_text s"
  by (induction b s rule: append_dsml_parameter_text.induct) auto

text \<open>The end tag starts with the only \<open><\<close> in it, so two occurrences cannot overlap.\<close>

lemma param_end_parts: "DS4_PARAM_END = CHR ''<'' # tl DS4_PARAM_END"
  "CHR ''<'' \<notin> set (tl DS4_PARAM_END)" "DS4_PARAM_END \<noteq> []" "CHR ''&'' \<notin> set DS4_PARAM_END"
  by (simp_all add: dsml_tag_defs)

lemma prefix_param_end_Cons:
  "prefix DS4_PARAM_END (c # s) \<longleftrightarrow> c = CHR ''<'' \<and> prefix (tl DS4_PARAM_END) s"
  by (subst param_end_parts(1)) auto

text \<open>A rendered value starts like the value itself as far as the characters of the tag's tail
  go: the tail has no \<open><\<close> and no \<open>&\<close>.\<close>

lemma prefix_param_text:
  assumes "CHR ''<'' \<notin> set p" "CHR ''&'' \<notin> set p"
  shows "prefix p (param_text s @ DS4_PARAM_END @ r) \<Longrightarrow> prefix p s"
  using assms
proof (induction s arbitrary: p)
  case Nil
  then show ?case by (cases p) (auto simp: dsml_tag_defs)
next
  case (Cons c s)
  show ?case
  proof (cases p)
    case (Cons d p')
    note p = Cons
    with Cons.prems have "\<not> prefix DS4_PARAM_END (c # s)" by auto
    with p Cons.prems have "d = c" "prefix p' (param_text s @ DS4_PARAM_END @ r)" by auto
    with p Cons.IH [of p'] Cons.prems show ?thesis by auto
  qed simp
qed

lemma strstr_param_text:
  "strstr (param_text s @ DS4_PARAM_END @ r) DS4_PARAM_END = Some (length (param_text s))"
proof (induction s)
  case Nil
  show ?case by (simp add: strstr.simps)
next
  case (Cons c s)
  show ?case
  proof (cases "prefix DS4_PARAM_END (c # s)")
    case True
    then show ?thesis
      using Cons.IH
      by (simp add: strstr.simps [of "CHR ''&'' # _"] strstr.simps [of "CHR ''l'' # _"]
          strstr.simps [of "CHR ''t'' # _"] strstr.simps [of "CHR '';'' # _"] prefix_param_end_Cons)
  next
    case False
    have "\<not> prefix DS4_PARAM_END (c # param_text s @ DS4_PARAM_END @ r)"
    proof
      assume "prefix DS4_PARAM_END (c # param_text s @ DS4_PARAM_END @ r)"
      then have "c = CHR ''<''" "prefix (tl DS4_PARAM_END) (param_text s @ DS4_PARAM_END @ r)"
        by (simp_all add: prefix_param_end_Cons)
      moreover have "CHR ''&'' \<notin> set (tl DS4_PARAM_END)" by (simp add: dsml_tag_defs)
      ultimately have "prefix (tl DS4_PARAM_END) s"
        using prefix_param_text [OF param_end_parts(2)] by blast
      with False \<open>c = CHR ''<''\<close> show False by (simp add: prefix_param_end_Cons)
    qed
    with False Cons.IH show ?thesis by (simp add: strstr.simps [of "c # _"])
  qed
qed

text \<open>
  No tool argument can close its parameter element: behind a rendered string value the first
  end tag a parser finds is the one the renderer wrote.
\<close>

theorem parameter_text_cannot_close:
  "strstr (append_dsml_parameter_text [] s @ DS4_PARAM_END @ rest) DS4_PARAM_END =
     Some (length (append_dsml_parameter_text [] s))"
  by (simp add: append_dsml_parameter_text_eq strstr_param_text)

lemma dsml_unescape_param_text:
  "CHR ''&'' \<notin> set s \<Longrightarrow> dsml_unescape_loop b (param_text s) = b @ s"
proof (induction s arbitrary: b)
  case (Cons c s)
  then show ?case
    using dsml_unescape_step(4) [of b "param_text s"]
    by (auto simp: dsml_unescape_step(2) prefix_param_end_Cons)
qed (simp add: dsml_unescape_step)

text \<open>
  String values without an ampersand survive rendering and parsing, end tags included.
\<close>

theorem parameter_text_roundtrip:
  assumes "CHR ''&'' \<notin> set s"
  shows "dsml_unescape_text (append_dsml_parameter_text [] s) = s"
  using dsml_unescape_param_text [OF assms]
  by (simp add: dsml_unescape_text_def append_dsml_parameter_text_eq)

theorem parameter_text_roundtrip_witness:
  "dsml_unescape_text (append_dsml_parameter_text [] (''a'' @ DS4_PARAM_END @ ''b'')) =
     ''a'' @ DS4_PARAM_END @ ''b''"
  by (rule parameter_text_roundtrip) (simp add: dsml_tag_defs)

text \<open>
  With an ampersand they do not: the renderer leaves entities in a string value as they are
  while the parser decodes them, so a value that spells an entity comes back changed, and two
  different values are rendered to the same text.
\<close>

theorem parameter_text_entity_lost:
  "dsml_unescape_text (append_dsml_parameter_text [] ''a &lt; b'') = ''a < b'' \<and>
   append_dsml_parameter_text [] DS4_PARAM_END =
   append_dsml_parameter_text [] (''&lt;'' @ tl DS4_PARAM_END)"
  by code_simp

end
