(* ===== verification/Messages.thy ===== *)
theory Messages
  imports Controls DsmlText
begin

text \<open>
  Chat messages, tool calls and tool schemas of ds4_server.c and the parsers that read them from
  OpenAI and Anthropic requests. A \<open>char *\<close> field that may be NULL is an option; the growable C
  arrays are lists. When a parser fails the code frees what it has built, so failure is None.
\<close>

section \<open>Data\<close>

record tool_call =
  tc_id :: "cstr option"
  tc_name :: "cstr option"
  tc_arguments :: "cstr option"

record tool_calls =
  calls_v :: "tool_call list"
  raw_dsml :: "cstr option"

record tool_schema_order =
  so_name :: "cstr option"
  so_prop :: "cstr list"

type_synonym tool_schema_orders = "tool_schema_order list"

record chat_msg =
  role :: "cstr option"
  content :: "cstr option"
  reasoning :: "cstr option"
  tool_call_id :: "cstr option"
  calls :: tool_calls

type_synonym chat_msgs = "chat_msg list"

text \<open>The \<open>= {0}\<close> initialisers, and \<open>s ? s : ""\<close>.\<close>

definition tool_call_zero :: tool_call where
  "tool_call_zero = \<lparr>tc_id = None, tc_name = None, tc_arguments = None\<rparr>"

definition tool_calls_zero :: tool_calls where
  "tool_calls_zero = \<lparr>calls_v = [], raw_dsml = None\<rparr>"

definition chat_msg_zero :: chat_msg where
  "chat_msg_zero = \<lparr>role = None, content = None, reasoning = None, tool_call_id = None,
     calls = tool_calls_zero\<rparr>"

definition or_empty :: "cstr option \<Rightarrow> cstr" where
  "or_empty s = (case s of None \<Rightarrow> [] | Some x \<Rightarrow> x)"

definition tool_calls_push :: "tool_calls \<Rightarrow> tool_call \<Rightarrow> tool_calls" where
  "tool_calls_push cs tc = cs\<lparr>calls_v := calls_v cs @ [tc]\<rparr>"

definition chat_msgs_push :: "chat_msgs \<Rightarrow> chat_msg \<Rightarrow> chat_msgs" where
  "chat_msgs_push msgs m = msgs @ [m]"

section \<open>Tool schema orders\<close>

fun tool_schema_orders_find_index :: "tool_schema_orders \<Rightarrow> cstr option \<Rightarrow> int" where
  "tool_schema_orders_find_index orders None = - 1"
| "tool_schema_orders_find_index [] (Some name) = - 1"
| "tool_schema_orders_find_index (o1 # os) (Some name) =
     (if so_name o1 = Some name then 0
      else let i = tool_schema_orders_find_index os (Some name) in if i < 0 then - 1 else i + 1)"

definition tool_schema_orders_push :: "tool_schema_orders \<Rightarrow> tool_schema_order \<Rightarrow> tool_schema_orders" where
  "tool_schema_orders_push orders order =
     (let idx = tool_schema_orders_find_index orders (so_name order) in
      if idx \<ge> 0 then orders[nat idx := order] else orders @ [order])"

definition tool_schema_orders_find :: "tool_schema_orders \<Rightarrow> cstr option \<Rightarrow> tool_schema_order option" where
  "tool_schema_orders_find orders name =
     (let idx = tool_schema_orders_find_index orders name in
      if idx \<ge> 0 then Some (orders ! nat idx) else None)"

section \<open>Tool calls in OpenAI messages\<close>

definition function_call_member :: "cstr \<Rightarrow> tool_call \<Rightarrow> tool_call parser" where
  "function_call_member key tc s =
     (if key = ''name'' then
        (case json_string s of None \<Rightarrow> None | Some (x, r) \<Rightarrow> Some (tc\<lparr>tc_name := Some x\<rparr>, r))
      else if key = ''arguments'' then
        (let s1 = json_ws s in
         if peek s1 = DQ then
           (case json_string s1 of None \<Rightarrow> None | Some (x, r) \<Rightarrow> Some (tc\<lparr>tc_arguments := Some x\<rparr>, r))
         else
           (case json_raw_value s1 of None \<Rightarrow> None | Some (x, r) \<Rightarrow> Some (tc\<lparr>tc_arguments := Some x\<rparr>, r)))
      else skip_member tc s)"

definition parse_function_call :: "tool_call \<Rightarrow> tool_call parser" where
  "parse_function_call tc s0 =
     (let s = json_ws s0 in
      if peek s \<noteq> CHR ''{'' then None
      else json_members function_call_member tc (json_ws (tl s)))"

definition tool_call_member :: "cstr \<Rightarrow> tool_call \<Rightarrow> tool_call parser" where
  "tool_call_member key tc s =
     (if key = ''id'' then
        (case json_string s of None \<Rightarrow> None | Some (x, r) \<Rightarrow> Some (tc\<lparr>tc_id := Some x\<rparr>, r))
      else if key = ''function'' then parse_function_call tc s
      else skip_member tc s)"

definition tool_calls_elem :: "tool_calls \<Rightarrow> tool_calls parser" where
  "tool_calls_elem cs s =
     (if peek s \<noteq> CHR ''{'' then None
      else case json_members tool_call_member tool_call_zero (json_ws (tl s)) of
             None \<Rightarrow> None
           | Some (tc, r) \<Rightarrow>
               Some (if tc_name tc \<noteq> None \<and> tc_arguments tc \<noteq> None
                     then tool_calls_push cs tc else cs, r))"

definition parse_tool_calls_value :: "tool_calls \<Rightarrow> tool_calls parser" where
  "parse_tool_calls_value cs s0 =
     (let s = json_ws s0 in
      case json_lit ''null'' s of
        Some r \<Rightarrow> Some (cs, r)
      | None \<Rightarrow>
          if peek s \<noteq> CHR ''['' then None
          else json_elems tool_calls_elem cs (json_ws (tl s)))"

section \<open>Tool schemas\<close>

definition append_raw_json_line :: "string \<Rightarrow> cstr \<Rightarrow> string" where
  "append_raw_json_line b json =
     (if json = [] then b else (if b \<noteq> [] then b @ [NL] else b) @ json)"

text \<open>\<open>openai_function_schema_from_tool\<close>: the loop returns the raw value of the first member
  \<open>function\<close>, and NULL at the end of the object or where the text is malformed.\<close>

function openai_function_schema_loop :: "string \<Rightarrow> cstr option" where
  "openai_function_schema_loop p =
     (if p = [] \<or> peek p = CHR ''}'' then None
      else case json_string p of
             None \<Rightarrow> None
           | Some (key, p1) \<Rightarrow>
               let p2 = json_ws p1 in
               if peek p2 \<noteq> CHR '':'' then None
               else if key = ''function'' then
                 (case json_raw_value (tl p2) of None \<Rightarrow> None | Some (v, r) \<Rightarrow> Some v)
               else (case json_skip_value (tl p2) of
                       None \<Rightarrow> None
                     | Some p3 \<Rightarrow>
                         if length p3 < length p then openai_function_schema_loop (json_sep p3)
                         else None))"
  by pat_completeness auto
termination
  by (relation "measure length") (auto intro: le_less_trans [OF json_sep_length])

declare openai_function_schema_loop.simps [simp del]

definition openai_function_schema_from_tool :: "cstr \<Rightarrow> cstr option" where
  "openai_function_schema_from_tool raw =
     (let p = json_ws raw in
      if peek p \<noteq> CHR ''{'' then None else openai_function_schema_loop (json_ws (tl p)))"

text \<open>\<open>parse_schema_properties\<close> collects the property names even when it returns false, and its
  caller ignores the return value, so both loops return the order and the pointer (None: the code
  returned false).\<close>

function schema_props_loop ::
  "tool_schema_order \<Rightarrow> string \<Rightarrow> tool_schema_order \<times> string option" where
  "schema_props_loop order p =
     (if p = [] then (order, None)
      else if peek p = CHR ''}'' then (order, Some (tl p))
      else case json_string p of
             None \<Rightarrow> (order, None)
           | Some (prop, p1) \<Rightarrow>
               let p2 = json_ws p1 in
               if peek p2 \<noteq> CHR '':'' then (order, None)
               else let order' = order\<lparr>so_prop := so_prop order @ [prop]\<rparr> in
                    case json_skip_value (tl p2) of
                      None \<Rightarrow> (order', None)
                    | Some p3 \<Rightarrow>
                        if length p3 < length p then schema_props_loop order' (json_sep p3)
                        else (order', None))"
  by pat_completeness auto
termination
  by (relation "measure (\<lambda>(order, p). length p)") (auto intro: le_less_trans [OF json_sep_length])

declare schema_props_loop.simps [simp del]

function schema_members_loop ::
  "tool_schema_order \<Rightarrow> string \<Rightarrow> tool_schema_order \<times> bool" where
  "schema_members_loop order p =
     (if p = [] then (order, False)
      else if peek p = CHR ''}'' then (order, True)
      else case json_string p of
             None \<Rightarrow> (order, False)
           | Some (key, p1) \<Rightarrow>
               let p2 = json_ws p1 in
               if peek p2 \<noteq> CHR '':'' then (order, False)
               else if key = ''properties'' then
                 (let p3 = json_ws (tl p2) in
                  if peek p3 \<noteq> CHR ''{'' then (order, False)
                  else case schema_props_loop order (json_ws (tl p3)) of
                         (order', None) \<Rightarrow> (order', False)
                       | (order', Some p4) \<Rightarrow>
                           if length p4 < length p then schema_members_loop order' (json_sep p4)
                           else (order', False))
               else (case json_skip_value (tl p2) of
                       None \<Rightarrow> (order, False)
                     | Some p3 \<Rightarrow>
                         if length p3 < length p then schema_members_loop order (json_sep p3)
                         else (order, False)))"
  by pat_completeness auto
termination
  by (relation "measure (\<lambda>(order, p). length p)") (auto intro: le_less_trans [OF json_sep_length])

declare schema_members_loop.simps [simp del]

definition parse_schema_properties :: "cstr \<Rightarrow> tool_schema_order \<Rightarrow> tool_schema_order \<times> bool" where
  "parse_schema_properties json order =
     (let p = json_ws json in
      if peek p \<noteq> CHR ''{'' then (order, False)
      else schema_members_loop order (json_ws (tl p)))"

definition schema_order_member :: "cstr \<Rightarrow> tool_schema_order \<Rightarrow> tool_schema_order parser" where
  "schema_order_member key order s =
     (if key = ''name'' then
        (case json_string s of None \<Rightarrow> None | Some (x, r) \<Rightarrow> Some (order\<lparr>so_name := Some x\<rparr>, r))
      else if key = ''input_schema'' \<or> key = ''parameters'' then
        (case json_raw_value s of
           None \<Rightarrow> None
         | Some (schema, r) \<Rightarrow> Some (fst (parse_schema_properties schema order), r))
      else skip_member order s)"

text \<open>The member loop of \<open>tool_schema_orders_add_json\<close> ends at the closing brace or at the end of
  the text alike.\<close>

function schema_order_loop :: "tool_schema_order \<Rightarrow> string \<Rightarrow> tool_schema_order option" where
  "schema_order_loop order p =
     (if p = [] \<or> peek p = CHR ''}'' then Some order
      else case json_string p of
             None \<Rightarrow> None
           | Some (key, p1) \<Rightarrow>
               let p2 = json_ws p1 in
               if peek p2 \<noteq> CHR '':'' then None
               else case schema_order_member key order (tl p2) of
                      None \<Rightarrow> None
                    | Some (order', p3) \<Rightarrow>
                        if length p3 < length p then schema_order_loop order' (json_sep p3)
                        else None)"
  by pat_completeness auto
termination
  by (relation "measure (\<lambda>(order, p). length p)") (auto intro: le_less_trans [OF json_sep_length])

declare schema_order_loop.simps [simp del]

definition tool_schema_orders_add_json :: "tool_schema_orders \<Rightarrow> cstr \<Rightarrow> tool_schema_orders" where
  "tool_schema_orders_add_json orders json =
     (let p = json_ws json in
      if peek p \<noteq> CHR ''{'' then orders
      else case schema_order_loop \<lparr>so_name = None, so_prop = []\<rparr> (json_ws (tl p)) of
             None \<Rightarrow> orders
           | Some order \<Rightarrow>
               if so_name order \<noteq> None \<and> length (so_prop order) > 0
               then tool_schema_orders_push orders order else orders)"

definition tools_elem :: "string \<times> tool_schema_orders \<Rightarrow> (string \<times> tool_schema_orders) parser" where
  "tools_elem = (\<lambda>(schemas, orders) s.
     case json_raw_value s of
       None \<Rightarrow> None
     | Some (raw, r) \<Rightarrow>
         let schema = (case openai_function_schema_from_tool raw of Some f \<Rightarrow> f | None \<Rightarrow> raw)
         in Some ((append_raw_json_line schemas schema, tool_schema_orders_add_json orders schema), r))"

definition parse_tools_value :: "tool_schema_orders \<Rightarrow> (cstr \<times> tool_schema_orders) parser" where
  "parse_tools_value orders s0 =
     (let s = json_ws s0 in
      case json_lit ''null'' s of
        Some r \<Rightarrow> Some (([], orders), r)
      | None \<Rightarrow>
          if peek s \<noteq> CHR ''['' then None
          else json_elems tools_elem ([], orders) (json_ws (tl s)))"

section \<open>OpenAI messages\<close>

definition message_member :: "cstr \<Rightarrow> chat_msg \<Rightarrow> chat_msg parser" where
  "message_member key msg s =
     (if key = ''role'' then
        (case json_string s of None \<Rightarrow> None | Some (x, r) \<Rightarrow> Some (msg\<lparr>role := Some x\<rparr>, r))
      else if key = ''content'' then
        (case json_content s of None \<Rightarrow> None | Some (x, r) \<Rightarrow> Some (msg\<lparr>content := Some x\<rparr>, r))
      else if key = ''reasoning_content'' then
        (case json_content s of None \<Rightarrow> None | Some (x, r) \<Rightarrow> Some (msg\<lparr>reasoning := Some x\<rparr>, r))
      else if key = ''tool_call_id'' then
        (case json_string s of None \<Rightarrow> None | Some (x, r) \<Rightarrow> Some (msg\<lparr>tool_call_id := Some x\<rparr>, r))
      else if key = ''tool_calls'' then
        (case parse_tool_calls_value tool_calls_zero s of
           None \<Rightarrow> None | Some (cs, r) \<Rightarrow> Some (msg\<lparr>calls := cs\<rparr>, r))
      else skip_member msg s)"

definition message_defaults :: "chat_msg \<Rightarrow> chat_msg" where
  "message_defaults m =
     (let m1 = (if role m = None then m\<lparr>role := Some ''user''\<rparr> else m)
      in if content m1 = None then m1\<lparr>content := Some []\<rparr> else m1)"

definition messages_elem :: "chat_msgs \<Rightarrow> chat_msgs parser" where
  "messages_elem msgs s =
     (if peek s \<noteq> CHR ''{'' then None
      else case json_members message_member chat_msg_zero (json_ws (tl s)) of
             None \<Rightarrow> None
           | Some (m, r) \<Rightarrow> Some (chat_msgs_push msgs (message_defaults m), r))"

definition parse_messages :: "chat_msgs \<Rightarrow> chat_msgs parser" where
  "parse_messages msgs s0 =
     (let s = json_ws s0 in
      if peek s \<noteq> CHR ''['' then None
      else json_elems messages_elem msgs (json_ws (tl s)))"

end
