(* ===== verification/Anthropic.thy ===== *)
theory Anthropic
  imports Messages
begin

text \<open>
  The Anthropic side of the message parsers of ds4_server.c: block-structured content, messages,
  and the \<open>system\<close> member. The seven local strings of \<open>parse_anthropic_content_block\<close> are a record.
\<close>

record content_block =
  b_type :: "cstr option"
  b_text :: "cstr option"
  b_thinking :: "cstr option"
  b_id :: "cstr option"
  b_name :: "cstr option"
  b_input :: "cstr option"
  b_tool_result :: "cstr option"

definition content_block_zero :: content_block where
  "content_block_zero = \<lparr>b_type = None, b_text = None, b_thinking = None, b_id = None,
     b_name = None, b_input = None, b_tool_result = None\<rparr>"

definition append_anthropic_block_content :: "string \<Rightarrow> cstr option \<Rightarrow> string" where
  "append_anthropic_block_content dst text =
     (if text = None \<or> text = Some [] then dst else dst @ the text)"

definition content_block_member :: "cstr \<Rightarrow> content_block \<Rightarrow> content_block parser" where
  "content_block_member key blk s =
     (if key = ''type'' then
        (case json_string s of None \<Rightarrow> None | Some (x, r) \<Rightarrow> Some (blk\<lparr>b_type := Some x\<rparr>, r))
      else if key = ''text'' then
        (case json_content s of None \<Rightarrow> None | Some (x, r) \<Rightarrow> Some (blk\<lparr>b_text := Some x\<rparr>, r))
      else if key = ''thinking'' then
        (case json_content s of None \<Rightarrow> None | Some (x, r) \<Rightarrow> Some (blk\<lparr>b_thinking := Some x\<rparr>, r))
      else if key = ''id'' \<or> key = ''tool_use_id'' then
        (case json_string s of None \<Rightarrow> None | Some (x, r) \<Rightarrow> Some (blk\<lparr>b_id := Some x\<rparr>, r))
      else if key = ''name'' then
        (case json_string s of None \<Rightarrow> None | Some (x, r) \<Rightarrow> Some (blk\<lparr>b_name := Some x\<rparr>, r))
      else if key = ''input'' then
        (case json_raw_value s of None \<Rightarrow> None | Some (x, r) \<Rightarrow> Some (blk\<lparr>b_input := Some x\<rparr>, r))
      else if key = ''content'' then
        (case json_content s of None \<Rightarrow> None | Some (x, r) \<Rightarrow> Some (blk\<lparr>b_tool_result := Some x\<rparr>, r))
      else skip_member blk s)"

text \<open>What the code does with a block once its members are read.\<close>

definition content_block_apply :: "cstr \<Rightarrow> content_block \<Rightarrow> chat_msg \<Rightarrow> chat_msg" where
  "content_block_apply rl blk msg =
     (if b_type blk = Some ''tool_use'' \<and> rl = ''assistant'' then
        msg\<lparr>calls := tool_calls_push (calls msg)
               \<lparr>tc_id = b_id blk,
                tc_name = Some (case b_name blk of Some n \<Rightarrow> n | None \<Rightarrow> []),
                tc_arguments = Some (case b_input blk of Some i \<Rightarrow> i | None \<Rightarrow> ''{}'')\<rparr>\<rparr>
      else if b_type blk = Some ''tool_result'' then
        msg\<lparr>content := Some (append_dsml_text_escaped
               (or_empty (content msg) @ ''<tool_result>'') (or_empty (b_tool_result blk))
               @ ''</tool_result>'')\<rparr>
      else
        (let msg1 = (if b_text blk \<noteq> None
                     then msg\<lparr>content := Some (append_anthropic_block_content
                                (or_empty (content msg)) (b_text blk))\<rparr>
                     else msg)
         in if b_thinking blk \<noteq> None
            then msg1\<lparr>reasoning := Some (append_anthropic_block_content
                        (or_empty (reasoning msg1)) (b_thinking blk))\<rparr>
            else msg1))"

definition parse_anthropic_content_block :: "cstr \<Rightarrow> chat_msg \<Rightarrow> chat_msg parser" where
  "parse_anthropic_content_block rl msg s =
     (if peek s \<noteq> CHR ''{'' then None
      else case json_members content_block_member content_block_zero (json_ws (tl s)) of
             None \<Rightarrow> None
           | Some (blk, r) \<Rightarrow> Some (content_block_apply rl blk msg, r))"

definition anthropic_content_elem :: "chat_msg \<Rightarrow> chat_msg parser" where
  "anthropic_content_elem msg s =
     (if peek s = DQ then
        (case json_string s of
           None \<Rightarrow> None
         | Some (x, r) \<Rightarrow> Some (msg\<lparr>content := Some (or_empty (content msg) @ x)\<rparr>, r))
      else if peek s = CHR ''{'' then
        parse_anthropic_content_block (or_empty (role msg)) msg s
      else skip_member msg s)"

definition parse_anthropic_content :: "chat_msg \<Rightarrow> chat_msg parser" where
  "parse_anthropic_content msg s0 =
     (let s = json_ws s0 in
      if peek s = DQ then
        (case json_string s of None \<Rightarrow> None | Some (x, r) \<Rightarrow> Some (msg\<lparr>content := Some x\<rparr>, r))
      else case json_lit ''null'' s of
             Some r \<Rightarrow> Some (msg\<lparr>content := Some []\<rparr>, r)
           | None \<Rightarrow>
               if peek s \<noteq> CHR ''['' then skip_member msg s
               else (case json_elems anthropic_content_elem msg (json_ws (tl s)) of
                       None \<Rightarrow> None
                     | Some (m, r) \<Rightarrow>
                         Some (if content m = None then m\<lparr>content := Some []\<rparr> else m, r)))"

definition anthropic_message_member :: "cstr \<Rightarrow> chat_msg \<Rightarrow> chat_msg parser" where
  "anthropic_message_member key msg s =
     (if key = ''role'' then
        (case json_string s of None \<Rightarrow> None | Some (x, r) \<Rightarrow> Some (msg\<lparr>role := Some x\<rparr>, r))
      else if key = ''content'' then parse_anthropic_content (msg\<lparr>content := None\<rparr>) s
      else skip_member msg s)"

definition anthropic_messages_elem :: "chat_msgs \<Rightarrow> chat_msgs parser" where
  "anthropic_messages_elem msgs s =
     (if peek s \<noteq> CHR ''{'' then None
      else case json_members anthropic_message_member chat_msg_zero (json_ws (tl s)) of
             None \<Rightarrow> None
           | Some (m, r) \<Rightarrow> Some (chat_msgs_push msgs (message_defaults m), r))"

definition parse_anthropic_messages :: "chat_msgs \<Rightarrow> chat_msgs parser" where
  "parse_anthropic_messages msgs s0 =
     (let s = json_ws s0 in
      if peek s \<noteq> CHR ''['' then None
      else json_elems anthropic_messages_elem msgs (json_ws (tl s)))"

section \<open>The system member\<close>

definition anthropic_system_part_is_private :: "cstr \<Rightarrow> bool" where
  "anthropic_system_part_is_private s \<longleftrightarrow> prefix ''x-anthropic-'' s"

definition append_anthropic_system_part :: "string \<Rightarrow> cstr \<Rightarrow> string" where
  "append_anthropic_system_part b s =
     (if s = [] \<or> anthropic_system_part_is_private s then b
      else (if b \<noteq> [] \<and> last b \<noteq> NL then b @ [NL] else b) @ s)"

definition anthropic_system_member :: "cstr \<Rightarrow> string \<Rightarrow> string parser" where
  "anthropic_system_member key out s =
     (if key = ''text'' then
        (case json_string s of
           None \<Rightarrow> None | Some (x, r) \<Rightarrow> Some (append_anthropic_system_part out x, r))
      else skip_member out s)"

definition parse_anthropic_system_object :: "string \<Rightarrow> string parser" where
  "parse_anthropic_system_object out s =
     (if peek s \<noteq> CHR ''{'' then None
      else json_members anthropic_system_member out (json_ws (tl s)))"

definition anthropic_system_elem :: "string \<Rightarrow> string parser" where
  "anthropic_system_elem out s =
     (if peek s = DQ then
        (case json_string s of
           None \<Rightarrow> None | Some (x, r) \<Rightarrow> Some (append_anthropic_system_part out x, r))
      else if peek s = CHR ''{'' then parse_anthropic_system_object out s
      else skip_member out s)"

definition parse_anthropic_system :: "cstr parser" where
  "parse_anthropic_system s0 =
     (let s = json_ws s0 in
      if peek s = DQ then
        (case json_string s of
           None \<Rightarrow> None | Some (x, r) \<Rightarrow> Some (append_anthropic_system_part [] x, r))
      else case json_lit ''null'' s of
             Some r \<Rightarrow> Some ([], r)
           | None \<Rightarrow>
               if peek s \<noteq> CHR ''['' then skip_member [] s
               else json_elems anthropic_system_elem [] (json_ws (tl s)))"

end
