(* ===== verification/Render.thy ===== *)
theory Render
  imports Anthropic
begin

text \<open>
  Rendering of ds4_server.c: tool arguments and tool calls as DSML, and a whole conversation as
  the DeepSeek chat prompt.
\<close>

section \<open>JSON arguments\<close>

record json_arg =
  arg_key :: cstr
  arg_value :: cstr
  is_string :: bool
  used :: bool

definition json_args_push :: "json_arg list \<Rightarrow> json_arg \<Rightarrow> json_arg list" where
  "json_args_push args a = args @ [a]"

text \<open>\<open>json_args_find_unused\<close>; None is the code's - 1.\<close>

fun json_args_find_unused :: "json_arg list \<Rightarrow> cstr \<Rightarrow> nat option" where
  "json_args_find_unused [] key = None"
| "json_args_find_unused (a # as) key =
     (if \<not> used a \<and> arg_key a = key then Some 0
      else map_option Suc (json_args_find_unused as key))"

definition json_args_member :: "cstr \<Rightarrow> json_arg list \<Rightarrow> json_arg list parser" where
  "json_args_member key args s0 =
     (let s = json_ws s0 in
      if peek s = DQ then
        (case json_string s of
           None \<Rightarrow> None
         | Some (v, r) \<Rightarrow>
             Some (json_args_push args
                     \<lparr>arg_key = key, arg_value = v, is_string = True, used = False\<rparr>, r))
      else
        (case json_raw_value s of
           None \<Rightarrow> None
         | Some (raw, r) \<Rightarrow>
             Some (json_args_push args
                     \<lparr>arg_key = key, arg_value = json_minify_raw_value (Some raw),
                      is_string = False, used = False\<rparr>, r)))"

definition json_args_parse :: "cstr option \<Rightarrow> json_arg list option" where
  "json_args_parse json =
     (let p = json_ws (or_empty json) in
      if peek p \<noteq> CHR ''{'' then None
      else map_option fst (json_members json_args_member [] (json_ws (tl p))))"

definition append_dsml_arg :: "string \<Rightarrow> json_arg \<Rightarrow> string" where
  "append_dsml_arg b a =
     (let b1 = b @ DS4_PARAM_START @ '' name='' @ [DQ];
          b2 = append_dsml_attr_escaped b1 (arg_key a) @ [DQ] @ '' string='' @ [DQ];
          b3 = b2 @ (if is_string a then ''true'' else ''false'') @ [DQ] @ ''>'';
          b4 = (if is_string a then append_dsml_parameter_text b3 (arg_value a)
                else append_dsml_json_literal b3 (arg_value a))
      in b4 @ DS4_PARAM_END @ [NL])"

fun append_ordered_args :: "string \<Rightarrow> json_arg list \<Rightarrow> cstr list \<Rightarrow> string \<times> json_arg list" where
  \<comment> \<open>the loop over \<open>order->prop\<close>\<close>
  "append_ordered_args b args [] = (b, args)"
| "append_ordered_args b args (p # ps) =
     (case json_args_find_unused args p of
        None \<Rightarrow> append_ordered_args b args ps
      | Some idx \<Rightarrow>
          append_ordered_args (append_dsml_arg b (args ! idx))
            (args[idx := (args ! idx)\<lparr>used := True\<rparr>]) ps)"

fun append_unused_args :: "string \<Rightarrow> json_arg list \<Rightarrow> string" where
  "append_unused_args b [] = b"
| "append_unused_args b (a # as) =
     append_unused_args (if used a then b else append_dsml_arg b a) as"

text \<open>\<open>append_dsml_arguments_from_json\<close>: None is the return value false, with the buffer as it
  was.\<close>

definition append_dsml_arguments_from_json ::
  "string \<Rightarrow> cstr option \<Rightarrow> tool_schema_order option \<Rightarrow> string option" where
  "append_dsml_arguments_from_json b json order =
     (case json_args_parse json of
        None \<Rightarrow> None
      | Some args \<Rightarrow>
          let (b1, args1) = (case order of
                               None \<Rightarrow> (b, args)
                             | Some ord \<Rightarrow> append_ordered_args b args (so_prop ord))
          in Some (append_unused_args b1 args1))"

definition append_json_arg_pair :: "string \<Rightarrow> json_arg \<Rightarrow> string" where
  "append_json_arg_pair b a =
     (let b1 = json_escape b (arg_key a) @ '':''
      in if is_string a then json_escape b1 (arg_value a) else b1 @ arg_value a)"

fun append_json_pairs :: "string \<Rightarrow> bool \<Rightarrow> json_arg list \<Rightarrow> string" where
  "append_json_pairs b wrote [] = b"
| "append_json_pairs b wrote (a # as) =
     append_json_pairs (append_json_arg_pair (if wrote then b @ '','' else b) a) True as"

definition append_json_object_or_empty :: "string \<Rightarrow> cstr option \<Rightarrow> string" where
  "append_json_object_or_empty b json =
     (case json_args_parse json of
        None \<Rightarrow> b @ ''{}''
      | Some args \<Rightarrow> append_json_pairs (b @ ''{'') False args @ ''}'')"

section \<open>Tool calls\<close>

fun append_dsml_invokes :: "string \<Rightarrow> tool_call list \<Rightarrow> string" where
  "append_dsml_invokes b [] = b"
| "append_dsml_invokes b (tc # tcs) =
     (let b1 = append_dsml_attr_escaped (b @ DS4_INVOKE_START @ '' name='' @ [DQ]) (or_empty (tc_name tc))
               @ [DQ] @ ''>'' @ [NL];
          b2 = (case append_dsml_arguments_from_json b1 (tc_arguments tc) None of
                  Some b' \<Rightarrow> b'
                | None \<Rightarrow>
                    append_dsml_parameter_text
                      (b1 @ DS4_PARAM_START @ '' name='' @ [DQ] @ ''arguments'' @ [DQ] @
                       '' string='' @ [DQ] @ ''true'' @ [DQ] @ ''>'')
                      (or_empty (tc_arguments tc)) @ DS4_PARAM_END @ [NL])
      in append_dsml_invokes (b2 @ DS4_INVOKE_END @ [NL]) tcs)"

definition append_dsml_tool_calls_text :: "string \<Rightarrow> tool_calls \<Rightarrow> string" where
  "append_dsml_tool_calls_text b cs =
     (if calls_v cs = [] then b
      else if raw_dsml cs \<noteq> None \<and> raw_dsml cs \<noteq> Some [] then b @ the (raw_dsml cs)
      else append_dsml_invokes (b @ [NL, NL] @ DS4_TOOL_CALLS_START @ [NL]) (calls_v cs)
           @ DS4_TOOL_CALLS_END)"

section \<open>The prompt\<close>

definition role_is_system :: "cstr \<Rightarrow> bool" where
  "role_is_system rl \<longleftrightarrow> rl = ''system'' \<or> rl = ''developer''"

definition role_is_user_like :: "cstr \<Rightarrow> bool" where
  "role_is_user_like rl \<longleftrightarrow> rl = ''user'' \<or> rl = ''tool'' \<or> rl = ''function''"

text \<open>The role of a message handed to the renderer is never NULL (see \<open>message_defaults\<close>).\<close>

abbreviation msg_role :: "chat_msg \<Rightarrow> cstr" where
  "msg_role m \<equiv> or_empty (role m)"

definition BOS :: string where
  "BOS = ''<'' @ BAR @ ''begin'' @ [CHR 0xE2, CHR 0x96, CHR 0x81] @ ''of'' @
     [CHR 0xE2, CHR 0x96, CHR 0x81] @ ''sentence'' @ BAR @ ''>''"

definition EOS :: string where
  "EOS = ''<'' @ BAR @ ''end'' @ [CHR 0xE2, CHR 0x96, CHR 0x81] @ ''of'' @
     [CHR 0xE2, CHR 0x96, CHR 0x81] @ ''sentence'' @ BAR @ ''>''"

definition USER_TAG :: string where "USER_TAG = ''<'' @ BAR @ ''User'' @ BAR @ ''>''"
definition ASSISTANT_TAG :: string where "ASSISTANT_TAG = ''<'' @ BAR @ ''Assistant'' @ BAR @ ''>''"

definition ds4_think_max_prefix :: string where
  "ds4_think_max_prefix =
     ''Reasoning Effort: Absolute maximum with no shortcuts permitted.'' @ [NL] @
     ''You MUST be very thorough in your thinking and comprehensively decompose the problem to resolve the root cause, rigorously stress-testing your logic against all potential paths, edge cases, and adversarial scenarios.'' @ [NL] @
     ''Explicitly write out your entire deliberation process, documenting every intermediate step, considered alternative, and rejected hypothesis to ensure absolutely no assumption is left unchecked.'' @ [NL, NL]"

definition append_tools_prompt_text :: "string \<Rightarrow> cstr \<Rightarrow> string" where
  "append_tools_prompt_text b tool_schemas =
     (if tool_schemas = [] then b
      else b @
        ''## Tools'' @ [NL, NL] @
        ''You have access to a set of tools to help answer the user question. '' @
        ''You can invoke tools by writing a '' @ [DQ] @ DS4_TOOL_CALLS_START @ [DQ] @
        '' block like the following:'' @ [NL, NL] @
        DS4_TOOL_CALLS_START @ [NL] @
        DS4_INVOKE_START @ '' name='' @ [DQ] @ ''$TOOL_NAME'' @ [DQ] @ ''>'' @ [NL] @
        DS4_PARAM_START @ '' name='' @ [DQ] @ ''$PARAMETER_NAME'' @ [DQ] @ '' string='' @ [DQ] @
        ''true|false'' @ [DQ] @ ''>$PARAMETER_VALUE'' @ DS4_PARAM_END @ [NL] @
        ''...'' @ [NL] @
        DS4_INVOKE_END @ [NL] @
        DS4_INVOKE_START @ '' name='' @ [DQ] @ ''$TOOL_NAME2'' @ [DQ] @ ''>'' @ [NL] @
        ''...'' @ [NL] @
        DS4_INVOKE_END @ [NL] @
        DS4_TOOL_CALLS_END @ [NL, NL] @
        ''String parameters should be specified as raw text and set `string='' @ [DQ] @ ''true'' @ [DQ] @ ''`. '' @
        ''Preserve characters such as `>`, `&`, and `&&` exactly; never replace normal string characters with XML or HTML entity escapes. '' @
        ''Only if a string value itself contains the exact closing parameter tag `'' @ DS4_PARAM_END @
        ''`, write that tag as `&lt;/'' @ DS4_DSML @ ''parameter>` inside the value. '' @
        ''For all other types (numbers, booleans, arrays, objects), pass the value in JSON format and set `string='' @
        [DQ] @ ''false'' @ [DQ] @ ''`.'' @ [NL, NL] @
        ''If thinking_mode is enabled (triggered by <think>), you MUST output your complete reasoning inside <think>...</think> BEFORE any tool calls or final response.'' @ [NL, NL] @
        ''Otherwise, output directly after </think> with tool calls or final response.'' @ [NL, NL] @
        ''### Available Tool Schemas'' @ [NL, NL] @
        tool_schemas @
        [NL, NL] @ ''You MUST strictly follow the above defined tool name and parameter schemas to invoke tool calls. '' @
        ''Use the exact parameter names from the schemas.'')"

fun render_system :: "string \<Rightarrow> chat_msgs \<Rightarrow> string" where
  "render_system system [] = system"
| "render_system system (m # ms) =
     (if \<not> role_is_system (msg_role m) then render_system system ms
      else render_system
             ((if system \<noteq> [] then system @ [NL, NL] else system) @ or_empty (content m)) ms)"

text \<open>The second loop: the index of the last user-like message and whether tools are in play.\<close>

fun render_scan :: "nat \<Rightarrow> int \<Rightarrow> bool \<Rightarrow> chat_msgs \<Rightarrow> int \<times> bool" where
  "render_scan i last_user_idx tool_context [] = (last_user_idx, tool_context)"
| "render_scan i last_user_idx tool_context (m # ms) =
     render_scan (Suc i)
       (if role_is_user_like (msg_role m) then int i else last_user_idx)
       (tool_context \<or> msg_role m = ''assistant'' \<and> length (calls_v (calls m)) > 0 \<or>
        msg_role m = ''tool'' \<or> msg_role m = ''function'') ms"

text \<open>The third loop carries the output and the two pending flags.\<close>

record render_state =
  out :: string
  pending_assistant :: bool
  pending_tool_result :: bool

definition render_message ::
  "bool \<Rightarrow> bool \<Rightarrow> int \<Rightarrow> nat \<Rightarrow> chat_msg \<Rightarrow> render_state \<Rightarrow> render_state" where
  "render_message think tool_context last_user_idx i m st =
     (if role_is_system (msg_role m) then st
      else if msg_role m = ''user'' then
        \<lparr>out = out st @ USER_TAG @ or_empty (content m),
         pending_assistant = True, pending_tool_result = False\<rparr>
      else if msg_role m = ''tool'' \<or> msg_role m = ''function'' then
        (let o1 = (if \<not> pending_tool_result st then out st @ USER_TAG else out st)
         in \<lparr>out = append_dsml_text_escaped (o1 @ ''<tool_result>'') (or_empty (content m))
                   @ ''</tool_result>'',
             pending_assistant = True, pending_tool_result = True\<rparr>)
      else if msg_role m = ''assistant'' then
        (let o1 =
           (if pending_assistant st then
              out st @ ASSISTANT_TAG @
              (if think then
                 (if tool_context \<or> int i > last_user_idx
                  then ''<think>'' @ or_empty (reasoning m) @ ''</think>''
                  else ''</think>'')
               else ''</think>'')
            else out st)
         in \<lparr>out = append_dsml_tool_calls_text (o1 @ or_empty (content m)) (calls m) @ EOS,
             pending_assistant = False, pending_tool_result = False\<rparr>)
      else st)"

fun render_messages ::
  "bool \<Rightarrow> bool \<Rightarrow> int \<Rightarrow> nat \<Rightarrow> chat_msgs \<Rightarrow> render_state \<Rightarrow> render_state" where
  "render_messages think tool_context last_user_idx i [] st = st"
| "render_messages think tool_context last_user_idx i (m # ms) st =
     render_messages think tool_context last_user_idx (Suc i) ms
       (render_message think tool_context last_user_idx i m st)"

definition render_chat_prompt_text :: "chat_msgs \<Rightarrow> cstr option \<Rightarrow> think_mode \<Rightarrow> cstr" where
  "render_chat_prompt_text msgs tool_schemas think_mode =
     (let think = ds4_think_mode_enabled think_mode;
          has_schemas = (tool_schemas \<noteq> None \<and> tool_schemas \<noteq> Some []);
          system0 = render_system [] msgs;
          (last_user_idx, tool_context) = render_scan 0 (- 1) has_schemas msgs;
          system = (if has_schemas then
                      append_tools_prompt_text
                        (if system0 \<noteq> [] then system0 @ [NL, NL] else system0) (the tool_schemas)
                    else system0);
          out0 = BOS @ (if think_mode = THINK_MAX then ds4_think_max_prefix else []) @ system;
          st = render_messages think tool_context last_user_idx 0 msgs
                 \<lparr>out = out0, pending_assistant = False, pending_tool_result = False\<rparr>
      in out st @
         (if pending_assistant st then ASSISTANT_TAG @ (if think then ''<think>'' else ''</think>'')
          else []))"

end
