(* ===== verification/DsmlParse.thy ===== *)
theory DsmlParse
  imports Render
begin

text \<open>
  Reading generated text back (ds4_server.c): looking for tool-call markers, splitting reasoning
  from content, and \<open>parse_generated_message\<close>, which turns a DSML block into tool calls with JSON
  arguments. A pointer into the text is the suffix it points to, an offset is a number.
\<close>

section \<open>Markers\<close>

definition plus_offset :: "nat option \<Rightarrow> nat option \<Rightarrow> nat option" where
  \<comment> \<open>the selection loop over the candidates: \<open>c && (!best || c < best)\<close>\<close>
  "plus_offset best c =
     (case c of None \<Rightarrow> best
      | Some i \<Rightarrow> (case best of None \<Rightarrow> Some i | Some j \<Rightarrow> if i < j then Some i else best))"

definition find_any_tool_start :: "string \<Rightarrow> nat option" where
  "find_any_tool_start s =
     foldl plus_offset None
       [strstr s DS4_TOOL_CALLS_START, strstr s DS4_TOOL_CALLS_START_SHORT, strstr s ''<tool_calls>'']"

definition find_any_tool_end :: "string \<Rightarrow> nat option" where
  "find_any_tool_end s =
     foldl plus_offset None
       [strstr s DS4_TOOL_CALLS_END, strstr s DS4_TOOL_CALLS_END_SHORT, strstr s ''</tool_calls>'']"

record marker_state =
  saw_start :: bool
  saw_end :: bool
  orphan_end :: bool

definition observe_tool_markers :: "string \<Rightarrow> marker_state \<Rightarrow> marker_state" where
  "observe_tool_markers scan st =
     (let had_start = saw_start st;
          start = find_any_tool_start scan;
          st1 = (if start \<noteq> None then st\<lparr>saw_start := True\<rparr> else st);
          end_scan = (if had_start then Some scan
                      else case start of Some i \<Rightarrow> Some (drop i scan) | None \<Rightarrow> None);
          end_found = (case end_scan of Some t \<Rightarrow> find_any_tool_end t \<noteq> None | None \<Rightarrow> False)
      in if end_found then st1\<lparr>saw_end := True\<rparr>
         else if \<not> had_start \<and> start = None \<and> find_any_tool_end scan \<noteq> None
         then st1\<lparr>orphan_end := True\<rparr> else st1)"

function trim_tool_separator_ws :: "string \<Rightarrow> nat \<Rightarrow> nat \<Rightarrow> nat" where
  "trim_tool_separator_ws raw start limit =
     (if limit > start \<and> isspace (raw ! (limit - 1))
      then trim_tool_separator_ws raw start (limit - 1) else limit)"
  by pat_completeness auto
termination
  by (relation "measure (\<lambda>(raw, start, limit). limit)") auto

declare trim_tool_separator_ws.simps [simp del]

definition skip_ascii_ws :: "string \<Rightarrow> string" where
  "skip_ascii_ws p = dropWhile isspace p"

section \<open>Attributes, arguments, reasoning\<close>

definition strchr :: "string \<Rightarrow> char \<Rightarrow> nat option" where
  "strchr s c = (if c \<in> set s then Some (length (takeWhile (\<lambda>x. x \<noteq> c) s)) else None)"

definition dsml_attr :: "cstr \<Rightarrow> cstr \<Rightarrow> cstr option" where
  "dsml_attr tag name =
     (let pat = name @ ''='' @ [DQ] in
      case strstr tag pat of
        None \<Rightarrow> None
      | Some i \<Rightarrow>
          let p = drop (i + length pat) tag in
          case strchr p DQ of
            None \<Rightarrow> None
          | Some q \<Rightarrow> Some (dsml_unescape_text (take q p)))"

definition tool_call_json_args_add :: "string \<Rightarrow> cstr \<Rightarrow> cstr \<Rightarrow> cstr \<Rightarrow> string" where
  "tool_call_json_args_add args name value is_str =
     (let a1 = (if args \<noteq> [] then args @ '', '' else args);
          a2 = json_escape a1 name @ '': ''
      in if is_str = ''true'' then json_escape a2 value
         else (let mini = json_minify_raw_value (Some value)
               in a2 @ (if mini \<noteq> [] then mini else ''null'')))"

definition split_reasoning_content :: "string \<Rightarrow> nat \<Rightarrow> cstr \<times> cstr option" where
  \<comment> \<open>(content, reasoning)\<close>
  "split_reasoning_content text n =
     (let s = c_str (take n text);
          body = (if prefix ''<think>'' s then drop 7 s else s)
      in case strstr body ''</think>'' of
           Some i \<Rightarrow> (drop (i + 8) body, Some (take i body))
         | None \<Rightarrow> (s, None))"

section \<open>The parser of generated DSML\<close>

record dsml_style =
  tool_calls_start :: string
  tool_calls_end :: string
  invoke_start :: string
  invoke_end :: string
  param_start :: string
  param_end :: string

definition style_dsml :: dsml_style where
  "style_dsml = \<lparr>tool_calls_start = DS4_TOOL_CALLS_START, tool_calls_end = DS4_TOOL_CALLS_END,
     invoke_start = DS4_INVOKE_START, invoke_end = DS4_INVOKE_END,
     param_start = DS4_PARAM_START, param_end = DS4_PARAM_END\<rparr>"

definition style_xml :: dsml_style where
  "style_xml = \<lparr>tool_calls_start = ''<tool_calls>'', tool_calls_end = ''</tool_calls>'',
     invoke_start = ''<invoke'', invoke_end = ''</invoke>'',
     param_start = ''<parameter'', param_end = ''</parameter>''\<rparr>"

definition style_short :: dsml_style where
  "style_short = \<lparr>tool_calls_start = DS4_TOOL_CALLS_START_SHORT, tool_calls_end = DS4_TOOL_CALLS_END_SHORT,
     invoke_start = DS4_INVOKE_START_SHORT, invoke_end = DS4_INVOKE_END_SHORT,
     param_start = DS4_PARAM_START_SHORT, param_end = DS4_PARAM_END_SHORT\<rparr>"

text \<open>The six searches for the start of the block, in the order of the code.\<close>

definition find_block_start :: "string \<Rightarrow> (nat \<times> dsml_style) option" where
  "find_block_start text =
     (case strstr text ([NL, NL] @ DS4_TOOL_CALLS_START) of Some i \<Rightarrow> Some (i, style_dsml) | None \<Rightarrow>
     (case strstr text DS4_TOOL_CALLS_START of Some i \<Rightarrow> Some (i, style_dsml) | None \<Rightarrow>
     (case strstr text ([NL, NL] @ DS4_TOOL_CALLS_START_SHORT) of Some i \<Rightarrow> Some (i, style_short) | None \<Rightarrow>
     (case strstr text DS4_TOOL_CALLS_START_SHORT of Some i \<Rightarrow> Some (i, style_short) | None \<Rightarrow>
     (case strstr text ([NL, NL] @ ''<tool_calls>'') of Some i \<Rightarrow> Some (i, style_xml) | None \<Rightarrow>
     (case strstr text ''<tool_calls>'' of Some i \<Rightarrow> Some (i, style_xml) | None \<Rightarrow> None))))))"

lemma skip_ascii_ws_length: "length (skip_ascii_ws p) \<le> length p"
  by (simp add: skip_ascii_ws_def length_dropWhile_le)

lemma strchr_less: "strchr s c = Some k \<Longrightarrow> k < length s"
proof -
  assume "strchr s c = Some k"
  then have c: "c \<in> set s" and k: "k = length (takeWhile (\<lambda>x. x \<noteq> c) s)"
    by (auto simp: strchr_def split: if_splits)
  from c have "takeWhile (\<lambda>x. x \<noteq> c) s \<noteq> s" by (auto simp: takeWhile_eq_all_conv)
  then show ?thesis using k by (metis length_takeWhile_le nat_less_le takeWhile_eq_take take_all_iff)
qed

lemma strchr_drop_length: "strchr s c = Some k \<Longrightarrow> length (drop (Suc k) s) < length s"
  using strchr_less [of s c k] by simp

text \<open>The inner loop over the parameters of one invocation, from behind the \<open>invoke\<close> tag to
  behind its end tag.\<close>

function dsml_params_loop :: "dsml_style \<Rightarrow> string \<Rightarrow> string \<Rightarrow> (string \<times> string) option" where
  "dsml_params_loop st args p0 =
     (let p = skip_ascii_ws p0 in
      if prefix (invoke_end st) p then Some (args, drop (length (invoke_end st)) p)
      else if \<not> prefix (param_start st) p then None
      else case strchr p (CHR ''>'') of
             None \<Rightarrow> None
           | Some tag_end \<Rightarrow>
               let tag = take (Suc tag_end) p;
                   param_name = dsml_attr tag ''name'';
                   param_is_string = dsml_attr tag ''string''
               in if param_name = None \<or> param_is_string = None then None
                  else let value_start = drop (Suc tag_end) p in
                       case strstr value_start (param_end st) of
                         None \<Rightarrow> None
                       | Some value_end \<Rightarrow>
                           let raw_value = take value_end value_start;
                               value = (if the param_is_string = ''true''
                                        then dsml_unescape_text raw_value else raw_value)
                           in dsml_params_loop st
                                (tool_call_json_args_add args (the param_name) value (the param_is_string))
                                (drop (value_end + length (param_end st)) value_start))"
  by pat_completeness auto
termination
proof (relation "measure (\<lambda>(st, args, p). length p)", goal_cases)
  case (2 st args p0 p tag_end)
  then show ?case
    using strchr_drop_length [of p "CHR ''>''" tag_end] skip_ascii_ws_length [of p0] by auto
qed simp

declare dsml_params_loop.simps [simp del]

text \<open>The outer loop over the invocations; the result holds the text behind the block.\<close>

function dsml_invokes_loop :: "dsml_style \<Rightarrow> tool_calls \<Rightarrow> string \<Rightarrow> (tool_calls \<times> string) option" where
  "dsml_invokes_loop st cs p0 =
     (let p = skip_ascii_ws p0 in
      if prefix (tool_calls_end st) p then Some (cs, drop (length (tool_calls_end st)) p)
      else if \<not> prefix (invoke_start st) p then None
      else case strchr p (CHR ''>'') of
             None \<Rightarrow> None
           | Some tag_end \<Rightarrow>
               (case dsml_attr (take (Suc tag_end) p) ''name'' of
                  None \<Rightarrow> None
                | Some name \<Rightarrow>
                    (case dsml_params_loop st [] (drop (Suc tag_end) p) of
                       None \<Rightarrow> None
                     | Some (args, p2) \<Rightarrow>
                         if length p2 < length p0 then
                           dsml_invokes_loop st
                             (tool_calls_push cs \<lparr>tc_id = None, tc_name = Some name,
                                tc_arguments = Some (''{'' @ args @ ''}'')\<rparr>) p2
                         else None)))"
  by pat_completeness auto
termination
  by (relation "measure (\<lambda>(st, cs, p). length p)") auto

declare dsml_invokes_loop.simps [simp del]

definition parse_generated_message ::
  "string \<Rightarrow> tool_calls \<Rightarrow> (cstr \<times> cstr option \<times> tool_calls) option" where
  "parse_generated_message text cs =
     (case find_block_start text of
        None \<Rightarrow>
          let (content, reasoning) = split_reasoning_content text (length text)
          in Some (content, reasoning, cs)
      | Some (start, st) \<Rightarrow>
          let content_len = trim_tool_separator_ws text 0 start;
              block = drop start text
          in case strstr block (tool_calls_start st) of
               None \<Rightarrow> None
             | Some i \<Rightarrow>
                 (case dsml_invokes_loop st cs (drop (i + length (tool_calls_start st)) block) of
                    None \<Rightarrow> None
                  | Some (cs', rest) \<Rightarrow>
                      let (content, reasoning) = split_reasoning_content text content_len
                      in Some (content, reasoning, cs'\<lparr>raw_dsml := Some (slice block rest)\<rparr>)))"

section \<open>The guard of the outer loop is never false\<close>

lemma dsml_params_loop_length:
  "dsml_params_loop st args p = Some (a, r) \<Longrightarrow> length r \<le> length p"
proof (induction st args p rule: dsml_params_loop.induct)
  case (1 st args p0)
  let ?p = "skip_ascii_ws p0"
  show ?case
  proof (cases "prefix (invoke_end st) ?p")
    case True
    with 1(2) have "r = drop (length (invoke_end st)) ?p"
      by (simp add: dsml_params_loop.simps [of st args p0])
    then show ?thesis using skip_ascii_ws_length [of p0] by simp
  next
    case False
    from 1(2) False obtain k n s v where
      k: "strchr ?p (CHR ''>'') = Some k" and ns: "prefix (param_start st) ?p"
      "dsml_attr (take (Suc k) ?p) ''name'' = Some n" "dsml_attr (take (Suc k) ?p) ''string'' = Some s"
      and v: "strstr (drop (Suc k) ?p) (param_end st) = Some v"
      and rec: "dsml_params_loop st
         (tool_call_json_args_add args n
           (if s = ''true'' then dsml_unescape_text (take v (drop (Suc k) ?p)) else take v (drop (Suc k) ?p)) s)
         (drop (v + length (param_end st)) (drop (Suc k) ?p)) = Some (a, r)"
      by (subst (asm) dsml_params_loop.simps)
         (simp only: Let_def if_False split: if_splits option.splits; auto)
    have "length r \<le> length (drop (v + length (param_end st)) (drop (Suc k) ?p))"
      using 1(1) [OF refl False _ k refl refl refl _ refl v refl refl] ns rec by auto
    also have "\<dots> \<le> length p0" using skip_ascii_ws_length [of p0] by simp
    finally show ?thesis .
  qed
qed

lemma dsml_invoke_shorter:
  assumes "strchr (skip_ascii_ws p0) (CHR ''>'') = Some k"
    and "dsml_params_loop st [] (drop (Suc k) (skip_ascii_ws p0)) = Some (args, p2)"
  shows "length p2 < length p0"
  using dsml_params_loop_length [OF assms(2)] strchr_drop_length [OF assms(1)]
    skip_ascii_ws_length [of p0] by linarith

end
