(* ===== verification/ToolRoundtrip.thy ===== *)
theory ToolRoundtrip
  imports DsmlParse
begin

text \<open>
  Tool calls written into a prompt and read back: the renderer's text is parsed to the same calls,
  and kept as the exact text that a later rendering replays. This is what makes a prompt that
  contains earlier tool calls a stable key of the KV cache.
\<close>

section \<open>Rendering as plain concatenation\<close>

fun json_literal :: "string \<Rightarrow> string" where
  "json_literal [] = []"
| "json_literal (c # s) =
     (if prefix DS4_PARAM_END (c # s) then [BACKSLASH] @ ''u003c'' else [c]) @ json_literal s"

lemma append_dsml_json_literal_eq: "append_dsml_json_literal b s = b @ json_literal s"
  by (induction b s rule: append_dsml_json_literal.induct) auto

definition attr_text :: "string \<Rightarrow> string" where
  "attr_text s = concat (map attr_char s)"

definition value_text :: "json_arg \<Rightarrow> string" where
  "value_text a = (if is_string a then param_text (arg_value a) else json_literal (arg_value a))"

definition arg_tag :: "json_arg \<Rightarrow> string" where
  "arg_tag a = DS4_PARAM_START @ '' name='' @ [DQ] @ attr_text (arg_key a) @ [DQ] @ '' string='' @
     [DQ] @ (if is_string a then ''true'' else ''false'') @ [DQ]"

definition dsml_arg_text :: "json_arg \<Rightarrow> string" where
  "dsml_arg_text a = arg_tag a @ ''>'' @ value_text a @ DS4_PARAM_END @ [NL]"

lemma append_dsml_arg_eq: "append_dsml_arg b a = b @ dsml_arg_text a"
  by (simp add: append_dsml_arg_def Let_def append_dsml_attr_escaped_concat dsml_arg_text_def
      append_dsml_parameter_text_eq append_dsml_json_literal_eq arg_tag_def value_text_def attr_text_def)

lemma append_unused_args_eq:
  "append_unused_args b args = b @ concat (map dsml_arg_text (filter (\<lambda>a. \<not> used a) args))"
  by (induction b args rule: append_unused_args.induct) (simp_all add: append_dsml_arg_eq)

section \<open>Tags are read back\<close>

lemma strchr_append: "c \<notin> set a \<Longrightarrow> strchr (a @ c # b) c = Some (length a)"
  unfolding strchr_def by (subst takeWhile_append2) auto

lemma attr_text_clean: "DQ \<notin> set (attr_text s)" "CHR ''>'' \<notin> set (attr_text s)"
  by (auto simp: attr_text_def attr_char_def)

lemma dsml_unescape_attr_text: "dsml_unescape_text (attr_text s) = s"
  by (simp add: dsml_unescape_text_def attr_text_def dsml_unescape_attr)

lemma dsml_attr_at:
  assumes "strstr tag (name @ ''='' @ [DQ]) = Some i"
    and "drop (i + length (name @ ''='' @ [DQ])) tag = attr_text v @ DQ # r"
  shows "dsml_attr tag name = Some v"
  using assms strchr_append [OF attr_text_clean(1), of v r]
  by (simp add: dsml_attr_def Let_def dsml_unescape_attr_text)

lemma strstr_skip:
  "(\<And>j. j < length a \<Longrightarrow> \<not> prefix needle (drop j a @ s)) \<Longrightarrow>
     strstr (a @ s) needle = map_option ((+) (length a)) (strstr s needle)"
proof (induction a)
  case Nil
  show ?case by (simp add: option.map_ident)
next
  case (Cons c a)
  have "\<not> prefix needle ((c # a) @ s)" using Cons.prems [of 0] by simp
  moreover have "strstr (a @ s) needle = map_option ((+) (length a)) (strstr s needle)"
    using Cons.prems [of "Suc j" for j] by (intro Cons.IH) auto
  ultimately show ?case
    by (subst strstr.simps) (cases "strstr s needle"; simp)
qed

lemma strstr_here: "prefix needle s \<Longrightarrow> strstr s needle = Some 0"
  by (subst strstr.simps) simp

lemma strstr_at:
  "(\<And>j. j < length a \<Longrightarrow> \<not> prefix needle (drop j a @ needle @ s)) \<Longrightarrow>
     strstr (a @ needle @ s) needle = Some (length a)"
  using strstr_skip [of a needle "needle @ s"] strstr_here [of needle "needle @ s"] by simp

lemma no_start_skip: "c \<notin> set a \<Longrightarrow> j < length a \<Longrightarrow> \<not> prefix (c # cs) (drop j a @ s)"
  using set_drop_subset [of j a] by (cases "drop j a") auto

text \<open>A needle that ends in a quote cannot start inside quote-free text unless it ends at the
  quote behind that text.\<close>

lemma quoted_needle_skip:
  assumes "DQ \<notin> set a" "DQ \<notin> set w" "\<not> suffix w a" "w \<noteq> []" "j < length a"
  shows "\<not> prefix (w @ [DQ]) (drop j a @ DQ # s)"
proof
  assume "prefix (w @ [DQ]) (drop j a @ DQ # s)"
  then obtain t where t: "drop j a @ DQ # s = w @ DQ # t" by (auto simp: prefix_def)
  have "DQ \<notin> set (drop j a)" using assms(1) by (meson in_set_dropD)
  then have "takeWhile (\<lambda>c. c \<noteq> DQ) (drop j a @ DQ # s) = drop j a"
    by (subst takeWhile_append2) auto
  moreover have "takeWhile (\<lambda>c. c \<noteq> DQ) (w @ DQ # t) = w"
    using assms(2) by (subst takeWhile_append2) auto
  ultimately have "drop j a = w" using t by simp
  then show False using assms(3) by (metis suffix_drop)
qed

section \<open>One parameter\<close>

definition arg_ok :: "json_arg \<Rightarrow> bool" where
  "arg_ok a \<longleftrightarrow> \<not> used a \<and> \<not> suffix ''string='' (attr_text (arg_key a)) \<and>
     (if is_string a then CHR ''&'' \<notin> set (arg_value a)
      else strstr (arg_value a @ DS4_PARAM_END) DS4_PARAM_END = Some (length (arg_value a)) \<and>
           json_minify_raw_value (Some (arg_value a)) = arg_value a \<and> arg_value a \<noteq> [])"

lemma strstr_append_Some: "strstr s needle = Some i \<Longrightarrow> strstr (s @ t) needle = Some i"
proof (induction s arbitrary: i)
  case Nil
  then have "needle = []" "i = 0" by (auto simp: strstr.simps [of "[]"] split: if_splits)
  then show ?case by (simp add: strstr_here)
next
  case (Cons c s)
  show ?case
  proof (cases "prefix needle (c # s)")
    case True
    then have "prefix needle (c # s @ t)" by (metis append_Cons prefix_prefix)
    with True Cons.prems show ?thesis by (simp add: strstr.simps [of "c # _"])
  next
    case False
    with Cons.prems obtain k where k: "strstr s needle = Some k" "i = Suc k"
      by (auto simp: strstr.simps [of "c # s"])
    have "\<not> prefix needle (c # s @ t)"
    proof
      assume "prefix needle (c # s @ t)"
      moreover have "length needle \<le> length (c # s)"
        using occurs_at_length [OF strstr_Some [OF k(1)]] by simp
      ultimately have "prefix needle (c # s)"
        by (metis append_Cons prefix_length_prefix prefixI)
      with False show False by simp
    qed
    with k Cons.IH [OF k(1)] show ?thesis by (simp add: strstr.simps [of "c # s @ t"])
  qed
qed

lemma json_literal_id:
  "strstr (v @ DS4_PARAM_END) DS4_PARAM_END = Some (length v) \<Longrightarrow> json_literal v = v"
proof (induction v)
  case (Cons c v)
  from Cons.prems have "\<not> prefix DS4_PARAM_END (c # v @ DS4_PARAM_END)"
    by (auto simp: strstr.simps [of "c # _"] split: if_splits)
  moreover from this Cons.prems have "strstr (v @ DS4_PARAM_END) DS4_PARAM_END = Some (length v)"
    by (auto simp: strstr.simps [of "c # _"])
  moreover have "prefix DS4_PARAM_END (c # v) \<Longrightarrow> prefix DS4_PARAM_END (c # v @ DS4_PARAM_END)"
    using prefix_prefix [of DS4_PARAM_END "c # v" DS4_PARAM_END] by simp
  ultimately show ?case using Cons.IH by auto
qed simp

lemma arg_tag_parts:
  "arg_tag a = (DS4_PARAM_START @ '' '') @ (''name'' @ ''='' @ [DQ]) @ attr_text (arg_key a) @ DQ #
     '' string='' @ [DQ] @ (if is_string a then ''true'' else ''false'') @ [DQ]"
  by (simp add: arg_tag_def)

lemma arg_tag_no_gt: "CHR ''>'' \<notin> set (arg_tag a)"
  by (simp add: arg_tag_def attr_text_clean dsml_tag_defs)

lemma arg_tag_name: "dsml_attr (arg_tag a @ ''>'') ''name'' = Some (arg_key a)"
proof (rule dsml_attr_at)
  show "strstr (arg_tag a @ ''>'') (''name'' @ ''='' @ [DQ]) = Some (length (DS4_PARAM_START @ '' ''))"
    by (simp add: arg_tag_def dsml_tag_defs strstr.simps)
qed (simp add: arg_tag_parts)

lemma arg_tag_string:
  assumes "\<not> suffix ''string='' (attr_text (arg_key a))"
  shows "dsml_attr (arg_tag a @ ''>'') ''string'' = Some (if is_string a then ''true'' else ''false'')"
proof -
  let ?w = "''string=''" and ?k = "attr_text (arg_key a)"
  let ?h = "DS4_PARAM_START @ '' name='' @ [DQ]"
  let ?v = "if is_string a then ''true'' else ''false''"
  let ?tail = "(?w @ [DQ]) @ ?v @ DQ # ''>''"
  have tag: "arg_tag a @ ''>'' = ?h @ ?k @ (DQ # '' '') @ ?tail"
    by (simp add: arg_tag_def)
  have 1: "strstr ((DQ # '' '') @ ?tail) (?w @ [DQ]) = Some 2"
    by (simp add: strstr.simps)
  have 2: "strstr (?k @ (DQ # '' '') @ ?tail) (?w @ [DQ]) = Some (length ?k + 2)"
  proof -
    have "\<not> prefix (?w @ [DQ]) (drop j ?k @ (DQ # '' '') @ ?tail)" if "j < length ?k" for j
      using quoted_needle_skip [OF attr_text_clean(1) _ assms _ that, of "'' '' @ ?tail"] by simp
    from strstr_skip [of ?k "?w @ [DQ]", OF this] 1 show ?thesis by simp
  qed
  have 3: "strstr (?h @ ?k @ (DQ # '' '') @ ?tail) (?w @ [DQ]) = Some (length ?h + (length ?k + 2))"
  proof -
    have "\<not> prefix (?w @ [DQ]) (drop j ?h @ ?k @ (DQ # '' '') @ ?tail)" if "j < length ?h" for j
      using no_start_skip [OF _ that, of "CHR ''s''"] by (simp add: dsml_tag_defs)
    from strstr_skip [of ?h "?w @ [DQ]", OF this] 2 show ?thesis by simp
  qed
  show ?thesis
  proof (rule dsml_attr_at)
    show "strstr (arg_tag a @ ''>'') (''string'' @ ''='' @ [DQ]) = Some (length ?h + (length ?k + 2))"
      using 3 tag by simp
    show "drop (length ?h + (length ?k + 2) + length (''string'' @ ''='' @ [DQ])) (arg_tag a @ ''>'') =
        attr_text ?v @ DQ # ''>''"
    proof -
      let ?x = "?h @ ?k @ (DQ # '' '') @ ?w @ [DQ]"
      have t: "arg_tag a @ ''>'' = ?x @ ?v @ DQ # ''>''" by (subst tag) simp
      have n: "length ?h + (length ?k + 2) + length (''string'' @ ''='' @ [DQ]) = length ?x"
        by simp
      have v: "attr_text ?v = ?v" by (simp add: attr_text_def attr_char_def)
      show ?thesis
        unfolding t n v by (rule drop_length_append)
    qed
  qed
qed

text \<open>What one parameter adds to the JSON arguments, and the whole list.\<close>

definition add_arg :: "string \<Rightarrow> json_arg \<Rightarrow> string" where
  "add_arg acc a =
     tool_call_json_args_add acc (arg_key a) (arg_value a) (if is_string a then ''true'' else ''false'')"

definition canonical_arguments :: "json_arg list \<Rightarrow> cstr" where
  "canonical_arguments args = ''{'' @ foldl add_arg [] args @ ''}''"

lemma skip_ws_tag: "\<not> isspace c \<Longrightarrow> skip_ascii_ws (c # s) = c # s"
  by (simp add: skip_ascii_ws_def)

lemma skip_ws_nl: "skip_ascii_ws (NL # s) = skip_ascii_ws s"
  by (simp add: skip_ascii_ws_def isspace_def byte_of_def)

lemma tag_starts: "\<exists>s. DS4_PARAM_START = CHR ''<'' # s" "\<exists>s. DS4_INVOKE_END = CHR ''<'' # s"
  "\<exists>s. DS4_INVOKE_START = CHR ''<'' # s" "\<exists>s. DS4_TOOL_CALLS_END = CHR ''<'' # s"
  by (auto simp: dsml_tag_defs)

lemma not_space_lt [simp]: "\<not> isspace (CHR ''<'')"
  by (simp add: isspace_def byte_of_def)

lemma skip_ws_tags:
  "skip_ascii_ws (DS4_PARAM_START @ s) = DS4_PARAM_START @ s"
  "skip_ascii_ws (DS4_INVOKE_END @ s) = DS4_INVOKE_END @ s"
  "skip_ascii_ws (DS4_INVOKE_START @ s) = DS4_INVOKE_START @ s"
  "skip_ascii_ws (DS4_TOOL_CALLS_END @ s) = DS4_TOOL_CALLS_END @ s"
  by (simp_all add: dsml_tag_defs skip_ws_tag)

lemma dsml_params_loop_arg:
  assumes ok: "arg_ok a"
  shows "dsml_params_loop style_dsml acc (dsml_arg_text a @ r) =
    dsml_params_loop style_dsml (add_arg acc a) (NL # r)"
proof -
  let ?p = "dsml_arg_text a @ r"
  let ?rest = "value_text a @ DS4_PARAM_END @ NL # r"
  have p: "?p = arg_tag a @ CHR ''>'' # ?rest" by (simp add: dsml_arg_text_def)
  have ws: "skip_ascii_ws ?p = ?p"
    unfolding p arg_tag_def append_assoc by (rule skip_ws_tags)
  have no_end: "\<not> prefix (invoke_end style_dsml) ?p"
    by (simp add: p arg_tag_def style_dsml_def dsml_tag_defs)
  have start: "prefix (param_start style_dsml) ?p"
    by (simp add: p arg_tag_def style_dsml_def)
  have k: "strchr ?p (CHR ''>'') = Some (length (arg_tag a))"
    unfolding p by (rule strchr_append [OF arg_tag_no_gt])
  have tag: "take (Suc (length (arg_tag a))) ?p = arg_tag a @ ''>''"
    by (simp add: p)
  have val: "drop (Suc (length (arg_tag a))) ?p = ?rest" by (simp add: p)
  have name: "dsml_attr (arg_tag a @ ''>'') ''name'' = Some (arg_key a)" by (rule arg_tag_name)
  have str: "dsml_attr (arg_tag a @ ''>'') ''string'' = Some (if is_string a then ''true'' else ''false'')"
    using ok by (intro arg_tag_string) (simp add: arg_ok_def)
  have vend: "strstr ?rest (param_end style_dsml) = Some (length (value_text a))"
  proof (cases "is_string a")
    case True
    then show ?thesis by (simp add: value_text_def style_dsml_def strstr_param_text)
  next
    case False
    with ok have "strstr (arg_value a @ DS4_PARAM_END) DS4_PARAM_END = Some (length (arg_value a))"
      by (simp add: arg_ok_def)
    from strstr_append_Some [OF this, of "NL # r"] json_literal_id [OF this] False
    show ?thesis by (simp add: value_text_def style_dsml_def)
  qed
  have val_eq: "(if (if is_string a then ''true'' else ''false'') = ''true''
      then dsml_unescape_text (value_text a) else value_text a) = arg_value a"
    using ok dsml_unescape_param_text [of "arg_value a" "[]"]
    by (auto simp: arg_ok_def value_text_def dsml_unescape_text_def json_literal_id)
  have rest_eq: "drop (length (value_text a) + length (param_end style_dsml)) ?rest = NL # r"
    by (simp add: style_dsml_def)
  show ?thesis
    by (subst dsml_params_loop.simps)
       (simp only: ws no_end start k tag val name str vend val_eq rest_eq Let_def if_False if_True
          not_True_eq_False not_False_eq_True option.case option.sel option.distinct simp_thms
          take_length_append add_arg_def)
qed

lemma dsml_params_loop_nl: "dsml_params_loop st acc (NL # r) = dsml_params_loop st acc r"
  by (subst (1 2) dsml_params_loop.simps) (simp only: skip_ws_nl)

lemma dsml_params_loop_end:
  "dsml_params_loop style_dsml acc (DS4_INVOKE_END @ r) = Some (acc, r)"
  by (subst dsml_params_loop.simps) (simp add: skip_ws_tags style_dsml_def)

lemma dsml_params_loop_args:
  "\<forall>a \<in> set args. arg_ok a \<Longrightarrow>
     dsml_params_loop style_dsml acc (concat (map dsml_arg_text args) @ DS4_INVOKE_END @ r) =
       Some (foldl add_arg acc args, r)"
proof (induction args arbitrary: acc)
  case Nil
  then show ?case by (simp add: dsml_params_loop_end)
next
  case (Cons a args)
  then show ?case
    using dsml_params_loop_arg [of a acc "concat (map dsml_arg_text args) @ DS4_INVOKE_END @ r"]
    by (simp add: dsml_params_loop_nl)
qed

section \<open>One call, and all of them\<close>

definition invoke_tag :: "tool_call \<Rightarrow> string" where
  "invoke_tag tc = DS4_INVOKE_START @ '' name='' @ [DQ] @ attr_text (or_empty (tc_name tc)) @ [DQ]"

definition call_args :: "tool_call \<Rightarrow> json_arg list" where
  "call_args tc = (case json_args_parse (tc_arguments tc) of Some args \<Rightarrow> args | None \<Rightarrow> [])"

definition call_text :: "tool_call \<Rightarrow> string" where
  "call_text tc = invoke_tag tc @ CHR ''>'' # NL # concat (map dsml_arg_text (call_args tc)) @ DS4_INVOKE_END @ [NL]"

definition call_ok :: "tool_call \<Rightarrow> bool" where
  "call_ok tc \<longleftrightarrow>
     (case json_args_parse (tc_arguments tc) of
        None \<Rightarrow> False | Some args \<Rightarrow> list_all arg_ok args)"

definition call_back :: "tool_call \<Rightarrow> tool_call" where
  "call_back tc = \<lparr>tc_id = None, tc_name = Some (or_empty (tc_name tc)),
     tc_arguments = Some (canonical_arguments (call_args tc))\<rparr>"

lemma call_ok_args: "call_ok tc \<Longrightarrow> \<forall>a \<in> set (call_args tc). arg_ok a"
  by (auto simp: call_ok_def call_args_def list_all_iff split: option.splits)

lemma append_dsml_invokes_eq:
  "\<forall>tc \<in> set tcs. call_ok tc \<Longrightarrow> append_dsml_invokes b tcs = b @ concat (map call_text tcs)"
proof (induction tcs arbitrary: b)
  case (Cons tc tcs)
  then obtain args where args: "json_args_parse (tc_arguments tc) = Some args" "list_all arg_ok args"
    by (auto simp: call_ok_def split: option.splits)
  then have "filter (\<lambda>a. \<not> used a) args = args"
    by (simp add: filter_id_conv list_all_iff arg_ok_def)
  with args Cons show ?case
    by (simp add: Let_def append_dsml_arguments_from_json_def append_unused_args_eq call_text_def
        call_args_def invoke_tag_def append_dsml_attr_escaped_concat attr_text_def)
qed simp

lemma invoke_tag_no_gt: "CHR ''>'' \<notin> set (invoke_tag tc)"
  by (simp add: invoke_tag_def attr_text_clean dsml_tag_defs)

lemma invoke_tag_name: "dsml_attr (invoke_tag tc @ ''>'') ''name'' = Some (or_empty (tc_name tc))"
proof (rule dsml_attr_at)
  show "strstr (invoke_tag tc @ ''>'') (''name'' @ ''='' @ [DQ]) = Some (length (DS4_INVOKE_START @ '' ''))"
    by (simp add: invoke_tag_def dsml_tag_defs strstr.simps)
qed (simp add: invoke_tag_def)

lemma dsml_invokes_loop_nl: "dsml_invokes_loop st cs (NL # r) = dsml_invokes_loop st cs r"
proof -
  have "length p2 < length r \<longleftrightarrow> length p2 < length (NL # r)"
    if "strchr (skip_ascii_ws r) (CHR ''>'') = Some k"
      "dsml_params_loop st [] (drop (Suc k) (skip_ascii_ws r)) = Some (args, p2)" for k args p2
    using dsml_invoke_shorter [OF that] by simp
  then show ?thesis
    by (subst (1 2) dsml_invokes_loop.simps)
       (auto simp: skip_ws_nl Let_def split: option.splits)
qed

lemma dsml_invokes_loop_call:
  assumes ok: "call_ok tc"
  shows "dsml_invokes_loop style_dsml cs (call_text tc @ r) =
    dsml_invokes_loop style_dsml (tool_calls_push cs (call_back tc)) (NL # r)"
proof -
  let ?p = "call_text tc @ r"
  let ?rest = "NL # concat (map dsml_arg_text (call_args tc)) @ DS4_INVOKE_END @ NL # r"
  have p: "?p = invoke_tag tc @ CHR ''>'' # ?rest" by (simp add: call_text_def)
  have ws: "skip_ascii_ws ?p = ?p"
    unfolding p invoke_tag_def append_assoc by (rule skip_ws_tags)
  have no_end: "\<not> prefix (tool_calls_end style_dsml) ?p"
    by (simp add: p invoke_tag_def style_dsml_def dsml_tag_defs)
  have start: "prefix (invoke_start style_dsml) ?p"
    by (simp add: p invoke_tag_def style_dsml_def)
  have k: "strchr ?p (CHR ''>'') = Some (length (invoke_tag tc))"
    unfolding p by (rule strchr_append [OF invoke_tag_no_gt])
  have tag: "take (Suc (length (invoke_tag tc))) ?p = invoke_tag tc @ ''>''" by (simp add: p)
  have val: "drop (Suc (length (invoke_tag tc))) ?p = ?rest" by (simp add: p)
  have name: "dsml_attr (invoke_tag tc @ ''>'') ''name'' = Some (or_empty (tc_name tc))"
    by (rule invoke_tag_name)
  have pars: "dsml_params_loop style_dsml [] ?rest = Some (foldl add_arg [] (call_args tc), NL # r)"
    using dsml_params_loop_args [OF call_ok_args [OF ok], of "[]" "NL # r"]
    by (simp add: dsml_params_loop_nl)
  have len: "length (NL # r) < length ?p" by (simp add: p)
  show ?thesis
    by (subst dsml_invokes_loop.simps)
       (simp only: ws no_end start k tag val name pars len Let_def if_False if_True
          not_True_eq_False not_False_eq_True option.case prod.case simp_thms
          call_back_def canonical_arguments_def)
qed

lemma dsml_invokes_loop_end:
  "dsml_invokes_loop style_dsml cs (DS4_TOOL_CALLS_END @ r) = Some (cs, r)"
  by (subst dsml_invokes_loop.simps) (simp add: skip_ws_tags style_dsml_def)

lemma dsml_invokes_loop_calls:
  "\<forall>tc \<in> set tcs. call_ok tc \<Longrightarrow>
     dsml_invokes_loop style_dsml cs (concat (map call_text tcs) @ DS4_TOOL_CALLS_END @ r) =
       Some (foldl tool_calls_push cs (map call_back tcs), r)"
proof (induction tcs arbitrary: cs)
  case Nil
  then show ?case by (simp add: dsml_invokes_loop_end)
next
  case (Cons tc tcs)
  then show ?case
    using dsml_invokes_loop_call [of tc cs "concat (map call_text tcs) @ DS4_TOOL_CALLS_END @ r"]
    by (simp add: dsml_invokes_loop_nl)
qed

lemma foldl_push: "calls_v (foldl tool_calls_push cs xs) = calls_v cs @ xs"
  "raw_dsml (foldl tool_calls_push cs xs) = raw_dsml cs"
  by (induction xs arbitrary: cs) (simp_all add: tool_calls_push_def)

section \<open>A generated message\<close>

definition rendered_calls :: "tool_calls \<Rightarrow> string" where
  "rendered_calls cs = append_dsml_tool_calls_text [] cs"

lemma trim_ws_append:
  "n \<le> length a \<Longrightarrow> trim_tool_separator_ws (a @ b) 0 n = trim_tool_separator_ws a 0 n"
proof (induction n)
  case (Suc n)
  then have "(a @ b) ! n = a ! n" by (simp add: nth_append)
  with Suc show ?case
    by (simp add: trim_tool_separator_ws.simps [of _ 0 "Suc n"])
qed (simp add: trim_tool_separator_ws.simps)

lemma trim_ws_le: "trim_tool_separator_ws a s n \<le> n"
proof (induction a s n rule: trim_tool_separator_ws.induct)
  case (1 a s n)
  then show ?case by (subst trim_tool_separator_ws.simps) auto
qed


definition example_calls :: tool_calls where
  "example_calls = \<lparr>calls_v = [\<lparr>tc_id = Some ''call_1'', tc_name = Some ''bash'',
     tc_arguments = Some (''{'' @ [DQ] @ ''cmd'' @ [DQ] @ '':'' @ [DQ] @ ''ls -l > x'' @ [DQ] @ ''}'')\<rparr>],
     raw_dsml = None\<rparr>"


section \<open>The canonical arguments are the same arguments\<close>

definition pair_text :: "json_arg \<Rightarrow> string" where
  "pair_text a = json_escape [] (arg_key a) @ '': '' @ json_escape [] (arg_value a)"

definition string_arg :: "json_arg \<Rightarrow> bool" where
  "string_arg a \<longleftrightarrow> is_string a \<and> \<not> used a \<and> cstring (arg_key a) \<and> cstring (arg_value a)"

lemma json_escape_append: "json_escape b s = b @ json_escape [] s"
  using json_escape_loop_append [of "b @ [DQ]" s] json_escape_loop_append [of "[DQ]" s]
  by (simp add: json_escape_def)

lemma json_escape_DQ: "\<exists>t. json_escape [] s = DQ # t"
  using json_escape_loop_append [of "[DQ]" s] by (simp add: json_escape_def)

lemma pair_text_DQ: "\<exists>t. pair_text a = DQ # t"
  using json_escape_DQ [of "arg_key a"] by (auto simp: pair_text_def)

lemma add_arg_eq:
  assumes "is_string a"
  shows "add_arg acc a = acc @ (if acc \<noteq> [] then '', '' else []) @ pair_text a"
proof -
  have key: "json_escape x (arg_key a) = x @ json_escape [] (arg_key a)" for x
    by (rule json_escape_append)
  have val: "json_escape (x @ y) (arg_value a) = x @ json_escape y (arg_value a)" for x y
    using json_escape_append [of "x @ y" "arg_value a"] json_escape_append [of y "arg_value a"]
    by simp
  show ?thesis
    using assms key [of "acc @ '', ''"] key [of acc] json_escape_append [of "'': ''" "arg_value a"]
    by (simp add: add_arg_def tool_call_json_args_add_def Let_def pair_text_def val)
qed

lemma foldl_add_arg:
  "\<forall>a \<in> set args. string_arg a \<Longrightarrow> acc \<noteq> [] \<Longrightarrow>
     foldl add_arg acc args = acc @ concat (map (\<lambda>a. '', '' @ pair_text a) args)"
  by (induction args arbitrary: acc) (auto simp: add_arg_eq string_arg_def)

interpretation json_args: member_handler json_args_member
  by unfold_locales
     (auto simp: json_args_member_def Let_def split: if_splits option.splits
           intro: ws_suffix_trans json_string_suffix json_raw_value_suffix)

lemma not_space_DQ [simp]: "\<not> isspace DQ"
  by (simp add: isspace_def byte_of_def)

lemma json_ws_DQ: "json_ws (DQ # s) = DQ # s"
  by (simp add: json_ws_def)

lemma json_args_pair:
  assumes a: "string_arg a" and sep: "json_sep r = r'"
  shows "json_members json_args_member acc (pair_text a @ r) =
    json_members json_args_member (acc @ [a]) r'"
proof -
  let ?s = "pair_text a @ r" and ?v = "json_escape [] (arg_value a) @ r"
  obtain t where t: "?s = DQ # t" using pair_text_DQ [of a] by auto
  have key: "json_string ?s = Some (arg_key a, '': '' @ ?v)"
    using a json_string_escape [of "arg_key a" "'': '' @ ?v"] by (simp add: pair_text_def string_arg_def)
  have colon: "json_ws ('': '' @ ?v) = '': '' @ ?v"
    by (simp add: json_ws_def isspace_def byte_of_def)
  have val: "json_args_member (arg_key a) acc ('' '' @ ?v) = Some (acc @ [a], r)"
  proof -
    obtain u where u: "?v = DQ # u" using json_escape_DQ [of "arg_value a"] by auto
    have ws: "json_ws ('' '' @ ?v) = ?v"
      by (simp add: u json_ws_def) (simp add: isspace_def)
    have str: "json_string ?v = Some (arg_value a, r)"
      using a by (simp add: json_string_escape string_arg_def)
    have pk: "peek ?v = DQ" by (simp add: u)
    have rec: "\<lparr>arg_key = arg_key a, arg_value = arg_value a, is_string = True, used = False\<rparr> = a"
      using a by (simp add: string_arg_def)
    show ?thesis
      unfolding json_args_member_def Let_def ws
      by (simp only: pk str rec json_args_push_def if_True option.case prod.case simp_thms)
  qed
  have s: "?s \<noteq> []" "peek ?s \<noteq> CHR ''}''" by (simp_all only: t peek_simps) simp_all
  have tl: "peek ('': '' @ ?v) = CHR '':''" "tl ('': '' @ ?v) = '' '' @ ?v" by simp_all
  show ?thesis
    by (subst json_args.members_eq)
       (simp only: s key colon tl val sep if_False option.case prod.case Let_def simp_thms)
qed

lemma json_sep_comma: "json_sep ('', '' @ DQ # s) = DQ # s"
  by (simp add: json_sep_def json_ws_def) (simp add: isspace_def byte_of_def)

lemma json_sep_brace: "json_sep ''}'' = ''}''"
  by (simp add: json_sep_def json_ws_def isspace_def byte_of_def)

lemma json_args_pairs:
  "\<forall>a \<in> set (x # args). string_arg a \<Longrightarrow>
     json_members json_args_member acc
       (pair_text x @ concat (map (\<lambda>a. '', '' @ pair_text a) args) @ ''}'') =
       Some (acc @ x # args, [])"
proof (induction args arbitrary: x acc)
  case Nil
  have end_: "json_members json_args_member (acc @ [x]) ''}'' = Some (acc @ [x], [])"
    by (subst json_args.members_eq) simp
  have "string_arg x" using Nil by simp
  from json_args_pair [OF this json_sep_brace] show ?case by (simp add: end_)
next
  case (Cons y args)
  have x: "string_arg x" and ys: "\<forall>a \<in> set (y # args). string_arg a" using Cons.prems by simp_all
  let ?r = "pair_text y @ concat (map (\<lambda>a. '', '' @ pair_text a) args) @ ''}''"
  have sep: "json_sep ('', '' @ ?r) = ?r"
    using pair_text_DQ [of y] json_sep_comma by (metis append_Cons)
  have "json_members json_args_member acc (pair_text x @ '', '' @ ?r) =
      json_members json_args_member (acc @ [x]) ?r"
    by (rule json_args_pair [OF x sep])
  also have "\<dots> = Some ((acc @ [x]) @ y # args, [])" by (rule Cons.IH [OF ys])
  finally show ?case by simp
qed

text \<open>
  C9. The argument object the parser writes for a call whose parameters are all strings parses
  back (through \<open>json_args_parse\<close>, the reader of the renderer) to those very parameters: same
  names, same values, same order, all marked as strings. So what \<open>parse_generated_message\<close>
  stores is the input the renderer works from, and replaying a call does not drift.
\<close>

theorem canonical_arguments_parse:
  assumes "\<forall>a \<in> set args. string_arg a"
  shows "json_args_parse (Some (canonical_arguments args)) = Some args"
proof (cases args)
  case Nil
  have "json_members json_args_member [] ''}'' = Some ([], [])"
    by (subst json_args.members_eq) simp
  then show ?thesis
    by (simp add: Nil json_args_parse_def canonical_arguments_def or_empty_def json_ws_def
          isspace_def byte_of_def)
next
  case (Cons x xs)
  let ?r = "pair_text x @ concat (map (\<lambda>a. '', '' @ pair_text a) xs) @ ''}''"
  obtain u where u: "?r = DQ # u" using pair_text_DQ [of x] by auto
  have x: "is_string x" "pair_text x \<noteq> []" "\<forall>a \<in> set xs. string_arg a"
    using assms Cons pair_text_DQ [of x] by (auto simp: string_arg_def)
  have can: "canonical_arguments args = CHR ''{'' # ?r"
    using x by (simp add: Cons canonical_arguments_def add_arg_eq foldl_add_arg)
  have ws: "json_ws (CHR ''{'' # ?r) = CHR ''{'' # ?r" "json_ws ?r = ?r"
    by (simp add: json_ws_def isspace_def byte_of_def) (simp only: u json_ws_DQ)
  have run: "json_members json_args_member [] ?r = Some ([] @ x # xs, [])"
    using assms by (intro json_args_pairs) (simp add: Cons)
  show ?thesis
    unfolding json_args_parse_def can or_empty_def option.case Let_def ws list.sel
    by (simp only: peek_simps ws run Cons option.map fst_conv append_Nil simp_thms if_False)
qed

theorem canonical_arguments_parse_witness:
  "\<exists>args. length args = 2 \<and> json_args_parse (Some (canonical_arguments args)) = Some args"
proof -
  let ?args = "[\<lparr>arg_key = ''path'', arg_value = ''/tmp/a b'', is_string = True, used = False\<rparr>,
    \<lparr>arg_key = ''body'', arg_value = [DQ, NL, BACKSLASH], is_string = True, used = False\<rparr>]"
  have "\<forall>a \<in> set ?args. string_arg a" by (simp add: string_arg_def)
  from canonical_arguments_parse [OF this] show ?thesis by (intro exI [of _ ?args]) simp
qed

end
