(* ===== verification/ToolMemory.thy ===== *)
theory ToolMemory
  imports Messages "HOL-Library.Monad_Syntax"
begin

text \<open>
  The tool-call text memory of ds4_server.c (\<open>tool_memory_*\<close>): which DSML block the model sampled
  under which tool-call id. The C structures are modelled with their pointers: entries sit in a
  doubly linked list in order of use, entries of one block in a singly linked chain, blocks are
  reference counted, and two radix trees index them. An address is a natural number, NULL is
  None, \<open>eheap\<close> and \<open>bheap\<close> hold the allocated entries and blocks, \<open>brk\<close> is the next address
  \<open>malloc\<close> returns. Reading or writing through a pointer to freed memory, or a loop that never
  ends, is the value None.

  A radix tree (rax.c, vendored) is used through its contract: a finite map from byte strings to
  pointers, NULL before \<open>raxNew\<close>. Sizes are \<open>size_t\<close> values far below their limit and are
  naturals; the 64-bit clock wraps. The mutex and allocation failure (the process exits) are not
  modelled.
\<close>

section \<open>Structures\<close>

type_synonym addr = nat

datatype tool_memory_source = TOOL_MEMORY_RAM | TOOL_MEMORY_DISK

record tool_memory_block =
  tb_dsml :: cstr
  tb_len :: nat
  tb_bytes :: nat
  tb_refs :: int
  tb_seen :: u64
  tb_entries :: "addr option"

record tool_memory_entry =
  te_id :: cstr
  te_block :: "addr option"
  te_bytes :: nat
  te_stamp :: u64
  te_source :: tool_memory_source
  te_prev :: "addr option"
  te_next :: "addr option"
  te_block_next :: "addr option"

record tool_memory =
  by_id :: "(cstr \<rightharpoonup> addr) option"
  by_block :: "(cstr \<rightharpoonup> addr) option"
  tm_head :: "addr option"
  tm_tail :: "addr option"
  tm_entries :: int
  max_entries :: int
  tm_bytes :: nat
  max_bytes :: nat
  tm_clock :: u64
  scan_clock :: u64
  eheap :: "addr \<rightharpoonup> tool_memory_entry"
  bheap :: "addr \<rightharpoonup> tool_memory_block"
  brk :: addr

definition tool_memory_zero :: tool_memory where
  "tool_memory_zero =
     \<lparr>by_id = None, by_block = None, tm_head = None, tm_tail = None, tm_entries = 0,
      max_entries = 0, tm_bytes = 0, max_bytes = 0, tm_clock = 0, scan_clock = 0,
      eheap = Map.empty, bheap = Map.empty, brk = 0\<rparr>"

definition SIZEOF_ENTRY :: nat where "SIZEOF_ENTRY = 64"
definition SIZEOF_BLOCK :: nat where "SIZEOF_BLOCK = 48"

definition set_entry ::
  "tool_memory \<Rightarrow> addr \<Rightarrow> (tool_memory_entry \<Rightarrow> tool_memory_entry) \<Rightarrow> tool_memory option" where
  \<comment> \<open>an assignment through a pointer to an entry\<close>
  "set_entry m a f =
     (case eheap m a of None \<Rightarrow> None | Some e \<Rightarrow> Some (m\<lparr>eheap := (eheap m)(a \<mapsto> f e)\<rparr>))"

definition set_block ::
  "tool_memory \<Rightarrow> addr \<Rightarrow> (tool_memory_block \<Rightarrow> tool_memory_block) \<Rightarrow> tool_memory option" where
  "set_block m b f =
     (case bheap m b of None \<Rightarrow> None | Some blk \<Rightarrow> Some (m\<lparr>bheap := (bheap m)(b \<mapsto> f blk)\<rparr>))"

section \<open>Limits and the list in order of use\<close>

definition tool_memory_max_entries :: "tool_memory \<Rightarrow> int" where
  "tool_memory_max_entries m = (if max_entries m > 0 then max_entries m else 100000)"

definition tool_memory_max_bytes :: "tool_memory \<Rightarrow> nat" where
  "tool_memory_max_bytes m = (if max_bytes m > 0 then max_bytes m else 512 * 1024 * 1024)"

definition tool_memory_init_locked :: "tool_memory \<Rightarrow> tool_memory" where
  "tool_memory_init_locked m =
     (if by_id m \<noteq> None \<and> by_block m \<noteq> None then m
      else m\<lparr>by_id := Some Map.empty, by_block := Some Map.empty\<rparr>)"

definition tool_memory_link_head :: "tool_memory \<Rightarrow> addr \<Rightarrow> tool_memory option" where
  "tool_memory_link_head m e =
     do {
       m1 \<leftarrow> set_entry m e (\<lambda>x. x\<lparr>te_prev := None, te_next := tm_head m\<rparr>);
       m2 \<leftarrow> (case tm_head m1 of
               Some h \<Rightarrow> set_entry m1 h (\<lambda>x. x\<lparr>te_prev := Some e\<rparr>)
             | None \<Rightarrow> Some (m1\<lparr>tm_tail := Some e\<rparr>));
       Some (m2\<lparr>tm_head := Some e\<rparr>)
     }"

definition tool_memory_unlink :: "tool_memory \<Rightarrow> addr \<Rightarrow> tool_memory option" where
  "tool_memory_unlink m e =
     do {
       x \<leftarrow> eheap m e;
       m1 \<leftarrow> (case te_prev x of
               Some p \<Rightarrow> set_entry m p (\<lambda>y. y\<lparr>te_next := te_next x\<rparr>)
             | None \<Rightarrow> Some (m\<lparr>tm_head := te_next x\<rparr>));
       x1 \<leftarrow> eheap m1 e;
       m2 \<leftarrow> (case te_next x1 of
               Some n \<Rightarrow> set_entry m1 n (\<lambda>y. y\<lparr>te_prev := te_prev x1\<rparr>)
             | None \<Rightarrow> Some (m1\<lparr>tm_tail := te_prev x1\<rparr>));
       set_entry m2 e (\<lambda>y. y\<lparr>te_prev := None, te_next := None\<rparr>)
     }"

definition tool_memory_touch :: "tool_memory \<Rightarrow> addr \<Rightarrow> tool_memory option" where
  "tool_memory_touch m e =
     do {
       m1 \<leftarrow> set_entry (m\<lparr>tm_clock := tm_clock m + 1\<rparr>) e (\<lambda>x. x\<lparr>te_stamp := tm_clock m + 1\<rparr>);
       if tm_head m1 = Some e then Some m1
       else do { m2 \<leftarrow> tool_memory_unlink m1 e; tool_memory_link_head m2 e }
     }"

section \<open>Blocks\<close>

text \<open>\<open>tool_block_unlink_entry\<close> walks with a pointer to a link: None is \<open>&b->entries\<close>,
  \<open>Some x\<close> is \<open>&x->block_next\<close>.\<close>

definition read_link :: "tool_memory \<Rightarrow> addr \<Rightarrow> addr option \<Rightarrow> addr option option" where
  "read_link m b p =
     (case p of None \<Rightarrow> map_option tb_entries (bheap m b)
      | Some x \<Rightarrow> map_option te_block_next (eheap m x))"

definition write_link ::
  "tool_memory \<Rightarrow> addr \<Rightarrow> addr option \<Rightarrow> addr option \<Rightarrow> tool_memory option" where
  "write_link m b p v =
     (case p of None \<Rightarrow> set_block m b (\<lambda>y. y\<lparr>tb_entries := v\<rparr>)
      | Some x \<Rightarrow> set_entry m x (\<lambda>y. y\<lparr>te_block_next := v\<rparr>))"

partial_function (option) block_unlink_loop ::
  "tool_memory \<Rightarrow> addr \<Rightarrow> addr \<Rightarrow> addr option \<Rightarrow> tool_memory option" where
  "block_unlink_loop m b e p =
     do {
       cur \<leftarrow> read_link m b p;
       case cur of
         None \<Rightarrow> Some m
       | Some x \<Rightarrow>
           if x = e then
             do {
               y \<leftarrow> eheap m e;
               m1 \<leftarrow> write_link m b p (te_block_next y);
               set_entry m1 e (\<lambda>z. z\<lparr>te_block_next := None\<rparr>)
             }
           else block_unlink_loop m b e (Some x)
     }"

definition tool_block_unlink_entry :: "tool_memory \<Rightarrow> addr \<Rightarrow> addr \<Rightarrow> tool_memory option" where
  "tool_block_unlink_entry m b e = block_unlink_loop m b e None"

definition tool_memory_find_block_locked :: "tool_memory \<Rightarrow> cstr \<Rightarrow> addr option" where
  "tool_memory_find_block_locked m dsml =
     (case by_block m of
        None \<Rightarrow> None
      | Some t \<Rightarrow> if dsml = [] then None else t dsml)"

definition tool_memory_get_block_locked :: "tool_memory \<Rightarrow> cstr \<Rightarrow> (tool_memory \<times> addr) option" where
  "tool_memory_get_block_locked m dsml =
     (case tool_memory_find_block_locked m dsml of
        Some b \<Rightarrow> Some (m, b)
      | None \<Rightarrow>
          do {
            t \<leftarrow> by_block m;
            let b = brk m;
                blk = \<lparr>tb_dsml = dsml, tb_len = length dsml,
                       tb_bytes = length dsml + 1 + SIZEOF_BLOCK, tb_refs = 0, tb_seen = 0,
                       tb_entries = None\<rparr>;
                m1 = m\<lparr>brk := b + 1, bheap := (bheap m)(b \<mapsto> blk), by_block := Some (t(dsml \<mapsto> b))\<rparr>
            in Some (m1\<lparr>tm_bytes := tm_bytes m1 + tb_bytes blk\<rparr>, b)
          })"

definition tool_memory_release_block_locked :: "tool_memory \<Rightarrow> addr option \<Rightarrow> tool_memory option" where
  "tool_memory_release_block_locked m b0 =
     (case b0 of
        None \<Rightarrow> Some m
      | Some b \<Rightarrow>
          do {
            m1 \<leftarrow> set_block m b (\<lambda>y. y\<lparr>tb_refs := tb_refs y - 1\<rparr>);
            blk \<leftarrow> bheap m1 b;
            if tb_refs blk > 0 then Some m1
            else
              let m2 = (case by_block m1 of
                          Some t \<Rightarrow> m1\<lparr>by_block := Some (t(tb_dsml blk := None))\<rparr>
                        | None \<Rightarrow> m1);
                  m3 = m2\<lparr>tm_bytes := (if tm_bytes m2 \<ge> tb_bytes blk
                                      then tm_bytes m2 - tb_bytes blk else 0)\<rparr>
              in Some (m3\<lparr>bheap := (bheap m3)(b := None)\<rparr>)
          })"

section \<open>Removing, pruning, finding and adding\<close>

definition tool_memory_remove_entry_locked :: "tool_memory \<Rightarrow> addr \<Rightarrow> tool_memory option" where
  "tool_memory_remove_entry_locked m e =
     do {
       x \<leftarrow> eheap m e;
       let m1 = (case by_id m of
                   Some t \<Rightarrow> m\<lparr>by_id := Some (t(te_id x := None))\<rparr>
                 | None \<Rightarrow> m);
       m2 \<leftarrow> tool_memory_unlink m1 e;
       m3 \<leftarrow> (case te_block x of
               Some b \<Rightarrow> tool_block_unlink_entry m2 b e
             | None \<Rightarrow> Some m2);
       let m4 = m3\<lparr>tm_bytes := (if tm_bytes m3 \<ge> te_bytes x then tm_bytes m3 - te_bytes x else 0)\<rparr>;
       let m5 = (if tm_entries m4 > 0 then m4\<lparr>tm_entries := tm_entries m4 - 1\<rparr> else m4);
       m6 \<leftarrow> tool_memory_release_block_locked m5 (te_block x);
       Some (m6\<lparr>eheap := (eheap m6)(e := None)\<rparr>)
     }"

partial_function (option) tool_memory_prune_locked :: "tool_memory \<Rightarrow> tool_memory option" where
  "tool_memory_prune_locked m =
     (if tm_entries m > tool_memory_max_entries m \<or> tm_bytes m > tool_memory_max_bytes m then
        (case tm_tail m of
           None \<Rightarrow> Some m
         | Some e \<Rightarrow>
             do { m1 \<leftarrow> tool_memory_remove_entry_locked m e; tool_memory_prune_locked m1 })
      else Some m)"

definition tool_memory_find_entry_locked :: "tool_memory \<Rightarrow> cstr \<Rightarrow> addr option" where
  "tool_memory_find_entry_locked m ident =
     (case by_id m of
        None \<Rightarrow> None
      | Some t \<Rightarrow> if ident = [] then None else t ident)"

definition same_block :: "tool_memory \<Rightarrow> addr \<Rightarrow> cstr \<Rightarrow> bool option" where
  \<comment> \<open>\<open>old->block && old->block->len == dsml_len && !memcmp(old->block->dsml, dsml, dsml_len)\<close>\<close>
  "same_block m e dsml =
     do {
       x \<leftarrow> eheap m e;
       case te_block x of
         None \<Rightarrow> Some False
       | Some b \<Rightarrow>
           do { blk \<leftarrow> bheap m b; Some (tb_len blk = length dsml \<and> tb_dsml blk = dsml) }
     }"

definition tool_memory_add :: "tool_memory \<Rightarrow> cstr \<Rightarrow> cstr \<Rightarrow> tool_memory_source \<Rightarrow> tool_memory option" where
  \<comment> \<open>the part of \<open>tool_memory_put_locked\<close> that makes a new entry\<close>
  "tool_memory_add m ident dsml src =
     do {
       (m1, b) \<leftarrow> tool_memory_get_block_locked m dsml;
       blk \<leftarrow> bheap m1 b;
       let e = brk m1;
       let x = \<lparr>te_id = ident, te_block = Some b, te_bytes = length ident + 1 + SIZEOF_ENTRY,
                te_stamp = tm_clock m1 + 1, te_source = src, te_prev = None, te_next = None,
                te_block_next = tb_entries blk\<rparr>;
       let m2 = m1\<lparr>brk := e + 1, tm_clock := tm_clock m1 + 1, eheap := (eheap m1)(e \<mapsto> x)\<rparr>;
       m3 \<leftarrow> set_block m2 b (\<lambda>y. y\<lparr>tb_entries := Some e, tb_refs := tb_refs y + 1\<rparr>);
       t \<leftarrow> by_id m3;
       let m4 = m3\<lparr>by_id := Some (t(ident \<mapsto> e))\<rparr>;
       m5 \<leftarrow> tool_memory_link_head m4 e;
       tool_memory_prune_locked
         (m5\<lparr>tm_entries := tm_entries m5 + 1, tm_bytes := tm_bytes m5 + te_bytes x\<rparr>)
     }"

definition tool_memory_put_locked ::
  "tool_memory \<Rightarrow> cstr option \<Rightarrow> cstr option \<Rightarrow> tool_memory_source \<Rightarrow> tool_memory option" where
  "tool_memory_put_locked m0 ident0 dsml0 src =
     (let ident = or_empty ident0; dsml = or_empty dsml0 in
      if ident = [] \<or> dsml = [] then Some m0
      else
        let m = tool_memory_init_locked m0 in
        case tool_memory_find_entry_locked m ident of
          None \<Rightarrow> tool_memory_add m ident dsml src
        | Some old \<Rightarrow>
            do {
              same \<leftarrow> same_block m old dsml;
              if same then
                do {
                  m1 \<leftarrow> (if src = TOOL_MEMORY_RAM
                         then set_entry m old (\<lambda>x. x\<lparr>te_source := TOOL_MEMORY_RAM\<rparr>) else Some m);
                  m2 \<leftarrow> tool_memory_touch m1 old;
                  tool_memory_prune_locked m2
                }
              else
                do {
                  m1 \<leftarrow> tool_memory_remove_entry_locked m old;
                  tool_memory_add m1 ident dsml src
                }
            })"

partial_function (option) tool_memory_free_loop :: "tool_memory \<Rightarrow> tool_memory option" where
  "tool_memory_free_loop m =
     (case tm_tail m of
        None \<Rightarrow> Some m
      | Some e \<Rightarrow> do { m1 \<leftarrow> tool_memory_remove_entry_locked m e; tool_memory_free_loop m1 })"

text \<open>\<open>tool_memory_free\<close>: the structure is cleared; what is still allocated would leak.\<close>

definition tool_memory_free :: "tool_memory \<Rightarrow> tool_memory option" where
  "tool_memory_free m =
     map_option (\<lambda>m1. tool_memory_zero\<lparr>eheap := eheap m1, bheap := bheap m1, brk := brk m1\<rparr>)
       (tool_memory_free_loop m)"

text \<open>\<open>tool_memory_lookup_locked\<close>: the new state and, when the id is known, its source and block.\<close>

definition tool_memory_lookup_locked ::
  "tool_memory \<Rightarrow> cstr option \<Rightarrow> (tool_memory \<times> (tool_memory_source \<times> addr) option) option" where
  "tool_memory_lookup_locked m ident =
     (case tool_memory_find_entry_locked m (or_empty ident) of
        None \<Rightarrow> Some (m, None)
      | Some e \<Rightarrow>
          do {
            x \<leftarrow> eheap m e;
            case te_block x of
              None \<Rightarrow> Some (m, None)
            | Some b \<Rightarrow>
                do { m1 \<leftarrow> tool_memory_touch m e; Some (m1, Some (te_source x, b)) }
          })"

end
