(* ===== verification/ToolMemoryLists.thy ===== *)
theory ToolMemoryLists
  imports ToolMemory
begin

text \<open>
  The linked structures of the tool-call memory: what it means for the pointers of the heap to
  form the doubly linked list of all entries and the singly linked chains of the blocks, and what
  the pointer operations do to them. Each operation changes one view of the heap and leaves the
  others alone: \<open>pn\<close> (prev and next), \<open>chn\<close> (block_next) and \<open>pay\<close> (the rest).
\<close>

section \<open>Views of the entry heap\<close>

type_synonym entry_heap = "addr \<rightharpoonup> tool_memory_entry"

definition pn :: "entry_heap \<Rightarrow> addr \<Rightarrow> (addr option \<times> addr option) option" where
  "pn h a = map_option (\<lambda>e. (te_prev e, te_next e)) (h a)"

definition chn :: "entry_heap \<Rightarrow> addr \<Rightarrow> addr option option" where
  "chn h a = map_option te_block_next (h a)"

definition pay :: "entry_heap \<Rightarrow> addr \<Rightarrow> (cstr \<times> addr option \<times> nat \<times> tool_memory_source) option" where
  "pay h a = map_option (\<lambda>e. (te_id e, te_block e, te_bytes e, te_source e)) (h a)"

named_theorems views \<open>views of an updated heap\<close>

lemma pn_upd [views]: "pn (h(a \<mapsto> e)) = (pn h)(a \<mapsto> (te_prev e, te_next e))"
  and chn_upd [views]: "chn (h(a \<mapsto> e)) = (chn h)(a \<mapsto> te_block_next e)"
  and pay_upd [views]: "pay (h(a \<mapsto> e)) = (pay h)(a \<mapsto> (te_id e, te_block e, te_bytes e, te_source e))"
  by (auto simp: pn_def chn_def pay_def)

lemma view_dom: "pay h a = None \<longleftrightarrow> h a = None" "chn h a = None \<longleftrightarrow> h a = None" "pn h a = None \<longleftrightarrow> h a = None"
  by (simp_all add: pay_def chn_def pn_def)

lemma view_Some: "h a = Some e \<Longrightarrow> pay h a = Some (te_id e, te_block e, te_bytes e, te_source e)"
  "h a = Some e \<Longrightarrow> chn h a = Some (te_block_next e)"
  "h a = Some e \<Longrightarrow> pn h a = Some (te_prev e, te_next e)"
  by (simp_all add: pay_def chn_def pn_def)

lemma pay_Some: "pay h a = Some (i, b, n, s) \<Longrightarrow>
    \<exists>e. h a = Some e \<and> te_id e = i \<and> te_block e = b \<and> te_bytes e = n \<and> te_source e = s"
  by (auto simp: pay_def)

lemma pn_Some: "pn h a = Some (p, n) \<Longrightarrow> \<exists>e. h a = Some e \<and> te_prev e = p \<and> te_next e = n"
  by (auto simp: pn_def)

lemma chn_Some: "chn h a = Some n \<Longrightarrow> \<exists>e. h a = Some e \<and> te_block_next e = n"
  by (auto simp: chn_def)

lemma set_entry_Some: "eheap m a = Some e \<Longrightarrow> set_entry m a f = Some (m\<lparr>eheap := (eheap m)(a \<mapsto> f e)\<rparr>)"
  by (simp add: set_entry_def)

lemma set_block_Some: "bheap m b = Some y \<Longrightarrow> set_block m b f = Some (m\<lparr>bheap := (bheap m)(b \<mapsto> f y)\<rparr>)"
  by (simp add: set_block_def)

section \<open>Doubly linked segments\<close>

definition fst_of :: "addr list \<Rightarrow> addr option \<Rightarrow> addr option" where
  "fst_of xs n = (case xs of [] \<Rightarrow> n | b # _ \<Rightarrow> Some b)"

definition lst_of :: "addr option \<Rightarrow> addr list \<Rightarrow> addr option" where
  "lst_of p xs = (if xs = [] then p else Some (last xs))"

fun dseg :: "(addr \<Rightarrow> (addr option \<times> addr option) option) \<Rightarrow> addr option \<Rightarrow> addr list \<Rightarrow>
    addr option \<Rightarrow> bool" where
  "dseg f p [] n = True"
| "dseg f p (a # as) n = (f a = Some (p, fst_of as n) \<and> dseg f (Some a) as n)"

lemma fst_of_simps [simp]: "fst_of [] n = n" "fst_of (a # as) n = Some a"
  "fst_of (xs @ ys) n = fst_of xs (fst_of ys n)"
  by (simp_all add: fst_of_def split: list.splits)

lemma lst_of_simps [simp]: "lst_of p [] = p" "lst_of p (a # as) = lst_of (Some a) as"
  "lst_of p (xs @ ys) = lst_of (lst_of p xs) ys"
  by (simp_all add: lst_of_def)

lemma dseg_append: "dseg f p (xs @ ys) n \<longleftrightarrow> dseg f p xs (fst_of ys n) \<and> dseg f (lst_of p xs) ys n"
  by (induction xs arbitrary: p) auto

lemma dseg_cong: "(\<And>a. a \<in> set as \<Longrightarrow> f a = g a) \<Longrightarrow> dseg f p as n = dseg g p as n"
  by (induction as arbitrary: p) auto

lemma dseg_upd [simp]: "a \<notin> set as \<Longrightarrow> dseg (f(a := v)) p as n = dseg f p as n"
  by (rule dseg_cong) auto

definition dll :: "tool_memory \<Rightarrow> addr list \<Rightarrow> bool" where
  "dll m as \<longleftrightarrow> dseg (pn (eheap m)) None as None \<and> tm_head m = fst_of as None \<and> tm_tail m = lst_of None as"

text \<open>What the list operations may change: the list pointers, the stamps and the clock.\<close>

definition list_change :: "tool_memory \<Rightarrow> tool_memory \<Rightarrow> bool" where
  "list_change m m' \<longleftrightarrow>
     m' = m\<lparr>tm_head := tm_head m', tm_tail := tm_tail m', tm_clock := tm_clock m',
            eheap := eheap m'\<rparr> \<and>
     chn (eheap m') = chn (eheap m) \<and> pay (eheap m') = pay (eheap m)"

lemma link_head_spec:
  assumes dll: "dll m as" and e: "eheap m e = Some x" "e \<notin> set as"
  shows "\<exists>m'. tool_memory_link_head m e = Some m' \<and> dll m' (e # as) \<and> list_change m m'"
proof (cases as)
  case Nil
  with dll e show ?thesis
    by (auto simp: tool_memory_link_head_def set_entry_Some dll_def list_change_def views
          view_Some fun_upd_idem)
next
  case (Cons b bs)
  obtain y where y: "eheap m b = Some y" "te_prev y = None" "te_next y = fst_of bs None"
    using dll Cons by (auto simp: dll_def dest: pn_Some)
  have ne: "b \<noteq> e" "e \<notin> set bs" using e Cons by auto
  have seg: "dseg (pn (eheap m)) (Some b) bs None"
    using dll Cons by (simp add: dll_def)
  have nb: "b \<notin> set bs"
  proof
    assume "b \<in> set bs"
    then obtain us vs where bs: "bs = us @ b # vs" by (meson split_list)
    with seg have "pn (eheap m) b = Some (lst_of (Some b) us, fst_of vs None)"
      by (simp add: dseg_append)
    with y show False by (simp add: pn_def lst_of_def split: if_splits)
  qed
  let ?h = "(eheap m)(e \<mapsto> x\<lparr>te_prev := None, te_next := Some b\<rparr>, b \<mapsto> y\<lparr>te_prev := Some e\<rparr>)"
  let ?m = "m\<lparr>eheap := ?h, tm_head := Some e\<rparr>"
  have head: "tm_head m = Some b" "tm_tail m = lst_of None as" using dll Cons by (simp_all add: dll_def)
  have run: "tool_memory_link_head m e = Some ?m"
    using e y ne by (simp add: tool_memory_link_head_def set_entry_Some head)
  have "dll ?m (e # as)"
    using Cons ne nb seg y by (simp add: dll_def head views)
  moreover have "list_change m ?m"
    using e y ne by (simp add: list_change_def views view_Some fun_upd_idem)
  ultimately show ?thesis using run by blast
qed

lemma unlink_views:
  assumes dll: "dll m (xs @ a # ys)" and d: "distinct (xs @ a # ys)"
  obtains x where "eheap m a = Some x" "te_prev x = lst_of None xs" "te_next x = fst_of ys None"
    "dseg (pn (eheap m)) None xs (Some a)" "dseg (pn (eheap m)) (Some a) ys None"
    "tm_head m = fst_of xs (Some a)" "tm_tail m = lst_of (Some a) ys"
proof -
  have "pn (eheap m) a = Some (lst_of None xs, fst_of ys None)"
    "dseg (pn (eheap m)) None xs (Some a)" "dseg (pn (eheap m)) (Some a) ys None"
    "tm_head m = fst_of xs (Some a)" "tm_tail m = lst_of (Some a) ys"
    using dll by (simp_all add: dll_def dseg_append)
  then show ?thesis using that by (auto dest!: pn_Some)
qed

lemma dseg_last: "dseg f p (us @ [u]) n \<longleftrightarrow> dseg f p us (Some u) \<and> f u = Some (lst_of p us, n)"
  by (auto simp: dseg_append)

lemma unlink_spec:
  assumes dll: "dll m (xs @ a # ys)" and d: "distinct (xs @ a # ys)"
  shows "\<exists>m'. tool_memory_unlink m a = Some m' \<and> dll m' (xs @ ys) \<and> list_change m m'"
proof -
  obtain x where x: "eheap m a = Some x" "te_prev x = lst_of None xs" "te_next x = fst_of ys None"
    and segs: "dseg (pn (eheap m)) None xs (Some a)" "dseg (pn (eheap m)) (Some a) ys None"
    and ends: "tm_head m = fst_of xs (Some a)" "tm_tail m = lst_of (Some a) ys"
    using unlink_views [OF dll d] .
  let ?x = "x\<lparr>te_prev := None, te_next := None\<rparr>"
  have na: "a \<notin> set xs" "a \<notin> set ys" using d by auto
  show ?thesis
  proof (cases xs rule: rev_cases)
    case Nil
    show ?thesis
    proof (cases ys)
      case Nil
      let ?m = "m\<lparr>eheap := (eheap m)(a \<mapsto> ?x), tm_head := None, tm_tail := None\<rparr>"
      have "tool_memory_unlink m a = Some ?m" "dll ?m (xs @ ys)" "list_change m ?m"
        using \<open>xs = []\<close> Nil x
        by (simp_all add: tool_memory_unlink_def set_entry_Some dll_def list_change_def views
              view_Some fun_upd_idem)
      then show ?thesis by blast
    next
      case (Cons n zs)
      then obtain y where y: "eheap m n = Some y" "te_prev y = Some a" "te_next y = fst_of zs None"
        using segs by (auto dest: pn_Some)
      have n: "n \<noteq> a" "n \<notin> set zs" "a \<notin> set zs" using d Cons by auto
      let ?m = "m\<lparr>eheap := (eheap m)(n \<mapsto> y\<lparr>te_prev := None\<rparr>, a \<mapsto> ?x), tm_head := Some n\<rparr>"
      have "tool_memory_unlink m a = Some ?m"
        using \<open>xs = []\<close> Cons x y n by (simp add: tool_memory_unlink_def set_entry_Some)
      moreover have "dll ?m (xs @ ys)"
        using \<open>xs = []\<close> Cons y n segs ends by (simp add: dll_def views)
      moreover have "list_change m ?m"
        using x y n by (simp add: list_change_def views view_Some fun_upd_idem)
      ultimately show ?thesis by blast
    qed
  next
    case (snoc us p)
    then obtain w where w: "eheap m p = Some w" "te_prev w = lst_of None us" "te_next w = Some a"
      using segs by (auto simp: dseg_last dest: pn_Some)
    have p: "p \<noteq> a" "p \<notin> set us" "p \<notin> set ys" "a \<notin> set us" using d snoc by auto
    show ?thesis
    proof (cases ys)
      case Nil
      let ?m = "m\<lparr>eheap := (eheap m)(p \<mapsto> w\<lparr>te_next := None\<rparr>, a \<mapsto> ?x), tm_tail := Some p\<rparr>"
      have "tool_memory_unlink m a = Some ?m"
        using Nil snoc x w p by (simp add: tool_memory_unlink_def set_entry_Some)
      moreover have "dll ?m (xs @ ys)"
        using Nil snoc w p segs ends by (simp add: dll_def views dseg_last)
      moreover have "list_change m ?m"
        using x w p by (simp add: list_change_def views view_Some fun_upd_idem)
      ultimately show ?thesis by blast
    next
      case (Cons n zs)
      then obtain y where y: "eheap m n = Some y" "te_prev y = Some a" "te_next y = fst_of zs None"
        using segs by (auto dest: pn_Some)
      have n: "n \<noteq> a" "n \<noteq> p" "n \<notin> set zs" "a \<notin> set zs" "p \<notin> set zs" "n \<notin> set us"
        using d Cons snoc by auto
      let ?m = "m\<lparr>eheap := (eheap m)(p \<mapsto> w\<lparr>te_next := Some n\<rparr>, n \<mapsto> y\<lparr>te_prev := Some p\<rparr>, a \<mapsto> ?x)\<rparr>"
      have "tool_memory_unlink m a = Some ?m"
        using Cons snoc x w y p n by (simp add: tool_memory_unlink_def set_entry_Some)
      moreover have "dll ?m (xs @ ys)"
        using Cons snoc w y p n segs ends by (simp add: dll_def views dseg_last dseg_append)
      moreover have "list_change m ?m"
        using x w y p n by (simp add: list_change_def views view_Some fun_upd_idem)
      ultimately show ?thesis by blast
    qed
  qed
qed

lemma list_change_trans: "list_change m m1 \<Longrightarrow> list_change m1 m2 \<Longrightarrow> list_change m m2"
  by (cases m; cases m1; cases m2) (simp add: list_change_def)

lemma list_change_same:
  assumes "list_change m m'"
  shows "by_id m' = by_id m" "by_block m' = by_block m" "tm_entries m' = tm_entries m"
    "max_entries m' = max_entries m" "tm_bytes m' = tm_bytes m" "max_bytes m' = max_bytes m"
    "bheap m' = bheap m" "brk m' = brk m"
    "chn (eheap m') = chn (eheap m)" "pay (eheap m') = pay (eheap m)"
proof -
  have "m' = m\<lparr>tm_head := tm_head m', tm_tail := tm_tail m', tm_clock := tm_clock m',
            eheap := eheap m'\<rparr>"
    using assms by (simp add: list_change_def)
  then have "by_id m' = by_id m \<and> by_block m' = by_block m \<and> tm_entries m' = tm_entries m \<and>
      max_entries m' = max_entries m \<and> tm_bytes m' = tm_bytes m \<and> max_bytes m' = max_bytes m \<and>
      bheap m' = bheap m \<and> brk m' = brk m"
    by (cases m; cases m') simp
  then show "by_id m' = by_id m" "by_block m' = by_block m" "tm_entries m' = tm_entries m"
    "max_entries m' = max_entries m" "tm_bytes m' = tm_bytes m" "max_bytes m' = max_bytes m"
    "bheap m' = bheap m" "brk m' = brk m" by simp_all
  show "chn (eheap m') = chn (eheap m)" "pay (eheap m') = pay (eheap m)"
    using assms by (simp_all add: list_change_def)
qed

lemma touch_spec:
  assumes dll: "dll m as" and d: "distinct as" and a: "a \<in> set as"
  shows "\<exists>m'. tool_memory_touch m a = Some m' \<and> dll m' (a # remove1 a as) \<and> list_change m m'"
proof -
  obtain xs ys where as: "as = xs @ a # ys" using a by (meson split_list)
  obtain x where x: "eheap m a = Some x"
    using unlink_views [OF dll [unfolded as] d [unfolded as]] by metis
  let ?m = "m\<lparr>tm_clock := tm_clock m + 1, eheap := (eheap m)(a \<mapsto> x\<lparr>te_stamp := tm_clock m + 1\<rparr>)\<rparr>"
  have set1: "set_entry (m\<lparr>tm_clock := tm_clock m + 1\<rparr>) a (\<lambda>x. x\<lparr>te_stamp := tm_clock m + 1\<rparr>) = Some ?m"
    using x by (simp add: set_entry_Some)
  have dll1: "dll ?m as" and ch1: "list_change m ?m"
    using dll x by (simp_all add: dll_def list_change_def views view_Some fun_upd_idem)
  have rem: "remove1 a as = xs @ ys" using d as by (simp add: remove1_append)
  show ?thesis
  proof (cases "tm_head m = Some a")
    case True
    have "xs = []" using dll d True as by (cases xs) (auto simp: dll_def)
    with True set1 dll1 ch1 as rem show ?thesis by (simp add: tool_memory_touch_def)
  next
    case False
    obtain m2 where m2: "tool_memory_unlink ?m a = Some m2" "dll m2 (xs @ ys)" "list_change ?m m2"
      using unlink_spec dll1 d as by blast
    have "pay (eheap m2) a \<noteq> None"
      using m2(3) by (simp add: list_change_same views)
    then obtain x2 where x2: "eheap m2 a = Some x2" by (auto simp: pay_def)
    have "a \<notin> set (xs @ ys)" using d as by simp
    then obtain m3 where m3: "tool_memory_link_head m2 a = Some m3" "dll m3 (a # xs @ ys)" "list_change m2 m3"
      using link_head_spec [OF m2(2) x2] by blast
    have "tool_memory_touch m a = Some m3"
      using False set1 m2(1) m3(1) by (simp add: tool_memory_touch_def)
    moreover have "list_change m m3"
      using ch1 m2(3) m3(3) list_change_trans by blast
    ultimately show ?thesis using m3(2) rem by auto
  qed
qed

section \<open>The chain of a block\<close>

fun chain :: "(addr \<Rightarrow> addr option option) \<Rightarrow> addr option \<Rightarrow> addr list \<Rightarrow> bool" where
  "chain c p [] \<longleftrightarrow> p = None"
| "chain c p (a # as) \<longleftrightarrow> p = Some a \<and> c a \<noteq> None \<and> chain c (the (c a)) as"

lemma chain_cong: "(\<And>a. a \<in> set as \<Longrightarrow> c a = c' a) \<Longrightarrow> chain c p as = chain c' p as"
  by (induction as arbitrary: p) auto

lemma chain_upd [simp]: "a \<notin> set as \<Longrightarrow> chain (c(a := v)) p as = chain c p as"
  by (rule chain_cong) auto

lemma chain_first: "chain c p as \<Longrightarrow> p = fst_of as None"
  by (cases as) auto

text \<open>Cutting an element out of a chain: the link before it takes over its link.\<close>

lemma chain_cut:
  "chain c p (us @ a # vs) \<Longrightarrow> distinct (us @ a # vs) \<Longrightarrow> us \<noteq> [] \<Longrightarrow>
     chain (c(last us \<mapsto> fst_of vs None, a \<mapsto> None)) p (us @ vs)"
proof (induction us arbitrary: p)
  case (Cons u us)
  show ?case
  proof (cases us)
    case Nil
    with Cons.prems have ch: "chain c (the (c a)) vs" and n: "u \<notin> set vs" "a \<notin> set vs" "u \<noteq> a"
      and p: "p = Some u" by auto
    have vs: "chain (c(u \<mapsto> fst_of vs None, a \<mapsto> None)) (fst_of vs None) vs"
      using ch chain_first [OF ch] n by simp
    have "chain (c(u \<mapsto> fst_of vs None, a \<mapsto> None)) p (u # vs)"
      using n(3) by (subst chain.simps) (simp add: p vs del: chain_upd)
    then show ?thesis by (simp only: Nil last.simps append_Cons append_Nil if_True simp_thms)
  next
    case (Cons w ws)
    with Cons.prems Cons.IH [of "the (c u)"] show ?thesis by auto
  qed
qed simp

lemma block_unlink_loop_spec:
  assumes "read_link m b p = Some q" "chain (chn (eheap m)) q (us @ a # vs)" "distinct (us @ a # vs)"
    and "\<forall>u. p = Some u \<longrightarrow> u \<noteq> a"
  shows "\<exists>h. block_unlink_loop m b a p =
      Some (case lst_of p us of
              None \<Rightarrow> m\<lparr>eheap := h, bheap := (bheap m)(b \<mapsto> (the (bheap m b))\<lparr>tb_entries := fst_of vs None\<rparr>)\<rparr>
            | Some u \<Rightarrow> m\<lparr>eheap := h\<rparr>) \<and>
      chn h = (case lst_of p us of
                 None \<Rightarrow> (chn (eheap m))(a \<mapsto> None)
               | Some u \<Rightarrow> (chn (eheap m))(u \<mapsto> fst_of vs None, a \<mapsto> None)) \<and>
      pn h = pn (eheap m) \<and> pay h = pay (eheap m)"
  using assms
proof (induction us arbitrary: p q)
  case Nil
  then have q: "q = Some a" and c: "chn (eheap m) a \<noteq> None"
    and vs': "chain (chn (eheap m)) (the (chn (eheap m) a)) vs" by auto
  obtain y where y: "eheap m a = Some y" using c by (auto simp: chn_def)
  have vs: "chain (chn (eheap m)) (te_block_next y) vs" using vs' y by (simp add: view_Some)
  have nx: "te_block_next y = fst_of vs None" using chain_first [OF vs] .
  show ?case
  proof (cases p)
    case None
    then obtain blk where blk: "bheap m b = Some blk" using Nil.prems by (auto simp: read_link_def)
    let ?h = "(eheap m)(a \<mapsto> y\<lparr>te_block_next := None\<rparr>)"
    have "block_unlink_loop m b a p =
        Some (m\<lparr>eheap := ?h, bheap := (bheap m)(b \<mapsto> blk\<lparr>tb_entries := fst_of vs None\<rparr>)\<rparr>)"
      using None Nil.prems(1) q y nx blk
      by (subst block_unlink_loop.simps) (simp add: write_link_def set_entry_Some set_block_Some)
    moreover have "chn ?h = (chn (eheap m))(a \<mapsto> None)" "pn ?h = pn (eheap m)" "pay ?h = pay (eheap m)"
      using y by (simp_all add: views view_Some fun_upd_idem)
    ultimately show ?thesis using None blk by (intro exI [of _ ?h]) (simp only: lst_of_simps option.simps option.sel simp_thms)
  next
    case (Some u)
    then obtain z where z: "eheap m u = Some z" and ne: "u \<noteq> a"
      using Nil.prems by (auto simp: read_link_def)
    let ?h = "(eheap m)(u \<mapsto> z\<lparr>te_block_next := fst_of vs None\<rparr>, a \<mapsto> y\<lparr>te_block_next := None\<rparr>)"
    have "block_unlink_loop m b a p = Some (m\<lparr>eheap := ?h\<rparr>)"
      using Some Nil.prems(1) q y nx z ne
      by (subst block_unlink_loop.simps) (simp add: write_link_def set_entry_Some set_block_Some)
    moreover have "chn ?h = (chn (eheap m))(u \<mapsto> fst_of vs None, a \<mapsto> None)" "pn ?h = pn (eheap m)"
      "pay ?h = pay (eheap m)"
      using y z ne by (simp_all add: views view_Some fun_upd_idem)
    ultimately show ?thesis using Some by (intro exI [of _ ?h]) (simp only: lst_of_simps option.simps simp_thms)
  qed
next
  case (Cons u us)
  then have q: "q = Some u" and u: "u \<noteq> a" by auto
  have rd: "read_link m b (Some u) = Some (the (chn (eheap m) u))"
    using Cons.prems by (auto simp: read_link_def chn_def)
  have ch: "chain (chn (eheap m)) (the (chn (eheap m) u)) (us @ a # vs)" "distinct (us @ a # vs)"
    using Cons.prems by auto
  have "block_unlink_loop m b a p = block_unlink_loop m b a (Some u)"
    using Cons.prems(1) q u by (simp add: block_unlink_loop.simps [of m b a p])
  then show ?case using Cons.IH [OF rd ch] u by simp
qed

lemma block_unlink_spec:
  assumes b: "bheap m b = Some blk" and ch: "chain (chn (eheap m)) (tb_entries blk) (us @ a # vs)"
    and d: "distinct (us @ a # vs)"
  shows "\<exists>h x. tool_block_unlink_entry m b a =
      Some (m\<lparr>eheap := h, bheap := (bheap m)(b \<mapsto> blk\<lparr>tb_entries := x\<rparr>)\<rparr>) \<and>
      chain (chn h) x (us @ vs) \<and> (\<forall>y. y \<notin> set us \<and> y \<noteq> a \<longrightarrow> chn h y = chn (eheap m) y) \<and>
      pn h = pn (eheap m) \<and> pay h = pay (eheap m)"
proof -
  have rd: "read_link m b None = Some (tb_entries blk)" using b by (simp add: read_link_def)
  obtain h where h: "tool_block_unlink_entry m b a =
      Some (case lst_of None us of
              None \<Rightarrow> m\<lparr>eheap := h, bheap := (bheap m)(b \<mapsto> (the (bheap m b))\<lparr>tb_entries := fst_of vs None\<rparr>)\<rparr>
            | Some u \<Rightarrow> m\<lparr>eheap := h\<rparr>)"
    "chn h = (case lst_of None us of
                 None \<Rightarrow> (chn (eheap m))(a \<mapsto> None)
               | Some u \<Rightarrow> (chn (eheap m))(u \<mapsto> fst_of vs None, a \<mapsto> None))"
    "pn h = pn (eheap m)" "pay h = pay (eheap m)"
    using block_unlink_loop_spec [OF rd ch d] by (auto simp: tool_block_unlink_entry_def)
  show ?thesis
  proof (cases "us = []")
    case True
    have "chain (chn (eheap m)) (fst_of vs None) vs"
      using ch True chain_first by fastforce
    then have "chain (chn h) (fst_of vs None) (us @ vs)" using True h(2) d by simp
    with True h b show ?thesis by (intro exI [of _ h] exI [of _ "fst_of vs None"]) simp
  next
    case False
    have "bheap m = (bheap m)(b \<mapsto> blk\<lparr>tb_entries := tb_entries blk\<rparr>)" using b by auto
    moreover have "chain (chn h) (tb_entries blk) (us @ vs)"
      using chain_cut [OF ch d False] False h(2) by (simp add: lst_of_def)
    moreover have "last us \<in> set us" using False by simp
    ultimately show ?thesis
      using False h by (intro exI [of _ h] exI [of _ "tb_entries blk"]) (auto simp: lst_of_def)
  qed
qed

end
