(* ===== verification/ToolMemoryInv.thy ===== *)
theory ToolMemoryInv
  imports ToolMemoryLists
begin

text \<open>
  The invariant of the tool-call memory, and that taking an entry out, adding one and moving one to
  the front keep it. \<open>as\<close> is the list of the addresses of the entries, most recently used first,
  \<open>cs b\<close> the chain of block \<open>b\<close>. \<open>absl\<close> is what the memory stores: ids with their blocks.
\<close>

section \<open>The invariant\<close>

definition owned :: "entry_heap \<Rightarrow> addr \<Rightarrow> addr set" where
  "owned h b = {a. \<exists>i n s. pay h a = Some (i, Some b, n, s)}"

definition entries_ok :: "tool_memory \<Rightarrow> bool" where
  "entries_ok m \<longleftrightarrow> (\<forall>a i bo n s. pay (eheap m) a = Some (i, bo, n, s) \<longrightarrow>
     i \<noteq> [] \<and> n = length i + 65 \<and> a < brk m \<and> (\<exists>b blk. bo = Some b \<and> bheap m b = Some blk))"

definition block_const :: "tool_memory_block \<Rightarrow> bool" where
  "block_const blk \<longleftrightarrow> tb_dsml blk \<noteq> [] \<and> tb_len blk = length (tb_dsml blk) \<and>
     tb_bytes blk = length (tb_dsml blk) + 49"

definition blocks_ok :: "tool_memory \<Rightarrow> (addr \<Rightarrow> addr list) \<Rightarrow> bool" where
  "blocks_ok m cs \<longleftrightarrow> (\<forall>b. set (cs b) = owned (eheap m) b \<and> distinct (cs b)) \<and>
     (\<forall>b blk. bheap m b = Some blk \<longrightarrow> block_const blk \<and> b < brk m \<and> cs b \<noteq> [] \<and>
        chain (chn (eheap m)) (tb_entries blk) (cs b) \<and> tb_refs blk = int (length (cs b)))"

definition index_ok :: "tool_memory \<Rightarrow> bool" where
  "index_ok m \<longleftrightarrow>
     (\<exists>t u. by_id m = Some t \<and> by_block m = Some u \<and>
        (\<forall>i a. t i = Some a \<longleftrightarrow> (\<exists>bo n s. pay (eheap m) a = Some (i, bo, n, s))) \<and>
        (\<forall>d b. u d = Some b \<longleftrightarrow> (\<exists>blk. bheap m b = Some blk \<and> tb_dsml blk = d)))"

definition counts_ok :: "tool_memory \<Rightarrow> addr list \<Rightarrow> bool" where
  "counts_ok m as \<longleftrightarrow> finite (dom (bheap m)) \<and> tm_entries m = int (length as) \<and>
     tm_bytes m = (\<Sum>a\<leftarrow>as. length (fst (the (pay (eheap m) a))) + 65) +
       (\<Sum>b\<in>dom (bheap m). length (tb_dsml (the (bheap m b))) + 49)"

definition tm_inv :: "tool_memory \<Rightarrow> addr list \<Rightarrow> (addr \<Rightarrow> addr list) \<Rightarrow> bool" where
  "tm_inv m as cs \<longleftrightarrow> distinct as \<and> set as = dom (pay (eheap m)) \<and> dll m as \<and>
     entries_ok m \<and> blocks_ok m cs \<and> index_ok m \<and> counts_ok m as"

type_synonym mem_item = "cstr \<times> cstr \<times> tool_memory_source"

definition item_of :: "tool_memory \<Rightarrow> addr \<Rightarrow> mem_item" where
  "item_of m a = (case the (pay (eheap m) a) of
     (i, bo, n, s) \<Rightarrow> (i, tb_dsml (the (bheap m (the bo))), s))"

definition absl :: "tool_memory \<Rightarrow> addr list \<Rightarrow> mem_item list" where
  "absl m as = map (item_of m) as"

definition same_limits :: "tool_memory \<Rightarrow> tool_memory \<Rightarrow> bool" where
  "same_limits m m' \<longleftrightarrow> max_entries m' = max_entries m \<and> max_bytes m' = max_bytes m"

section \<open>Taking an entry out\<close>

lemma view_del [views]: "pay (h(a := None)) = (pay h)(a := None)"
  "chn (h(a := None)) = (chn h)(a := None)" "pn (h(a := None)) = (pn h)(a := None)"
  by (auto simp: pay_def chn_def pn_def)

lemma owned_del: "pay h' = (pay h)(a := None) \<Longrightarrow> owned h' b = owned h b - {a}"
  by (auto simp: owned_def)

text \<open>The pieces of the state around an entry.\<close>

lemma inv_entry:
  assumes inv: "tm_inv m as cs" and a: "a \<in> set as"
  obtains x b blk us vs where "eheap m a = Some x" "te_block x = Some b" "bheap m b = Some blk"
    "cs b = us @ a # vs" "te_bytes x = length (te_id x) + 65"
proof -
  have "pay (eheap m) a \<noteq> None" using inv a by (auto simp: tm_inv_def)
  then obtain x where x: "eheap m a = Some x" by (auto simp: pay_def)
  then have p: "pay (eheap m) a = Some (te_id x, te_block x, te_bytes x, te_source x)"
    by (rule view_Some)
  then obtain b blk where b: "te_block x = Some b" "bheap m b = Some blk"
    and n: "te_bytes x = length (te_id x) + 65"
    using inv unfolding tm_inv_def entries_ok_def by metis
  have "a \<in> set (cs b)" using inv p b by (auto simp: tm_inv_def blocks_ok_def owned_def)
  then obtain us vs where "cs b = us @ a # vs" by (meson split_list)
  with x b n show ?thesis using that by blast
qed

definition removed :: "tool_memory \<Rightarrow> addr \<Rightarrow> tool_memory \<Rightarrow> bool" where
  \<comment> \<open>what \<open>tool_memory_remove_entry_locked\<close> does to the indexes, the blocks and the counters\<close>
  "removed m a m' \<longleftrightarrow> (\<exists>x b blk l. eheap m a = Some x \<and> te_block x = Some b \<and> bheap m b = Some blk \<and>
     by_id m' = map_option (\<lambda>t. t(te_id x := None)) (by_id m) \<and>
     (if tb_refs blk - 1 > 0
      then by_block m' = by_block m \<and>
           bheap m' = (bheap m)(b \<mapsto> blk\<lparr>tb_entries := l, tb_refs := tb_refs blk - 1\<rparr>)
      else by_block m' = map_option (\<lambda>t. t(tb_dsml blk := None)) (by_block m) \<and>
           bheap m' = (bheap m)(b := None)) \<and>
     tm_bytes m' = (let n = (if tm_bytes m \<ge> te_bytes x then tm_bytes m - te_bytes x else 0)
                    in if tb_refs blk - 1 > 0 then n
                       else if n \<ge> tb_bytes blk then n - tb_bytes blk else 0) \<and>
     tm_entries m' = (if tm_entries m > 0 then tm_entries m - 1 else tm_entries m) \<and>
     brk m' = brk m \<and> same_limits m m' \<and>
     pay (eheap m') = (pay (eheap m))(a := None))"

lemma remove_entry_run:
  assumes dll: "dll m (xs @ a # ys)" and d: "distinct (xs @ a # ys)"
    and x: "eheap m a = Some x" "te_block x = Some b" and b: "bheap m b = Some blk"
    and ch: "chain (chn (eheap m)) (tb_entries blk) (us @ a # vs)" and d': "distinct (us @ a # vs)"
  shows "\<exists>m'. tool_memory_remove_entry_locked m a = Some m' \<and> dll m' (xs @ ys) \<and> removed m a m' \<and>
    (\<forall>y. y \<notin> set us \<and> y \<noteq> a \<longrightarrow> chn (eheap m') y = chn (eheap m) y) \<and>
    (\<forall>blk'. bheap m' b = Some blk' \<longrightarrow> chain (chn (eheap m')) (tb_entries blk') (us @ vs))"
proof -
  let ?m1 = "m\<lparr>by_id := map_option (\<lambda>t. t(te_id x := None)) (by_id m)\<rparr>"
  have m1: "(case by_id m of Some t \<Rightarrow> m\<lparr>by_id := Some (t(te_id x := None))\<rparr> | None \<Rightarrow> m) = ?m1"
    by (cases "by_id m") simp_all
  have "dll ?m1 (xs @ a # ys)" using dll by (simp add: dll_def)
  then obtain m2 where m2: "tool_memory_unlink ?m1 a = Some m2" "dll m2 (xs @ ys)" "list_change ?m1 m2"
    using unlink_spec d by blast
  note same = list_change_same [OF m2(3), simplified]
  have b2: "bheap m2 b = Some blk" using b same by simp
  have ch2: "chain (chn (eheap m2)) (tb_entries blk) (us @ a # vs)" using ch same by simp
  obtain h l where m3: "tool_block_unlink_entry m2 b a =
      Some (m2\<lparr>eheap := h, bheap := (bheap m2)(b \<mapsto> blk\<lparr>tb_entries := l\<rparr>)\<rparr>)"
    "chain (chn h) l (us @ vs)" "\<forall>y. y \<notin> set us \<and> y \<noteq> a \<longrightarrow> chn h y = chn (eheap m2) y"
    "pn h = pn (eheap m2)" "pay h = pay (eheap m2)"
    using block_unlink_spec [OF b2 ch2 d'] by blast
  let ?n = "if tm_bytes m \<ge> te_bytes x then tm_bytes m - te_bytes x else 0"
  let ?k = "if tm_entries m > 0 then tm_entries m - 1 else tm_entries m"
  let ?m5 = "m2\<lparr>eheap := h, bheap := (bheap m2)(b \<mapsto> blk\<lparr>tb_entries := l\<rparr>), tm_bytes := ?n,
      tm_entries := ?k\<rparr>"
  let ?blk = "blk\<lparr>tb_entries := l, tb_refs := tb_refs blk - 1\<rparr>"
  let ?last = "\<not> tb_refs blk - 1 > 0"
  let ?m6 = "if ?last
      then ?m5\<lparr>by_block := map_option (\<lambda>t. t(tb_dsml blk := None)) (by_block m),
               tm_bytes := (if ?n \<ge> tb_bytes blk then ?n - tb_bytes blk else 0),
               bheap := (bheap m)(b := None)\<rparr>
      else ?m5\<lparr>bheap := (bheap m)(b \<mapsto> ?blk)\<rparr>"
  have rel: "tool_memory_release_block_locked ?m5 (Some b) = Some ?m6"
    using same by (cases "by_block m")
      (auto simp: tool_memory_release_block_locked_def set_block_Some Let_def)
  let ?m' = "?m6\<lparr>eheap := h(a := None)\<rparr>"
  let ?m3 = "m2\<lparr>eheap := h, bheap := (bheap m2)(b \<mapsto> blk\<lparr>tb_entries := l\<rparr>)\<rparr>"
  have m5: "(if tm_entries (?m3\<lparr>tm_bytes := ?n\<rparr>) > 0
      then ?m3\<lparr>tm_bytes := ?n, tm_entries := tm_entries (?m3\<lparr>tm_bytes := ?n\<rparr>) - 1\<rparr>
      else ?m3\<lparr>tm_bytes := ?n\<rparr>) = ?m5"
    using same(3) by (cases m2) simp
  have bytes: "tm_bytes ?m3 = tm_bytes m" using same by simp
  have "tool_memory_remove_entry_locked m a = Some ?m'"
    unfolding tool_memory_remove_entry_locked_def x(1) bind.bind_lunit x(2) m1 Let_def m2(1) option.case
      m3(1) bytes m5 rel
    by (cases ?last) (simp_all only: if_True if_False simp_thms bind.bind_lunit, simp_all)
  moreover have "dll ?m' (xs @ ys)"
    using m2(2) d m3(4) by (auto simp: dll_def views)
  moreover have "removed m a ?m'"
    unfolding removed_def
    using x b same m3(5) by (intro exI [of _ x] exI [of _ b] exI [of _ blk] exI [of _ l])
      (auto simp: same_limits_def views Let_def)
  moreover have "\<forall>y. y \<notin> set us \<and> y \<noteq> a \<longrightarrow> chn (eheap ?m') y = chn (eheap m) y"
    using m3(3) same by (simp add: views)
  moreover have "\<forall>blk'. bheap ?m' b = Some blk' \<longrightarrow> chain (chn (eheap ?m')) (tb_entries blk') (us @ vs)"
    using m3(2) d' by (auto simp: views)
  ultimately show ?thesis by blast
qed

lemma owned_disjoint: "a \<in> owned h b \<Longrightarrow> a \<in> owned h b' \<Longrightarrow> b = b'"
  by (auto simp: owned_def)

lemma sum_list_update:
  "(\<And>a. a \<in> set as \<Longrightarrow> f a = g a) \<Longrightarrow> (\<Sum>a\<leftarrow>as. f a) = (\<Sum>a\<leftarrow>as. g a)" for f :: "addr \<Rightarrow> nat"
  by (induction as) auto

text \<open>\<open>cut\<close> collects what is known before and after taking \<open>a\<close>, the entry \<open>x\<close> of block \<open>b\<close>, out.\<close>

definition cut ::
  "tool_memory \<Rightarrow> tool_memory \<Rightarrow> addr list \<Rightarrow> addr \<Rightarrow> addr list \<Rightarrow> (addr \<Rightarrow> addr list) \<Rightarrow>
   tool_memory_entry \<Rightarrow> addr \<Rightarrow> tool_memory_block \<Rightarrow> addr list \<Rightarrow> addr list \<Rightarrow> addr option \<Rightarrow> bool" where
  "cut m m' xs a ys cs x b blk us vs l \<longleftrightarrow>
     tm_inv m (xs @ a # ys) cs \<and> dll m' (xs @ ys) \<and>
     pay (eheap m) a = Some (te_id x, Some b, length (te_id x) + 65, te_source x) \<and>
     te_bytes x = length (te_id x) + 65 \<and> bheap m b = Some blk \<and> cs b = us @ a # vs \<and>
     tb_refs blk = 1 + int (length (us @ vs)) \<and>
     by_id m' = map_option (\<lambda>t. t(te_id x := None)) (by_id m) \<and>
     (if us @ vs \<noteq> []
      then by_block m' = by_block m \<and>
           bheap m' = (bheap m)(b \<mapsto> blk\<lparr>tb_entries := l, tb_refs := tb_refs blk - 1\<rparr>)
      else by_block m' = map_option (\<lambda>t. t(tb_dsml blk := None)) (by_block m) \<and>
           bheap m' = (bheap m)(b := None)) \<and>
     tm_bytes m' = (let n = (if tm_bytes m \<ge> te_bytes x then tm_bytes m - te_bytes x else 0)
                    in if us @ vs \<noteq> [] then n else if n \<ge> tb_bytes blk then n - tb_bytes blk else 0) \<and>
     tm_entries m' = (if tm_entries m > 0 then tm_entries m - 1 else tm_entries m) \<and>
     brk m' = brk m \<and> same_limits m m' \<and> pay (eheap m') = (pay (eheap m))(a := None) \<and>
     (\<forall>y. y \<notin> set us \<and> y \<noteq> a \<longrightarrow> chn (eheap m') y = chn (eheap m) y) \<and>
     (\<forall>k. bheap m' b = Some k \<longrightarrow> chain (chn (eheap m')) (tb_entries k) (us @ vs))"

lemma blocks_okD: "blocks_ok m cs \<Longrightarrow> set (cs b) = owned (eheap m) b"
  "blocks_ok m cs \<Longrightarrow> distinct (cs b)"
  "blocks_ok m cs \<Longrightarrow> bheap m b = Some k \<Longrightarrow> block_const k \<and> b < brk m \<and> cs b \<noteq> [] \<and>
     chain (chn (eheap m)) (tb_entries k) (cs b) \<and> tb_refs k = int (length (cs b))"
  by (simp_all add: blocks_ok_def)

lemma tm_invD: "tm_inv m as cs \<Longrightarrow> distinct as" "tm_inv m as cs \<Longrightarrow> set as = dom (pay (eheap m))"
  "tm_inv m as cs \<Longrightarrow> dll m as" "tm_inv m as cs \<Longrightarrow> entries_ok m" "tm_inv m as cs \<Longrightarrow> blocks_ok m cs"
  "tm_inv m as cs \<Longrightarrow> index_ok m" "tm_inv m as cs \<Longrightarrow> counts_ok m as"
  by (simp_all add: tm_inv_def)

lemma cut_exists:
  assumes inv: "tm_inv m (xs @ a # ys) cs"
  shows "\<exists>m' x b blk us vs l. tool_memory_remove_entry_locked m a = Some m' \<and>
    cut m m' xs a ys cs x b blk us vs l"
proof -
  have "a \<in> set (xs @ a # ys)" by simp
  from inv_entry [OF inv this] obtain x b blk us vs where
    x: "eheap m a = Some x" "te_block x = Some b" "te_bytes x = length (te_id x) + 65"
    and b: "bheap m b = Some blk" and csb: "cs b = us @ a # vs" .
  note bok = tm_invD(5) [OF inv]
  have chb: "chain (chn (eheap m)) (tb_entries blk) (us @ a # vs)" "distinct (us @ a # vs)"
    and refs: "tb_refs blk = 1 + int (length (us @ vs))"
    using blocks_okD(3) [OF bok b] blocks_okD(2) [OF bok, of b] csb by simp_all
  from remove_entry_run [OF tm_invD(3) [OF inv] tm_invD(1) [OF inv] x(1,2) b chb] obtain m' where
    run: "tool_memory_remove_entry_locked m a = Some m'" and dll': "dll m' (xs @ ys)"
    and rem: "removed m a m'"
    and ch: "\<forall>y. y \<notin> set us \<and> y \<noteq> a \<longrightarrow> chn (eheap m') y = chn (eheap m) y"
      "\<forall>k. bheap m' b = Some k \<longrightarrow> chain (chn (eheap m')) (tb_entries k) (us @ vs)"
    by blast
  have pos: "tb_refs blk - 1 > 0 \<longleftrightarrow> us @ vs \<noteq> []"
    using refs by (cases "us @ vs") simp_all
  have pa: "pay (eheap m) a = Some (te_id x, Some b, length (te_id x) + 65, te_source x)"
    using x by (simp add: view_Some)
  have "\<exists>l. cut m m' xs a ys cs x b blk us vs l"
    using rem unfolding removed_def cut_def pos [symmetric]
    using inv dll' pa x b csb refs ch by (elim exE conjE) (simp, blast)
  with run show ?thesis by blast
qed

lemma cut_inv: "cut m m' xs a ys cs x b blk us vs l \<Longrightarrow> tm_inv m (xs @ a # ys) cs"
  and cut_pay: "cut m m' xs a ys cs x b blk us vs l \<Longrightarrow> pay (eheap m') = (pay (eheap m))(a := None)"
  and cut_block: "cut m m' xs a ys cs x b blk us vs l \<Longrightarrow> bheap m b = Some blk"
  by (simp_all add: cut_def)

lemma cut_lonely:
  assumes "cut m m' xs a ys cs x b blk us vs l" "us @ vs = []"
  shows "owned (eheap m) b = {a}"
  using assms blocks_okD(1) [OF tm_invD(5), of m "xs @ a # ys" cs b] by (auto simp: cut_def)

lemma cut_owned:
  assumes "cut m m' xs a ys cs x b blk us vs l"
  shows "owned (eheap m') b' = owned (eheap m) b' - {a}" "a \<in> owned (eheap m) b"
  using assms by (auto simp: cut_def owned_del) (auto simp: owned_def)

lemma cut_block_kept:
  assumes "cut m m' xs a ys cs x b blk us vs l" "bheap m b' = Some k" "b' \<noteq> b \<or> us @ vs \<noteq> []"
  shows "\<exists>k'. bheap m' b' = Some k' \<and> tb_dsml k' = tb_dsml k"
  using assms by (auto simp: cut_def split: if_splits)

lemma cut_block_from:
  assumes "cut m m' xs a ys cs x b blk us vs l" "bheap m' b' = Some k'"
  shows "(b' \<noteq> b \<and> bheap m b' = Some k') \<or>
    (b' = b \<and> us @ vs \<noteq> [] \<and> k' = blk\<lparr>tb_entries := l, tb_refs := tb_refs blk - 1\<rparr>)"
  using assms by (auto simp: cut_def split: if_splits)

lemma cut_alive:
  assumes c: "cut m m' xs a ys cs x b blk us vs l" and p: "pay (eheap m') a' = Some (i, bo, n, s)"
  shows "a' \<noteq> a" "pay (eheap m) a' = Some (i, bo, n, s)"
    "\<exists>b' k k'. bo = Some b' \<and> bheap m b' = Some k \<and> bheap m' b' = Some k' \<and> tb_dsml k' = tb_dsml k"
proof -
  show na: "a' \<noteq> a" and p': "pay (eheap m) a' = Some (i, bo, n, s)"
    using c p by (auto simp: cut_def split: if_splits)
  have "tm_inv m (xs @ a # ys) cs" using c by (simp add: cut_def)
  then obtain b' k where k: "bo = Some b'" "bheap m b' = Some k"
    using p' tm_invD(4) unfolding entries_ok_def by metis
  have "b' \<noteq> b \<or> us @ vs \<noteq> []"
    using cut_lonely [OF c] na p' k by (auto simp: owned_def)
  with cut_block_kept [OF c k(2)] k show
    "\<exists>b' k k'. bo = Some b' \<and> bheap m b' = Some k \<and> bheap m' b' = Some k' \<and> tb_dsml k' = tb_dsml k"
    by blast
qed

lemma cut_entries:
  assumes c: "cut m m' xs a ys cs x b blk us vs l"
  shows "entries_ok m'"
proof -
  have "entries_ok m" "brk m' = brk m" using c tm_invD(4) by (auto simp: cut_def)
  then show ?thesis
    unfolding entries_ok_def using cut_alive [OF c] by metis
qed

lemma cut_blocks:
  assumes c: "cut m m' xs a ys cs x b blk us vs l"
  shows "blocks_ok m' (cs(b := us @ vs))"
proof -
  have bok: "blocks_ok m cs" and csb: "cs b = us @ a # vs" and brk: "brk m' = brk m"
    and b: "bheap m b = Some blk" and refs: "tb_refs blk = 1 + int (length (us @ vs))"
    and same: "\<And>y. y \<notin> set us \<Longrightarrow> y \<noteq> a \<Longrightarrow> chn (eheap m') y = chn (eheap m) y"
    and chb: "\<And>k. bheap m' b = Some k \<Longrightarrow> chain (chn (eheap m')) (tb_entries k) (us @ vs)"
    using c tm_invD(5) by (auto simp: cut_def)
  note own = blocks_okD(1) [OF bok] and dis = blocks_okD(2) [OF bok] and blks = blocks_okD(3) [OF bok]
  have setb: "set (us @ vs) = owned (eheap m) b - {a}"
    using own [of b] dis [of b] csb by auto
  have seto: "b' \<noteq> b \<Longrightarrow> a \<notin> owned (eheap m) b'" for b'
    using cut_owned(2) [OF c] owned_disjoint by blast
  show ?thesis
    unfolding blocks_ok_def
  proof (intro conjI allI impI)
    fix b'
    show "set ((cs(b := us @ vs)) b') = owned (eheap m') b'"
      using own [of b'] setb seto [of b'] cut_owned(1) [OF c, of b'] by simp
    show "distinct ((cs(b := us @ vs)) b')" using dis [of b'] dis [of b] csb by simp
  next
    fix b' k' assume k': "bheap m' b' = Some k'"
    have cst: "block_const k' \<and> b' < brk m' \<and> (cs(b := us @ vs)) b' \<noteq> [] \<and>
        tb_refs k' = int (length ((cs(b := us @ vs)) b'))"
      using cut_block_from [OF c k'] blks [OF b] blks [of b' k'] brk refs by (auto simp: block_const_def)
    then show "block_const k'" "b' < brk m'" "(cs(b := us @ vs)) b' \<noteq> []"
      "tb_refs k' = int (length ((cs(b := us @ vs)) b'))" by blast+
    show "chain (chn (eheap m')) (tb_entries k') ((cs(b := us @ vs)) b')"
    proof (cases "b' = b")
      case True
      with chb k' show ?thesis by simp
    next
      case False
      have "y \<notin> set us \<and> y \<noteq> a" if "y \<in> set (cs b')" for y
        using that own [of b'] own [of b] csb False owned_disjoint [of y "eheap m" b b'] by auto
      then have "chain (chn (eheap m')) (tb_entries k') (cs b') = chain (chn (eheap m)) (tb_entries k') (cs b')"
        by (intro chain_cong) (auto intro: same)
      with False cut_block_from [OF c k'] blks show ?thesis by auto
    qed
  qed
qed

lemma cut_index:
  assumes c: "cut m m' xs a ys cs x b blk us vs l"
  shows "index_ok m'"
proof -
  have iok: "index_ok m" and b: "bheap m b = Some blk"
    and pa: "pay (eheap m) a = Some (te_id x, Some b, length (te_id x) + 65, te_source x)"
    and byid: "by_id m' = map_option (\<lambda>t. t(te_id x := None)) (by_id m)"
    and blk': "if us @ vs \<noteq> []
      then by_block m' = by_block m \<and>
           bheap m' = (bheap m)(b \<mapsto> blk\<lparr>tb_entries := l, tb_refs := tb_refs blk - 1\<rparr>)
      else by_block m' = map_option (\<lambda>t. t(tb_dsml blk := None)) (by_block m) \<and>
           bheap m' = (bheap m)(b := None)"
    and pay': "pay (eheap m') = (pay (eheap m))(a := None)"
    using c tm_invD(6) by (auto simp: cut_def)
  obtain t u where t: "by_id m = Some t" "by_block m = Some u"
    "\<And>i a. t i = Some a \<longleftrightarrow> (\<exists>bo n s. pay (eheap m) a = Some (i, bo, n, s))"
    "\<And>d b. u d = Some b \<longleftrightarrow> (\<exists>blk. bheap m b = Some blk \<and> tb_dsml blk = d)"
    using iok unfolding index_ok_def by blast
  have ta: "t (te_id x) = Some a" using t(3) pa by blast
  have ub: "u (tb_dsml blk) = Some b" using t(4) b by blast
  have ids: "((t(te_id x := None)) i = Some a') = (\<exists>bo n s. pay (eheap m') a' = Some (i, bo, n, s))" for i a'
    using ta pa t(3) [of i a'] by (auto simp: pay')
  define u' where "u' = (if us @ vs = [] then u(tb_dsml blk := None) else u)"
  have "by_block m' = Some u'" using blk' t(2) by (auto simp: u'_def split: if_splits)
  moreover have "(u' d = Some b') = (\<exists>k. bheap m' b' = Some k \<and> tb_dsml k = d)" for d b'
    using ub b t(4) [of d b'] blk' by (auto simp: u'_def split: if_splits)
  ultimately show ?thesis
    using byid t(1) ids unfolding index_ok_def by auto
qed

lemma cut_counts:
  assumes c: "cut m m' xs a ys cs x b blk us vs l"
  shows "counts_ok m' (xs @ ys)"
proof -
  let ?w = "\<lambda>m b. length (tb_dsml (the (bheap m b))) + 49"
  let ?f = "\<lambda>m a. length (fst (the (pay (eheap m) a))) + 65"
  note inv = cut_inv [OF c] and b = cut_block [OF c]
  note d = tm_invD(1) [OF inv] and cok = tm_invD(7) [OF inv] and bok = tm_invD(5) [OF inv]
  have fin: "finite (dom (bheap m))" and n: "tm_entries m = int (length (xs @ a # ys))"
    and by0: "tm_bytes m = sum_list (map (?f m) (xs @ a # ys)) + sum (?w m) (dom (bheap m))"
    using cok by (simp_all add: counts_ok_def)
  have f: "sum_list (map (?f m') (xs @ ys)) = sum_list (map (?f m) (xs @ ys))"
    using d by (intro sum_list_update) (auto simp: cut_pay [OF c])
  have bytes1: "tm_bytes m = sum_list (map (?f m) (xs @ ys)) + te_bytes x + sum (?w m) (dom (bheap m))"
    using by0 c by (simp add: cut_def)
  have fin': "finite (dom (bheap m'))"
    using fin c by (auto simp: cut_def split: if_splits)
  have tb: "?w m b = tb_bytes blk" using b blocks_okD(3) [OF bok b] by (simp add: block_const_def)
  have blocks: "sum (?w m) (dom (bheap m)) =
      sum (?w m') (dom (bheap m')) + (if us @ vs = [] then tb_bytes blk else 0)"
  proof (cases "us @ vs = []")
    case True
    then have bh: "bheap m' = (bheap m)(b := None)" using c by (auto simp: cut_def)
    have "sum (?w m) (dom (bheap m)) = ?w m b + sum (?w m) (dom (bheap m) - {b})"
      using fin b by (intro sum.remove) auto
    moreover have "sum (?w m') (dom (bheap m')) = sum (?w m) (dom (bheap m) - {b})"
      by (intro sum.cong) (auto simp: bh)
    ultimately show ?thesis using tb True by simp
  next
    case False
    then have bh: "bheap m' = (bheap m)(b \<mapsto> blk\<lparr>tb_entries := l, tb_refs := tb_refs blk - 1\<rparr>)"
      using c by (auto simp: cut_def)
    have "sum (?w m') (dom (bheap m')) = sum (?w m) (dom (bheap m))"
      using b by (intro sum.cong) (auto simp: bh)
    with False show ?thesis by (auto simp only: if_False)
  qed
  have "tm_bytes m' = sum_list (map (?f m) (xs @ ys)) + sum (?w m') (dom (bheap m'))"
    using bytes1 blocks c by (auto simp: cut_def Let_def)
  moreover have "tm_entries m' = int (length (xs @ ys))" using n c by (simp add: cut_def)
  ultimately show ?thesis using f fin' by (simp add: counts_ok_def)
qed

lemma cut_items:
  assumes c: "cut m m' xs a ys cs x b blk us vs l"
  shows "absl m' (xs @ ys) = absl m xs @ absl m ys"
proof -
  have "item_of m' a' = item_of m a'" if "a' \<in> set (xs @ ys)" for a'
  proof -
    have "a' \<in> dom (pay (eheap m'))"
      using that tm_invD(1,2) [OF cut_inv [OF c]] by (auto simp: cut_pay [OF c])
    then obtain i bo n s where p: "pay (eheap m') a' = Some (i, bo, n, s)" by auto
    from cut_alive [OF c p] show ?thesis using p by (auto simp: item_of_def)
  qed
  then show ?thesis by (simp add: absl_def)
qed

theorem remove_inv:
  assumes inv: "tm_inv m (xs @ a # ys) cs"
  shows "\<exists>m' cs'. tool_memory_remove_entry_locked m a = Some m' \<and> tm_inv m' (xs @ ys) cs' \<and>
    absl m' (xs @ ys) = absl m xs @ absl m ys \<and> same_limits m m'"
proof -
  obtain m' x b blk us vs l where run: "tool_memory_remove_entry_locked m a = Some m'"
    and c: "cut m m' xs a ys cs x b blk us vs l"
    using cut_exists [OF inv] by blast
  have "set (xs @ ys) = dom (pay (eheap m'))" "distinct (xs @ ys)" "dll m' (xs @ ys)" "same_limits m m'"
    using c tm_invD(1,2) [OF inv] by (auto simp: cut_def)
  then show ?thesis
    using run cut_entries [OF c] cut_blocks [OF c] cut_index [OF c] cut_counts [OF c] cut_items [OF c]
    unfolding tm_inv_def by blast
qed

end
