(* ===== verification/ToolMemoryAdd.thy ===== *)
theory ToolMemoryAdd
  imports ToolMemoryInv
begin

text \<open>
  Moving an entry to the front, changing its source, and adding an entry keep the invariant of the
  tool-call memory; the size counter is the size of what is stored.
\<close>

section \<open>Moving and changing\<close>

lemma entries_okD: "entries_ok m \<Longrightarrow> pay (eheap m) a = Some (i, bo, n, s) \<Longrightarrow>
    i \<noteq> [] \<and> n = length i + 65 \<and> a < brk m \<and> (\<exists>b blk. bo = Some b \<and> bheap m b = Some blk)"
  unfolding entries_ok_def by blast

lemma move_inv:
  assumes inv: "tm_inv m as cs" and ch: "list_change m m'" and dll: "dll m' as'"
    and d: "distinct as'" and s: "set as' = set as"
  shows "tm_inv m' as' cs" "absl m' as' = map (item_of m) as'" "same_limits m m'"
proof -
  note same = list_change_same [OF ch]
  note c = tm_invD [OF inv]
  have len: "length as' = length as" using d s c(1) by (metis distinct_card)
  let ?f = "\<lambda>a. length (fst (the (pay (eheap m) a))) + 65"
  have "sum_list (map ?f as') = sum_list (map ?f as)"
    using d s c(1) by (simp add: sum_list_distinct_conv_sum_set)
  then have "counts_ok m' as'" using c(7) same len by (simp add: counts_ok_def)
  moreover have "entries_ok m'" using c(4) same by (simp add: entries_ok_def)
  moreover have "blocks_ok m' cs" using c(5) same by (simp add: blocks_ok_def owned_def)
  moreover have "index_ok m'" using c(6) same by (simp add: index_ok_def)
  ultimately show "tm_inv m' as' cs" using c(2) d s dll same by (simp add: tm_inv_def)
  show "absl m' as' = map (item_of m) as'" using same by (simp add: absl_def item_of_def)
  show "same_limits m m'" using same by (simp add: same_limits_def)
qed

lemma touch_inv:
  assumes inv: "tm_inv m as cs" and a: "a \<in> set as"
  shows "\<exists>m'. tool_memory_touch m a = Some m' \<and> tm_inv m' (a # remove1 a as) cs \<and>
    absl m' (a # remove1 a as) = map (item_of m) (a # remove1 a as) \<and> same_limits m m' \<and>
    list_change m m'"
proof -
  note c = tm_invD [OF inv]
  obtain m' where m': "tool_memory_touch m a = Some m'" "dll m' (a # remove1 a as)" "list_change m m'"
    using touch_spec [OF c(3,1) a] by blast
  have "distinct (a # remove1 a as)" "set (a # remove1 a as) = set as" using c(1) a by auto
  with move_inv [OF inv m'(3,2)] m'(1,3) show ?thesis by blast
qed

lemma source_inv:
  assumes inv: "tm_inv m as cs" and x: "eheap m a = Some x"
  shows "tm_inv (m\<lparr>eheap := (eheap m)(a \<mapsto> x\<lparr>te_source := s\<rparr>)\<rparr>) as cs"
proof -
  let ?m = "m\<lparr>eheap := (eheap m)(a \<mapsto> x\<lparr>te_source := s\<rparr>)\<rparr>"
  note c = tm_invD [OF inv]
  have views: "pn (eheap ?m) = pn (eheap m)" "chn (eheap ?m) = chn (eheap m)"
    "pay (eheap ?m) = (pay (eheap m))(a \<mapsto> (te_id x, te_block x, te_bytes x, s))"
    using x by (simp_all add: views view_Some fun_upd_idem)
  have pa: "pay (eheap m) a = Some (te_id x, te_block x, te_bytes x, te_source x)"
    using x by (rule view_Some)
  have own: "owned (eheap ?m) b = owned (eheap m) b" for b
    unfolding owned_def views using pa by auto
  have "dom (pay (eheap ?m)) = dom (pay (eheap m))" using views pa by auto
  moreover have "dll ?m as" using c(3) views by (simp add: dll_def)
  moreover have "entries_ok ?m"
    using entries_okD [OF c(4)] entries_okD [OF c(4) pa]
    unfolding entries_ok_def views by (simp split: if_splits) (metis prod.collapse)
  moreover have "blocks_ok ?m cs" using c(5) own views by (simp add: blocks_ok_def)
  moreover have "index_ok ?m"
  proof -
    have "(\<exists>bo n s. pay (eheap ?m) a' = Some (i, bo, n, s)) = (\<exists>bo n s. pay (eheap m) a' = Some (i, bo, n, s))" for i a'
      unfolding views using pa by auto
    then show ?thesis using c(6) by (simp add: index_ok_def)
  qed
  moreover have "counts_ok ?m as"
  proof -
    have "fst (the (pay (eheap ?m) a')) = fst (the (pay (eheap m) a'))" for a'
      unfolding views using pa by simp
    then show ?thesis using c(7) by (simp add: counts_ok_def)
  qed
  ultimately show ?thesis using c(1,2) by (simp add: tm_inv_def)
qed

section \<open>Adding\<close>

definition added ::
  "tool_memory \<Rightarrow> tool_memory \<Rightarrow> addr list \<Rightarrow> (addr \<Rightarrow> addr list) \<Rightarrow> addr \<Rightarrow> addr \<Rightarrow>
   tool_memory_block \<Rightarrow> cstr \<Rightarrow> cstr \<Rightarrow> tool_memory_source \<Rightarrow> bool" where
  "added m m' as cs e b k i d s \<longleftrightarrow>
     tm_inv m as cs \<and> dll m' (e # as) \<and> i \<noteq> [] \<and> d \<noteq> [] \<and> e \<notin> set as \<and> e < brk m' \<and> b < brk m' \<and> brk m \<le> brk m' \<and>
     pay (eheap m') = (pay (eheap m))(e \<mapsto> (i, Some b, length i + 65, s)) \<and>
     (\<forall>y. y \<noteq> e \<longrightarrow> chn (eheap m') y = chn (eheap m) y) \<and>
     bheap m' = (bheap m)(b \<mapsto> k) \<and> block_const k \<and> tb_dsml k = d \<and>
     tb_refs k = 1 + int (length (cs b)) \<and> chain (chn (eheap m')) (tb_entries k) (e # cs b) \<and>
     (\<forall>k0. bheap m b = Some k0 \<longrightarrow> tb_dsml k0 = d) \<and>
     by_id m' = map_option (\<lambda>t. t(i \<mapsto> e)) (by_id m) \<and> (\<forall>t. by_id m = Some t \<longrightarrow> t i = None) \<and>
     by_block m' = map_option (\<lambda>u. u(d \<mapsto> b)) (by_block m) \<and>
     (\<forall>u. by_block m = Some u \<longrightarrow> u d = (if bheap m b = None then None else Some b)) \<and>
     tm_entries m' = tm_entries m + 1 \<and>
     tm_bytes m' = tm_bytes m + (length i + 65) + (if bheap m b = None then length d + 49 else 0) \<and>
     same_limits m m'"

lemma unowned: "tm_inv m as cs \<Longrightarrow> bheap m b = None \<Longrightarrow> cs b = []"
proof -
  assume inv: "tm_inv m as cs" and b: "bheap m b = None"
  have "owned (eheap m) b = {}"
  proof -
    have "a \<notin> owned (eheap m) b" for a
    proof
      assume "a \<in> owned (eheap m) b"
      then obtain i n s where "pay (eheap m) a = Some (i, Some b, n, s)" by (auto simp: owned_def)
      with tm_invD(4) [OF inv] obtain k where "bheap m b = Some k" unfolding entries_ok_def by blast
      with b show False by simp
    qed
    then show ?thesis by blast
  qed
  with blocks_okD(1) [OF tm_invD(5) [OF inv], of b] show ?thesis by simp
qed

lemma added_entries:
  assumes a: "added m m' as cs e b k i d s"
  shows "entries_ok m'"
proof -
  have "entries_ok m" using a tm_invD(4) by (auto simp: added_def)
  then have old: "\<And>a i bo n s. pay (eheap m) a = Some (i, bo, n, s) \<Longrightarrow>
      i \<noteq> [] \<and> n = length i + 65 \<and> a < brk m \<and> (\<exists>b blk. bo = Some b \<and> bheap m b = Some blk)"
    unfolding entries_ok_def by blast
  show ?thesis
    unfolding entries_ok_def
  proof (intro allI impI)
    fix a' i' bo n s' assume p: "pay (eheap m') a' = Some (i', bo, n, s')"
    show "i' \<noteq> [] \<and> n = length i' + 65 \<and> a' < brk m' \<and> (\<exists>b blk. bo = Some b \<and> bheap m' b = Some blk)"
    proof (cases "a' = e")
      case True
      with p a show ?thesis by (auto simp: added_def)
    next
      case False
      with p a have "pay (eheap m) a' = Some (i', bo, n, s')" by (simp add: added_def)
      from old [OF this] a show ?thesis by (fastforce simp: added_def)
    qed
  qed
qed

lemma added_owned:
  assumes "added m m' as cs e b k i d s"
  shows "owned (eheap m') b' = owned (eheap m) b' \<union> (if b' = b then {e} else {})" "e \<notin> owned (eheap m) b'"
proof -
  have p: "pay (eheap m') = (pay (eheap m))(e \<mapsto> (i, Some b, length i + 65, s))" "e \<notin> set as"
    and inv: "tm_inv m as cs" using assms by (simp_all add: added_def)
  have "pay (eheap m) e = None" using p(2) tm_invD(2) [OF inv] by auto
  then show "owned (eheap m') b' = owned (eheap m) b' \<union> (if b' = b then {e} else {})"
    "e \<notin> owned (eheap m) b'" by (auto simp: owned_def p)
qed

lemma added_blocks:
  assumes a: "added m m' as cs e b k i d s"
  shows "blocks_ok m' (cs(b := e # cs b))"
proof -
  have inv: "tm_inv m as cs" and bh: "bheap m' = (bheap m)(b \<mapsto> k)"
    and k: "block_const k" "tb_refs k = 1 + int (length (cs b))"
      "chain (chn (eheap m')) (tb_entries k) (e # cs b)" "b < brk m'" "brk m \<le> brk m'"
    and ch: "\<And>y. y \<noteq> e \<Longrightarrow> chn (eheap m') y = chn (eheap m) y"
    using a by (auto simp: added_def)
  note bok = tm_invD(5) [OF inv]
  have chain': "chain (chn (eheap m')) p (cs b') = chain (chn (eheap m)) p (cs b')" for p b'
    using added_owned(2) [OF a, of b'] blocks_okD(1) [OF bok, of b'] by (intro chain_cong ch) auto
  show ?thesis
    unfolding blocks_ok_def
  proof (intro conjI allI impI)
    fix b'
    show "set ((cs(b := e # cs b)) b') = owned (eheap m') b'"
      using blocks_okD(1) [OF bok, of b'] blocks_okD(1) [OF bok, of b] added_owned(1) [OF a, of b'] by simp
    show "distinct ((cs(b := e # cs b)) b')"
      using blocks_okD(1,2) [OF bok, of b'] blocks_okD(1,2) [OF bok, of b] added_owned(2) [OF a]
      by simp
  next
    fix b' k' assume k': "bheap m' b' = Some k'"
    have "block_const k' \<and> b' < brk m' \<and> (cs(b := e # cs b)) b' \<noteq> [] \<and>
        chain (chn (eheap m')) (tb_entries k') ((cs(b := e # cs b)) b') \<and>
        tb_refs k' = int (length ((cs(b := e # cs b)) b'))"
      using k' bh k blocks_okD(3) [OF bok, of b' k'] chain' by (auto split: if_splits)
    then show "block_const k'" "b' < brk m'" "(cs(b := e # cs b)) b' \<noteq> []"
      "chain (chn (eheap m')) (tb_entries k') ((cs(b := e # cs b)) b')"
      "tb_refs k' = int (length ((cs(b := e # cs b)) b'))" by blast+
  qed
qed

lemma added_index:
  assumes a: "added m m' as cs e b k i d s"
  shows "index_ok m'"
proof -
  have inv: "tm_inv m as cs" using a by (simp add: added_def)
  obtain t u where t: "by_id m = Some t" "by_block m = Some u"
    "\<And>i a. t i = Some a \<longleftrightarrow> (\<exists>bo n s. pay (eheap m) a = Some (i, bo, n, s))"
    "\<And>d b. u d = Some b \<longleftrightarrow> (\<exists>blk. bheap m b = Some blk \<and> tb_dsml blk = d)"
    using tm_invD(6) [OF inv] unfolding index_ok_def by blast
  have bh: "bheap m' = (bheap m)(b \<mapsto> k)" "tb_dsml k = d" "\<And>k0. bheap m b = Some k0 \<Longrightarrow> tb_dsml k0 = d"
    and pay: "pay (eheap m') = (pay (eheap m))(e \<mapsto> (i, Some b, length i + 65, s))"
    and e: "pay (eheap m) e = None" and ti: "t i = None"
    and ud: "u d = (if bheap m b = None then None else Some b)"
    and maps: "by_id m' = Some (t(i \<mapsto> e))" "by_block m' = Some (u(d \<mapsto> b))"
    using a t tm_invD(2) [OF inv] by (auto simp: added_def)
  have "pay (eheap m) a' \<noteq> Some (i, bo, n, s)" for a' bo n s
    using ti t(3) [of i a'] by auto
  then have "((t(i \<mapsto> e)) i' = Some a') = (\<exists>bo n s. pay (eheap m') a' = Some (i', bo, n, s))" for i' a'
    using t(3) [of i' a'] ti e by (auto simp: pay t(3))
  moreover have "((u(d \<mapsto> b)) d' = Some b') = (\<exists>k. bheap m' b' = Some k \<and> tb_dsml k = d')" for d' b'
    using t(4) [of d' b'] ud bh t(4) [of d] by (auto simp: bh(1) split: if_splits)
  ultimately show ?thesis unfolding index_ok_def using maps by auto
qed

lemma added_counts:
  assumes a: "added m m' as cs e b k i d s"
  shows "counts_ok m' (e # as)"
proof -
  let ?w = "\<lambda>m b. length (tb_dsml (the (bheap m b))) + 49"
  let ?f = "\<lambda>m a. length (fst (the (pay (eheap m) a))) + 65"
  have inv: "tm_inv m as cs" and bh: "bheap m' = (bheap m)(b \<mapsto> k)" "tb_dsml k = d"
      "\<And>k0. bheap m b = Some k0 \<Longrightarrow> tb_dsml k0 = d"
    and pay: "pay (eheap m') = (pay (eheap m))(e \<mapsto> (i, Some b, length i + 65, s))"
    and e: "e \<notin> set as"
    and n: "tm_entries m' = tm_entries m + 1"
      "tm_bytes m' = tm_bytes m + (length i + 65) + (if bheap m b = None then length d + 49 else 0)"
    using a by (auto simp: added_def)
  have cok: "finite (dom (bheap m))" "tm_entries m = int (length as)"
    "tm_bytes m = sum_list (map (?f m) as) + sum (?w m) (dom (bheap m))"
    using tm_invD(7) [OF inv] by (simp_all add: counts_ok_def)
  have "sum_list (map (?f m') as) = sum_list (map (?f m) as)"
    by (rule sum_list_update) (use e in \<open>auto simp: pay\<close>)
  then have f: "sum_list (map (?f m') (e # as)) = length i + 65 + sum_list (map (?f m) as)"
    by (simp only: list.map sum_list.Cons) (simp add: pay)
  have same: "sum (?w m') (dom (bheap m) - {b}) = sum (?w m) (dom (bheap m) - {b})"
    by (intro sum.cong) (auto simp: bh(1))
  have "sum (?w m') (dom (bheap m')) = ?w m' b + sum (?w m') (dom (bheap m) - {b})"
    using cok(1) by (simp add: bh(1) sum.insert_remove)
  moreover have "sum (?w m) (dom (bheap m)) =
      (if bheap m b = None then 0 else length d + 49) + sum (?w m) (dom (bheap m) - {b})"
    using cok(1) bh(3) by (cases "bheap m b") (auto simp: sum.remove [of _ b] dom_def)
  ultimately have "sum (?w m') (dom (bheap m')) =
      sum (?w m) (dom (bheap m)) + (if bheap m b = None then length d + 49 else 0)"
    using same bh by (simp only:) simp
  then show ?thesis using f n cok bh by (simp add: counts_ok_def)
qed

lemma added_items:
  assumes a: "added m m' as cs e b k i d s"
  shows "absl m' (e # as) = (i, d, s) # absl m as"
proof -
  have inv: "tm_inv m as cs" and bh: "bheap m' = (bheap m)(b \<mapsto> k)" "tb_dsml k = d"
      "\<And>k0. bheap m b = Some k0 \<Longrightarrow> tb_dsml k0 = d"
    and pay: "pay (eheap m') = (pay (eheap m))(e \<mapsto> (i, Some b, length i + 65, s))"
    and e: "e \<notin> set as" using a by (auto simp: added_def)
  have "item_of m' a' = item_of m a'" if "a' \<in> set as" for a'
  proof -
    have "a' \<in> dom (pay (eheap m))" "a' \<noteq> e" using that tm_invD(2) [OF inv] e by auto
    then obtain i' bo n s' where p: "pay (eheap m) a' = Some (i', bo, n, s')" by auto
    with tm_invD(4) [OF inv] obtain b' k' where "bo = Some b'" "bheap m b' = Some k'"
      unfolding entries_ok_def by metis
    with p \<open>a' \<noteq> e\<close> bh show ?thesis by (auto simp: item_of_def pay)
  qed
  then show ?thesis using bh(1,2) by (simp add: absl_def) (simp add: item_of_def pay)
qed

lemma added_inv:
  assumes a: "added m m' as cs e b k i d s"
  shows "tm_inv m' (e # as) (cs(b := e # cs b))"
proof -
  have inv: "tm_inv m as cs" using a by (simp add: added_def)
  have "set (e # as) = dom (pay (eheap m'))" "distinct (e # as)" "dll m' (e # as)"
    using a tm_invD(1,2) [OF inv] by (auto simp: added_def)
  with added_entries [OF a] added_blocks [OF a] added_index [OF a] added_counts [OF a]
  show ?thesis by (simp add: tm_inv_def)
qed

end
