(* ===== verification/ToolMemoryRefine.thy ===== *)
theory ToolMemoryRefine
  imports ToolMemoryAdd
begin

text \<open>
  What the tool-call memory promises, on the list of what it stores (most recently used first), and
  that the pointer program of \<open>ToolMemory\<close> does exactly that: a bounded least-recently-used map
  from call ids to sampled DSML blocks.
\<close>

section \<open>The specification\<close>

definition mem_bytes :: "mem_item list \<Rightarrow> nat" where
  "mem_bytes l = (\<Sum>x\<leftarrow>l. length (fst x) + 65) + (\<Sum>d\<in>set (map (fst \<circ> snd) l). length d + 49)"

function spec_prune :: "int \<Rightarrow> nat \<Rightarrow> mem_item list \<Rightarrow> mem_item list" where
  "spec_prune maxe maxb l =
     (if (int (length l) > maxe \<or> mem_bytes l > maxb) \<and> l \<noteq> []
      then spec_prune maxe maxb (butlast l) else l)"
  by pat_completeness auto
termination
  by (relation "measure (\<lambda>(_, _, l). length l)") auto

declare spec_prune.simps [simp del]

lemma spec_prune_Nil [simp]: "spec_prune maxe maxb [] = []"
  by (subst spec_prune.simps) simp

definition mem_lookup :: "mem_item list \<Rightarrow> cstr \<Rightarrow> (cstr \<times> tool_memory_source) option" where
  "mem_lookup l i = map_of l i"

definition mem_delete :: "mem_item list \<Rightarrow> cstr \<Rightarrow> mem_item list" where
  "mem_delete l i = filter (\<lambda>x. fst x \<noteq> i) l"

definition spec_put ::
  "int \<Rightarrow> nat \<Rightarrow> mem_item list \<Rightarrow> cstr \<Rightarrow> cstr \<Rightarrow> tool_memory_source \<Rightarrow> mem_item list" where
  "spec_put maxe maxb l i d s =
     (if i = [] \<or> d = [] then l
      else
        let s' = (case mem_lookup l i of
                    Some (d0, s0) \<Rightarrow> if d0 = d \<and> s \<noteq> TOOL_MEMORY_RAM then s0 else s
                  | None \<Rightarrow> s)
        in spec_prune maxe maxb ((i, d, s') # mem_delete l i))"

definition spec_touch :: "mem_item list \<Rightarrow> cstr \<Rightarrow> mem_item list" where
  "spec_touch l i =
     (case mem_lookup l i of None \<Rightarrow> l | Some (d, s) \<Rightarrow> (i, d, s) # mem_delete l i)"

section \<open>The size counter\<close>

lemma bytes_absl:
  assumes inv: "tm_inv m as cs"
  shows "tm_bytes m = mem_bytes (absl m as)"
proof -
  note c = tm_invD [OF inv]
  let ?d = "\<lambda>b. tb_dsml (the (bheap m b))"
  have item: "fst (item_of m a) = fst (the (pay (eheap m) a))" for a
    by (simp add: item_of_def split: prod.splits)
  obtain u where u: "\<And>d b. u d = Some b \<longleftrightarrow> (\<exists>blk. bheap m b = Some blk \<and> tb_dsml blk = d)"
    using c(6) unfolding index_ok_def by blast
  have inj: "inj_on ?d (dom (bheap m))"
  proof (rule inj_onI)
    fix b b' assume "b \<in> dom (bheap m)" "b' \<in> dom (bheap m)" "?d b = ?d b'"
    then have "u (?d b) = Some b" "u (?d b) = Some b'" using u by auto
    then show "b = b'" by simp
  qed
  have "set (map (fst \<circ> snd) (absl m as)) = ?d ` dom (bheap m)"
  proof (intro equalityI subsetI)
    fix d assume "d \<in> set (map (fst \<circ> snd) (absl m as))"
    then obtain a where a: "a \<in> set as" "d = fst (snd (item_of m a))" by (auto simp: absl_def)
    then obtain i bo n s where p: "pay (eheap m) a = Some (i, bo, n, s)" using c(2) by auto
    with entries_okD [OF c(4) p] a show "d \<in> ?d ` dom (bheap m)" by (auto simp: item_of_def)
  next
    fix d assume "d \<in> ?d ` dom (bheap m)"
    then obtain b k where k: "bheap m b = Some k" "d = tb_dsml k" by auto
    then obtain a where "a \<in> owned (eheap m) b"
      using blocks_okD(1,3) [OF c(5)] by (metis list.set_intros(1) neq_Nil_conv)
    then obtain i n s where p: "pay (eheap m) a = Some (i, Some b, n, s)" by (auto simp: owned_def)
    then have "a \<in> set as" using c(2) by auto
    then show "d \<in> set (map (fst \<circ> snd) (absl m as))"
      using p k by (force simp: absl_def item_of_def)
  qed
  then have "(\<Sum>d\<in>set (map (fst \<circ> snd) (absl m as)). length d + 49) =
      (\<Sum>b\<in>dom (bheap m). length (?d b) + 49)"
    using inj by (simp add: sum.reindex)
  then show ?thesis
    using c(7) item by (simp add: mem_bytes_def counts_ok_def absl_def comp_def)
qed

section \<open>Finding\<close>

lemma find_entry:
  assumes inv: "tm_inv m as cs"
  shows "tool_memory_find_entry_locked m i = Some a \<longleftrightarrow>
    i \<noteq> [] \<and> a \<in> set as \<and> fst (item_of m a) = i"
proof -
  note c = tm_invD [OF inv]
  obtain t where t: "by_id m = Some t"
    "\<And>i a. t i = Some a \<longleftrightarrow> (\<exists>bo n s. pay (eheap m) a = Some (i, bo, n, s))"
    using c(6) unfolding index_ok_def by blast
  have "t i = Some a \<longleftrightarrow> a \<in> set as \<and> fst (item_of m a) = i"
    unfolding t(2) c(2) by (auto simp: item_of_def split: prod.splits)
  with t(1) show ?thesis by (auto simp: tool_memory_find_entry_locked_def)
qed

lemma ids_inj:
  assumes inv: "tm_inv m as cs"
  shows "inj_on (\<lambda>a. fst (item_of m a)) (set as)" "a \<in> set as \<Longrightarrow> fst (item_of m a) \<noteq> []"
proof -
  have ne: "fst (item_of m a) \<noteq> []" if "a \<in> set as" for a
  proof -
    have "a \<in> dom (pay (eheap m))" using that tm_invD(2) [OF inv] by simp
    then obtain i bo n s where p: "pay (eheap m) a = Some (i, bo, n, s)" by auto
    with entries_okD [OF tm_invD(4) [OF inv] p] show ?thesis by (simp add: item_of_def)
  qed
  then show "a \<in> set as \<Longrightarrow> fst (item_of m a) \<noteq> []" .
  show "inj_on (\<lambda>a. fst (item_of m a)) (set as)"
  proof (rule inj_onI)
    fix a a' assume "a \<in> set as" "a' \<in> set as" "fst (item_of m a) = fst (item_of m a')"
    then show "a = a'" using ne find_entry [OF inv] by (metis option.inject)
  qed
qed

lemma map_of_images:
  "inj_on (\<lambda>a. fst (f a)) (set as) \<Longrightarrow> a \<in> set as \<Longrightarrow> map_of (map f as) (fst (f a)) = Some (snd (f a))"
proof (induction as)
  case (Cons b bs)
  show ?case
  proof (cases "a = b")
    case True
    then show ?thesis by (cases "f b") simp
  next
    case False
    then have "fst (f b) \<noteq> fst (f a)" using Cons.prems by (auto simp: inj_on_def)
    moreover have "map_of (map f bs) (fst (f a)) = Some (snd (f a))"
      using Cons.IH Cons.prems False by (simp add: inj_on_insert)
    ultimately show ?thesis by (cases "f b") simp
  qed
qed simp

lemma lookup_entry:
  assumes inv: "tm_inv m as cs" and a: "a \<in> set as"
  shows "mem_lookup (absl m as) (fst (item_of m a)) = Some (snd (item_of m a))"
  using map_of_images [OF ids_inj(1) [OF inv] a] by (simp add: mem_lookup_def absl_def)

lemma lookup_none:
  assumes inv: "tm_inv m as cs" and f: "tool_memory_find_entry_locked m i = None"
  shows "mem_lookup (absl m as) i = None"
proof -
  have "fst (item_of m a) \<noteq> i" if "a \<in> set as" for a
    using find_entry [OF inv, of i a] f that ids_inj(2) [OF inv that] by auto
  then show ?thesis by (force simp: mem_lookup_def absl_def map_of_eq_None_iff)
qed

lemma delete_entry:
  assumes inv: "tm_inv m (xs @ a # ys) cs"
  shows "mem_delete (absl m (xs @ a # ys)) (fst (item_of m a)) = absl m xs @ absl m ys"
proof -
  have "fst (item_of m b) \<noteq> fst (item_of m a)" if "b \<in> set xs \<union> set ys" for b
    using ids_inj(1) [OF inv] tm_invD(1) [OF inv] that unfolding inj_on_def by auto
  then have "filter (\<lambda>x. fst x \<noteq> fst (item_of m a)) (absl m zs) = absl m zs"
    if "set zs \<subseteq> set xs \<union> set ys" for zs
    using that by (auto simp: absl_def filter_id_conv)
  then show ?thesis by (simp add: mem_delete_def absl_def)
qed

lemma delete_absent: "mem_lookup l i = None \<Longrightarrow> mem_delete l i = l"
  by (auto simp: mem_lookup_def mem_delete_def map_of_eq_None_iff filter_id_conv)

section \<open>Pruning\<close>

lemma limits_same: "same_limits m m' \<Longrightarrow> tool_memory_max_entries m' = tool_memory_max_entries m"
  "same_limits m m' \<Longrightarrow> tool_memory_max_bytes m' = tool_memory_max_bytes m"
  by (simp_all add: same_limits_def tool_memory_max_entries_def tool_memory_max_bytes_def)

lemma same_limits_trans: "same_limits m m1 \<Longrightarrow> same_limits m1 m2 \<Longrightarrow> same_limits m m2"
  by (simp add: same_limits_def)

lemma same_limits_refl [simp]: "same_limits m m"
  by (simp add: same_limits_def)

lemma prune_refines:
  "tm_inv m as cs \<Longrightarrow> \<exists>m' as' cs'. tool_memory_prune_locked m = Some m' \<and> tm_inv m' as' cs' \<and>
     absl m' as' = spec_prune (tool_memory_max_entries m) (tool_memory_max_bytes m) (absl m as) \<and>
     same_limits m m'"
proof (induction as arbitrary: m cs rule: rev_induct)
  case Nil
  have "tm_entries m = 0" "tm_tail m = None" "mem_bytes (absl m []) = tm_bytes m"
    using tm_invD(3,7) [OF Nil] bytes_absl [OF Nil] by (simp_all add: counts_ok_def dll_def)
  then show ?case
    using Nil by (intro exI [of _ m] exI [of _ "[]"] exI [of _ cs])
      (simp add: tool_memory_prune_locked.simps [of m] absl_def)
next
  case (snoc a as)
  note inv = snoc.prems
  have size: "tm_entries m = int (length (absl m (as @ [a])))" "tm_tail m = Some a"
    "tm_bytes m = mem_bytes (absl m (as @ [a]))"
    using tm_invD(3,7) [OF inv] bytes_absl [OF inv] by (simp_all add: counts_ok_def dll_def absl_def)
  show ?case
  proof (cases "tm_entries m > tool_memory_max_entries m \<or> tm_bytes m > tool_memory_max_bytes m")
    case False
    then show ?thesis
      using inv size by (intro exI [of _ m] exI [of _ "as @ [a]"] exI [of _ cs])
        (simp add: tool_memory_prune_locked.simps [of m] spec_prune.simps [of _ _ "absl m (as @ [a])"])
  next
    case True
    obtain m1 cs1 where m1: "tool_memory_remove_entry_locked m a = Some m1" "tm_inv m1 as cs1"
      "absl m1 as = absl m as" "same_limits m m1"
      using remove_inv [of m as a "[]" cs] inv by (auto simp: absl_def)
    obtain m' as' cs' where m': "tool_memory_prune_locked m1 = Some m'" "tm_inv m' as' cs'"
      "absl m' as' = spec_prune (tool_memory_max_entries m1) (tool_memory_max_bytes m1) (absl m1 as)"
      "same_limits m1 m'"
      using snoc.IH [OF m1(2)] by blast
    have "tool_memory_prune_locked m = Some m'"
      using True size(2) m1(1) m'(1) by (subst tool_memory_prune_locked.simps) simp
    moreover have "spec_prune (tool_memory_max_entries m) (tool_memory_max_bytes m) (absl m (as @ [a])) =
        spec_prune (tool_memory_max_entries m) (tool_memory_max_bytes m) (absl m as)"
      using True size by (subst spec_prune.simps) (simp add: absl_def)
    ultimately show ?thesis
      using m' m1 limits_same [OF m1(4)] same_limits_trans by metis
  qed
qed

section \<open>Adding\<close>

definition tm_fresh :: "tool_memory \<Rightarrow> bool" where
  "tm_fresh m \<longleftrightarrow> by_id m = None \<and> by_block m = None \<and> tm_head m = None \<and> tm_tail m = None \<and>
     tm_entries m = 0 \<and> tm_bytes m = 0 \<and> eheap m = Map.empty \<and> bheap m = Map.empty"

text \<open>The memory \<open>m\<close> stores the list \<open>l\<close>.\<close>

definition mem_rel :: "tool_memory \<Rightarrow> mem_item list \<Rightarrow> bool" where
  "mem_rel m l \<longleftrightarrow> (tm_fresh m \<and> l = []) \<or> (\<exists>as cs. tm_inv m as cs \<and> l = absl m as)"

lemma fresh_zero: "tm_fresh tool_memory_zero"
  by (simp add: tm_fresh_def tool_memory_zero_def)

lemma fresh_init: "tm_fresh m \<Longrightarrow> tm_inv (tool_memory_init_locked m) [] (\<lambda>_. []) \<and>
    same_limits m (tool_memory_init_locked m)"
  by (simp add: tm_fresh_def tool_memory_init_locked_def tm_inv_def dll_def entries_ok_def blocks_ok_def
        owned_def index_ok_def counts_ok_def same_limits_def pay_def dom_def)

lemma inv_init: "tm_inv m as cs \<Longrightarrow> tool_memory_init_locked m = m"
  by (auto simp: tm_inv_def index_ok_def tool_memory_init_locked_def)

lemma get_block:
  assumes inv: "tm_inv m as cs" and d: "d \<noteq> []"
  shows "\<exists>m1 b blk. tool_memory_get_block_locked m d = Some (m1, b) \<and> bheap m1 b = Some blk \<and>
    m1 = m\<lparr>brk := brk m1, bheap := (bheap m)(b \<mapsto> blk), by_block := by_block m1, tm_bytes := tm_bytes m1\<rparr> \<and>
    block_const blk \<and> tb_dsml blk = d \<and> b < brk m1 \<and> brk m \<le> brk m1 \<and>
    tb_refs blk = int (length (cs b)) \<and> chain (chn (eheap m)) (tb_entries blk) (cs b) \<and>
    (\<forall>k0. bheap m b = Some k0 \<longrightarrow> tb_dsml k0 = d) \<and>
    by_block m1 = map_option (\<lambda>u. u(d \<mapsto> b)) (by_block m) \<and>
    (\<forall>u. by_block m = Some u \<longrightarrow> u d = (if bheap m b = None then None else Some b)) \<and>
    tm_bytes m1 = tm_bytes m + (if bheap m b = None then length d + 49 else 0)"
proof -
  note c = tm_invD [OF inv]
  obtain u where u: "by_block m = Some u"
    "\<And>d b. u d = Some b \<longleftrightarrow> (\<exists>blk. bheap m b = Some blk \<and> tb_dsml blk = d)"
    using c(6) unfolding index_ok_def by blast
  show ?thesis
  proof (cases "u d")
    case (Some b)
    then obtain blk where b: "bheap m b = Some blk" "tb_dsml blk = d" using u(2) by blast
    have "tool_memory_get_block_locked m d = Some (m, b)"
      using Some u(1) d by (simp add: tool_memory_get_block_locked_def tool_memory_find_block_locked_def)
    moreover have "m = m\<lparr>brk := brk m, bheap := (bheap m)(b \<mapsto> blk), by_block := by_block m,
        tm_bytes := tm_bytes m\<rparr>" using b by (simp add: fun_upd_idem)
    ultimately show ?thesis
      using b Some u(1) blocks_okD(3) [OF c(5) b(1)]
      by (intro exI [of _ m] exI [of _ b] exI [of _ blk]) (simp add: fun_upd_idem)
  next
    case None
    have new: "bheap m (brk m) = None"
      using blocks_okD(3) [OF c(5)] by (cases "bheap m (brk m)") auto
    let ?blk = "\<lparr>tb_dsml = d, tb_len = length d, tb_bytes = length d + 1 + SIZEOF_BLOCK, tb_refs = 0,
      tb_seen = 0, tb_entries = None\<rparr>"
    let ?m1 = "m\<lparr>brk := brk m + 1, bheap := (bheap m)(brk m \<mapsto> ?blk),
        by_block := Some (u(d \<mapsto> brk m)), tm_bytes := tm_bytes m + tb_bytes ?blk\<rparr>"
    have "tool_memory_get_block_locked m d = Some (?m1, brk m)"
      using None u(1) d
      by (simp add: tool_memory_get_block_locked_def tool_memory_find_block_locked_def Let_def)
    then show ?thesis
      using None u(1) d new unowned [OF inv new]
      by (intro exI [of _ ?m1] exI [of _ "brk m"] exI [of _ ?blk])
        (simp add: block_const_def SIZEOF_BLOCK_def)
  qed
qed

lemma add_refines:
  assumes inv: "tm_inv m as cs" and i: "i \<noteq> []" "mem_lookup (absl m as) i = None" and d: "d \<noteq> []"
  shows "\<exists>m' as' cs'. tool_memory_add m i d s = Some m' \<and> tm_inv m' as' cs' \<and>
    absl m' as' = spec_prune (tool_memory_max_entries m) (tool_memory_max_bytes m) ((i, d, s) # absl m as) \<and>
    same_limits m m'"
proof -
  note c = tm_invD [OF inv]
  obtain t where t: "by_id m = Some t"
    "\<And>i a. t i = Some a \<longleftrightarrow> (\<exists>bo n s. pay (eheap m) a = Some (i, bo, n, s))"
    using c(6) unfolding index_ok_def by blast
  obtain m1 b blk where get: "tool_memory_get_block_locked m d = Some (m1, b)" "bheap m1 b = Some blk"
    and m1: "m1 = m\<lparr>brk := brk m1, bheap := (bheap m)(b \<mapsto> blk), by_block := by_block m1, tm_bytes := tm_bytes m1\<rparr>"
    and blk: "block_const blk" "tb_dsml blk = d" "b < brk m1" "brk m \<le> brk m1"
      "tb_refs blk = int (length (cs b))" "chain (chn (eheap m)) (tb_entries blk) (cs b)"
      "\<forall>k0. bheap m b = Some k0 \<longrightarrow> tb_dsml k0 = d"
      "by_block m1 = map_option (\<lambda>u. u(d \<mapsto> b)) (by_block m)"
      "\<forall>u. by_block m = Some u \<longrightarrow> u d = (if bheap m b = None then None else Some b)"
      "tm_bytes m1 = tm_bytes m + (if bheap m b = None then length d + 49 else 0)"
    using get_block [OF inv d] by blast
  have same1: "eheap m1 = eheap m" "by_id m1 = by_id m" "tm_head m1 = tm_head m" "tm_tail m1 = tm_tail m"
    "tm_clock m1 = tm_clock m" "tm_entries m1 = tm_entries m" "max_entries m1 = max_entries m"
    "max_bytes m1 = max_bytes m" "bheap m1 = (bheap m)(b \<mapsto> blk)"
    by (subst m1, simp)+
  let ?e = "brk m1"
  have e: "?e \<notin> set as" "pay (eheap m) ?e = None"
  proof -
    show "pay (eheap m) ?e = None"
    proof (rule ccontr)
      assume "pay (eheap m) ?e \<noteq> None"
      then obtain i bo n s where "pay (eheap m) ?e = Some (i, bo, n, s)"
        by (cases "pay (eheap m) ?e") auto
      from entries_okD [OF c(4) this] blk(4) show False by simp
    qed
    then show "?e \<notin> set as" using c(2) by auto
  qed
  let ?x = "\<lparr>te_id = i, te_block = Some b, te_bytes = length i + 1 + SIZEOF_ENTRY,
                te_stamp = tm_clock m1 + 1, te_source = s, te_prev = None, te_next = None,
                te_block_next = tb_entries blk\<rparr>"
  let ?k = "blk\<lparr>tb_entries := Some ?e, tb_refs := tb_refs blk + 1\<rparr>"
  let ?m4 = "m1\<lparr>brk := ?e + 1, tm_clock := tm_clock m1 + 1, eheap := (eheap m1)(?e \<mapsto> ?x),
      bheap := (bheap m1)(b \<mapsto> ?k), by_id := Some (t(i \<mapsto> ?e))\<rparr>"
  have "dll ?m4 as"
    using c(3) e(1) same1 by (simp add: dll_def views)
  moreover have "eheap ?m4 ?e = Some ?x" by simp
  ultimately obtain m5 where m5: "tool_memory_link_head ?m4 ?e = Some m5" "dll m5 (?e # as)" "list_change ?m4 m5"
    using link_head_spec e(1) by blast
  note same5 = list_change_same [OF m5(3)]
  let ?m6 = "m5\<lparr>tm_entries := tm_entries m5 + 1, tm_bytes := tm_bytes m5 + te_bytes ?x\<rparr>"
  have run: "tool_memory_add m i d s = tool_memory_prune_locked ?m6"
    using get t(1) m5(1) same1
    by (simp add: tool_memory_add_def set_block_Some Let_def)
  have ti: "t i = None"
  proof (rule ccontr)
    assume "t i \<noteq> None"
    then obtain a where "t i = Some a" by blast
    then have "tool_memory_find_entry_locked m i = Some a" using t(1) i(1) by (simp add: tool_memory_find_entry_locked_def)
    with find_entry [OF inv] lookup_entry [OF inv] i(2) show False by fastforce
  qed
  have "?e \<notin> set (cs b)"
    using e(2) blocks_okD(1) [OF c(5), of b] by (auto simp: owned_def)
  then have "added m ?m6 as cs ?e b ?k i d s"
    unfolding added_def
    using inv m5(2) i(1) d e same5 same1 blk t(1) ti
    by (simp add: dll_def views block_const_def SIZEOF_ENTRY_def same_limits_def add.commute)
  from added_inv [OF this] added_items [OF this] have
    inv6: "tm_inv ?m6 (?e # as) (cs(b := ?e # cs b))" and items: "absl ?m6 (?e # as) = (i, d, s) # absl m as" .
  have lim: "same_limits m ?m6" using same5 same1 by (simp add: same_limits_def)
  from prune_refines [OF inv6] show ?thesis
    unfolding run items limits_same [OF lim] using lim same_limits_trans by blast
qed

section \<open>Storing and looking up\<close>

lemma entry_item:
  assumes inv: "tm_inv m as cs" and a: "a \<in> set as"
  obtains x b blk where "eheap m a = Some x" "te_block x = Some b" "bheap m b = Some blk"
    "item_of m a = (te_id x, tb_dsml blk, te_source x)" "tb_len blk = length (tb_dsml blk)"
    "tb_dsml blk \<noteq> []"
proof -
  from inv_entry [OF inv a] obtain x b blk us vs where
    x: "eheap m a = Some x" "te_block x = Some b" "bheap m b = Some blk" by metis
  moreover have "item_of m a = (te_id x, tb_dsml blk, te_source x)"
    using x by (simp add: item_of_def view_Some)
  moreover have "tb_len blk = length (tb_dsml blk)" "tb_dsml blk \<noteq> []"
    using blocks_okD(3) [OF tm_invD(5) [OF inv] x(3)] by (simp_all add: block_const_def)
  ultimately show ?thesis using that by blast
qed

lemma same_block_item:
  assumes inv: "tm_inv m as cs" and a: "a \<in> set as"
  shows "same_block m a d = Some (fst (snd (item_of m a)) = d)"
proof -
  from entry_item [OF inv a] obtain x b blk where x: "eheap m a = Some x" "te_block x = Some b"
    "bheap m b = Some blk" "item_of m a = (te_id x, tb_dsml blk, te_source x)"
    "tb_len blk = length (tb_dsml blk)" by metis
  then show ?thesis by (auto simp: same_block_def)
qed

lemma source_item:
  assumes "eheap m a = Some x"
  shows "item_of (m\<lparr>eheap := (eheap m)(a \<mapsto> x\<lparr>te_source := s\<rparr>)\<rparr>) a' =
    (if a' = a then (fst (item_of m a), fst (snd (item_of m a)), s) else item_of m a')"
  using assms by (simp add: item_of_def pay_def)

lemma touch_items:
  assumes inv: "tm_inv m as cs" and as: "as = xs @ a # ys"
  shows "map (item_of m) (a # remove1 a as) = item_of m a # mem_delete (absl m as) (fst (item_of m a))"
proof -
  have "remove1 a as = xs @ ys" using tm_invD(1) [OF inv] as by (simp add: remove1_append)
  then show ?thesis using delete_entry [of m xs a ys cs] inv as by (simp add: absl_def)
qed

lemma put_same:
  assumes inv: "tm_inv m as cs" and a: "a \<in> set as"
  shows "\<exists>m' as'. (do {
      m1 \<leftarrow> (if s = TOOL_MEMORY_RAM then set_entry m a (\<lambda>x. x\<lparr>te_source := TOOL_MEMORY_RAM\<rparr>) else Some m);
      tool_memory_touch m1 a }) = Some m' \<and> tm_inv m' as' cs \<and> same_limits m m' \<and>
    absl m' as' = (fst (item_of m a), fst (snd (item_of m a)),
        if s = TOOL_MEMORY_RAM then s else snd (snd (item_of m a))) # mem_delete (absl m as) (fst (item_of m a))"
proof -
  obtain x where x: "eheap m a = Some x" using entry_item [OF inv a] by metis
  define m1 where "m1 = (if s = TOOL_MEMORY_RAM
      then m\<lparr>eheap := (eheap m)(a \<mapsto> x\<lparr>te_source := TOOL_MEMORY_RAM\<rparr>)\<rparr> else m)"
  have inv1: "tm_inv m1 as cs" using inv source_inv [OF inv x] by (simp add: m1_def)
  have set1: "(if s = TOOL_MEMORY_RAM then set_entry m a (\<lambda>x. x\<lparr>te_source := TOOL_MEMORY_RAM\<rparr>) else Some m)
      = Some m1" using x by (simp add: m1_def set_entry_Some)
  have lim1: "same_limits m m1" by (simp add: m1_def same_limits_def)
  have item1: "item_of m1 a = (fst (item_of m a), fst (snd (item_of m a)),
        if s = TOOL_MEMORY_RAM then s else snd (snd (item_of m a)))"
    using x by (simp add: m1_def source_item)
  obtain xs ys where as: "as = xs @ a # ys" using a by (meson split_list)
  have others: "item_of m1 c = item_of m c" if "c \<in> set xs \<union> set ys" for c
  proof -
    have "c \<noteq> a" using tm_invD(1) [OF inv] as that by auto
    with x show ?thesis by (simp add: m1_def source_item)
  qed
  then have rest: "absl m1 xs = absl m xs" "absl m1 ys = absl m ys"
    by (auto simp: absl_def)
  have del: "mem_delete (absl m1 as) (fst (item_of m a)) = mem_delete (absl m as) (fst (item_of m a))"
    using delete_entry [of m1 xs a ys cs] delete_entry [of m xs a ys cs] inv inv1 item1 rest as by simp
  from touch_inv [OF inv1 a] obtain m' where m': "tool_memory_touch m1 a = Some m'"
    "tm_inv m' (a # remove1 a as) cs" "same_limits m1 m'"
    "absl m' (a # remove1 a as) = item_of m1 a # mem_delete (absl m1 as) (fst (item_of m1 a))"
    unfolding touch_items [OF inv1 as] by blast
  have "fst (item_of m1 a) = fst (item_of m a)" by (simp only: item1 fst_conv)
  then have "absl m' (a # remove1 a as) = (fst (item_of m a), fst (snd (item_of m a)),
      if s = TOOL_MEMORY_RAM then s else snd (snd (item_of m a))) # mem_delete (absl m as) (fst (item_of m a))"
    by (simp only: m'(4) item1 del)
  with m'(1,2) same_limits_trans [OF lim1 m'(3)] show ?thesis
    unfolding set1 bind.bind_lunit by blast
qed

lemma put_inv:
  assumes inv: "tm_inv m as cs" and i: "i \<noteq> []" and d: "d \<noteq> []"
  shows "\<exists>m' as' cs'. tool_memory_put_locked m (Some i) (Some d) s = Some m' \<and> tm_inv m' as' cs' \<and>
    absl m' as' = spec_put (tool_memory_max_entries m) (tool_memory_max_bytes m) (absl m as) i d s \<and>
    same_limits m m'"
proof (cases "tool_memory_find_entry_locked m i")
  case None
  then have none: "mem_lookup (absl m as) i = None" by (rule lookup_none [OF inv])
  from None add_refines [OF inv i none d, of s] show ?thesis
    using i d none
    by (simp add: tool_memory_put_locked_def inv_init [OF inv] or_empty_def spec_put_def delete_absent)
next
  case (Some a)
  then have a: "a \<in> set as" "fst (item_of m a) = i" using find_entry [OF inv] by auto
  obtain xs ys where as: "as = xs @ a # ys" using a by (meson split_list)
  have lk: "mem_lookup (absl m as) i = Some (snd (item_of m a))" using lookup_entry [OF inv a(1)] a(2) by simp
  show ?thesis
  proof (cases "fst (snd (item_of m a)) = d")
    case True
    obtain m2 as2 where m2: "(do {
        m1 \<leftarrow> (if s = TOOL_MEMORY_RAM then set_entry m a (\<lambda>x. x\<lparr>te_source := TOOL_MEMORY_RAM\<rparr>) else Some m);
        tool_memory_touch m1 a }) = Some m2" "tm_inv m2 as2 cs" "same_limits m m2"
      "absl m2 as2 = (i, d, if s = TOOL_MEMORY_RAM then s else snd (snd (item_of m a))) # mem_delete (absl m as) i"
      using put_same [OF inv a(1), of s] a(2) True by auto
    have "tool_memory_put_locked m (Some i) (Some d) s = tool_memory_prune_locked m2"
      using Some m2(1) i d True same_block_item [OF inv a(1), of d]
      by (auto simp: tool_memory_put_locked_def inv_init [OF inv] or_empty_def split: if_splits)
    moreover have "spec_put (tool_memory_max_entries m) (tool_memory_max_bytes m) (absl m as) i d s =
        spec_prune (tool_memory_max_entries m) (tool_memory_max_bytes m) (absl m2 as2)"
      using i d lk True m2(4) by (auto simp: spec_put_def split: prod.splits)
    ultimately show ?thesis
      using prune_refines [OF m2(2)] limits_same [OF m2(3)] m2(3) same_limits_trans by metis
  next
    case False
    obtain m1 cs1 where m1: "tool_memory_remove_entry_locked m a = Some m1" "tm_inv m1 (xs @ ys) cs1"
      "absl m1 (xs @ ys) = absl m xs @ absl m ys" "same_limits m m1"
      using remove_inv [of m xs a ys cs] inv as by blast
    have del: "absl m1 (xs @ ys) = mem_delete (absl m as) i"
      using delete_entry [of m xs a ys cs] inv as m1(3) a(2) by simp
    then have none: "mem_lookup (absl m1 (xs @ ys)) i = None"
      by (auto simp: mem_lookup_def mem_delete_def map_of_eq_None_iff)
    have "tool_memory_put_locked m (Some i) (Some d) s = tool_memory_add m1 i d s"
      using Some m1(1) i d False same_block_item [OF inv a(1), of d]
      by (simp add: tool_memory_put_locked_def inv_init [OF inv] or_empty_def)
    moreover have "spec_put (tool_memory_max_entries m) (tool_memory_max_bytes m) (absl m as) i d s =
        spec_prune (tool_memory_max_entries m) (tool_memory_max_bytes m) ((i, d, s) # absl m1 (xs @ ys))"
      using i d lk False del by (auto simp: spec_put_def split: prod.splits)
    ultimately show ?thesis
      using add_refines [OF m1(2) i none d, of s] limits_same [OF m1(4)] m1(4) same_limits_trans by metis
  qed
qed

lemma put_or_empty: "tool_memory_put_locked m i d s =
    (if or_empty i = [] \<or> or_empty d = [] then Some m
     else tool_memory_put_locked m (Some (or_empty i)) (Some (or_empty d)) s)"
  by (simp add: tool_memory_put_locked_def or_empty_def Let_def)

lemma put_init: "tool_memory_put_locked m (Some i) (Some d) s =
    (if i = [] \<or> d = [] then Some m else tool_memory_put_locked (tool_memory_init_locked m) (Some i) (Some d) s)"
  by (auto simp: tool_memory_put_locked_def or_empty_def tool_memory_init_locked_def)

lemma put_refines:
  assumes rel: "mem_rel m l"
  shows "\<exists>m'. tool_memory_put_locked m i d s = Some m' \<and> same_limits m m' \<and>
    mem_rel m' (spec_put (tool_memory_max_entries m) (tool_memory_max_bytes m) l (or_empty i) (or_empty d) s)"
proof (cases "or_empty i = [] \<or> or_empty d = []")
  case True
  with rel show ?thesis by (auto simp: put_or_empty [of m i d s] spec_put_def)
next
  case False
  define m0 where "m0 = tool_memory_init_locked m"
  have "\<exists>as cs. tm_inv m0 as cs \<and> l = absl m0 as \<and> same_limits m m0"
    using rel fresh_init [of m] unfolding mem_rel_def m0_def
    by (metis absl_def inv_init list.simps(8) same_limits_refl)
  then obtain as cs where inv: "tm_inv m0 as cs" "l = absl m0 as" and lim: "same_limits m m0" by blast
  have "tool_memory_put_locked m i d s = tool_memory_put_locked m0 (Some (or_empty i)) (Some (or_empty d)) s"
    using False put_or_empty [of m i d s] put_init [of m "or_empty i" "or_empty d" s] by (simp add: m0_def)
  moreover obtain m' as' cs' where "tool_memory_put_locked m0 (Some (or_empty i)) (Some (or_empty d)) s = Some m'"
    "tm_inv m' as' cs'" "same_limits m0 m'"
    "absl m' as' = spec_put (tool_memory_max_entries m0) (tool_memory_max_bytes m0) (absl m0 as) (or_empty i) (or_empty d) s"
    using put_inv [OF inv(1), of "or_empty i" "or_empty d" s] False by blast
  ultimately show ?thesis
    using inv(2) limits_same [OF lim] same_limits_trans [OF lim] unfolding mem_rel_def by metis
qed

lemma lookup_refines:
  assumes rel: "mem_rel m l"
  shows "\<exists>m' res. tool_memory_lookup_locked m i = Some (m', res) \<and> same_limits m m' \<and>
    mem_rel m' (spec_touch l (or_empty i)) \<and> bheap m' = bheap m \<and>
    (case res of
       None \<Rightarrow> mem_lookup l (or_empty i) = None
     | Some (s, b) \<Rightarrow> \<exists>blk. bheap m b = Some blk \<and> mem_lookup l (or_empty i) = Some (tb_dsml blk, s))"
proof (cases "tm_fresh m \<and> l = []")
  case True
  then show ?thesis
    by (auto simp: tool_memory_lookup_locked_def tool_memory_find_entry_locked_def tm_fresh_def mem_rel_def
          spec_touch_def mem_lookup_def)
next
  case False
  with rel obtain as cs where inv: "tm_inv m as cs" and l: "l = absl m as" by (auto simp: mem_rel_def)
  show ?thesis
  proof (cases "tool_memory_find_entry_locked m (or_empty i)")
    case None
    then show ?thesis
      using rel lookup_none [OF inv None] l
      by (simp add: tool_memory_lookup_locked_def spec_touch_def)
  next
    case (Some a)
    then have a: "a \<in> set as" "fst (item_of m a) = or_empty i" using find_entry [OF inv] by auto
    from entry_item [OF inv a(1)] obtain x b blk where x: "eheap m a = Some x" "te_block x = Some b"
      "bheap m b = Some blk" "item_of m a = (te_id x, tb_dsml blk, te_source x)" by metis
    obtain xs ys where as: "as = xs @ a # ys" using a by (meson split_list)
    have lk: "mem_lookup l (or_empty i) = Some (tb_dsml blk, te_source x)"
      using lookup_entry [OF inv a(1)] a(2) l x(4) by simp
    from touch_inv [OF inv a(1)] obtain m' where m': "tool_memory_touch m a = Some m'"
      "tm_inv m' (a # remove1 a as) cs" "same_limits m m'" "list_change m m'"
      "absl m' (a # remove1 a as) = item_of m a # mem_delete (absl m as) (fst (item_of m a))"
      unfolding touch_items [OF inv as] by blast
    have "absl m' (a # remove1 a as) = spec_touch l (or_empty i)"
      using m'(5) lk a(2) x(4) l by (simp add: spec_touch_def)
    then have "mem_rel m' (spec_touch l (or_empty i))" using m'(2) unfolding mem_rel_def by metis
    moreover have "tool_memory_lookup_locked m i = Some (m', Some (te_source x, b))"
      using Some x m'(1) by (simp add: tool_memory_lookup_locked_def)
    ultimately show ?thesis using m'(3) list_change_same(7) [OF m'(4)] lk x(3) by auto
  qed
qed

text \<open>Emptying the memory frees every entry and every block.\<close>

lemma free_loop_inv:
  "tm_inv m as cs \<Longrightarrow> \<exists>m'. tool_memory_free_loop m = Some m' \<and> eheap m' = Map.empty \<and> bheap m' = Map.empty"
proof (induction as arbitrary: m cs rule: rev_induct)
  case Nil
  have e: "eheap m = Map.empty"
  proof
    fix a
    have "a \<notin> dom (pay (eheap m))" using tm_invD(2) [OF Nil] by (metis empty_iff list.set(1))
    then show "eheap m a = None" by (simp add: domIff view_dom)
  qed
  have "bheap m b = None" for b
    using blocks_okD(1,3) [OF tm_invD(5) [OF Nil], of b] e
    by (cases "bheap m b") (auto simp: owned_def pay_def)
  then show ?case
    using e tm_invD(3) [OF Nil] by (simp add: tool_memory_free_loop.simps [of m] dll_def fun_eq_iff)
next
  case (snoc a as)
  from remove_inv [of m as a "[]" cs] snoc.prems obtain m1 cs1 where
    "tool_memory_remove_entry_locked m a = Some m1" "tm_inv m1 as cs1" by auto
  moreover have "tm_tail m = Some a" using tm_invD(3) [OF snoc.prems] by (simp add: dll_def)
  ultimately show ?case using snoc.IH by (subst tool_memory_free_loop.simps) simp
qed

end
