(* ===== verification/ToolReplay.thy ===== *)
theory ToolReplay
  imports ToolMemoryRefine
begin

text \<open>
  The users of the tool-call memory in the server: remembering the block of a generated message,
  attaching remembered blocks to the calls a client sends back, and choosing ids for new calls.
  The locale \<open>lru_memory\<close> is the contract between the memory and its users; the memory of
  \<open>ToolMemory\<close> is its interpretation \<open>tool_mem\<close>.
\<close>

section \<open>The contract of the memory\<close>

datatype mem_op = Put "cstr option" "cstr option" tool_memory_source | Get "cstr option"

fun spec_op :: "int \<Rightarrow> nat \<Rightarrow> mem_item list \<Rightarrow> mem_op \<Rightarrow> mem_item list" where
  "spec_op maxe maxb l (Put i d s) = spec_put maxe maxb l (or_empty i) (or_empty d) s"
| "spec_op maxe maxb l (Get i) = spec_touch l (or_empty i)"

lemma spec_prune_prefix: "prefix (spec_prune maxe maxb l) l"
proof (induction l rule: rev_induct)
  case (snoc x xs)
  then show ?case
    by (subst spec_prune.simps) (auto intro: prefix_order.trans)
qed simp

lemma spec_prune_fits:
  "0 < maxe \<Longrightarrow> int (length (spec_prune maxe maxb l)) \<le> maxe \<and> mem_bytes (spec_prune maxe maxb l) \<le> maxb"
proof (induction l rule: rev_induct)
  case Nil
  then show ?case by (simp add: mem_bytes_def)
next
  case (snoc x xs)
  then show ?case by (subst (1 2) spec_prune.simps) auto
qed

lemma spec_prune_head:
  assumes "1 \<le> maxe" "mem_bytes [x] \<le> maxb"
  shows "\<exists>r. spec_prune maxe maxb (x # l) = x # r"
proof (induction l rule: rev_induct)
  case Nil
  then show ?case using assms by (subst spec_prune.simps) simp
next
  case (snoc y ys)
  then show ?case by (subst spec_prune.simps) (simp add: butlast_append)
qed

lemma spec_prune_id:
  "int (length l) \<le> maxe \<Longrightarrow> mem_bytes l \<le> maxb \<Longrightarrow> spec_prune maxe maxb l = l"
  by (subst spec_prune.simps) auto

lemma lookup_delete: "mem_lookup (mem_delete l i) j = (if i = j then None else mem_lookup l j)"
  unfolding mem_lookup_def mem_delete_def by (induction l) auto

lemma lookup_touch: "mem_lookup (spec_touch l i) j = mem_lookup l j"
proof (cases "mem_lookup l i")
  case (Some x)
  have "mem_lookup (y # r) j = (if j = fst y then Some (snd y) else mem_lookup r j)" for y and r :: "mem_item list"
    by (simp add: mem_lookup_def)
  with Some show ?thesis by (simp add: spec_touch_def lookup_delete split: prod.splits)
qed (simp add: spec_touch_def)

text \<open>A store that has room prunes nothing.\<close>

lemma mem_bytes_put: "mem_bytes ((i, d, x) # mem_delete l i) \<le> mem_bytes l + length i + length d + 114"
proof -
  have "(\<Sum>y\<leftarrow>mem_delete l i. length (fst y) + 65) \<le> (\<Sum>y\<leftarrow>l. length (fst y) + 65)"
    unfolding mem_delete_def by (induction l) auto
  moreover have "(\<Sum>d\<in>set (map (fst \<circ> snd) (mem_delete l i)). length d + 49) \<le>
      (\<Sum>d\<in>set (map (fst \<circ> snd) l). length d + 49)"
    by (rule sum_mono2) (auto simp: mem_delete_def)
  moreover have "(\<Sum>d\<in>insert d (set (map (fst \<circ> snd) (mem_delete l i))). length d + 49) \<le>
      length d + 49 + (\<Sum>d\<in>set (map (fst \<circ> snd) (mem_delete l i)). length d + 49)"
    by (simp add: sum.insert_if)
  ultimately show ?thesis by (simp add: mem_bytes_def)
qed

lemma spec_put_room:
  assumes "i \<noteq> []" "d \<noteq> []" "int (length l) < maxe" "mem_bytes l + length i + length d + 114 \<le> maxb"
  shows "\<exists>x. spec_put maxe maxb l i d s = (i, d, x) # mem_delete l i"
proof -
  have "int (length ((i, d, x) # mem_delete l i)) \<le> maxe" for x
  proof -
    have "int (length (mem_delete l i)) \<le> int (length l)" by (simp add: mem_delete_def)
    with assms(3) show ?thesis by simp
  qed
  moreover have "mem_bytes ((i, d, x) # mem_delete l i) \<le> maxb" for x
    using mem_bytes_put [of i d x l] assms(4) by linarith
  ultimately show ?thesis using assms(1,2) spec_prune_id by (auto simp: spec_put_def Let_def)
qed

definition mem_step ::
  "('m \<Rightarrow> cstr option \<Rightarrow> cstr option \<Rightarrow> tool_memory_source \<Rightarrow> 'm option) \<Rightarrow>
   ('m \<Rightarrow> cstr option \<Rightarrow> ('m \<times> 'r) option) \<Rightarrow> 'm \<Rightarrow> mem_op \<Rightarrow> 'm option" where
  "mem_step put get m op =
     (case op of Put i d s \<Rightarrow> put m i d s | Get i \<Rightarrow> map_option fst (get m i))"

primrec mem_run :: "('m \<Rightarrow> mem_op \<Rightarrow> 'm option) \<Rightarrow> 'm \<Rightarrow> mem_op list \<Rightarrow> 'm option" where
  "mem_run step m [] = Some m"
| "mem_run step m (op # ops) = (case step m op of None \<Rightarrow> None | Some m' \<Rightarrow> mem_run step m' ops)"

locale lru_memory =
  fixes stores :: "'m \<Rightarrow> mem_item list \<Rightarrow> bool"
    and put :: "'m \<Rightarrow> cstr option \<Rightarrow> cstr option \<Rightarrow> tool_memory_source \<Rightarrow> 'm option"
    and get :: "'m \<Rightarrow> cstr option \<Rightarrow> ('m \<times> (cstr \<times> tool_memory_source) option) option"
    and limit :: "'m \<Rightarrow> int" and byte_limit :: "'m \<Rightarrow> nat"
  assumes put_stores: "stores m l \<Longrightarrow> \<exists>m'. put m i d s = Some m' \<and>
      stores m' (spec_put (limit m) (byte_limit m) l (or_empty i) (or_empty d) s) \<and>
      limit m' = limit m \<and> byte_limit m' = byte_limit m"
    and get_stores: "stores m l \<Longrightarrow> \<exists>m'. get m i = Some (m', mem_lookup l (or_empty i)) \<and>
      stores m' (spec_touch l (or_empty i)) \<and> limit m' = limit m \<and> byte_limit m' = byte_limit m"
    and limit_pos: "0 < limit m"
begin

lemma step_stores:
  assumes "stores m l"
  shows "\<exists>m'. mem_step put get m op = Some m' \<and> stores m' (spec_op (limit m) (byte_limit m) l op) \<and>
    limit m' = limit m \<and> byte_limit m' = byte_limit m"
proof (cases op)
  case (Put i d s)
  with put_stores [OF assms, of i d s] show ?thesis by (auto simp: mem_step_def)
next
  case (Get i)
  with get_stores [OF assms, of i] show ?thesis by (auto simp: mem_step_def)
qed

text \<open>No sequence of operations fails, and the memory does what the list does.\<close>

lemma run_stores:
  "stores m l \<Longrightarrow> \<exists>m'. mem_run (mem_step put get) m ops = Some m' \<and>
     stores m' (foldl (spec_op (limit m) (byte_limit m)) l ops)"
proof (induction ops arbitrary: m l)
  case (Cons op ops)
  obtain m1 where m1: "mem_step put get m op = Some m1" "stores m1 (spec_op (limit m) (byte_limit m) l op)"
    "limit m1 = limit m" "byte_limit m1 = byte_limit m"
    using step_stores [OF Cons.prems] by blast
  with Cons.IH [OF m1(2)] show ?case by simp
qed auto

text \<open>What was just stored is found, if it fits at all.\<close>

lemma put_get:
  assumes st: "stores m l" and ne: "i \<noteq> []" "d \<noteq> []" and fits: "length i + length d + 114 \<le> byte_limit m"
  shows "\<exists>m1 m2 s'. put m (Some i) (Some d) s = Some m1 \<and> get m1 (Some i) = Some (m2, Some (d, s'))"
proof -
  obtain m1 where m1: "put m (Some i) (Some d) s = Some m1"
    "stores m1 (spec_put (limit m) (byte_limit m) l i d s)"
    using put_stores [OF st, of "Some i" "Some d" s] by (auto simp: or_empty_def)
  obtain s' r where "spec_put (limit m) (byte_limit m) l i d s = (i, d, s') # r"
    using ne fits limit_pos [of m] spec_prune_head [of "limit m" "(i, d, x)" "byte_limit m" for x]
    by (fastforce simp: spec_put_def mem_bytes_def Let_def)
  then have "mem_lookup (spec_put (limit m) (byte_limit m) l i d s) i = Some (d, s')"
    by (simp add: mem_lookup_def)
  with m1 get_stores [OF m1(2), of "Some i"] show ?thesis by (auto simp: or_empty_def)
qed

text \<open>An earlier item with another id survives as long as everything fits.\<close>

lemma put_keeps:
  assumes st: "stores m l" and j: "mem_lookup l j = Some (d', s')" and ne: "i \<noteq> []" "d \<noteq> []" "i \<noteq> j"
    and fits: "int (length l) < limit m" "mem_bytes l + length i + length d + 114 \<le> byte_limit m"
  shows "\<exists>m1 m2. put m (Some i) (Some d) s = Some m1 \<and> get m1 (Some j) = Some (m2, Some (d', s'))"
proof -
  obtain x where "spec_put (limit m) (byte_limit m) l i d s = (i, d, x) # mem_delete l i"
    using spec_put_room [OF ne(1,2) fits, of s] by blast
  then have "mem_lookup (spec_put (limit m) (byte_limit m) l i d s) j = Some (d', s')"
    using ne(3) j lookup_delete [of l i j] by (simp add: mem_lookup_def)
  moreover obtain m1 where m1: "put m (Some i) (Some d) s = Some m1"
    "stores m1 (spec_put (limit m) (byte_limit m) l i d s)"
    using put_stores [OF st, of "Some i" "Some d" s] by (auto simp: or_empty_def)
  ultimately show ?thesis using get_stores [OF m1(2), of "Some j"] by (auto simp: or_empty_def)
qed

end

section \<open>The memory of the server keeps the contract\<close>

text \<open>The lookup together with the text of the block it finds.\<close>

definition tool_memory_get :: "tool_memory \<Rightarrow> cstr option \<Rightarrow>
    (tool_memory \<times> (cstr \<times> tool_memory_source) option) option" where
  "tool_memory_get m i =
     (case tool_memory_lookup_locked m i of
        None \<Rightarrow> None
      | Some (m1, None) \<Rightarrow> Some (m1, None)
      | Some (m1, Some (s, b)) \<Rightarrow> map_option (\<lambda>blk. (m1, Some (tb_dsml blk, s))) (bheap m1 b))"

interpretation tool_mem: lru_memory mem_rel tool_memory_put_locked tool_memory_get
  tool_memory_max_entries tool_memory_max_bytes
proof
  fix m l i d s
  assume rel: "mem_rel m l"
  show "\<exists>m'. tool_memory_put_locked m i d s = Some m' \<and>
      mem_rel m' (spec_put (tool_memory_max_entries m) (tool_memory_max_bytes m) l (or_empty i) (or_empty d) s) \<and>
      tool_memory_max_entries m' = tool_memory_max_entries m \<and>
      tool_memory_max_bytes m' = tool_memory_max_bytes m"
    using put_refines [OF rel, of i d s] limits_same by metis
next
  fix m l i
  assume rel: "mem_rel m l"
  from lookup_refines [OF rel, of i] obtain m' res where
    m': "tool_memory_lookup_locked m i = Some (m', res)" "same_limits m m'" "bheap m' = bheap m"
    "mem_rel m' (spec_touch l (or_empty i))"
    and res: "case res of None \<Rightarrow> mem_lookup l (or_empty i) = None
       | Some (s, b) \<Rightarrow> \<exists>blk. bheap m b = Some blk \<and> mem_lookup l (or_empty i) = Some (tb_dsml blk, s)"
    by blast
  have "tool_memory_get m i = Some (m', mem_lookup l (or_empty i))"
    using m' res by (auto simp: tool_memory_get_def split: option.splits)
  with m' limits_same show "\<exists>m'. tool_memory_get m i = Some (m', mem_lookup l (or_empty i)) \<and>
      mem_rel m' (spec_touch l (or_empty i)) \<and> tool_memory_max_entries m' = tool_memory_max_entries m \<and>
      tool_memory_max_bytes m' = tool_memory_max_bytes m"
    by metis
next
  fix m
  show "0 < tool_memory_max_entries m" by (simp add: tool_memory_max_entries_def)
qed

section \<open>Remembering and attaching\<close>

record server =
  tool_mem :: tool_memory
  disable_exact_dsml_tool_replay :: bool

record tool_replay_stats =
  rs_mem :: int
  rs_disk :: int
  rs_canonical :: int
  rs_missing_ids :: int

definition tool_memory_has_id :: "'a server_scheme \<Rightarrow> cstr option \<Rightarrow> bool" where
  "tool_memory_has_id s ident \<longleftrightarrow>
     \<not> disable_exact_dsml_tool_replay s \<and> or_empty ident \<noteq> [] \<and>
     tool_memory_find_entry_locked (tool_mem s) (or_empty ident) \<noteq> None"

fun remember_loop :: "tool_memory \<Rightarrow> cstr option \<Rightarrow> tool_call list \<Rightarrow> tool_memory option" where
  "remember_loop m dsml [] = Some m"
| "remember_loop m dsml (tc # tcs) =
     (case tool_memory_put_locked m (tc_id tc) dsml TOOL_MEMORY_RAM of
        None \<Rightarrow> None
      | Some m1 \<Rightarrow> remember_loop m1 dsml tcs)"

definition tool_memory_remember :: "'a server_scheme \<Rightarrow> tool_calls \<Rightarrow> 'a server_scheme option" where
  "tool_memory_remember s cs =
     (if disable_exact_dsml_tool_replay s \<or> or_empty (raw_dsml cs) = [] then Some s
      else map_option (\<lambda>m. s\<lparr>tool_mem := m\<rparr>) (remember_loop (tool_mem s) (raw_dsml cs) (calls_v cs)))"

definition tool_memory_put_source ::
  "'a server_scheme \<Rightarrow> cstr option \<Rightarrow> cstr option \<Rightarrow> tool_memory_source \<Rightarrow> 'a server_scheme option" where
  "tool_memory_put_source s ident dsml src =
     (if disable_exact_dsml_tool_replay s \<or> or_empty ident = [] \<or> or_empty dsml = [] then Some s
      else map_option (\<lambda>m. s\<lparr>tool_mem := m\<rparr>) (tool_memory_put_locked (tool_mem s) ident dsml src))"

text \<open>The state of the inner loop of \<open>tool_memory_attach_to_messages\<close>.\<close>

record attach_state =
  matched :: "addr option"
  matched_source :: tool_memory_source
  exact :: bool
  missing :: int

definition attach_step :: "attach_state \<Rightarrow> (tool_memory_source \<times> addr) option \<Rightarrow> attach_state" where
  "attach_step a res =
     (case res of
        None \<Rightarrow> a\<lparr>exact := False, missing := missing a + 1\<rparr>
      | Some (src, b) \<Rightarrow>
          let a1 = (case matched a of
                      None \<Rightarrow> a\<lparr>matched := Some b, matched_source := src\<rparr>
                    | Some b0 \<Rightarrow> if b0 \<noteq> b then a\<lparr>exact := False\<rparr> else a)
          in if src = TOOL_MEMORY_RAM then a1\<lparr>matched_source := TOOL_MEMORY_RAM\<rparr> else a1)"

fun attach_scan :: "tool_memory \<Rightarrow> tool_call list \<Rightarrow> attach_state \<Rightarrow> (tool_memory \<times> attach_state) option" where
  "attach_scan m [] a = Some (m, a)"
| "attach_scan m (tc # tcs) a =
     (case tool_memory_lookup_locked m (tc_id tc) of
        None \<Rightarrow> None
      | Some (m1, res) \<Rightarrow> attach_scan m1 tcs (attach_step a res))"

definition attach_calls ::
  "tool_memory \<Rightarrow> tool_calls \<Rightarrow> tool_replay_stats \<Rightarrow> (tool_memory \<times> tool_calls \<times> tool_replay_stats) option" where
  "attach_calls m cs st =
     (if calls_v cs = [] \<or> raw_dsml cs \<noteq> None then Some (m, cs, st)
      else case attach_scan m (calls_v cs)
             \<lparr>matched = None, matched_source = TOOL_MEMORY_DISK, exact = True, missing = 0\<rparr> of
             None \<Rightarrow> None
           | Some (m1, a) \<Rightarrow>
               (case (exact a, matched a) of
                  (True, Some b) \<Rightarrow>
                    map_option (\<lambda>blk. (m1, cs\<lparr>raw_dsml := Some (tb_dsml blk)\<rparr>,
                      if matched_source a = TOOL_MEMORY_RAM then st\<lparr>rs_mem := rs_mem st + 1\<rparr>
                      else st\<lparr>rs_disk := rs_disk st + 1\<rparr>)) (bheap m1 b)
                | _ \<Rightarrow> Some (m1, cs, st\<lparr>rs_canonical := rs_canonical st + 1,
                                     rs_missing_ids := rs_missing_ids st + missing a\<rparr>)))"

fun attach_loop ::
  "tool_memory \<Rightarrow> chat_msgs \<Rightarrow> tool_replay_stats \<Rightarrow> (tool_memory \<times> chat_msgs \<times> tool_replay_stats) option" where
  "attach_loop m [] st = Some (m, [], st)"
| "attach_loop m (msg # msgs) st =
     (case attach_calls m (calls msg) st of
        None \<Rightarrow> None
      | Some (m1, cs, st1) \<Rightarrow>
          map_option (\<lambda>(m2, rest, st2). (m2, msg\<lparr>calls := cs\<rparr> # rest, st2)) (attach_loop m1 msgs st1))"

fun count_unattached :: "chat_msgs \<Rightarrow> tool_replay_stats \<Rightarrow> tool_replay_stats" where
  \<comment> \<open>the loop for a server that does not replay\<close>
  "count_unattached [] st = st"
| "count_unattached (msg # msgs) st =
     count_unattached msgs
       (if calls_v (calls msg) = [] \<or> raw_dsml (calls msg) \<noteq> None then st
        else st\<lparr>rs_canonical := rs_canonical st + 1,
                rs_missing_ids := rs_missing_ids st + int (length (calls_v (calls msg)))\<rparr>)"

definition tool_memory_attach_to_messages ::
  "'a server_scheme \<Rightarrow> chat_msgs \<Rightarrow> tool_replay_stats \<Rightarrow>
   ('a server_scheme \<times> chat_msgs \<times> tool_replay_stats) option" where
  "tool_memory_attach_to_messages s msgs st =
     (if disable_exact_dsml_tool_replay s then Some (s, msgs, count_unattached msgs st)
      else map_option (\<lambda>(m, msgs', st'). (s\<lparr>tool_mem := m\<rparr>, msgs', st'))
             (attach_loop (tool_mem s) msgs st))"

section \<open>Choosing ids\<close>

datatype api_style = API_OPENAI | API_ANTHROPIC

definition tool_calls_contains_id :: "tool_calls \<Rightarrow> cstr option \<Rightarrow> nat \<Rightarrow> bool" where
  "tool_calls_contains_id cs ident up \<longleftrightarrow>
     or_empty ident \<noteq> [] \<and> (\<exists>tc \<in> set (take up (calls_v cs)). tc_id tc = Some (or_empty ident))"

fun hex_bytes :: "u8 list \<Rightarrow> cstr" where
  "hex_bytes [] = []"
| "hex_bytes (b # bs) =
     (''0123456789abcdef'' ! unat (drop_bit 4 b)) # (''0123456789abcdef'' ! unat (b AND 15)) # hex_bytes bs"

text \<open>\<open>random_tool_id\<close> with the bytes it drew; the 64-byte buffer always has room for the
  prefix and the 32 hex digits.\<close>

definition random_tool_id :: "u8 list \<Rightarrow> api_style \<Rightarrow> cstr" where
  "random_tool_id bytes api =
     (if api = API_ANTHROPIC then ''toolu_'' else ''call_'') @ hex_bytes (take 16 bytes)"

text \<open>\<open>rnd k\<close> is the k-th block of random bytes; the loops also return how many were used.\<close>

partial_function (option) fresh_id_loop ::
  "'a server_scheme \<Rightarrow> tool_calls \<Rightarrow> nat \<Rightarrow> api_style \<Rightarrow> (nat \<Rightarrow> u8 list) \<Rightarrow> nat \<Rightarrow> (cstr \<times> nat) option" where
  "fresh_id_loop s cs i api rnd k =
     (let ident = random_tool_id (rnd k) api in
      if \<not> tool_calls_contains_id cs (Some ident) i \<and> \<not> tool_memory_has_id s (Some ident)
      then Some (ident, k + 1)
      else fresh_id_loop s cs i api rnd (k + 1))"

fun assign_ids_loop ::
  "'a server_scheme \<Rightarrow> api_style \<Rightarrow> (nat \<Rightarrow> u8 list) \<Rightarrow> nat \<Rightarrow> nat \<Rightarrow> tool_calls \<Rightarrow> nat \<Rightarrow> (tool_calls \<times> nat) option" where
  \<comment> \<open>\<open>todo\<close> calls are left, the next one is the \<open>i\<close>-th\<close>
  "assign_ids_loop s api rnd 0 i cs k = Some (cs, k)"
| "assign_ids_loop s api rnd (Suc todo) i cs k =
     (if or_empty (tc_id (calls_v cs ! i)) \<noteq> [] then assign_ids_loop s api rnd todo (i + 1) cs k
      else case fresh_id_loop s cs i api rnd k of
             None \<Rightarrow> None
           | Some (ident, k') \<Rightarrow>
               assign_ids_loop s api rnd todo (i + 1)
                 (cs\<lparr>calls_v := (calls_v cs)[i := (calls_v cs ! i)\<lparr>tc_id := Some ident\<rparr>]\<rparr>) k')"

definition assign_tool_call_ids ::
  "'a server_scheme \<Rightarrow> tool_calls \<Rightarrow> api_style \<Rightarrow> (nat \<Rightarrow> u8 list) \<Rightarrow> (tool_calls \<times> nat) option" where
  "assign_tool_call_ids s cs api rnd = assign_ids_loop s api rnd (length (calls_v cs)) 0 cs 0"

end
