(* ===== verification/Sha1.thy ===== *)
theory Sha1
  imports Prelude
begin

text \<open>
  SHA-1 as ds4_server.c computes it, incrementally over a 64-byte buffer, for the names of the KV
  cache files; and that, however the input is cut into updates, the digest is the one of the
  padded message taken block by block. Bytes are 8-bit words, the state is 32-bit words.
\<close>

section \<open>Little-endian numbers\<close>

definition le_put32 :: "u32 \<Rightarrow> u8 list" where
  "le_put32 v = [ucast v, ucast (drop_bit 8 v), ucast (drop_bit 16 v), ucast (drop_bit 24 v)]"

definition le_put64 :: "u64 \<Rightarrow> u8 list" where
  "le_put64 v = map (\<lambda>i. ucast (drop_bit (8 * i) v)) [0..<8]"

definition le_get32 :: "u8 list \<Rightarrow> u32" where
  "le_get32 p = ucast (p ! 0) OR push_bit 8 (ucast (p ! 1)) OR push_bit 16 (ucast (p ! 2)) OR
     push_bit 24 (ucast (p ! 3))"

definition le_get64 :: "u8 list \<Rightarrow> u64" where
  "le_get64 p = foldl (\<lambda>v i. push_bit 8 v OR ucast (p ! i)) 0 (rev [0..<8])"

section \<open>The compression function\<close>

record sha1_ctx =
  sc_h :: "u32 list"
  sc_bytes :: u64
  sc_block :: "u8 list"
  sc_used :: nat

definition rol32 :: "u32 \<Rightarrow> nat \<Rightarrow> u32" where
  "rol32 v n = push_bit n v OR drop_bit (32 - n) v"

definition sha1_w16 :: "u8 list \<Rightarrow> u32 list" where
  "sha1_w16 block =
     map (\<lambda>i. push_bit 24 (ucast (block ! (i * 4))) OR push_bit 16 (ucast (block ! (i * 4 + 1))) OR
              push_bit 8 (ucast (block ! (i * 4 + 2))) OR ucast (block ! (i * 4 + 3))) [0..<16]"

definition sha1_w :: "u8 list \<Rightarrow> u32 list" where
  "sha1_w block =
     foldl (\<lambda>w i. w @ [rol32 (w ! (i - 3) XOR w ! (i - 8) XOR w ! (i - 14) XOR w ! (i - 16)) 1])
       (sha1_w16 block) [16..<80]"

definition sha1_round :: "u32 list \<Rightarrow> nat \<Rightarrow> u32 \<times> u32 \<times> u32 \<times> u32 \<times> u32 \<Rightarrow>
    u32 \<times> u32 \<times> u32 \<times> u32 \<times> u32" where
  "sha1_round w i = (\<lambda>(a, b, cc, d, e).
     let (f, k) =
           (if i < 20 then ((b AND cc) OR (NOT b AND d), 0x5a827999)
            else if i < 40 then (b XOR cc XOR d, 0x6ed9eba1)
            else if i < 60 then ((b AND cc) OR (b AND d) OR (cc AND d), 0x8f1bbcdc)
            else (b XOR cc XOR d, 0xca62c1d6));
         tmp = rol32 a 5 + f + e + k + w ! i
     in (tmp, a, rol32 b 30, cc, d))"

definition sha1_transform :: "u32 list \<Rightarrow> u8 list \<Rightarrow> u32 list" where
  "sha1_transform h block =
     (case foldl (\<lambda>s i. sha1_round (sha1_w block) i s) (h ! 0, h ! 1, h ! 2, h ! 3, h ! 4) [0..<80] of
        (a, b, cc, d, e) \<Rightarrow> [h ! 0 + a, h ! 1 + b, h ! 2 + cc, h ! 3 + d, h ! 4 + e])"

section \<open>The incremental interface\<close>

definition sha1_init :: sha1_ctx where
  "sha1_init = \<lparr>sc_h = [0x67452301, 0xefcdab89, 0x98badcfe, 0x10325476, 0xc3d2e1f0],
     sc_bytes = 0, sc_block = replicate 64 0, sc_used = 0\<rparr>"

text \<open>The loop of \<open>sha1_update\<close>. The test \<open>sc_used c < 64\<close> always holds (it is what makes every
  step consume input).\<close>

function sha1_update_loop :: "sha1_ctx \<Rightarrow> u8 list \<Rightarrow> sha1_ctx" where
  "sha1_update_loop c p =
     (if p = [] \<or> \<not> sc_used c < 64 then c
      else
        let n = min (64 - sc_used c) (length p);
            blk = take (sc_used c) (sc_block c) @ take n p @ drop (sc_used c + n) (sc_block c);
            c1 = c\<lparr>sc_block := blk, sc_used := sc_used c + n\<rparr>;
            c2 = (if sc_used c1 = 64 then c1\<lparr>sc_h := sha1_transform (sc_h c1) (sc_block c1), sc_used := 0\<rparr>
                  else c1)
        in sha1_update_loop c2 (drop n p))"
  by pat_completeness auto
termination
  by (relation "measure (\<lambda>(c, p). length p)") (auto simp: Let_def)

declare sha1_update_loop.simps [simp del]

definition sha1_update :: "sha1_ctx \<Rightarrow> u8 list \<Rightarrow> sha1_ctx" where
  "sha1_update c p = sha1_update_loop (c\<lparr>sc_bytes := sc_bytes c + word_of_nat (length p)\<rparr>) p"

text \<open>The padding loop of \<open>sha1_final\<close>; it needs at most 63 zeros.\<close>

primrec sha1_pad :: "nat \<Rightarrow> sha1_ctx \<Rightarrow> sha1_ctx" where
  "sha1_pad 0 c = c"
| "sha1_pad (Suc fuel) c = (if sc_used c = 56 then c else sha1_pad fuel (sha1_update c [0]))"

definition be_bytes32 :: "u32 \<Rightarrow> u8 list" where
  "be_bytes32 v = [ucast (drop_bit 24 v), ucast (drop_bit 16 v), ucast (drop_bit 8 v), ucast v]"

definition sha1_final :: "sha1_ctx \<Rightarrow> u8 list" where
  "sha1_final c0 =
     (let bits = sc_bytes c0 * 8;
          c1 = sha1_update c0 [0x80];
          c2 = sha1_pad 64 c1;
          c3 = sha1_update c2 (rev (le_put64 bits))
      in concat (map be_bytes32 (sc_h c3)))"

definition hex20 :: "u8 list \<Rightarrow> cstr" where
  "hex20 bs = concat (map (\<lambda>b. [''0123456789abcdef'' ! unat (drop_bit 4 b),
                                 ''0123456789abcdef'' ! unat (b AND 15)]) (take 20 bs))"

text \<open>Tokens are C \<open>int\<close>s.\<close>

definition sha1_tokens_hex :: "int list \<Rightarrow> nat \<Rightarrow> cstr" where
  "sha1_tokens_hex tokens n =
     hex20 (sha1_final (foldl (\<lambda>c v. sha1_update c (le_put32 (word_of_int v))) sha1_init (take n tokens)))"

section \<open>The digest of a message\<close>

function absorb :: "u32 list \<Rightarrow> u8 list \<Rightarrow> u32 list" where
  "absorb h m = (if length m < 64 then h else absorb (sha1_transform h (take 64 m)) (drop 64 m))"
  by pat_completeness auto
termination
  by (relation "measure (\<lambda>(h, m). length m)") auto

declare absorb.simps [simp del]

definition sha1_padded :: "u8 list \<Rightarrow> u8 list" where
  "sha1_padded m = m @ [0x80] @ replicate ((119 - length m mod 64) mod 64) 0 @
     rev (le_put64 (word_of_nat (length m) * 8))"

definition sha1_digest :: "u8 list \<Rightarrow> u8 list" where
  "sha1_digest m = concat (map be_bytes32 (absorb (sc_h sha1_init) (sha1_padded m)))"

section \<open>The incremental computation follows the message\<close>

definition full_blocks :: "u8 list \<Rightarrow> nat" where
  "full_blocks m = 64 * (length m div 64)"

definition sha1_rep :: "sha1_ctx \<Rightarrow> u8 list \<Rightarrow> bool" where
  "sha1_rep c m \<longleftrightarrow> sc_used c = length m mod 64 \<and> length (sc_block c) = 64 \<and>
     take (sc_used c) (sc_block c) = drop (full_blocks m) m \<and>
     sc_h c = absorb (sc_h sha1_init) m"

lemma absorb_short: "length m < 64 \<Longrightarrow> absorb h m = h"
  by (subst absorb.simps) simp

lemma absorb_append: "length m mod 64 = 0 \<Longrightarrow> absorb h (m @ p) = absorb (absorb h m) p"
proof (induction h m rule: absorb.induct)
  case (1 h m)
  show ?case
  proof (cases "length m < 64")
    case True
    with 1(2) have "m = []" by simp
    then show ?thesis by (simp add: absorb_short)
  next
    case False
    have "absorb h (m @ p) = absorb (sha1_transform h (take 64 m)) (drop 64 m @ p)"
      using False by (subst absorb.simps) simp
    also have "\<dots> = absorb (absorb (sha1_transform h (take 64 m)) (drop 64 m)) p"
      using False 1(2) le_mod_geq [of 64 "length m"] by (intro 1(1)) simp_all
    also have "absorb (sha1_transform h (take 64 m)) (drop 64 m) = absorb h m"
      using False by (subst (2) absorb.simps) simp
    finally show ?thesis .
  qed
qed

lemma full_blocks_take: "length (take (full_blocks m) m) = full_blocks m" "full_blocks m mod 64 = 0"
  by (simp_all add: full_blocks_def min.absorb2)

lemma absorb_split: "absorb h m = absorb h (take (full_blocks m) m)"
proof -
  have "length (take (full_blocks m) m) mod 64 = 0"
    by (simp only: full_blocks_take)
  then have "absorb h (take (full_blocks m) m @ drop (full_blocks m) m) =
      absorb (absorb h (take (full_blocks m) m)) (drop (full_blocks m) m)"
    by (rule absorb_append)
  moreover have "length (drop (full_blocks m) m) < 64"
    by (simp add: full_blocks_def minus_mult_div_eq_mod)
  ultimately show ?thesis by (simp add: absorb_short)
qed

lemma sha1_rep_init: "sha1_rep sha1_init []"
  by (simp add: sha1_rep_def sha1_init_def full_blocks_def absorb_short)

lemma div_short: "a mod 64 + b < 64 \<Longrightarrow> (a + b) div 64 = a div (64 :: nat)"
  by (simp add: div_add1_eq [of a b])

lemma mod_short: "a mod 64 + b < 64 \<Longrightarrow> (a + b) mod 64 = a mod 64 + (b :: nat)"
  by (metis mod_add_left_eq mod_less)

text \<open>One turn of the loop.\<close>

lemma sha1_rep_step:
  assumes rep: "sha1_rep c m" and n: "length q \<le> 64 - sc_used c" "q \<noteq> []"
    and c1: "c1 = c\<lparr>sc_block := take (sc_used c) (sc_block c) @ q @ drop (sc_used c + length q) (sc_block c),
               sc_used := sc_used c + length q\<rparr>"
    and c2: "c2 = (if sc_used c1 = 64 then c1\<lparr>sc_h := sha1_transform (sc_h c1) (sc_block c1), sc_used := 0\<rparr>
                  else c1)"
  shows "sha1_rep c2 (m @ q)"
proof -
  let ?u = "length m mod 64" and ?t = "drop (full_blocks m) m"
  have u: "sc_used c = ?u" "length (sc_block c) = 64" "take ?u (sc_block c) = ?t"
    and h: "sc_h c = absorb (sc_h sha1_init) m" using rep by (auto simp: sha1_rep_def)
  have fb: "full_blocks m + ?u = length m" by (simp add: full_blocks_def)
  have blk: "sc_block c1 = ?t @ q @ drop (?u + length q) (sc_block c)" "sc_used c1 = ?u + length q"
    "sc_h c1 = sc_h c" using c1 u by simp_all
  have lt: "length ?t = ?u" using fb by simp
  have u64: "?u < 64" by simp
  have lenb: "length (sc_block c1) = 64" using blk(1) lt n u by simp
  have m: "m = take (full_blocks m) m @ ?t" by simp
  have aligned: "length (take (full_blocks m) m) mod 64 = 0"
    by (simp only: full_blocks_take)
  show ?thesis
  proof (cases "?u + length q = 64")
    case True
    have len: "length (m @ q) = full_blocks m + 64" using True fb by simp
    then have mod0: "length (m @ q) mod 64 = 0" by (simp add: full_blocks_def)
    have full: "sc_block c1 = ?t @ q" using blk(1) True u by simp
    have "absorb (sc_h sha1_init) (m @ q) =
        absorb (absorb (sc_h sha1_init) (take (full_blocks m) m)) (?t @ q)"
      using absorb_append [OF aligned, of "sc_h sha1_init" "?t @ q"] m by (metis append_assoc)
    also have "absorb (sc_h sha1_init) (take (full_blocks m) m) = sc_h c"
      using h absorb_split by metis
    also have "absorb (sc_h c) (?t @ q) = sha1_transform (sc_h c) (?t @ q)"
    proof -
      have l: "length (?t @ q) = 64" using True lt by simp
      then have "absorb (sc_h c) (?t @ q) =
          absorb (sha1_transform (sc_h c) (take 64 (?t @ q))) (drop 64 (?t @ q))"
        by (subst absorb.simps) simp
      moreover have "take 64 (?t @ q) = ?t @ q" "drop 64 (?t @ q) = []" using l by simp_all
      ultimately show ?thesis by (simp add: absorb_short)
    qed
    finally have "absorb (sc_h sha1_init) (m @ q) = sha1_transform (sc_h c) (?t @ q)" .
    moreover have "drop (full_blocks (m @ q)) (m @ q) = []"
    proof -
      have "full_blocks (m @ q) = length (m @ q)"
        using mod0 unfolding full_blocks_def by (metis add_0_right mult_div_mod_eq)
      then show ?thesis by simp
    qed
    ultimately show ?thesis
      using c2 True blk full mod0 lenb by (simp add: sha1_rep_def)
  next
    case False
    then have lt64: "?u + length q < 64" using n(1) u(1) u64 by linarith
    have len: "length (m @ q) = full_blocks m + (?u + length q)" using fb by simp
    have fb': "full_blocks (m @ q) = full_blocks m"
      unfolding full_blocks_def length_append using div_short [OF lt64] by simp
    have mod: "length (m @ q) mod 64 = ?u + length q"
      unfolding length_append using mod_short [OF lt64] by simp
    have "absorb (sc_h sha1_init) (m @ q) = absorb (sc_h sha1_init) (take (full_blocks m) m)"
      using absorb_split [of "sc_h sha1_init" "m @ q"] fb' fb by simp
    also have "\<dots> = sc_h c" using h absorb_split by metis
    finally have "absorb (sc_h sha1_init) (m @ q) = sc_h c" .
    moreover have "drop (full_blocks (m @ q)) (m @ q) = ?t @ q" using fb' fb by simp
    moreover have "take (?u + length q) (sc_block c1) = ?t @ q" using blk(1) lt by simp
    ultimately show ?thesis
      using c2 False blk mod lenb by (simp add: sha1_rep_def)
  qed
qed

lemma sha1_rep_loop: "sha1_rep c m \<Longrightarrow> sha1_rep (sha1_update_loop c p) (m @ p)"
proof (induction c p arbitrary: m rule: sha1_update_loop.induct)
  case (1 c p)
  have u: "sc_used c < 64" using 1(2) by (simp add: sha1_rep_def)
  show ?case
  proof (cases "p = []")
    case True
    with 1(2) show ?thesis by (simp add: sha1_update_loop.simps [of c "[]"])
  next
    case False
    define n where "n = min (64 - sc_used c) (length p)"
    define c1 where "c1 = c\<lparr>sc_block := take (sc_used c) (sc_block c) @ take n p @ drop (sc_used c + n) (sc_block c),
        sc_used := sc_used c + n\<rparr>"
    define c2 where "c2 = (if sc_used c1 = 64 then c1\<lparr>sc_h := sha1_transform (sc_h c1) (sc_block c1), sc_used := 0\<rparr>
                  else c1)"
    have len: "length (take n p) = n" by (simp add: n_def)
    have step: "sha1_rep c2 (m @ take n p)"
    proof (rule sha1_rep_step [OF 1(2) _ _ _ c2_def])
      show "length (take n p) \<le> 64 - sc_used c" by (simp add: n_def)
      show "take n p \<noteq> []" using False u by (simp add: n_def)
    qed (simp only: c1_def len)
    have "sha1_update_loop c p = sha1_update_loop c2 (drop n p)"
      using False u by (subst sha1_update_loop.simps) (simp add: Let_def n_def c1_def c2_def)
    moreover have "sha1_rep (sha1_update_loop c2 (drop n p)) ((m @ take n p) @ drop n p)"
      by (rule 1(1) [OF _ n_def refl c1_def c2_def step]) (use False u in simp)
    ultimately show ?thesis by simp
  qed
qed

lemma sha1_update_loop_bytes [simp]: "sc_bytes (sha1_update_loop c p) = sc_bytes c"
proof (induction c p rule: sha1_update_loop.induct)
  case (1 c p)
  then show ?case
    by (subst sha1_update_loop.simps) (simp add: Let_def)
qed

lemma sha1_rep_bytes: "sha1_rep (c\<lparr>sc_bytes := n\<rparr>) m = sha1_rep c m"
  by (simp add: sha1_rep_def)

lemma sha1_update_rep: "sha1_rep c m \<Longrightarrow> sha1_rep (sha1_update c p) (m @ p)"
  unfolding sha1_update_def by (rule sha1_rep_loop) (simp add: sha1_rep_bytes)

lemma sha1_update_bytes: "sc_bytes (sha1_update c p) = sc_bytes c + word_of_nat (length p)"
  by (simp add: sha1_update_def)

text \<open>The padding loop stops at 56 used bytes, after as many zeros as the message asks for.\<close>

lemma pad_value: "u < 64 \<Longrightarrow> (120 - u) mod 64 = (if u \<le> 56 then 56 - u else 120 - (u :: nat))"
  using le_mod_geq [of 64 "120 - u"] by (auto simp: not_less)

lemma pad_zero: "(120 - u) mod 64 = 0 \<Longrightarrow> u < 64 \<Longrightarrow> u = (56 :: nat)"
  by (simp add: pad_value split: if_splits)

lemma pad_step:
  "u < 64 \<Longrightarrow> u \<noteq> 56 \<Longrightarrow>
     (120 - u) mod 64 = Suc ((120 - (if Suc u = 64 then 0 else Suc u)) mod (64 :: nat))"
  by (auto simp: pad_value)

lemma sha1_pad_rep:
  "sha1_rep c m \<Longrightarrow> (120 - length m mod 64) mod 64 \<le> fuel \<Longrightarrow>
     sha1_rep (sha1_pad fuel c) (m @ replicate ((120 - length m mod 64) mod 64) 0) \<and>
     sc_bytes (sha1_pad fuel c) = sc_bytes c + word_of_nat ((120 - length m mod 64) mod 64)"
proof (induction fuel arbitrary: c m)
  case 0
  have u: "sc_used c = length m mod 64" using 0(1) by (simp add: sha1_rep_def)
  have l: "length m mod 64 = 56"
    by (rule pad_zero) (use 0(2) in simp_all)
  have "(120 - length m mod 64) mod 64 = 0" unfolding l by simp
  with 0 show ?case by simp
next
  case (Suc fuel)
  have u: "sc_used c = length m mod 64" using Suc.prems(1) by (simp add: sha1_rep_def)
  have lt: "length m mod 64 < 64" by simp
  show ?case
  proof (cases "length m mod 64 = 56")
    case True
    with Suc.prems u show ?thesis by simp
  next
    case False
    let ?z = "(120 - length m mod 64) mod 64" and ?z' = "(120 - length (m @ [0]) mod 64) mod 64"
    have z: "?z = Suc ?z'"
      using pad_step [OF lt False] by (simp add: mod_Suc)
    have rep1: "sha1_rep (sha1_update c [0]) (m @ [0])" by (rule sha1_update_rep [OF Suc.prems(1)])
    have "?z' \<le> fuel" using Suc.prems(2) z by simp
    from Suc.IH [OF rep1 this] have
      "sha1_rep (sha1_pad fuel (sha1_update c [0])) ((m @ [0]) @ replicate ?z' 0)"
      "sc_bytes (sha1_pad fuel (sha1_update c [0])) = sc_bytes c + 1 + word_of_nat ?z'"
      by (simp_all add: sha1_update_bytes)
    moreover have "sha1_pad (Suc fuel) c = sha1_pad fuel (sha1_update c [0])"
      using False u by simp
    ultimately show ?thesis unfolding z by (simp add: add.assoc)
  qed
qed

lemma sha1_final_digest:
  assumes rep: "sha1_rep c m" and bytes: "sc_bytes c = word_of_nat (length m)"
  shows "sha1_final c = sha1_digest m"
proof -
  let ?c1 = "sha1_update c [0x80]"
  let ?z = "(120 - length (m @ [0x80 :: u8]) mod 64) mod 64"
  have rep1: "sha1_rep ?c1 (m @ [0x80])" by (rule sha1_update_rep [OF rep])
  have "?z \<le> 64" by (simp add: less_imp_le)
  from sha1_pad_rep [OF rep1 this] have
    rep2: "sha1_rep (sha1_pad 64 ?c1) ((m @ [0x80]) @ replicate ?z 0)" by blast
  have z: "?z = (119 - length m mod 64) mod 64"
    using mod_less_divisor [of 64 "length m"] by (simp add: mod_Suc)
  have "sha1_rep (sha1_update (sha1_pad 64 ?c1) (rev (le_put64 (sc_bytes c * 8)))) (sha1_padded m)"
    using sha1_update_rep [OF rep2, of "rev (le_put64 (sc_bytes c * 8))"] z bytes
    by (simp add: sha1_padded_def)
  then show ?thesis
    by (simp add: sha1_final_def sha1_digest_def sha1_rep_def Let_def)
qed

text \<open>
  C35. However the message is cut into pieces, the incremental computation of ds4_server.c (buffer,
  \<open>sha1_update\<close>, the padding loop, \<open>sha1_final\<close>) ends with the digest of the padded message, taken
  64 bytes at a time: the 56-byte boundary and messages that fill a block exactly included.
\<close>

theorem sha1_pieces:
  "sha1_final (foldl sha1_update sha1_init pieces) = sha1_digest (concat pieces)"
proof -
  have "sha1_rep (foldl sha1_update c pieces) (m @ concat pieces) \<and>
      sc_bytes (foldl sha1_update c pieces) = sc_bytes c + word_of_nat (length (concat pieces))"
    if "sha1_rep c m" for c m
    using that
  proof (induction pieces arbitrary: c m)
    case (Cons p ps)
    from Cons.IH [OF sha1_update_rep [OF Cons.prems, of p]] show ?case
      by (simp add: sha1_update_bytes add.assoc)
  qed simp
  from this [OF sha1_rep_init] show ?thesis
    by (intro sha1_final_digest) (simp_all add: sha1_init_def)
qed

end
