(* ===== verification/KvFile.thy ===== *)
theory KvFile
  imports ToolReplay Sha1
begin

text \<open>
  The files of the KV cache directory (ds4_server.c): their names, the fixed header, the optional
  tool map behind the payload, and reading an entry. A file is the list of its bytes; a \<open>FILE *\<close>
  that is read is what is left of it, one that is written is what has been written so far.

  \<open>fwrite\<close> fails when the disk is full: \<open>cap\<close> is the largest size the file can reach.
\<close>

section \<open>Bytes and characters\<close>

type_synonym bytes = "u8 list"

definition bytes_of :: "string \<Rightarrow> bytes" where
  "bytes_of s = map (\<lambda>c. word_of_nat (byte_of c)) s"

definition chars_of :: "bytes \<Rightarrow> string" where
  "chars_of bs = map (\<lambda>b. char_of (unat b)) bs"

definition fwrite :: "nat \<Rightarrow> bytes \<Rightarrow> bytes \<Rightarrow> bytes \<times> bool" where
  "fwrite cap fp bs = (fp @ take (cap - length fp) bs, length fp + length bs \<le> cap)"

section \<open>Options, entries and reasons\<close>

record kv_entry =
  ke_sha :: cstr
  ke_path :: cstr
  ke_quant_bits :: u8
  ke_reason :: u8
  ke_tokens :: u32
  ke_hits :: u32
  ke_ctx_size :: u32
  ke_ext_flags :: u8
  ke_created_at :: u64
  ke_last_used :: u64
  ke_payload_bytes :: u64
  ke_text_bytes :: u64
  ke_file_size :: u64

record kv_cache_options =
  min_tokens :: int
  cold_max_tokens :: int
  continued_interval_tokens :: int
  boundary_trim_tokens :: int
  boundary_align_tokens :: int

definition kv_cache_default_options :: kv_cache_options where
  "kv_cache_default_options =
     \<lparr>min_tokens = 512, cold_max_tokens = 30000, continued_interval_tokens = 10000,
      boundary_trim_tokens = 32, boundary_align_tokens = 2048\<rparr>"

definition KV_REASON_UNKNOWN :: u8 where "KV_REASON_UNKNOWN = 0"
definition KV_REASON_COLD :: u8 where "KV_REASON_COLD = 1"
definition KV_REASON_CONTINUED :: u8 where "KV_REASON_CONTINUED = 2"
definition KV_REASON_EVICT :: u8 where "KV_REASON_EVICT = 3"
definition KV_REASON_SHUTDOWN :: u8 where "KV_REASON_SHUTDOWN = 4"

definition kv_reason_code :: "cstr option \<Rightarrow> u8" where
  "kv_reason_code reason =
     (case reason of
        None \<Rightarrow> KV_REASON_UNKNOWN
      | Some r \<Rightarrow>
          if r = ''cold'' then KV_REASON_COLD
          else if r = ''continued'' then KV_REASON_CONTINUED
          else if r = ''evict'' then KV_REASON_EVICT
          else if r = ''shutdown'' then KV_REASON_SHUTDOWN
          else KV_REASON_UNKNOWN)"

definition KV_CACHE_FIXED_HEADER :: nat where "KV_CACHE_FIXED_HEADER = 48"
definition KV_EXT_TOOL_MAP :: u8 where "KV_EXT_TOOL_MAP = 1"

section \<open>File names\<close>

definition isxdigit :: "char \<Rightarrow> bool" where
  "isxdigit c \<longleftrightarrow> c \<in> set ''0123456789abcdefABCDEF''"

definition sha_hex_name :: "cstr \<Rightarrow> cstr option" where
  "sha_hex_name name =
     (if length name \<noteq> 43 \<or> drop 40 name \<noteq> ''.kv'' then None
      else if \<not> list_all isxdigit (take 40 name) then None
      else Some (map tolower (take 40 name)))"

definition path_join :: "cstr \<Rightarrow> cstr \<Rightarrow> cstr" where
  "path_join dir name = (if dir = [] \<or> last dir \<noteq> CHR ''/'' then dir @ ''/'' else dir) @ name"

definition kv_path_for_sha :: "cstr \<Rightarrow> cstr \<Rightarrow> cstr" where
  "kv_path_for_sha dir sha = path_join dir (take 40 sha @ ''.kv'')"

section \<open>The fixed header\<close>

definition put_at :: "nat \<Rightarrow> bytes \<Rightarrow> bytes \<Rightarrow> bytes" where
  \<comment> \<open>storing bytes into an array, from an index on\<close>
  "put_at i bs h = take i h @ bs @ drop (i + length bs) h"

definition kv_fill_header ::
  "u8 \<Rightarrow> u8 \<Rightarrow> u8 \<Rightarrow> u32 \<Rightarrow> u32 \<Rightarrow> u32 \<Rightarrow> u64 \<Rightarrow> u64 \<Rightarrow> u64 \<Rightarrow> bytes" where
  "kv_fill_header quant_bits reason ext_flags tokens hits ctx_size created_at last_used payload_bytes =
     (put_at 40 (le_put64 payload_bytes) \<circ> put_at 32 (le_put64 last_used) \<circ>
      put_at 24 (le_put64 created_at) \<circ> put_at 16 (le_put32 ctx_size) \<circ> put_at 12 (le_put32 hits) \<circ>
      put_at 8 (le_put32 tokens) \<circ> put_at 6 [ext_flags] \<circ> put_at 5 [reason] \<circ>
      put_at 4 [quant_bits] \<circ> put_at 0 [0x4B, 0x56, 0x43, 1])
       (replicate KV_CACHE_FIXED_HEADER 0)"

text \<open>\<open>kv_read_header\<close>: the entry (with what the header says), the length of the rendered text,
  and what is left of the file. The callers do not use an entry whose header was refused.\<close>

definition kv_entry_zero :: kv_entry where
  "kv_entry_zero =
     \<lparr>ke_sha = [], ke_path = [], ke_quant_bits = 0, ke_reason = 0, ke_tokens = 0, ke_hits = 0,
      ke_ctx_size = 0, ke_ext_flags = 0, ke_created_at = 0, ke_last_used = 0, ke_payload_bytes = 0,
      ke_text_bytes = 0, ke_file_size = 0\<rparr>"

definition kv_read_header :: "bytes \<Rightarrow> (kv_entry \<times> u32 \<times> bytes) option" where
  "kv_read_header fp =
     (if length fp < KV_CACHE_FIXED_HEADER then None
      else
        let h = take KV_CACHE_FIXED_HEADER fp; fp1 = drop KV_CACHE_FIXED_HEADER fp in
        if h ! 0 \<noteq> 0x4B \<or> h ! 1 \<noteq> 0x56 \<or> h ! 2 \<noteq> 0x43 \<or> h ! 3 \<noteq> 1 then None
        else if length fp1 < 4 then None
        else
          let tb = le_get32 (take 4 fp1);
              e = kv_entry_zero
                    \<lparr>ke_quant_bits := h ! 4,
                     ke_reason := (if h ! 5 \<le> KV_REASON_SHUTDOWN then h ! 5 else KV_REASON_UNKNOWN),
                     ke_ext_flags := h ! 6,
                     ke_tokens := le_get32 (drop 8 h),
                     ke_hits := le_get32 (drop 12 h),
                     ke_ctx_size := le_get32 (drop 16 h),
                     ke_created_at := le_get64 (drop 24 h),
                     ke_last_used := le_get64 (drop 32 h),
                     ke_payload_bytes := le_get64 (drop 40 h),
                     ke_text_bytes := ucast tb\<rparr>
          in if ke_tokens e \<noteq> 0 \<and> (ke_quant_bits e = 2 \<or> ke_quant_bits e = 4)
             then Some (e, tb, drop 4 fp1) else None)"

text \<open>\<open>kv_read_entry_file\<close> on the content of the file.\<close>

definition kv_read_entry_file :: "cstr \<Rightarrow> cstr \<Rightarrow> bytes \<Rightarrow> kv_entry option" where
  "kv_read_entry_file path sha file =
     (if length file < KV_CACHE_FIXED_HEADER + 4 then None
      else case kv_read_header file of
             None \<Rightarrow> None
           | Some (e, text_bytes, _) \<Rightarrow>
               let fixed = word_of_nat (KV_CACHE_FIXED_HEADER + 4) :: u64 in
               if - 1 - fixed < ucast text_bytes \<or> - 1 - fixed - ucast text_bytes < ke_payload_bytes e
               then None
               else if word_of_nat (length file) < fixed + ucast text_bytes + ke_payload_bytes e then None
               else Some (e\<lparr>ke_sha := sha, ke_path := path, ke_file_size := word_of_nat (length file)\<rparr>))"

section \<open>The tool map\<close>

definition id_list_contains :: "stop_list option \<Rightarrow> cstr option \<Rightarrow> bool" where
  "id_list_contains ids ident =
     (case ids of None \<Rightarrow> False | Some l \<Rightarrow> or_empty ident \<noteq> [] \<and> or_empty ident \<in> set (stop_v l))"

definition id_list_push_unique :: "stop_list \<Rightarrow> cstr option \<Rightarrow> stop_list" where
  "id_list_push_unique ids ident =
     (if or_empty ident = [] \<or> id_list_contains (Some ids) ident then ids
      else stop_list_push ids (or_empty ident))"

definition collect_tool_call_ids :: "chat_msgs \<Rightarrow> stop_list \<Rightarrow> stop_list" where
  "collect_tool_call_ids msgs ids =
     foldl (\<lambda>ids1 msg. foldl (\<lambda>ids2 tc. id_list_push_unique ids2 (tc_id tc)) ids1 (calls_v (calls msg)))
       ids msgs"

definition block_forms :: "(string \<times> string) list" where
  "block_forms =
     [([NL, NL] @ DS4_TOOL_CALLS_START, DS4_TOOL_CALLS_END),
      (DS4_TOOL_CALLS_START, DS4_TOOL_CALLS_END),
      ([NL, NL] @ DS4_TOOL_CALLS_START_SHORT, DS4_TOOL_CALLS_END_SHORT),
      (DS4_TOOL_CALLS_START_SHORT, DS4_TOOL_CALLS_END_SHORT),
      ([NL, NL] @ ''<tool_calls>'', ''</tool_calls>''),
      (''<tool_calls>'', ''</tool_calls>'')]"

text \<open>The offsets of the first block in \<open>p\<close> and of its end.\<close>

fun find_form_loop :: "(string \<times> string) list \<Rightarrow> cstr \<Rightarrow> (nat \<times> nat) option \<Rightarrow> (nat \<times> nat) option" where
  "find_form_loop [] p best = best"
| "find_form_loop ((start, end') # forms) p best =
     (case strstr p start of
        None \<Rightarrow> find_form_loop forms p best
      | Some s \<Rightarrow>
          if (case best of None \<Rightarrow> False | Some (b, _) \<Rightarrow> s \<ge> b) then find_form_loop forms p best
          else case strstr (drop s p) end' of
                 None \<Rightarrow> find_form_loop forms p best
               | Some e \<Rightarrow> find_form_loop forms p (Some (s, s + e + length end')))"

definition find_next_dsml_tool_block :: "cstr \<Rightarrow> (nat \<times> nat) option" where
  "find_next_dsml_tool_block p = find_form_loop block_forms p None"

lemma ball_tl: "\<forall>x \<in> set (y # ys). P x \<Longrightarrow> \<forall>x \<in> set ys. P x"
  by simp

definition good_span :: "cstr \<Rightarrow> (nat \<times> nat) option \<Rightarrow> bool" where
  "good_span p best \<longleftrightarrow> (\<forall>x y. best = Some (x, y) \<longrightarrow> x < y \<and> y \<le> length p)"

lemma good_span_found:
  assumes "strstr p start = Some i" "strstr (drop i p) en = Some j" "en \<noteq> []"
  shows "good_span p (Some (i, i + j + length en))"
proof -
  have "i \<le> length p" using strstr_Some [OF assms(1)] by (simp add: occurs_at_def)
  moreover have "j + length en \<le> length p - i"
    using occurs_at_length [OF strstr_Some [OF assms(2)]] by simp
  ultimately show ?thesis using assms(3) by (cases en) (auto simp: good_span_def)
qed

lemma find_form_loop_bounds:
  "\<forall>f \<in> set forms. snd f \<noteq> [] \<Longrightarrow> good_span p best \<Longrightarrow> good_span p (find_form_loop forms p best)"
proof (induction forms arbitrary: best)
  case (Cons f forms)
  obtain start en where f: "f = (start, en)" by (cases f)
  note IH = Cons.IH [OF ball_tl [OF Cons.prems(1)]]
  show ?case
  proof (cases "strstr p start")
    case None
    with IH [OF Cons.prems(2)] show ?thesis by (simp add: f)
  next
    case (Some i)
    show ?thesis
    proof (cases "strstr (drop i p) en")
      case None
      with Some IH [OF Cons.prems(2)] show ?thesis by (simp add: f)
    next
      case Found: (Some j)
      have "good_span p (Some (i, i + j + length en))"
        using good_span_found [OF Some Found] Cons.prems(1) by (simp add: f)
      with Some Found IH Cons.prems(2) show ?thesis by (simp add: f)
    qed
  qed
qed simp

lemma find_next_bounds:
  "find_next_dsml_tool_block p = Some (s, e) \<Longrightarrow> s < e \<and> e \<le> length p"
  using find_form_loop_bounds [of block_forms p None]
  by (simp add: find_next_dsml_tool_block_def good_span_def block_forms_def
      DS4_TOOL_CALLS_END_def DS4_TOOL_CALLS_END_SHORT_def)

text \<open>The blocks a scan of the text visits: the loop \<open>p = text; p = end; ...\<close>.\<close>

function dsml_blocks :: "cstr \<Rightarrow> cstr list" where
  "dsml_blocks p =
     (case find_next_dsml_tool_block p of
        None \<Rightarrow> []
      | Some (s, e) \<Rightarrow> take (e - s) (drop s p) # dsml_blocks (drop e p))"
  by pat_completeness auto
termination
  by (relation "measure length") (auto dest!: find_next_bounds)

declare dsml_blocks.simps [simp del]

fun count_refs_loop :: "tool_memory \<Rightarrow> cstr list \<Rightarrow> int \<Rightarrow> int option" where
  "count_refs_loop m [] count = Some count"
| "count_refs_loop m (d # ds) count =
     (case tool_memory_find_block_locked m d of
        None \<Rightarrow> count_refs_loop m ds count
      | Some b \<Rightarrow> (case bheap m b of None \<Rightarrow> None | Some blk \<Rightarrow> count_refs_loop m ds (count + tb_refs blk)))"

definition tool_memory_count_dsml_in_text :: "'a server_scheme \<Rightarrow> cstr option \<Rightarrow> int option" where
  "tool_memory_count_dsml_in_text s txt =
     (if disable_exact_dsml_tool_replay s \<or> or_empty txt = [] then Some 0
      else count_refs_loop (tool_mem s) (dsml_blocks (or_empty txt)) 0)"

text \<open>The ids of the entries of a block: \<open>for (e = b->entries; e; e = e->block_next)\<close>.\<close>

partial_function (option) chain_ids :: "tool_memory \<Rightarrow> addr option \<Rightarrow> cstr list option" where
  "chain_ids m eo =
     (case eo of
        None \<Rightarrow> Some []
      | Some e \<Rightarrow>
          do { x \<leftarrow> eheap m e; ids \<leftarrow> chain_ids m (te_block_next x); Some (te_id x # ids) })"

definition too_long :: "cstr \<Rightarrow> nat \<Rightarrow> bool" where
  "too_long ident dsml_len \<longleftrightarrow> length ident \<ge> 2 ^ 32 \<or> dsml_len \<ge> 2 ^ 32"

fun count_ids_loop :: "nat \<Rightarrow> cstr list \<Rightarrow> u32 \<times> u64 \<Rightarrow> u32 \<times> u64" where
  "count_ids_loop dsml_len [] acc = acc"
| "count_ids_loop dsml_len (i # is) (count, bytes) =
     (if too_long i dsml_len then count_ids_loop dsml_len is (count, bytes)
      else count_ids_loop dsml_len is
             (count + 1, bytes + (8 + word_of_nat (length i) + word_of_nat dsml_len)))"

fun write_ids_loop :: "nat \<Rightarrow> tool_memory_block \<Rightarrow> cstr list \<Rightarrow> bytes \<times> bool \<Rightarrow> bytes \<times> bool" where
  "write_ids_loop cap blk [] acc = acc"
| "write_ids_loop cap blk (i # is) (fp, ok) =
     (if \<not> ok then (fp, ok)
      else if too_long i (tb_len blk) then write_ids_loop cap blk is (fp, ok)
      else
        let (fp1, ok1) = fwrite cap fp (le_put32 (word_of_nat (length i)) @ le_put32 (word_of_nat (tb_len blk)));
            (fp2, ok2) = (if ok1 then fwrite cap fp1 (bytes_of i) else (fp1, False));
            (fp3, ok3) = (if ok2 then fwrite cap fp2 (bytes_of (take (tb_len blk) (tb_dsml blk))) else (fp2, False))
        in write_ids_loop cap blk is (fp3, ok3))"

text \<open>The two passes of \<open>kv_tool_map_write\<close> over the blocks of the text, each block once: \<open>body\<close> is
  what the pass does with a block and the ids of its chain, \<open>go\<close> its test \<open>ok\<close>.\<close>

fun scan_blocks ::
  "(tool_memory_block \<Rightarrow> cstr list \<Rightarrow> 'a \<Rightarrow> 'a) \<Rightarrow> ('a \<Rightarrow> bool) \<Rightarrow> tool_memory \<Rightarrow> u64 \<Rightarrow> cstr list \<Rightarrow> 'a \<Rightarrow>
   (tool_memory \<times> 'a) option" where
  "scan_blocks body go m scan [] acc = Some (m, acc)"
| "scan_blocks body go m scan (d # ds) acc =
     (if \<not> go acc then Some (m, acc)
      else case tool_memory_find_block_locked m d of
        None \<Rightarrow> scan_blocks body go m scan ds acc
      | Some b \<Rightarrow>
          do {
            blk \<leftarrow> bheap m b;
            if tb_seen blk = scan then scan_blocks body go m scan ds acc
            else
              do {
                m1 \<leftarrow> set_block m b (\<lambda>y. y\<lparr>tb_seen := scan\<rparr>);
                ids \<leftarrow> chain_ids m1 (tb_entries blk);
                scan_blocks body go m1 scan ds (body blk ids acc)
              }
          })"

text \<open>\<open>kv_tool_map_write\<close>: the server, the file, the number of bytes written (0 unless the whole map
  was), and whether all went well.\<close>

definition kv_tool_map_write ::
  "nat \<Rightarrow> 'a server_scheme \<Rightarrow> bytes \<Rightarrow> cstr option \<Rightarrow> ('a server_scheme \<times> bytes \<times> u64 \<times> bool) option" where
  "kv_tool_map_write cap s fp txt =
     (if disable_exact_dsml_tool_replay s \<or> or_empty txt = [] then Some (s, fp, 0, True)
      else
        do {
          let blocks = dsml_blocks (or_empty txt);
          let m0 = (tool_mem s)\<lparr>scan_clock := scan_clock (tool_mem s) + 1\<rparr>;
          (m1, count, bytes) \<leftarrow>
            scan_blocks (\<lambda>blk ids. count_ids_loop (tb_len blk) ids) (\<lambda>_. True) m0 (scan_clock m0) blocks (0, 8);
          if count = 0 then Some (s\<lparr>tool_mem := m1\<rparr>, fp, 0, True)
          else
            do {
              let acc = fwrite cap fp ([0x4B, 0x54, 0x4D, 1] @ le_put32 count);
              let m2 = m1\<lparr>scan_clock := scan_clock m1 + 1\<rparr>;
              (m3, fp', ok) \<leftarrow>
                scan_blocks (write_ids_loop cap) snd m2 (scan_clock m2) blocks acc;
              Some (s\<lparr>tool_mem := m3\<rparr>, fp', if ok then bytes else 0, ok)
            }
        })"

definition DS4_TOOL_MEMORY_MAX_BYTES :: nat where
  "DS4_TOOL_MEMORY_MAX_BYTES = 512 * 1024 * 1024"

text \<open>The loop over the entries of a map; \<open>todo\<close> entries are left. The bytes read are used as C
  strings.\<close>

fun map_load_loop ::
  "nat \<Rightarrow> 'a server_scheme \<Rightarrow> bytes \<Rightarrow> stop_list option \<Rightarrow> int \<Rightarrow> ('a server_scheme \<times> int) option" where
  "map_load_loop 0 s fp wanted loaded = Some (s, loaded)"
| "map_load_loop (Suc todo) s fp wanted loaded =
     (if length fp < 8 then Some (s, loaded)
      else
        let id_len = unat (le_get32 fp); dsml_len = unat (le_get32 (drop 4 fp)); fp1 = drop 8 fp in
        if id_len = 0 \<or> id_len > 256 \<or> dsml_len = 0 \<or> dsml_len > DS4_TOOL_MEMORY_MAX_BYTES
        then Some (s, loaded)
        else
          let ok = (id_len + dsml_len \<le> length fp1);
              ident = c_str (chars_of (take id_len fp1));
              dsml = c_str (chars_of (take dsml_len (drop id_len fp1)));
              fp2 = drop (id_len + dsml_len) fp1
          in if \<not> ok then Some (s, loaded)
             else if wanted = None \<or> id_list_contains wanted (Some ident)
             then (case tool_memory_put_source s (Some ident) (Some dsml) TOOL_MEMORY_DISK of
                     None \<Rightarrow> None
                   | Some s1 \<Rightarrow> map_load_loop todo s1 fp2 wanted (loaded + 1))
             else map_load_loop todo s fp2 wanted loaded)"

definition kv_tool_map_load_from_pos ::
  "'a server_scheme \<Rightarrow> bytes \<Rightarrow> stop_list option \<Rightarrow> ('a server_scheme \<times> int) option" where
  "kv_tool_map_load_from_pos s fp wanted =
     (if disable_exact_dsml_tool_replay s then Some (s, 0)
      else if length fp < 8 then Some (s, 0)
      else if fp ! 0 \<noteq> 0x4B \<or> fp ! 1 \<noteq> 0x54 \<or> fp ! 2 \<noteq> 0x4D \<or> fp ! 3 \<noteq> 1 then Some (s, 0)
      else
        let count = le_get32 (drop 4 fp) in
        if int (unat count) > tool_memory_max_entries (tool_mem s) * 4 then Some (s, 0)
        else map_load_loop (unat count) s (drop 8 fp) wanted 0)"

end
