(* ===== verification/ToolReplayFacts.thy ===== *)
theory ToolReplayFacts
  imports ToolReplay
begin

text \<open>
  What the users of the tool-call memory get from it: no sequence of operations touches freed
  memory, what was stored is found, the limits hold, a replayed block is exactly the block of all
  the ids of a message, and new ids are new. The facts rest on the contract \<open>lru_memory\<close>.
\<close>

section \<open>Attaching\<close>

lemma blocks_inj:
  assumes "mem_rel m l" "bheap m b = Some k" "bheap m b' = Some k'" "tb_dsml k = tb_dsml k'"
  shows "b = b'"
proof -
  from assms(1,2) obtain as cs where inv: "tm_inv m as cs" by (auto simp: mem_rel_def tm_fresh_def)
  then obtain u where "\<And>d b. u d = Some b \<longleftrightarrow> (\<exists>blk. bheap m b = Some blk \<and> tb_dsml blk = d)"
    using tm_invD(6) unfolding index_ok_def by blast
  then have "u (tb_dsml k) = Some b" "u (tb_dsml k) = Some b'" using assms by auto
  then show ?thesis by simp
qed

text \<open>The state of the scan after the calls \<open>P\<close>, where \<open>f\<close> looks ids up.\<close>

definition scan_inv ::
  "(addr \<rightharpoonup> tool_memory_block) \<Rightarrow> (tool_call \<Rightarrow> (cstr \<times> tool_memory_source) option) \<Rightarrow>
   tool_call list \<Rightarrow> attach_state \<Rightarrow> bool" where
  "scan_inv h f P a \<longleftrightarrow>
     (case matched a of
        None \<Rightarrow> (\<forall>tc \<in> set P. f tc = None) \<and> (exact a \<longleftrightarrow> P = [])
      | Some b \<Rightarrow> P \<noteq> [] \<and> (\<exists>k. h b = Some k \<and> (exact a \<longleftrightarrow> (\<forall>tc \<in> set P. map_option fst (f tc) = Some (tb_dsml k))) \<and>
          (\<exists>tc \<in> set P. map_option fst (f tc) = Some (tb_dsml k)))) \<and>
     missing a = int (length (filter (\<lambda>tc. f tc = None) P))"

lemma scan_inv_step:
  assumes inv: "scan_inv h f P a"
    and inj: "\<And>b b' k k'. h b = Some k \<Longrightarrow> h b' = Some k' \<Longrightarrow> tb_dsml k = tb_dsml k' \<Longrightarrow> b = b'"
    and res: "case res of None \<Rightarrow> f tc = None
       | Some (s, b) \<Rightarrow> \<exists>k. h b = Some k \<and> f tc = Some (tb_dsml k, s)"
  shows "scan_inv h f (P @ [tc]) (attach_step a res)"
proof (cases res)
  case None
  with inv res show ?thesis
    by (auto simp: scan_inv_def attach_step_def split: option.splits)
next
  case (Some sb)
  obtain s b where sb: "sb = (s, b)" by (cases sb)
  with Some res obtain k where k: "h b = Some k" "f tc = Some (tb_dsml k, s)" by auto
  show ?thesis
  proof (cases "matched a")
    case None
    with inv Some sb k show ?thesis
      by (auto simp: scan_inv_def attach_step_def Let_def)
  next
    case (Some b0)
    with inv obtain k0 where k0: "h b0 = Some k0"
      "exact a \<longleftrightarrow> (\<forall>tc \<in> set P. map_option fst (f tc) = Some (tb_dsml k0))"
      "\<exists>tc \<in> set P. map_option fst (f tc) = Some (tb_dsml k0)" "P \<noteq> []"
      by (auto simp: scan_inv_def)
    have eq: "b0 = b \<longleftrightarrow> tb_dsml k = tb_dsml k0" using inj [OF k0(1) k(1)] k(1) k0(1) by auto
    let ?a = "attach_step a res"
    have a: "matched ?a = Some b0" "exact ?a \<longleftrightarrow> exact a \<and> b0 = b" "missing ?a = missing a"
      using Some \<open>res = Some sb\<close> sb by (auto simp: attach_step_def Let_def)
    have "exact ?a \<longleftrightarrow> (\<forall>tc' \<in> set (P @ [tc]). map_option fst (f tc') = Some (tb_dsml k0))"
      using a(2) k0(2) k(2) eq by auto
    moreover have "\<exists>tc' \<in> set (P @ [tc]). map_option fst (f tc') = Some (tb_dsml k0)" using k0(3) by auto
    moreover have "missing ?a = int (length (filter (\<lambda>tc. f tc = None) (P @ [tc])))"
      using a(3) k(2) inv by (simp add: scan_inv_def)
    ultimately show ?thesis unfolding scan_inv_def a(1) using k0(1) by simp
  qed
qed

definition same_content :: "mem_item list \<Rightarrow> mem_item list \<Rightarrow> bool" where
  "same_content l l' \<longleftrightarrow> (\<forall>i. mem_lookup l' i = mem_lookup l i)"

definition call_lookup :: "mem_item list \<Rightarrow> tool_call \<Rightarrow> (cstr \<times> tool_memory_source) option" where
  "call_lookup l tc = mem_lookup l (or_empty (tc_id tc))"

lemma attach_scan_inv:
  "mem_rel m l \<Longrightarrow> same_content l0 l \<Longrightarrow> scan_inv (bheap m) (call_lookup l0) P a \<Longrightarrow>
     \<exists>m' a' l'. attach_scan m tcs a = Some (m', a') \<and> bheap m' = bheap m \<and> mem_rel m' l' \<and>
       same_content l0 l' \<and> same_limits m m' \<and> scan_inv (bheap m) (call_lookup l0) (P @ tcs) a'"
proof (induction tcs arbitrary: m l P a)
  case (Cons tc tcs)
  from lookup_refines [OF Cons.prems(1), of "tc_id tc"] obtain m1 res where
    m1: "tool_memory_lookup_locked m (tc_id tc) = Some (m1, res)" "same_limits m m1"
    "mem_rel m1 (spec_touch l (or_empty (tc_id tc)))" "bheap m1 = bheap m"
    and res: "case res of None \<Rightarrow> mem_lookup l (or_empty (tc_id tc)) = None
       | Some (s, b) \<Rightarrow> \<exists>blk. bheap m b = Some blk \<and> mem_lookup l (or_empty (tc_id tc)) = Some (tb_dsml blk, s)"
    by blast
  have "call_lookup l0 tc = mem_lookup l (or_empty (tc_id tc))"
    using Cons.prems(2) by (simp add: call_lookup_def same_content_def)
  then have "case res of None \<Rightarrow> call_lookup l0 tc = None
       | Some (s, b) \<Rightarrow> \<exists>k. bheap m b = Some k \<and> call_lookup l0 tc = Some (tb_dsml k, s)"
    using res by (simp split: option.splits prod.splits)
  then have "scan_inv (bheap m) (call_lookup l0) (P @ [tc]) (attach_step a res)"
    by (rule scan_inv_step [OF Cons.prems(3), rotated]) (rule blocks_inj [OF Cons.prems(1)])
  moreover have "same_content l0 (spec_touch l (or_empty (tc_id tc)))"
    using Cons.prems(2) by (simp add: same_content_def lookup_touch)
  ultimately obtain m' a' l' where m': "attach_scan m1 tcs (attach_step a res) = Some (m', a')" "bheap m' = bheap m1"
    "mem_rel m' l'" "same_content l0 l'" "same_limits m1 m'"
    "scan_inv (bheap m1) (call_lookup l0) ((P @ [tc]) @ tcs) a'"
    using Cons.IH [OF m1(3)] m1(4) by metis
  then show ?case using m1 same_limits_trans [OF m1(2) m'(5)] by auto
qed auto

text \<open>What attaching does to the calls of one message: the specification.\<close>

definition replay_calls :: "mem_item list \<Rightarrow> tool_calls \<Rightarrow> tool_calls" where
  "replay_calls l cs =
     (case (raw_dsml cs, map (\<lambda>tc. map_option fst (call_lookup l tc)) (calls_v cs)) of
        (None, Some d # ds) \<Rightarrow> if \<forall>x \<in> set ds. x = Some d then cs\<lparr>raw_dsml := Some d\<rparr> else cs
      | _ \<Rightarrow> cs)"

lemma replay_exact:
  assumes "raw_dsml cs = None" "calls_v cs \<noteq> []" "\<forall>tc \<in> set (calls_v cs). map_option fst (call_lookup l tc) = Some d"
  shows "replay_calls l cs = cs\<lparr>raw_dsml := Some d\<rparr>"
  using assms by (cases "calls_v cs") (auto simp: replay_calls_def)

lemma replay_inexact:
  assumes "\<And>d. \<exists>tc \<in> set (calls_v cs). map_option fst (call_lookup l tc) \<noteq> Some d"
  shows "replay_calls l cs = cs"
proof (cases "calls_v cs")
  case (Cons tc tcs)
  show ?thesis
  proof (cases "map_option fst (call_lookup l tc)")
    case (Some d)
    from assms [of d] obtain tc' where "tc' \<in> set tcs" "map_option fst (call_lookup l tc') \<noteq> Some d"
      using Some Cons by auto
    then have "\<not> (\<forall>x \<in> set (map (\<lambda>tc. map_option fst (call_lookup l tc)) tcs). x = Some d)" by auto
    with Some Cons show ?thesis by (auto simp: replay_calls_def simp del: set_map split: option.splits)
  qed (use Cons in \<open>simp add: replay_calls_def split: option.splits\<close>)
qed (simp add: replay_calls_def split: option.splits)

definition replayed_total :: "tool_replay_stats \<Rightarrow> int" where
  "replayed_total st = rs_mem st + rs_disk st + rs_canonical st"

definition open_calls :: "tool_calls \<Rightarrow> int" where
  "open_calls cs = (if calls_v cs = [] \<or> raw_dsml cs \<noteq> None then 0 else 1)"

lemma attach_calls_spec:
  assumes rel: "mem_rel m l" and same: "same_content l0 l"
  shows "\<exists>m' l' st'. attach_calls m cs st = Some (m', replay_calls l0 cs, st') \<and> mem_rel m' l' \<and>
    same_content l0 l' \<and> replayed_total st' = replayed_total st + open_calls cs"
proof (cases "calls_v cs = [] \<or> raw_dsml cs \<noteq> None")
  case True
  then have "replay_calls l0 cs = cs" by (auto simp: replay_calls_def split: option.splits)
  with True rel same show ?thesis by (auto simp: attach_calls_def open_calls_def)
next
  case False
  let ?a = "\<lparr>matched = None, matched_source = TOOL_MEMORY_DISK, exact = True, missing = 0\<rparr>"
  have "scan_inv (bheap m) (call_lookup l0) [] ?a" by (simp add: scan_inv_def)
  from attach_scan_inv [OF rel same this, of "calls_v cs"] obtain m' a' l' where
    scan: "attach_scan m (calls_v cs) ?a = Some (m', a')" "bheap m' = bheap m" "mem_rel m' l'"
    "same_content l0 l'" "scan_inv (bheap m) (call_lookup l0) (calls_v cs) a'" by auto
  show ?thesis
  proof (cases "matched a'")
    case None
    then have "\<forall>tc \<in> set (calls_v cs). call_lookup l0 tc = None"
      using scan(5) by (simp add: scan_inv_def)
    then have "replay_calls l0 cs = cs"
      using False by (intro replay_inexact) (cases "calls_v cs"; auto)
    with None False scan show ?thesis
      by (auto simp: attach_calls_def open_calls_def replayed_total_def split: bool.splits)
  next
    case (Some b)
    then obtain k where k: "bheap m b = Some k"
      "exact a' \<longleftrightarrow> (\<forall>tc \<in> set (calls_v cs). map_option fst (call_lookup l0 tc) = Some (tb_dsml k))"
      "\<exists>tc \<in> set (calls_v cs). map_option fst (call_lookup l0 tc) = Some (tb_dsml k)"
      using scan(5) by (auto simp: scan_inv_def)
    show ?thesis
    proof (cases "exact a'")
      case True
      with False k replay_exact have "replay_calls l0 cs = cs\<lparr>raw_dsml := Some (tb_dsml k)\<rparr>" by blast
      with True Some False scan k(1) show ?thesis
        by (auto simp: attach_calls_def open_calls_def replayed_total_def)
    next
      case inexact: False
      then have "replay_calls l0 cs = cs"
        using k by (intro replay_inexact) (metis option.inject)
      with inexact Some False scan show ?thesis
        by (auto simp: attach_calls_def open_calls_def replayed_total_def split: bool.splits)
    qed
  qed
qed

lemma attach_loop_spec:
  "mem_rel m l \<Longrightarrow> same_content l0 l \<Longrightarrow>
     \<exists>m' l' st'. attach_loop m msgs st = Some (m', map (\<lambda>x. x\<lparr>calls := replay_calls l0 (calls x)\<rparr>) msgs, st') \<and>
       mem_rel m' l' \<and> same_content l0 l' \<and>
       replayed_total st' = replayed_total st + (\<Sum>x\<leftarrow>msgs. open_calls (calls x))"
proof (induction msgs arbitrary: m l st)
  case (Cons msg msgs)
  from attach_calls_spec [OF Cons.prems, of "calls msg" st] obtain m1 l1 st1 where
    m1: "attach_calls m (calls msg) st = Some (m1, replay_calls l0 (calls msg), st1)" "mem_rel m1 l1"
    "same_content l0 l1" "replayed_total st1 = replayed_total st + open_calls (calls msg)" by blast
  from Cons.IH [OF m1(2,3), of st1] m1 show ?case by auto
qed auto

text \<open>
  C10. \<open>tool_memory_attach_to_messages\<close> gives a message the remembered block exactly when all its
  call ids are known with one and the same block, leaves every other message alone, never
  forgets an id on the way, and counts every message with open calls once.
\<close>

theorem attach_replays_exactly:
  assumes rel: "mem_rel (tool_mem s) l" and on: "\<not> disable_exact_dsml_tool_replay s"
  shows "\<exists>s' st'. tool_memory_attach_to_messages s msgs st =
      Some (s', map (\<lambda>x. x\<lparr>calls := replay_calls l (calls x)\<rparr>) msgs, st') \<and>
    (\<exists>l'. mem_rel (tool_mem s') l' \<and> same_content l l') \<and>
    replayed_total st' = replayed_total st + (\<Sum>x\<leftarrow>msgs. open_calls (calls x))"
proof -
  have "same_content l l" by (simp add: same_content_def)
  from attach_loop_spec [OF rel this, of msgs st] obtain m' l' st' where
    "attach_loop (tool_mem s) msgs st = Some (m', map (\<lambda>x. x\<lparr>calls := replay_calls l (calls x)\<rparr>) msgs, st')"
    "mem_rel m' l'" "same_content l l'"
    "replayed_total st' = replayed_total st + (\<Sum>x\<leftarrow>msgs. open_calls (calls x))" by blast
  with on show ?thesis by (auto simp: tool_memory_attach_to_messages_def)
qed

lemma zero_limits: "tool_memory_max_entries (tool_memory_zero\<lparr>max_entries := n, max_bytes := b\<rparr>) = (if n > 0 then n else 100000)"
  "tool_memory_max_bytes (tool_memory_zero\<lparr>max_entries := n, max_bytes := b\<rparr>) = (if b > 0 then b else 512 * 1024 * 1024)"
  "tool_memory_max_entries tool_memory_zero = 100000"
  "tool_memory_max_bytes tool_memory_zero = 512 * 1024 * 1024"
  by (simp_all add: tool_memory_max_entries_def tool_memory_max_bytes_def tool_memory_zero_def)

lemma zero_empty: "mem_rel tool_memory_zero []"
  using fresh_zero by (simp add: mem_rel_def)

lemma put_first:
  assumes "i \<noteq> []" "d \<noteq> []" "length i + length d + 114 \<le> 512 * 1024 * 1024"
  shows "\<exists>m. tool_memory_put_locked tool_memory_zero (Some i) (Some d) s = Some m \<and>
    same_limits tool_memory_zero m \<and> mem_rel m [(i, d, s)]"
proof -
  have "spec_prune 100000 (512 * 1024 * 1024) [(i, d, s)] = [(i, d, s)]"
    using assms(3) by (intro spec_prune_id) (simp_all add: mem_bytes_def)
  then have "spec_put 100000 (512 * 1024 * 1024) [] i d s = [(i, d, s)]"
    using assms by (simp add: spec_put_def mem_lookup_def mem_delete_def)
  with put_refines [OF zero_empty, of "Some i" "Some d" s] show ?thesis
    unfolding zero_limits or_empty_def option.case by metis
qed

theorem attach_replays_exactly_witness:
  "\<exists>s' msgs' st'.
     tool_memory_attach_to_messages
       \<lparr>tool_mem = the (tool_memory_put_locked tool_memory_zero (Some ''call_1'') (Some ''<block>'') TOOL_MEMORY_RAM),
        disable_exact_dsml_tool_replay = False\<rparr>
       [chat_msg_zero\<lparr>calls := \<lparr>calls_v = [tool_call_zero\<lparr>tc_id := Some ''call_1''\<rparr>], raw_dsml = None\<rparr>\<rparr>]
       \<lparr>rs_mem = 0, rs_disk = 0, rs_canonical = 0, rs_missing_ids = 0\<rparr> = Some (s', msgs', st') \<and>
     map (raw_dsml \<circ> calls) msgs' = [Some ''<block>''] \<and> replayed_total st' = 1"
proof -
  let ?m = "the (tool_memory_put_locked tool_memory_zero (Some ''call_1'') (Some ''<block>'') TOOL_MEMORY_RAM)"
  let ?s = "\<lparr>tool_mem = ?m, disable_exact_dsml_tool_replay = False\<rparr>"
  let ?cs = "\<lparr>calls_v = [tool_call_zero\<lparr>tc_id := Some ''call_1''\<rparr>], raw_dsml = None\<rparr>"
  obtain m' where "tool_memory_put_locked tool_memory_zero (Some ''call_1'') (Some ''<block>'') TOOL_MEMORY_RAM = Some m'"
    "mem_rel m' [(''call_1'', ''<block>'', TOOL_MEMORY_RAM)]"
    using put_first [of "''call_1''" "''<block>''" TOOL_MEMORY_RAM] by auto
  then have rel: "mem_rel (tool_mem ?s) [(''call_1'', ''<block>'', TOOL_MEMORY_RAM)]" by simp
  have on: "\<not> disable_exact_dsml_tool_replay ?s" by simp
  from attach_replays_exactly [OF rel on, of "[chat_msg_zero\<lparr>calls := ?cs\<rparr>]"
      "\<lparr>rs_mem = 0, rs_disk = 0, rs_canonical = 0, rs_missing_ids = 0\<rparr>"]
  show ?thesis
    by (auto simp: replay_calls_def call_lookup_def mem_lookup_def or_empty_def chat_msg_zero_def
          tool_call_zero_def replayed_total_def open_calls_def)
qed

section \<open>Storing\<close>

text \<open>
  C1. No sequence of stores and lookups, with any limits, ids, texts and sources, reads or writes
  freed memory or runs forever, and the pointer structure always holds exactly the bounded
  least-recently-used list that the specification \<open>spec_op\<close> computes.
\<close>

theorem tool_memory_refines_lru:
  "\<exists>m'. mem_run (mem_step tool_memory_put_locked tool_memory_get)
         (tool_memory_zero\<lparr>max_entries := n, max_bytes := b\<rparr>) ops = Some m' \<and>
     mem_rel m' (foldl (spec_op (if n > 0 then n else 100000) (if b > 0 then b else 512 * 1024 * 1024)) [] ops)"
proof -
  let ?m = "tool_memory_zero\<lparr>max_entries := n, max_bytes := b\<rparr>"
  have "mem_rel ?m []" by (simp add: mem_rel_def tm_fresh_def tool_memory_zero_def)
  from tool_mem.run_stores [OF this, of ops] show ?thesis unfolding zero_limits .
qed

text \<open>
  Whatever the memory holds, a block that was just stored under an id is what the next lookup
  of the id finds, as long as the block alone is within the byte limit.
\<close>

theorem tool_memory_put_get:
  assumes "mem_rel m l" "i \<noteq> []" "d \<noteq> []" "length i + length d + 114 \<le> tool_memory_max_bytes m"
  shows "\<exists>m1 m2 s'. tool_memory_put_locked m (Some i) (Some d) s = Some m1 \<and>
    tool_memory_get m1 (Some i) = Some (m2, Some (d, s'))"
  using assms by (rule tool_mem.put_get)

theorem tool_memory_put_get_witness:
  "\<exists>m1 m2 s'. tool_memory_put_locked tool_memory_zero (Some ''call_7'') (Some ''<calls>'') TOOL_MEMORY_DISK = Some m1 \<and>
    tool_memory_get m1 (Some ''call_7'') = Some (m2, Some (''<calls>'', s'))"
  by (rule tool_memory_put_get [where l = "[]"])
     (simp_all add: mem_rel_def tm_fresh_def tool_memory_zero_def tool_memory_max_bytes_def)

text \<open>
  Storing a block under one id keeps what is stored under every other id, with its source, as
  long as the limits leave room for both.
\<close>

theorem tool_memory_put_keeps:
  assumes "mem_rel m l" "mem_lookup l j = Some (d', s')" "i \<noteq> []" "d \<noteq> []" "i \<noteq> j"
    and "int (length l) < tool_memory_max_entries m"
    and "mem_bytes l + length i + length d + 114 \<le> tool_memory_max_bytes m"
  shows "\<exists>m1 m2. tool_memory_put_locked m (Some i) (Some d) s = Some m1 \<and>
    tool_memory_get m1 (Some j) = Some (m2, Some (d', s'))"
  using assms by (rule tool_mem.put_keeps)

theorem tool_memory_put_keeps_witness:
  "\<exists>m0 m1 m2. tool_memory_put_locked tool_memory_zero (Some ''call_1'') (Some ''<a>'') TOOL_MEMORY_RAM = Some m0 \<and>
    tool_memory_put_locked m0 (Some ''call_2'') (Some ''<b>'') TOOL_MEMORY_RAM = Some m1 \<and>
    tool_memory_get m1 (Some ''call_1'') = Some (m2, Some (''<a>'', TOOL_MEMORY_RAM))"
proof -
  obtain m0 where
    m0: "tool_memory_put_locked tool_memory_zero (Some ''call_1'') (Some ''<a>'') TOOL_MEMORY_RAM = Some m0"
    and rel: "mem_rel m0 [(''call_1'', ''<a>'', TOOL_MEMORY_RAM)]"
    and lim: "same_limits tool_memory_zero m0"
    using put_first [of "''call_1''" "''<a>''" TOOL_MEMORY_RAM] by auto
  have "\<exists>m1 m2. tool_memory_put_locked m0 (Some ''call_2'') (Some ''<b>'') TOOL_MEMORY_RAM = Some m1 \<and>
    tool_memory_get m1 (Some ''call_1'') = Some (m2, Some (''<a>'', TOOL_MEMORY_RAM))"
    by (rule tool_memory_put_keeps [OF rel])
       (simp_all add: mem_lookup_def mem_bytes_def limits_same [OF lim] zero_limits)
  with m0 show ?thesis by blast
qed

text \<open>
  After a store the memory is within its limits: at most \<open>max_entries\<close> ids (100000 by
  default) and \<open>max_bytes\<close> bytes (512 MiB), by the counters and by what is really stored, and the
  byte counter has not drifted from the contents.
\<close>

theorem tool_memory_put_bounded:
  assumes rel: "mem_rel m l" and ne: "i \<noteq> []" "d \<noteq> []"
  shows "\<exists>m' l'. tool_memory_put_locked m (Some i) (Some d) s = Some m' \<and> mem_rel m' l' \<and>
    tm_entries m' = int (length l') \<and> tm_bytes m' = mem_bytes l' \<and>
    tm_entries m' \<le> tool_memory_max_entries m \<and> tm_bytes m' \<le> tool_memory_max_bytes m"
proof -
  from put_refines [OF rel, of "Some i" "Some d" s] obtain m' where
    m': "tool_memory_put_locked m (Some i) (Some d) s = Some m'"
    "mem_rel m' (spec_put (tool_memory_max_entries m) (tool_memory_max_bytes m) l i d s)"
    by (auto simp: or_empty_def)
  let ?l = "spec_put (tool_memory_max_entries m) (tool_memory_max_bytes m) l i d s"
  have fits: "int (length ?l) \<le> tool_memory_max_entries m \<and> mem_bytes ?l \<le> tool_memory_max_bytes m"
    using ne spec_prune_fits [OF tool_mem.limit_pos] by (simp add: spec_put_def Let_def)
  have "tm_entries m' = int (length ?l) \<and> tm_bytes m' = mem_bytes ?l"
    using m'(2) unfolding mem_rel_def
  proof (elim disjE exE conjE)
    assume "tm_fresh m'" "?l = []"
    then show ?thesis by (simp add: tm_fresh_def mem_bytes_def)
  next
    fix as cs assume "tm_inv m' as cs" "?l = absl m' as"
    then show ?thesis
      using bytes_absl [of m' as cs] tm_invD(7) [of m' as cs] by (simp add: counts_ok_def absl_def)
  qed
  with m' fits show ?thesis by metis
qed

theorem tool_memory_put_bounded_witness:
  "\<exists>m'. tool_memory_put_locked (tool_memory_zero\<lparr>max_entries := 1\<rparr>) (Some ''x'') (Some ''y'') TOOL_MEMORY_RAM = Some m' \<and>
    tm_entries m' \<le> 1"
  using tool_memory_put_bounded [of "tool_memory_zero\<lparr>max_entries := 1\<rparr>" "[]" "''x''" "''y''" TOOL_MEMORY_RAM]
  by (auto simp: mem_rel_def tm_fresh_def tool_memory_zero_def tool_memory_max_entries_def)

text \<open>
  \<open>tool_memory_free\<close> ends, and frees every entry and every block: nothing leaks.
\<close>

theorem tool_memory_free_all:
  assumes "mem_rel m l"
  shows "\<exists>m'. tool_memory_free m = Some m' \<and> eheap m' = Map.empty \<and> bheap m' = Map.empty \<and> tm_fresh m'"
  using assms unfolding mem_rel_def
proof (elim disjE exE conjE)
  assume "tm_fresh m"
  then show ?thesis
    by (simp add: tm_fresh_def tool_memory_free_def tool_memory_free_loop.simps [of m] tool_memory_zero_def)
next
  fix as cs assume "tm_inv m as cs"
  from free_loop_inv [OF this] show ?thesis
    by (auto simp: tool_memory_free_def tm_fresh_def tool_memory_zero_def)
qed

theorem tool_memory_free_all_witness:
  "\<exists>m m'. tool_memory_put_locked tool_memory_zero (Some ''x'') (Some ''y'') TOOL_MEMORY_RAM = Some m \<and>
    tool_memory_free m = Some m' \<and> eheap m' = Map.empty"
proof -
  obtain m where
    "tool_memory_put_locked tool_memory_zero (Some ''x'') (Some ''y'') TOOL_MEMORY_RAM = Some m"
    "mem_rel m [(''x'', ''y'', TOOL_MEMORY_RAM)]"
    using put_first [of "''x''" "''y''" TOOL_MEMORY_RAM] by auto
  with tool_memory_free_all [of m] show ?thesis by blast
qed

section \<open>New ids\<close>

lemma hex_digits_nth: "n < 16 \<Longrightarrow> json_hex (''0123456789abcdef'' ! n) = int n"
proof -
  have "list_all (\<lambda>n. json_hex (''0123456789abcdef'' ! n) = int n) [0..<16]" by code_simp
  then show "n < 16 \<Longrightarrow> ?thesis" by (simp add: list_all_iff)
qed

lemma byte_nibbles: "unat (drop_bit 4 b) = unat b div 16" "unat (b AND 15) = unat b mod 16" for b :: u8
proof -
  show "unat (drop_bit 4 b) = unat b div 16"
    by (simp add: drop_bit_eq_div unat_div)
  have "b AND 15 = take_bit 4 b" by (simp add: take_bit_eq_mask mask_eq_exp_minus_1)
  also have "\<dots> = b mod 16" by (simp add: take_bit_eq_mod)
  finally show "unat (b AND 15) = unat b mod 16" by (simp add: unat_mod)
qed

lemma hex_bytes_inj: "length bs = length cs \<Longrightarrow> hex_bytes bs = hex_bytes cs \<Longrightarrow> bs = cs"
proof (induction bs arbitrary: cs)
  case (Cons b bs)
  then obtain c ds where cs: "cs = c # ds" by (cases cs) auto
  have lt: "unat b < 256" "unat c < 256" using unsigned_less [of b] unsigned_less [of c] by simp_all
  have "json_hex (''0123456789abcdef'' ! (unat b div 16)) = json_hex (''0123456789abcdef'' ! (unat c div 16))"
    "json_hex (''0123456789abcdef'' ! (unat b mod 16)) = json_hex (''0123456789abcdef'' ! (unat c mod 16))"
    using Cons.prems(2) unfolding cs hex_bytes.simps byte_nibbles by simp_all
  moreover have "unat b div 16 < 16" "unat c div 16 < 16" using lt by auto
  ultimately have "unat b div 16 = unat c div 16" "unat b mod 16 = unat c mod 16"
    by (simp_all add: hex_digits_nth)
  then have "unat b = unat c" by (metis div_mult_mod_eq)
  then have "b = c" by (simp only: unsigned_word_eqI)
  with Cons cs show ?case by simp
qed simp

lemma random_id_inj:
  "length b = 16 \<Longrightarrow> length c = 16 \<Longrightarrow> random_tool_id b api = random_tool_id c api \<Longrightarrow> b = c"
  using hex_bytes_inj [of b c] by (simp add: random_tool_id_def)

lemma random_id_ne: "random_tool_id b api \<noteq> []"
  by (simp add: random_tool_id_def)

definition id_free :: "'a server_scheme \<Rightarrow> tool_calls \<Rightarrow> nat \<Rightarrow> cstr \<Rightarrow> bool" where
  "id_free s cs i ident \<longleftrightarrow>
     \<not> tool_calls_contains_id cs (Some ident) i \<and> \<not> tool_memory_has_id s (Some ident)"

lemma taken_ids:
  assumes rel: "mem_rel (tool_mem s) l"
  shows "{ident. \<not> id_free s cs i ident} \<subseteq> (the \<circ> tc_id) ` set (calls_v cs) \<union> fst ` set l"
proof
  fix ident assume "ident \<in> {ident. \<not> id_free s cs i ident}"
  then consider "tool_calls_contains_id cs (Some ident) i" | "tool_memory_has_id s (Some ident)"
    by (auto simp: id_free_def)
  then show "ident \<in> (the \<circ> tc_id) ` set (calls_v cs) \<union> fst ` set l"
  proof cases
    case 1
    then show ?thesis
      by (force simp: tool_calls_contains_id_def or_empty_def dest: in_set_takeD)
  next
    case 2
    then obtain a where a: "tool_memory_find_entry_locked (tool_mem s) ident = Some a"
      by (auto simp: tool_memory_has_id_def or_empty_def)
    with rel obtain as cs where inv: "tm_inv (tool_mem s) as cs" "l = absl (tool_mem s) as"
      by (auto simp: mem_rel_def tm_fresh_def tool_memory_find_entry_locked_def)
    with a find_entry [OF inv(1)] show ?thesis by (force simp: absl_def)
  qed
qed

text \<open>The random source: blocks of 16 bytes, and it keeps producing more than \<open>n\<close> different ones.\<close>

definition random_source :: "(nat \<Rightarrow> u8 list) \<Rightarrow> nat \<Rightarrow> bool" where
  "random_source rnd n \<longleftrightarrow> (\<forall>k. length (rnd k) = 16) \<and> (\<forall>k. \<exists>N. n < card (rnd ` {k..<k + N}))"

lemma fresh_id_returns:
  "id_free s cs i (random_tool_id (rnd (k + n)) api) \<Longrightarrow>
     \<exists>ident k'. fresh_id_loop s cs i api rnd k = Some (ident, k') \<and> id_free s cs i ident \<and> ident \<noteq> []"
proof (induction n arbitrary: k)
  case 0
  then show ?case by (subst fresh_id_loop.simps) (simp add: id_free_def random_id_ne)
next
  case (Suc n)
  show ?case
  proof (cases "id_free s cs i (random_tool_id (rnd k) api)")
    case True
    then show ?thesis by (subst fresh_id_loop.simps) (simp add: id_free_def random_id_ne)
  next
    case False
    then have "fresh_id_loop s cs i api rnd k = fresh_id_loop s cs i api rnd (k + 1)"
      by (subst fresh_id_loop.simps) (auto simp: id_free_def)
    with Suc.IH [of "k + 1"] Suc.prems show ?thesis by simp
  qed
qed

lemma random_source_fresh:
  assumes rnd: "random_source rnd n" and T: "finite T" "card T \<le> n"
  shows "\<exists>m. random_tool_id (rnd (k + m)) api \<notin> T"
proof (rule ccontr)
  assume none: "\<nexists>m. random_tool_id (rnd (k + m)) api \<notin> T"
  obtain N where N: "n < card (rnd ` {k..<k + N})"
    and len: "\<And>k. length (rnd k) = 16" using rnd by (auto simp: random_source_def)
  let ?ids = "(\<lambda>b. random_tool_id b api) ` rnd ` {k..<k + N}"
  have "?ids \<subseteq> T" using none by (force simp: le_iff_add)
  then have "card ?ids \<le> card T" using T by (intro card_mono) auto
  moreover have "card ?ids = card (rnd ` {k..<k + N})"
    by (rule card_image) (auto simp: inj_on_def len dest: random_id_inj [rotated 2])
  ultimately show False using N T by simp
qed

lemma fresh_id_exists:
  assumes rel: "mem_rel (tool_mem s) l" and rnd: "random_source rnd (length (calls_v cs) + length l)"
  shows "\<exists>n. id_free s cs i (random_tool_id (rnd (k + n)) api)"
proof -
  let ?taken = "(the \<circ> tc_id) ` set (calls_v cs) \<union> fst ` set l"
  have "card ?taken \<le> card ((the \<circ> tc_id) ` set (calls_v cs)) + card (fst ` set l)" by (rule card_Un_le)
  also have "\<dots> \<le> length (calls_v cs) + length l"
    by (intro add_mono order.trans [OF card_image_le card_length]) auto
  finally obtain m where "random_tool_id (rnd (k + m)) api \<notin> ?taken"
    using random_source_fresh [OF rnd, of ?taken] by blast
  with taken_ids [OF rel] show ?thesis by blast
qed

text \<open>The ids up to call \<open>i\<close> after the loop.\<close>

definition id_done :: "'a server_scheme \<Rightarrow> tool_calls \<Rightarrow> tool_calls \<Rightarrow> nat \<Rightarrow> bool" where
  "id_done s cs0 cs j \<longleftrightarrow> or_empty (tc_id (calls_v cs ! j)) \<noteq> [] \<and>
     (if or_empty (tc_id (calls_v cs0 ! j)) \<noteq> [] then tc_id (calls_v cs ! j) = tc_id (calls_v cs0 ! j)
      else \<not> tool_memory_has_id s (tc_id (calls_v cs ! j)) \<and>
           (\<forall>h < j. tc_id (calls_v cs ! h) \<noteq> tc_id (calls_v cs ! j)))"

definition ids_ok :: "'a server_scheme \<Rightarrow> tool_calls \<Rightarrow> tool_calls \<Rightarrow> nat \<Rightarrow> bool" where
  "ids_ok s cs0 cs i \<longleftrightarrow>
     map tc_name (calls_v cs) = map tc_name (calls_v cs0) \<and>
     map tc_arguments (calls_v cs) = map tc_arguments (calls_v cs0) \<and>
     (\<forall>j. i \<le> j \<and> j < length (calls_v cs0) \<longrightarrow> tc_id (calls_v cs ! j) = tc_id (calls_v cs0 ! j)) \<and>
     (\<forall>j < i. id_done s cs0 cs j)"

lemma ids_ok_step:
  assumes ok: "ids_ok s cs0 cs i" and i: "i < length (calls_v cs0)"
    and keep: "or_empty (tc_id (calls_v cs ! i)) \<noteq> [] \<Longrightarrow> cs' = cs"
    and new: "or_empty (tc_id (calls_v cs ! i)) = [] \<Longrightarrow> id_free s cs i ident \<and> ident \<noteq> [] \<and>
      cs' = cs\<lparr>calls_v := (calls_v cs)[i := (calls_v cs ! i)\<lparr>tc_id := Some ident\<rparr>]\<rparr>"
  shows "ids_ok s cs0 cs' (Suc i)"
proof -
  have len: "length (calls_v cs) = length (calls_v cs0)"
    using ok unfolding ids_ok_def by (metis length_map)
  have idi: "tc_id (calls_v cs ! i) = tc_id (calls_v cs0 ! i)" using ok i by (simp add: ids_ok_def)
  show ?thesis
  proof (cases "or_empty (tc_id (calls_v cs ! i)) = []")
    case False
    then have cs: "cs' = cs" by (rule keep)
    have "id_done s cs0 cs i" using False idi by (simp add: id_done_def)
    with ok show ?thesis unfolding cs ids_ok_def by (metis Suc_leD less_Suc_eq)
  next
    case True
    note n = new [OF True]
    have fresh: "tc_id (calls_v cs ! h) \<noteq> Some ident" if "h < i" for h
    proof
      assume eq: "tc_id (calls_v cs ! h) = Some ident"
      have "calls_v cs ! h \<in> set (take i (calls_v cs))"
        using that i len by (metis in_set_conv_nth length_take min.absorb4 nth_take)
      with eq n show False by (auto simp: id_free_def tool_calls_contains_id_def or_empty_def)
    qed
    have ids: "tc_id (calls_v cs' ! j) = (if j = i then Some ident else tc_id (calls_v cs ! j))"
      if "j < length (calls_v cs0)" for j
      using n that len by simp
    have same: "map tc_name (calls_v cs') = map tc_name (calls_v cs)"
      "map tc_arguments (calls_v cs') = map tc_arguments (calls_v cs)"
      using n i len by (auto intro!: nth_equalityI simp: nth_list_update)
    have "id_done s cs0 cs' i"
      using ids i n fresh idi True by (auto simp: id_done_def id_free_def or_empty_def)
    moreover have "id_done s cs0 cs' j" if "j < i" for j
    proof -
      have "id_done s cs0 cs j" using that ok by (simp add: ids_ok_def)
      moreover have "tc_id (calls_v cs' ! h) = tc_id (calls_v cs ! h)" if "h \<le> j" for h
        using ids [of h] that \<open>j < i\<close> i by simp
      ultimately show ?thesis by (simp add: id_done_def)
    qed
    ultimately have "\<forall>j < Suc i. id_done s cs0 cs' j" by (simp add: less_Suc_eq)
    then show ?thesis using same ok ids by (simp add: ids_ok_def)
  qed
qed

lemma assign_ids_loop_ok:
  assumes rel: "mem_rel (tool_mem s) l" and rnd: "random_source rnd (length (calls_v cs0) + length l)"
  shows "ids_ok s cs0 cs i \<Longrightarrow> todo + i = length (calls_v cs0) \<Longrightarrow>
    \<exists>cs' k'. assign_ids_loop s api rnd todo i cs k = Some (cs', k') \<and> ids_ok s cs0 cs' (length (calls_v cs0))"
proof (induction todo arbitrary: i cs k)
  case (Suc todo)
  have i: "i < length (calls_v cs0)" using Suc.prems by simp
  show ?case
  proof (cases "or_empty (tc_id (calls_v cs ! i)) \<noteq> []")
    case True
    have "ids_ok s cs0 cs (Suc i)" by (rule ids_ok_step [OF Suc.prems(1) i]) (use True in auto)
    with Suc.IH [of cs "Suc i"] Suc.prems True show ?thesis by simp
  next
    case False
    have len: "length (calls_v cs) = length (calls_v cs0)"
      using Suc.prems(1) unfolding ids_ok_def by (metis length_map)
    obtain n where "id_free s cs i (random_tool_id (rnd (k + n)) api)"
      using fresh_id_exists [OF rel rnd [folded len]] by blast
    from fresh_id_returns [of s cs i rnd k n api, OF this] obtain ident k1 where
      f: "fresh_id_loop s cs i api rnd k = Some (ident, k1)" "id_free s cs i ident" "ident \<noteq> []" by blast
    let ?cs = "cs\<lparr>calls_v := (calls_v cs)[i := (calls_v cs ! i)\<lparr>tc_id := Some ident\<rparr>]\<rparr>"
    have "ids_ok s cs0 ?cs (Suc i)"
      by (rule ids_ok_step [OF Suc.prems(1) i, where ident = ident]) (use False f in auto)
    with Suc.IH [of ?cs "Suc i" k1] Suc.prems False f(1) show ?thesis by simp
  qed
qed auto

text \<open>
  C30. \<open>assign_tool_call_ids\<close> ends when the random source keeps producing more different blocks
  than there are ids in use, gives every call a non-empty id, keeps the ids that were there, and
  every id it makes up differs from the ids of all earlier calls of the message and from every id
  in the memory; names and arguments stay.
\<close>

theorem assign_ids_fresh:
  assumes "mem_rel (tool_mem s) l" "random_source rnd (length (calls_v cs) + length l)"
  shows "\<exists>cs' k. assign_tool_call_ids s cs api rnd = Some (cs', k) \<and> ids_ok s cs cs' (length (calls_v cs))"
  unfolding assign_tool_call_ids_def
  by (rule assign_ids_loop_ok [OF assms]) (auto simp: ids_ok_def)

theorem assign_ids_fresh_witness:
  "\<exists>cs' k. assign_tool_call_ids \<lparr>tool_mem = tool_memory_zero, disable_exact_dsml_tool_replay = False\<rparr>
      \<lparr>calls_v = [tool_call_zero], raw_dsml = None\<rparr> API_OPENAI (\<lambda>n. replicate 16 (word_of_nat n)) = Some (cs', k) \<and>
    or_empty (tc_id (calls_v cs' ! 0)) \<noteq> []"
proof -
  let ?rnd = "\<lambda>n. replicate 16 (word_of_nat n :: u8)"
  let ?s = "\<lparr>tool_mem = tool_memory_zero, disable_exact_dsml_tool_replay = False\<rparr>"
  let ?cs = "\<lparr>calls_v = [tool_call_zero], raw_dsml = None\<rparr>"
  have "1 < card (?rnd ` {k..<k + 2})" for k
  proof -
    have "{k..<k + 2} = {k, Suc k}" by auto
    moreover have "?rnd k \<noteq> ?rnd (Suc k)"
    proof -
      have "(word_of_nat k :: u8) \<noteq> word_of_nat k + 1" by simp
      then show ?thesis by (simp add: add.commute)
    qed
    ultimately show ?thesis by simp
  qed
  then have rnd: "random_source ?rnd (length (calls_v ?cs) + length ([] :: mem_item list))"
    unfolding random_source_def by (intro conjI allI exI [of _ 2]) simp_all
  have rel: "mem_rel (tool_mem ?s) []" using zero_empty by simp
  from assign_ids_fresh [OF rel rnd, of API_OPENAI] show ?thesis
    by (auto simp: ids_ok_def id_done_def)
qed

end
