(* ===== verification/KvFileFacts.thy ===== *)
theory KvFileFacts
  imports KvFile ToolReplayFacts
begin

text \<open>
  Round trips of the cache files: little-endian numbers, the fixed header, and the tool map, which
  restores in another server exactly the remembered calls whose blocks occur in the stored text.
\<close>

section \<open>Numbers\<close>

lemma byte_step32:
  "push_bit 8 (drop_bit (n + 8) v) OR ucast (ucast (drop_bit n v) :: u8) = drop_bit n (v :: u32)"
  by (rule bit_eqI) (auto simp: bit_simps not_less add.commute)

lemma byte_step64:
  "push_bit 8 (drop_bit (n + 8) v) OR ucast (ucast (drop_bit n v) :: u8) = drop_bit n (v :: u64)"
  by (rule bit_eqI) (auto simp: bit_simps not_less add.commute)

lemma le_get32_put32: "le_get32 (le_put32 v @ r) = v"
proof -
  have "ucast (ucast (drop_bit 24 v) :: u8) = drop_bit 24 v"
    by (rule bit_eqI) (auto simp: bit_simps dest: bit_imp_le_length)
  then have h: "push_bit 8 (ucast (ucast (drop_bit 24 v) :: u8)) OR ucast (ucast (drop_bit 16 v) :: u8) = drop_bit 16 v"
    using byte_step32 [of 16 v] by simp
  have h2: "push_bit 8 (drop_bit 16 v) OR ucast (ucast (drop_bit 8 v) :: u8) = drop_bit 8 v"
    using byte_step32 [of 8 v] by simp
  have h3: "push_bit 8 (drop_bit 8 v) OR ucast (ucast v :: u8) = v"
    using byte_step32 [of 0 v] by simp
  have "v = push_bit 8 (push_bit 8 (push_bit 8 (ucast (ucast (drop_bit 24 v) :: u8)) OR
      ucast (ucast (drop_bit 16 v) :: u8)) OR ucast (ucast (drop_bit 8 v) :: u8)) OR ucast (ucast v :: u8)"
    by (simp only: h h2 h3)
  then show ?thesis
    by (simp add: le_get32_def le_put32_def push_bit_or or.assoc or.commute or.left_commute)
qed

lemma le_get64_put64: "le_get64 (le_put64 v @ r) = v"
proof -
  have i: "rev [0..<8] = [7, 6, 5, 4, 3, 2, 1, 0 :: nat]" by (simp add: upt_rec)
  have j: "[0..<8] = [0, 1, 2, 3, 4, 5, 6, 7 :: nat]" by (simp add: upt_rec)
  have "drop_bit 64 v = 0" by (rule bit_eqI) (auto simp: bit_simps)
  then have top: "ucast (ucast (drop_bit 56 v) :: u8) = drop_bit 56 v"
    using byte_step64 [of 56 v] by simp
  show ?thesis
    unfolding le_get64_def le_put64_def i j
    using byte_step64 [of 48 v] byte_step64 [of 40 v] byte_step64 [of 32 v] byte_step64 [of 24 v]
      byte_step64 [of 16 v] byte_step64 [of 8 v] byte_step64 [of 0 v] top
    by simp
qed

lemma le_put_length [simp]: "length (le_put32 v) = 4" "length (le_put64 w) = 8"
  by (simp_all add: le_put32_def le_put64_def)

section \<open>The header\<close>

lemma fill_header_bytes:
  "kv_fill_header q re ex t h c cr lu pl =
     [0x4B, 0x56, 0x43, 1, q, re, ex, 0] @ le_put32 t @ le_put32 h @ le_put32 c @ [0, 0, 0, 0] @
     le_put64 cr @ le_put64 lu @ le_put64 pl"
  by (simp add: kv_fill_header_def put_at_def KV_CACHE_FIXED_HEADER_def numeral_eq_Suc)

lemma fill_header_length: "length (kv_fill_header q re ex t h c cr lu pl) = 48"
  by (simp add: fill_header_bytes)

lemma drop_bytes:
  "length a = n \<Longrightarrow> drop (n + k) (a @ b) = drop k b"
  by simp

lemma read_fill_any:
  assumes "4 \<le> length body"
  shows "kv_read_header (kv_fill_header q re ex t h c cr lu pl @ body) =
     (if t \<noteq> 0 \<and> (q = 2 \<or> q = 4)
      then Some (kv_entry_zero\<lparr>ke_quant_bits := q,
                   ke_reason := (if re \<le> KV_REASON_SHUTDOWN then re else KV_REASON_UNKNOWN),
                   ke_ext_flags := ex, ke_tokens := t, ke_hits := h, ke_ctx_size := c,
                   ke_created_at := cr, ke_last_used := lu, ke_payload_bytes := pl,
                   ke_text_bytes := ucast (le_get32 (take 4 body))\<rparr>, le_get32 (take 4 body), drop 4 body)
      else None)"
proof -
  let ?h = "kv_fill_header q re ex t h c cr lu pl"
  note len = fill_header_length [of q re ex t h c cr lu pl]
  have nth: "?h ! 0 = 0x4B" "?h ! 1 = 0x56" "?h ! 2 = 0x43" "?h ! 3 = 1" "?h ! 4 = q" "?h ! 5 = re" "?h ! 6 = ex"
    by (simp_all add: fill_header_bytes numeral_eq_Suc)
  have d8: "drop 8 ?h = le_put32 t @ le_put32 h @ le_put32 c @ [0, 0, 0, 0] @ le_put64 cr @ le_put64 lu @ le_put64 pl"
    by (simp add: fill_header_bytes)
  have "drop 12 ?h = drop 4 (drop 8 ?h)" "drop 16 ?h = drop 8 (drop 8 ?h)" "drop 24 ?h = drop 16 (drop 8 ?h)"
    "drop 32 ?h = drop 24 (drop 8 ?h)" "drop 40 ?h = drop 32 (drop 8 ?h)"
    by simp_all
  then have d: "drop 12 ?h = le_put32 h @ le_put32 c @ [0, 0, 0, 0] @ le_put64 cr @ le_put64 lu @ le_put64 pl"
    "drop 16 ?h = le_put32 c @ [0, 0, 0, 0] @ le_put64 cr @ le_put64 lu @ le_put64 pl"
    "drop 24 ?h = le_put64 cr @ le_put64 lu @ le_put64 pl"
    "drop 32 ?h = le_put64 lu @ le_put64 pl" "drop 40 ?h = le_put64 pl @ []"
    unfolding d8 by simp_all
  have fp: "take 48 (?h @ body) = ?h" "drop 48 (?h @ body) = body" "\<not> length (?h @ body) < 48" "\<not> length body < 4"
    using len assms by simp_all
  have "kv_read_header (?h @ body) =
      (let e = kv_entry_zero\<lparr>ke_quant_bits := q,
                   ke_reason := (if re \<le> KV_REASON_SHUTDOWN then re else KV_REASON_UNKNOWN),
                   ke_ext_flags := ex, ke_tokens := t, ke_hits := h, ke_ctx_size := c,
                   ke_created_at := cr, ke_last_used := lu, ke_payload_bytes := pl,
                   ke_text_bytes := ucast (le_get32 (take 4 body))\<rparr>
       in if ke_tokens e \<noteq> 0 \<and> (ke_quant_bits e = 2 \<or> ke_quant_bits e = 4)
          then Some (e, le_get32 (take 4 body), drop 4 body) else None)"
    unfolding kv_read_header_def KV_CACHE_FIXED_HEADER_def fp Let_def nth d8 d
    using le_get64_put64 [of pl "[]"] len assms by (simp add: le_get32_put32 le_get64_put64 fp)
  then show ?thesis by (simp add: Let_def)
qed

lemma read_fill_header:
  "kv_read_header (kv_fill_header q re ex t h c cr lu pl @ le_put32 tb @ rest) =
     (if t \<noteq> 0 \<and> (q = 2 \<or> q = 4)
      then Some (kv_entry_zero\<lparr>ke_quant_bits := q,
                   ke_reason := (if re \<le> KV_REASON_SHUTDOWN then re else KV_REASON_UNKNOWN),
                   ke_ext_flags := ex, ke_tokens := t, ke_hits := h, ke_ctx_size := c,
                   ke_created_at := cr, ke_last_used := lu, ke_payload_bytes := pl,
                   ke_text_bytes := ucast tb\<rparr>, tb, rest)
      else None)"
  using read_fill_any [of "le_put32 tb @ rest" q re ex t h c cr lu pl] le_get32_put32 [of tb "[]"] by simp

section \<open>Scanning the memory for the blocks of a text\<close>

text \<open>Marking a block as seen is invisible to everything but the scan.\<close>

definition unseen :: "tool_memory \<Rightarrow> addr \<Rightarrow> tool_memory_block option" where
  "unseen m b = map_option (\<lambda>y. y\<lparr>tb_seen := 0\<rparr>) (bheap m b)"

definition seen_only :: "tool_memory \<Rightarrow> tool_memory \<Rightarrow> bool" where
  "seen_only m m' \<longleftrightarrow> m' = m\<lparr>bheap := bheap m', scan_clock := scan_clock m'\<rparr> \<and> unseen m' = unseen m"

lemma seen_only_refl [simp]: "seen_only m m"
  by (simp add: seen_only_def)

lemma seen_only_clock: "seen_only m (m\<lparr>scan_clock := sc\<rparr>)"
  by (simp add: seen_only_def unseen_def fun_eq_iff)

lemma seen_only_trans: "seen_only m m1 \<Longrightarrow> seen_only m1 m2 \<Longrightarrow> seen_only m m2"
  by (cases m; cases m1; cases m2) (simp add: seen_only_def)

lemma seen_only_stamp:
  "bheap m b = Some blk \<Longrightarrow> seen_only m (m\<lparr>bheap := (bheap m)(b \<mapsto> blk\<lparr>tb_seen := sc\<rparr>)\<rparr>)"
  by (simp add: seen_only_def unseen_def fun_eq_iff)

lemma seen_only_block:
  assumes "seen_only m m'" "bheap m b = Some blk"
  shows "\<exists>sc. bheap m' b = Some (blk\<lparr>tb_seen := sc\<rparr>)"
proof -
  have "unseen m' b = unseen m b" using assms(1) by (simp add: seen_only_def)
  with assms(2) obtain y where y: "bheap m' b = Some y" "y\<lparr>tb_seen := 0\<rparr> = blk\<lparr>tb_seen := 0\<rparr>"
    by (cases "bheap m' b") (auto simp: unseen_def)
  have "y = (y\<lparr>tb_seen := 0\<rparr>)\<lparr>tb_seen := tb_seen y\<rparr>" by simp
  also have "\<dots> = blk\<lparr>tb_seen := tb_seen y\<rparr>" unfolding y(2) by simp
  finally show ?thesis using y(1) by auto
qed

lemma seen_only_eq: "seen_only m m' \<Longrightarrow> f m' = f (m\<lparr>bheap := bheap m', scan_clock := scan_clock m'\<rparr>)"
  by (simp add: seen_only_def)

lemma seen_only_fields:
  assumes "seen_only m m'"
  shows "eheap m' = eheap m" "by_id m' = by_id m" "by_block m' = by_block m" "tm_head m' = tm_head m"
    "tm_tail m' = tm_tail m" "tm_entries m' = tm_entries m" "tm_bytes m' = tm_bytes m"
    "max_entries m' = max_entries m" "max_bytes m' = max_bytes m" "brk m' = brk m"
  using seen_only_eq [OF assms, of eheap] seen_only_eq [OF assms, of by_id] seen_only_eq [OF assms, of by_block]
    seen_only_eq [OF assms, of tm_head] seen_only_eq [OF assms, of tm_tail] seen_only_eq [OF assms, of tm_entries]
    seen_only_eq [OF assms, of tm_bytes] seen_only_eq [OF assms, of max_entries]
    seen_only_eq [OF assms, of max_bytes] seen_only_eq [OF assms, of brk]
  by simp_all

lemma seen_only_dom:
  assumes "seen_only m m'"
  shows "dom (bheap m') = dom (bheap m)"
proof -
  have "dom (unseen m') = dom (unseen m)" using assms by (simp add: seen_only_def)
  then show ?thesis by (simp add: unseen_def dom_def)
qed

text \<open>What the memory stores does not change.\<close>

lemma seen_only_inv:
  assumes so: "seen_only m m'" and inv: "tm_inv m as cs"
  shows "tm_inv m' as cs \<and> absl m' as = absl m as"
proof -
  note c = tm_invD [OF inv] and f = seen_only_fields [OF so]
  have blk: "\<exists>k0 sc. bheap m b = Some k0 \<and> k = k0\<lparr>tb_seen := sc\<rparr>" if "bheap m' b = Some k" for b k
  proof -
    have "b \<in> dom (bheap m)" using that seen_only_dom [OF so] by blast
    then obtain k0 where k0: "bheap m b = Some k0" by blast
    from seen_only_block [OF so k0] obtain sc where "bheap m' b = Some (k0\<lparr>tb_seen := sc\<rparr>)" by blast
    with that k0 show ?thesis by (intro exI [of _ k0] exI [of _ sc]) simp
  qed
  have dsml: "tb_dsml (the (bheap m' b)) = tb_dsml (the (bheap m b))" if "b \<in> dom (bheap m)" for b
  proof -
    from that obtain k0 where k0: "bheap m b = Some k0" by blast
    from seen_only_block [OF so k0] obtain sc where "bheap m' b = Some (k0\<lparr>tb_seen := sc\<rparr>)" by blast
    with k0 show ?thesis by simp
  qed
  have "dll m' as" using c(3) f by (simp add: dll_def)
  moreover have eok: "entries_ok m'"
    unfolding entries_ok_def
  proof (intro allI impI)
    fix a i bo n s assume "pay (eheap m') a = Some (i, bo, n, s)"
    then have "pay (eheap m) a = Some (i, bo, n, s)" using f by simp
    with c(4) obtain b k where e: "i \<noteq> []" "n = length i + 65" "a < brk m" "bo = Some b" "bheap m b = Some k"
      unfolding entries_ok_def by blast
    from seen_only_block [OF so e(5)] obtain k' where "bheap m' b = Some k'" by blast
    with e f show "i \<noteq> [] \<and> n = length i + 65 \<and> a < brk m' \<and> (\<exists>b blk. bo = Some b \<and> bheap m' b = Some blk)"
      by simp
  qed
  moreover have "blocks_ok m' cs"
    unfolding blocks_ok_def
  proof (intro conjI allI impI)
    fix b
    show "set (cs b) = owned (eheap m') b" "distinct (cs b)" using c(5) f by (simp_all add: blocks_ok_def)
    fix k assume "bheap m' b = Some k"
    then obtain k0 sc where k: "bheap m b = Some k0" "k = k0\<lparr>tb_seen := sc\<rparr>" using blk by blast
    with c(5) f show "block_const k" "b < brk m'" "cs b \<noteq> []" "chain (chn (eheap m')) (tb_entries k) (cs b)"
      "tb_refs k = int (length (cs b))"
      by (auto simp: blocks_ok_def block_const_def)
  qed
  moreover have "index_ok m'"
  proof -
    have "(\<exists>k. bheap m' b = Some k \<and> tb_dsml k = d) \<longleftrightarrow> (\<exists>k. bheap m b = Some k \<and> tb_dsml k = d)" for b d
    proof
      assume "\<exists>k. bheap m' b = Some k \<and> tb_dsml k = d"
      then obtain k where k: "bheap m' b = Some k" "tb_dsml k = d" by blast
      from blk [OF k(1)] obtain k0 sc where "bheap m b = Some k0" "k = k0\<lparr>tb_seen := sc\<rparr>" by blast
      with k show "\<exists>k. bheap m b = Some k \<and> tb_dsml k = d" by simp
    next
      assume "\<exists>k. bheap m b = Some k \<and> tb_dsml k = d"
      then obtain k0 where k: "bheap m b = Some k0" "tb_dsml k0 = d" by blast
      from seen_only_block [OF so k(1)] obtain sc where "bheap m' b = Some (k0\<lparr>tb_seen := sc\<rparr>)" by blast
      with k show "\<exists>k. bheap m' b = Some k \<and> tb_dsml k = d" by simp
    qed
    with c(6) f show ?thesis by (simp add: index_ok_def)
  qed
  moreover have "counts_ok m' as"
    using c(7) f dsml seen_only_dom [OF so] by (simp add: counts_ok_def)
  ultimately have "tm_inv m' as cs" using c(1,2) f by (simp add: tm_inv_def)
  moreover have "absl m' as = absl m as"
    unfolding absl_def
  proof (rule map_cong [OF refl])
    fix a assume "a \<in> set as"
    then obtain i bo n s where p: "pay (eheap m) a = Some (i, bo, n, s)"
      using c(2) by (metis domD prod_cases4)
    then obtain b k where "bo = Some b" "bheap m b = Some k" using c(4) by (fastforce simp: entries_ok_def)
    with p f dsml [of b] show "item_of m' a = item_of m a" by (auto simp: item_of_def)
  qed
  ultimately show ?thesis by simp
qed

lemma seen_only_rel:
  assumes so: "seen_only m m'" and rel: "mem_rel m l"
  shows "mem_rel m' l"
proof -
  have "tm_fresh m'" if "tm_fresh m"
  proof -
    have "bheap m' = Map.empty" using seen_only_dom [OF so] that by (simp add: tm_fresh_def)
    then show ?thesis using that seen_only_fields [OF so] by (simp add: tm_fresh_def)
  qed
  with rel seen_only_inv [OF so] show ?thesis unfolding mem_rel_def by metis
qed

text \<open>The ids along a chain.\<close>

definition id_at :: "tool_memory \<Rightarrow> addr \<Rightarrow> cstr" where
  "id_at m a = te_id (the (eheap m a))"

lemma chain_ids_chain:
  "chain (chn (eheap m)) p xs \<Longrightarrow> chain_ids m p = Some (map (id_at m) xs)"
proof (induction xs arbitrary: p)
  case Nil
  then show ?case by (simp add: chain_ids.simps)
next
  case (Cons a xs)
  then obtain x where x: "eheap m a = Some x" "p = Some a" by (auto simp: chn_def)
  have "chn (eheap m) a = Some (te_block_next x)" using x by (simp add: chn_def)
  then have "chain (chn (eheap m)) (te_block_next x) xs" using Cons.prems by simp
  from Cons.IH [OF this] x show ?case by (simp add: chain_ids.simps [of m "Some a"] id_at_def)
qed

fun visit :: "(cstr \<Rightarrow> addr option) \<Rightarrow> cstr list \<Rightarrow> addr set \<Rightarrow> addr list" where
  "visit f [] S = []"
| "visit f (d # ds) S =
     (case f d of None \<Rightarrow> visit f ds S
      | Some b \<Rightarrow> if b \<in> S then visit f ds S else b # visit f ds (insert b S))"

lemma set_visit: "set (visit f ds S) = {b. \<exists>d \<in> set ds. f d = Some b} - S"
  by (induction f ds S rule: visit.induct) (auto split: option.splits)

lemma distinct_visit: "distinct (visit f ds S)"
  by (induction f ds S rule: visit.induct) (auto simp: set_visit split: option.splits)

definition seen_set :: "tool_memory \<Rightarrow> u64 \<Rightarrow> addr set" where
  "seen_set m scan = {b. \<exists>k. bheap m b = Some k \<and> tb_seen k = scan}"

definition stamps_from :: "tool_memory \<Rightarrow> u64 \<Rightarrow> tool_memory \<Rightarrow> bool" where
  "stamps_from m scan m' \<longleftrightarrow> (\<forall>b k. bheap m' b = Some k \<longrightarrow> tb_seen k = scan \<or>
     (\<exists>k0. bheap m b = Some k0 \<and> tb_seen k = tb_seen k0))"

lemma find_block_heap:
  assumes "tm_inv m as cs" "tool_memory_find_block_locked m d = Some b"
  shows "\<exists>k. bheap m b = Some k \<and> tb_dsml k = d"
  using assms by (auto simp: tm_inv_def index_ok_def tool_memory_find_block_locked_def split: if_splits)

lemma scan_blocks_spec:
  fixes body :: "tool_memory_block \<Rightarrow> cstr list \<Rightarrow> 'a \<Rightarrow> 'a"
  assumes inv: "tm_inv m0 as cs" and body: "\<And>blk x. body (blk\<lparr>tb_seen := x\<rparr>) = body blk"
    and F: "F = (\<lambda>a b. body (the (bheap m0 b)) (map (id_at m0) (cs b)) a)"
  shows "seen_only m0 m \<Longrightarrow> \<forall>n. go (foldl F acc (take n (visit (tool_memory_find_block_locked m0) ds (seen_set m scan)))) \<Longrightarrow>
    \<exists>m'. scan_blocks body go m scan ds acc =
        Some (m', foldl F acc (visit (tool_memory_find_block_locked m0) ds (seen_set m scan))) \<and>
      seen_only m0 m' \<and> scan_clock m' = scan_clock m \<and> stamps_from m scan m'"
proof (induction ds arbitrary: m acc)
  case Nil
  then show ?case by (auto simp: stamps_from_def)
next
  case (Cons d ds)
  let ?f = "tool_memory_find_block_locked m0"
  have f: "tool_memory_find_block_locked m d = ?f d"
    using seen_only_fields [OF Cons.prems(1)] by (simp add: tool_memory_find_block_locked_def)
  have go: "go acc" using Cons.prems(2) by (metis foldl_Nil take0)
  show ?case
  proof (cases "?f d")
    case None
    with Cons.prems Cons.IH [OF Cons.prems(1), of acc] f go show ?thesis by simp
  next
    case (Some b)
    obtain k0 where k0: "bheap m0 b = Some k0" using find_block_heap [OF inv Some] by blast
    obtain sc where k: "bheap m b = Some (k0\<lparr>tb_seen := sc\<rparr>)"
      using seen_only_block [OF Cons.prems(1) k0] by blast
    show ?thesis
    proof (cases "sc = scan")
      case True
      then have "b \<in> seen_set m scan" using k by (simp add: seen_set_def)
      with Cons.prems Cons.IH [OF Cons.prems(1), of acc] f go Some k True show ?thesis by simp
    next
      case False
      then have b: "b \<notin> seen_set m scan" using k by (simp add: seen_set_def)
      let ?m1 = "m\<lparr>bheap := (bheap m)(b \<mapsto> k0\<lparr>tb_seen := scan\<rparr>)\<rparr>"
      have so: "seen_only m0 ?m1"
        using seen_only_trans [OF Cons.prems(1) seen_only_stamp [OF k, of scan]] by simp
      have ids: "chain_ids ?m1 (tb_entries k0) = Some (map (id_at m0) (cs b))"
      proof -
        have "chain (chn (eheap ?m1)) (tb_entries k0) (cs b)"
          using inv k0 seen_only_fields(1) [OF so] by (simp add: tm_inv_def blocks_ok_def)
        from chain_ids_chain [OF this] show ?thesis
          using seen_only_fields(1) [OF so] by (simp add: id_at_def)
      qed
      have S1: "seen_set ?m1 scan = insert b (seen_set m scan)" by (auto simp: seen_set_def)
      have acc1: "body (k0\<lparr>tb_seen := sc\<rparr>) (map (id_at m0) (cs b)) acc = F acc b" using F body k0 by simp
      have V: "visit ?f (d # ds) (seen_set m scan) = b # visit ?f ds (seen_set ?m1 scan)"
        using Some b S1 by simp
      have "\<forall>n. go (foldl F (F acc b) (take n (visit ?f ds (seen_set ?m1 scan))))"
      proof
        fix n
        show "go (foldl F (F acc b) (take n (visit ?f ds (seen_set ?m1 scan))))"
          using Cons.prems(2) [rule_format, of "Suc n"] unfolding V by simp
      qed
      from Cons.IH [OF so this] obtain m' where m': "scan_blocks body go ?m1 scan ds (F acc b) =
          Some (m', foldl F (F acc b) (visit ?f ds (seen_set ?m1 scan)))"
        "seen_only m0 m'" "scan_clock m' = scan_clock ?m1" "stamps_from ?m1 scan m'" by blast
      have run: "scan_blocks body go m scan (d # ds) acc = scan_blocks body go ?m1 scan ds (F acc b)"
        using go f Some k False ids acc1 by (simp add: set_block_def)
      have "stamps_from m scan m'"
        unfolding stamps_from_def
      proof (intro allI impI)
        fix c y assume "bheap m' c = Some y"
        with m'(4) have "tb_seen y = scan \<or> (\<exists>k1. bheap ?m1 c = Some k1 \<and> tb_seen y = tb_seen k1)"
          by (simp add: stamps_from_def)
        then show "tb_seen y = scan \<or> (\<exists>k1. bheap m c = Some k1 \<and> tb_seen y = tb_seen k1)"
          by (cases "c = b") auto
      qed
      with m' run V show ?thesis by simp
    qed
  qed
qed

section \<open>Writing and reading a map\<close>

definition entry_bytes :: "cstr \<times> cstr \<Rightarrow> bytes" where
  "entry_bytes e = le_put32 (word_of_nat (length (fst e))) @ le_put32 (word_of_nat (length (snd e))) @
     bytes_of (fst e) @ bytes_of (snd e)"

definition tool_map_bytes :: "(cstr \<times> cstr) list \<Rightarrow> bytes" where
  "tool_map_bytes es = [0x4B, 0x54, 0x4D, 1] @ le_put32 (word_of_nat (length es)) @ concat (map entry_bytes es)"

lemma bytes_of_length [simp]: "length (bytes_of s) = length s"
  by (simp add: bytes_of_def)

lemma entry_bytes_length: "length (entry_bytes e) = 8 + length (fst e) + length (snd e)"
  by (simp add: entry_bytes_def)

lemma chars_of_bytes_of [simp]: "chars_of (bytes_of s) = s"
proof -
  have "unat (word_of_nat (byte_of c) :: u8) = byte_of c" for c
    by (simp add: unat_of_nat)
  then show ?thesis by (simp add: chars_of_def bytes_of_def comp_def)
qed

lemma fwrite_fits: "length fp + length bs \<le> cap \<Longrightarrow> fwrite cap fp bs = (fp @ bs, True)"
  by (simp add: fwrite_def)

lemma count_ids: "\<forall>i \<in> set is. \<not> too_long i n \<Longrightarrow>
    fst (count_ids_loop n is (c, w)) = c + word_of_nat (length is) \<and>
    snd (count_ids_loop n is (c, w)) = w + word_of_nat (\<Sum>i\<leftarrow>is. 8 + length i + n)"
  by (induction "is" arbitrary: c w) (simp_all add: algebra_simps)

lemma write_ids:
  assumes "\<forall>i \<in> set is. \<not> too_long i (tb_len blk)" "tb_len blk = length (tb_dsml blk)"
    "length fp + length (concat (map (\<lambda>i. entry_bytes (i, tb_dsml blk)) is)) \<le> cap"
  shows "write_ids_loop cap blk is (fp, True) = (fp @ concat (map (\<lambda>i. entry_bytes (i, tb_dsml blk)) is), True)"
  using assms
proof (induction "is" arbitrary: fp)
  case (Cons i js)
  let ?lens = "le_put32 (word_of_nat (length i)) @ le_put32 (word_of_nat (tb_len blk))"
  have "length fp + (8 + length i + length (tb_dsml blk)) \<le> cap"
    using Cons.prems(3) by (simp add: entry_bytes_length)
  then have "fwrite cap fp ?lens = (fp @ ?lens, True)"
    "fwrite cap (fp @ ?lens) (bytes_of i) = ((fp @ ?lens) @ bytes_of i, True)"
    "fwrite cap ((fp @ ?lens) @ bytes_of i) (bytes_of (tb_dsml blk)) =
       (((fp @ ?lens) @ bytes_of i) @ bytes_of (tb_dsml blk), True)"
    by (simp_all add: fwrite_fits)
  then have "write_ids_loop cap blk (i # js) (fp, True) = write_ids_loop cap blk js (fp @ entry_bytes (i, tb_dsml blk), True)"
    using Cons.prems(1,2) by (simp add: entry_bytes_def)
  moreover have "length (fp @ entry_bytes (i, tb_dsml blk)) +
      length (concat (map (\<lambda>i. entry_bytes (i, tb_dsml blk)) js)) \<le> cap"
    using Cons.prems(3) by simp
  ultimately show ?case using Cons.IH [OF _ Cons.prems(2)] Cons.prems(1) by simp
qed simp

text \<open>Entries a reader accepts.\<close>

definition map_entry_ok :: "cstr \<times> cstr \<Rightarrow> bool" where
  "map_entry_ok e \<longleftrightarrow> fst e \<noteq> [] \<and> length (fst e) \<le> 256 \<and> cstring (fst e) \<and>
     snd e \<noteq> [] \<and> length (snd e) \<le> DS4_TOOL_MEMORY_MAX_BYTES \<and> cstring (snd e)"

definition is_wanted :: "stop_list option \<Rightarrow> cstr \<times> cstr \<Rightarrow> bool" where
  "is_wanted wanted e \<longleftrightarrow> wanted = None \<or> id_list_contains wanted (Some (fst e))"

fun put_all :: "'a server_scheme \<Rightarrow> (cstr \<times> cstr) list \<Rightarrow> 'a server_scheme option" where
  "put_all s [] = Some s"
| "put_all s (e # es) =
     Option.bind (tool_memory_put_source s (Some (fst e)) (Some (snd e)) TOOL_MEMORY_DISK) (\<lambda>s1. put_all s1 es)"

lemma map_load_step:
  assumes "\<not> length fp < 8" "unat (le_get32 fp) = a" "unat (le_get32 (drop 4 fp)) = b" "drop 8 fp = fp1"
    and "a \<noteq> 0" "a \<le> 256" "b \<noteq> 0" "b \<le> DS4_TOOL_MEMORY_MAX_BYTES" "a + b \<le> length fp1"
    and "c_str (chars_of (take a fp1)) = i" "c_str (chars_of (take b (drop a fp1))) = d"
    and "drop (a + b) fp1 = fp2"
  shows "map_load_loop (Suc todo) s fp wanted n =
      (if is_wanted wanted (i, d)
       then (case tool_memory_put_source s (Some i) (Some d) TOOL_MEMORY_DISK of
               None \<Rightarrow> None | Some s1 \<Rightarrow> map_load_loop todo s1 fp2 wanted (n + 1))
       else map_load_loop todo s fp2 wanted n)"
  using assms by (simp add: Let_def is_wanted_def)

lemma map_load_entries:
  assumes "\<forall>e \<in> set es. map_entry_ok e"
  shows "map_load_loop (length es) s (concat (map entry_bytes es) @ rest) wanted n =
     map_option (\<lambda>s1. (s1, n + int (length (filter (is_wanted wanted) es)))) (put_all s (filter (is_wanted wanted) es))"
  using assms
proof (induction es arbitrary: s n)
  case (Cons e es)
  let ?i = "fst e" and ?d = "snd e" and ?tail = "concat (map entry_bytes es) @ rest"
  let ?fp = "concat (map entry_bytes (e # es)) @ rest"
  have ok: "?i \<noteq> []" "length ?i \<le> 256" "?d \<noteq> []" "length ?d \<le> DS4_TOOL_MEMORY_MAX_BYTES"
    "c_str ?i = ?i" "c_str ?d = ?d"
    using Cons.prems by (simp_all add: map_entry_ok_def c_str_id)
  have fp: "?fp = le_put32 (word_of_nat (length ?i)) @ le_put32 (word_of_nat (length ?d)) @
      bytes_of ?i @ bytes_of ?d @ ?tail" by (simp add: entry_bytes_def)
  have d4: "drop 4 ?fp = le_put32 (word_of_nat (length ?d)) @ bytes_of ?i @ bytes_of ?d @ ?tail"
    unfolding fp by simp
  have "length ?i < 2 ^ 32" "length ?d < 2 ^ 32" using ok by (simp_all add: DS4_TOOL_MEMORY_MAX_BYTES_def)
  then have lens: "unat (le_get32 ?fp) = length ?i" "unat (le_get32 (drop 4 ?fp)) = length ?d"
    unfolding d4 unfolding fp le_get32_put32 by (simp_all add: unat_of_nat)
  have d8: "drop 8 ?fp = bytes_of ?i @ bytes_of ?d @ ?tail" "\<not> length ?fp < 8" unfolding fp by simp_all
  have step: "map_load_loop (Suc (length es)) s ?fp wanted n =
      (if is_wanted wanted (?i, ?d)
       then (case tool_memory_put_source s (Some ?i) (Some ?d) TOOL_MEMORY_DISK of
               None \<Rightarrow> None | Some s1 \<Rightarrow> map_load_loop (length es) s1 ?tail wanted (n + 1))
       else map_load_loop (length es) s ?tail wanted n)"
    by (rule map_load_step [OF d8(2) lens d8(1)]) (use ok in simp_all)
  have es: "\<forall>e \<in> set es. map_entry_ok e" using Cons.prems by simp
  show ?case
    unfolding list.size add_Suc_right add_0_right step Cons.IH [OF es]
    by (auto simp: option.map_comp comp_def add.assoc split: option.splits)
qed simp

lemma put_all_rel:
  assumes "\<not> disable_exact_dsml_tool_replay s" "mem_rel (tool_mem s) l" "\<forall>e \<in> set es. map_entry_ok e"
  shows "\<exists>m'. put_all s es = Some (s\<lparr>tool_mem := m'\<rparr>) \<and> same_limits (tool_mem s) m' \<and>
    mem_rel m' (foldl (\<lambda>l e. spec_put (tool_memory_max_entries (tool_mem s)) (tool_memory_max_bytes (tool_mem s))
      l (fst e) (snd e) TOOL_MEMORY_DISK) l es)"
  using assms
proof (induction es arbitrary: s l)
  case Nil
  then show ?case by (intro exI [of _ "tool_mem s"]) simp
next
  case (Cons e es)
  let ?m = "tool_mem s"
  have ne: "fst e \<noteq> []" "snd e \<noteq> []" using Cons.prems(3) by (simp_all add: map_entry_ok_def)
  obtain m1 where m1: "tool_memory_put_locked ?m (Some (fst e)) (Some (snd e)) TOOL_MEMORY_DISK = Some m1"
    "same_limits ?m m1"
    "mem_rel m1 (spec_put (tool_memory_max_entries ?m) (tool_memory_max_bytes ?m) l (fst e) (snd e) TOOL_MEMORY_DISK)"
    using put_refines [OF Cons.prems(2), of "Some (fst e)" "Some (snd e)" TOOL_MEMORY_DISK] by (auto simp: or_empty_def)
  have put: "tool_memory_put_source s (Some (fst e)) (Some (snd e)) TOOL_MEMORY_DISK = Some (s\<lparr>tool_mem := m1\<rparr>)"
    using Cons.prems(1) ne m1(1) by (simp add: tool_memory_put_source_def or_empty_def)
  have lim: "tool_memory_max_entries m1 = tool_memory_max_entries ?m" "tool_memory_max_bytes m1 = tool_memory_max_bytes ?m"
    using limits_same [OF m1(2)] by simp_all
  obtain m' where m': "put_all (s\<lparr>tool_mem := m1\<rparr>) es = Some ((s\<lparr>tool_mem := m1\<rparr>)\<lparr>tool_mem := m'\<rparr>)"
    "same_limits m1 m'"
    "mem_rel m' (foldl (\<lambda>l e. spec_put (tool_memory_max_entries ?m) (tool_memory_max_bytes ?m)
      l (fst e) (snd e) TOOL_MEMORY_DISK)
      (spec_put (tool_memory_max_entries ?m) (tool_memory_max_bytes ?m) l (fst e) (snd e) TOOL_MEMORY_DISK) es)"
    using Cons.IH [of "s\<lparr>tool_mem := m1\<rparr>", OF _ _] Cons.prems(1,3) m1(3) lim by auto
  then show ?case using put same_limits_trans [OF m1(2) m'(2)] by (intro exI [of _ m']) simp
qed

lemma puts_room:
  assumes "\<forall>e \<in> set es. map_entry_ok e" "distinct (map fst es)" "int (length l + length es) \<le> maxe"
    "mem_bytes l + (\<Sum>e\<leftarrow>es. length (fst e) + length (snd e) + 114) \<le> maxb"
    and l': "l' = foldl (\<lambda>l e. spec_put maxe maxb l (fst e) (snd e) TOOL_MEMORY_DISK) l es"
  shows "(\<forall>e \<in> set es. \<exists>src. mem_lookup l' (fst e) = Some (snd e, src)) \<and>
    (\<forall>i. i \<notin> fst ` set es \<longrightarrow> mem_lookup l' i = mem_lookup l i)"
  using assms
proof (induction es arbitrary: l)
  case (Cons e es)
  let ?i = "fst e" and ?d = "snd e"
  have "?i \<noteq> []" "?d \<noteq> []" "int (length l) < maxe" "mem_bytes l + length ?i + length ?d + 114 \<le> maxb"
    using Cons.prems by (simp_all add: map_entry_ok_def)
  from spec_put_room [OF this, of TOOL_MEMORY_DISK] obtain x where
    x: "spec_put maxe maxb l ?i ?d TOOL_MEMORY_DISK = (?i, ?d, x) # mem_delete l ?i" by blast
  let ?l1 = "(?i, ?d, x) # mem_delete l ?i"
  have len: "length ?l1 \<le> Suc (length l)" by (simp add: mem_delete_def)
  have look: "mem_lookup ?l1 j = (if j = ?i then Some (?d, x) else mem_lookup l j)" for j
    using lookup_delete [of l ?i j] by (simp add: mem_lookup_def)
  have IH: "(\<forall>e \<in> set es. \<exists>src. mem_lookup l' (fst e) = Some (snd e, src)) \<and>
      (\<forall>i. i \<notin> fst ` set es \<longrightarrow> mem_lookup l' i = mem_lookup ?l1 i)"
  proof (rule Cons.IH)
    show "\<forall>e \<in> set es. map_entry_ok e" "distinct (map fst es)" using Cons.prems(1,2) by simp_all
    show "int (length ?l1 + length es) \<le> maxe" using Cons.prems(3) len by simp
    show "mem_bytes ?l1 + (\<Sum>e\<leftarrow>es. length (fst e) + length (snd e) + 114) \<le> maxb"
      using Cons.prems(4) mem_bytes_put [of ?i ?d x l] by simp
    show "l' = foldl (\<lambda>l e. spec_put maxe maxb l (fst e) (snd e) TOOL_MEMORY_DISK) ?l1 es"
      using Cons.prems(5) x by simp
  qed
  have "?i \<notin> fst ` set es" using Cons.prems(2) by simp
  with IH look show ?case by simp
qed simp

section \<open>The entries of a memory whose blocks a text mentions\<close>

definition map_entries :: "tool_memory \<Rightarrow> (addr \<Rightarrow> addr list) \<Rightarrow> addr list \<Rightarrow> (cstr \<times> cstr) list" where
  "map_entries m cs bs =
     concat (map (\<lambda>b. map (\<lambda>a. (id_at m a, tb_dsml (the (bheap m b)))) (cs b)) bs)"

lemma entry_pay: "eheap m a = Some x \<Longrightarrow> pay (eheap m) a = Some (te_id x, te_block x, te_bytes x, te_source x)"
  by (rule view_Some)

lemma id_at_pay: "pay (eheap m) a = Some (i, bo, n, s) \<Longrightarrow> id_at m a = i"
  by (auto simp: pay_def id_at_def)

lemma map_entries_set:
  assumes inv: "tm_inv m as cs" and V: "set V = {b. \<exists>d \<in> set ds. tool_memory_find_block_locked m d = Some b}"
  shows "set (map_entries m cs V) = {(i, d). (\<exists>src. (i, d, src) \<in> set (absl m as)) \<and> d \<in> set ds}"
proof -
  obtain t u where u: "by_block m = Some u" "\<And>d b. u d = Some b \<longleftrightarrow> (\<exists>k. bheap m b = Some k \<and> tb_dsml k = d)"
    using inv by (auto simp: tm_inv_def index_ok_def)
  have find: "tool_memory_find_block_locked m d = Some b \<longleftrightarrow> (\<exists>k. bheap m b = Some k \<and> tb_dsml k = d)" for d b
  proof -
    have "d \<noteq> []" if "bheap m b = Some k" "tb_dsml k = d" for k
      using inv that by (auto simp: tm_inv_def blocks_ok_def block_const_def)
    then show ?thesis using u by (auto simp: tool_memory_find_block_locked_def)
  qed
  have own: "a \<in> set (cs b) \<longleftrightarrow> (\<exists>i n s. pay (eheap m) a = Some (i, Some b, n, s))" for a b
    using inv by (auto simp: tm_inv_def blocks_ok_def owned_def)
  have as: "a \<in> set as \<longleftrightarrow> (\<exists>i b n s. pay (eheap m) a = Some (i, Some b, n, s))" for a
  proof -
    have "a \<in> set as \<longleftrightarrow> pay (eheap m) a \<noteq> None" using inv by (auto simp: tm_inv_def dom_def)
    then show ?thesis using inv unfolding tm_inv_def entries_ok_def by (metis not_Some_eq prod_cases4)
  qed
  show ?thesis
  proof (intro set_eqI iffI)
    fix e assume "e \<in> set (map_entries m cs V)"
    then obtain a b where e: "e = (id_at m a, tb_dsml (the (bheap m b)))" "a \<in> set (cs b)" "b \<in> set V"
      by (auto simp: map_entries_def)
    then obtain i n s where p: "pay (eheap m) a = Some (i, Some b, n, s)" using own by blast
    obtain d k where d: "d \<in> set ds" "bheap m b = Some k" "tb_dsml k = d" using e(3) V find by auto
    have "item_of m a = (i, d, s)" using p d by (simp add: item_of_def)
    moreover have "a \<in> set as" using as p by blast
    ultimately have "(i, d, s) \<in> set (absl m as)" unfolding absl_def by (metis image_eqI set_map)
    with e(1) id_at_pay [OF p] d show "e \<in> {(i, d). (\<exists>src. (i, d, src) \<in> set (absl m as)) \<and> d \<in> set ds}" by auto
  next
    fix e assume "e \<in> {(i, d). (\<exists>src. (i, d, src) \<in> set (absl m as)) \<and> d \<in> set ds}"
    then obtain i d src where e: "e = (i, d)" "(i, d, src) \<in> set (absl m as)" "d \<in> set ds" by auto
    then obtain a where a: "a \<in> set as" "item_of m a = (i, d, src)" by (auto simp: absl_def)
    then obtain i' b n s where p: "pay (eheap m) a = Some (i', Some b, n, s)" using as by blast
    obtain k where k: "bheap m b = Some k"
      using inv p unfolding tm_inv_def entries_ok_def by (metis option.inject)
    have "i' = i" "tb_dsml k = d" using a(2) p k by (simp_all add: item_of_def)
    moreover have "b \<in> set V" using V find k e(3) \<open>tb_dsml k = d\<close> by auto
    moreover have "a \<in> set (cs b)" using own p by blast
    ultimately show "e \<in> set (map_entries m cs V)"
      using e(1) k id_at_pay [OF p] unfolding map_entries_def by force
  qed
qed

lemma map_entries_distinct:
  assumes inv: "tm_inv m as cs" and V: "distinct V"
  shows "distinct (map fst (map_entries m cs V))"
proof -
  have own: "a \<in> set (cs b) \<Longrightarrow> \<exists>i n s. pay (eheap m) a = Some (i, Some b, n, s)" for a b
    using inv by (auto simp: tm_inv_def blocks_ok_def owned_def)
  have d: "distinct (cs b)" for b using inv by (simp add: tm_inv_def blocks_ok_def)
  have chains: "distinct (concat (map cs V))" if "distinct V" for V
    using that
  proof (induction V)
    case (Cons b V)
    have "set (cs b) \<inter> set (concat (map cs V)) = {}"
      using own Cons.prems by (fastforce dest!: own)
    with Cons d show ?case by simp
  qed simp
  have inj: "inj_on (id_at m) (set (concat (map cs V)))"
  proof (rule inj_onI)
    fix a a' assume "a \<in> set (concat (map cs V))" "a' \<in> set (concat (map cs V))" and eq: "id_at m a = id_at m a'"
    then obtain b b' where "a \<in> set (cs b)" "a' \<in> set (cs b')" by auto
    then obtain i n s i' n' s' where p: "pay (eheap m) a = Some (i, Some b, n, s)"
      "pay (eheap m) a' = Some (i', Some b', n', s')" using own by meson
    have "i = i'" using eq id_at_pay [OF p(1)] id_at_pay [OF p(2)] by simp
    then show "a = a'" using p inv unfolding tm_inv_def index_ok_def by (metis option.inject)
  qed
  have "map fst (map_entries m cs V) = map (id_at m) (concat (map cs V))"
    by (simp add: map_entries_def map_concat comp_def)
  then show ?thesis using chains [OF V] inj by (simp add: distinct_map)
qed

text \<open>The entries are some of the stored items, each once.\<close>

lemma map_entries_size:
  fixes l :: "mem_item list"
  assumes "set E \<subseteq> (\<lambda>x. (fst x, fst (snd x))) ` set l" "distinct E"
  shows "length E \<le> length l" "(\<Sum>e\<leftarrow>E. f (fst e) (snd e)) \<le> (\<Sum>x\<leftarrow>l. f (fst x) (fst (snd x)) :: nat)"
proof -
  let ?p = "\<lambda>x :: mem_item. (fst x, fst (snd x))"
  have "length E = card (set E)" using assms(2) by (simp add: distinct_card)
  also have "\<dots> \<le> card (?p ` set l)" using assms(1) by (simp add: card_mono)
  also have "\<dots> \<le> length l" using card_image_le [of "set l" ?p] card_length [of l] by simp
  finally show "length E \<le> length l" .
  have "(\<Sum>e\<leftarrow>E. f (fst e) (snd e)) = (\<Sum>e\<in>set E. f (fst e) (snd e))"
    using assms(2) by (simp add: sum_list_distinct_conv_sum_set)
  also have "\<dots> \<le> (\<Sum>e\<in>?p ` set l. f (fst e) (snd e))" using assms(1) by (intro sum_mono2) auto
  also have "\<dots> \<le> (\<Sum>x\<in>set l. f (fst x) (fst (snd x)))"
    using sum_image_le [of "set l" "\<lambda>e. f (fst e) (snd e)" ?p] by simp
  also have "\<dots> \<le> (\<Sum>x\<leftarrow>l. f (fst x) (fst (snd x)))"
  proof (induction l)
    case (Cons x l)
    then show ?case by (cases "x \<in> set l") (simp_all add: insert_absorb)
  qed simp
  finally show "(\<Sum>e\<leftarrow>E. f (fst e) (snd e)) \<le> (\<Sum>x\<leftarrow>l. f (fst x) (fst (snd x)))" .
qed

abbreviation ids_of :: "tool_memory \<Rightarrow> (addr \<Rightarrow> addr list) \<Rightarrow> addr \<Rightarrow> cstr list" where
  "ids_of m cs b \<equiv> map (id_at m) (cs b)"

lemma count_pass:
  assumes "\<forall>b \<in> set bs. \<forall>i \<in> set (ids_of m cs b). \<not> too_long i (tb_len (the (bheap m b)))"
  shows "fst (foldl (\<lambda>a b. count_ids_loop (tb_len (the (bheap m b))) (ids_of m cs b) a) acc bs) =
    fst acc + word_of_nat (length (map_entries m cs bs))"
  using assms
proof (induction bs arbitrary: acc)
  case (Cons b bs)
  obtain c w where "acc = (c, w)" by (cases acc)
  with Cons count_ids [of "ids_of m cs b" "tb_len (the (bheap m b))" c w] show ?case
    by (simp add: map_entries_def add.assoc)
qed (simp add: map_entries_def)

lemma write_pass:
  assumes "\<forall>b \<in> set bs. (\<forall>i \<in> set (ids_of m cs b). \<not> too_long i (tb_len (the (bheap m b)))) \<and>
      tb_len (the (bheap m b)) = length (tb_dsml (the (bheap m b)))"
    and "length fp + length (concat (map entry_bytes (map_entries m cs bs))) \<le> cap"
  shows "foldl (\<lambda>a b. write_ids_loop cap (the (bheap m b)) (ids_of m cs b) a) (fp, True) bs =
    (fp @ concat (map entry_bytes (map_entries m cs bs)), True)"
  using assms
proof (induction bs arbitrary: fp)
  case (Cons b bs)
  let ?k = "the (bheap m b)"
  let ?out = "concat (map (\<lambda>i. entry_bytes (i, tb_dsml ?k)) (ids_of m cs b))"
  have split: "concat (map entry_bytes (map_entries m cs (b # bs))) =
      ?out @ concat (map entry_bytes (map_entries m cs bs))"
    by (simp add: map_entries_def comp_def)
  have "write_ids_loop cap ?k (ids_of m cs b) (fp, True) = (fp @ ?out, True)"
  proof (rule write_ids)
    show "\<forall>i \<in> set (ids_of m cs b). \<not> too_long i (tb_len ?k)" "tb_len ?k = length (tb_dsml ?k)"
      using Cons.prems(1) by (auto simp del: set_map)
    show "length fp + length ?out \<le> cap" using Cons.prems(2) unfolding split by simp
  qed
  moreover have "foldl (\<lambda>a b. write_ids_loop cap (the (bheap m b)) (ids_of m cs b) a) (fp @ ?out, True) bs =
      ((fp @ ?out) @ concat (map entry_bytes (map_entries m cs bs)), True)"
  proof (rule Cons.IH)
    show "\<forall>b \<in> set bs. (\<forall>i \<in> set (ids_of m cs b). \<not> too_long i (tb_len (the (bheap m b)))) \<and>
        tb_len (the (bheap m b)) = length (tb_dsml (the (bheap m b)))" using Cons.prems(1) by (auto simp del: set_map)
    show "length (fp @ ?out) + length (concat (map entry_bytes (map_entries m cs bs))) \<le> cap"
      using Cons.prems(2) unfolding split by simp
  qed
  ultimately show ?case unfolding split by simp
qed (simp add: map_entries_def)

lemma clock_next: "c < - 1 \<Longrightarrow> c < c + 1" for c :: u64
proof -
  assume "c < - 1"
  then have "1 + c \<noteq> 0" by (metis add.commute eq_neg_iff_add_eq_0 order_less_irrefl)
  then have "unat (1 + c) = Suc (unat c)" by (rule unatSuc)
  then show ?thesis by (simp add: word_less_nat_alt add.commute)
qed

definition seen_before :: "tool_memory \<Rightarrow> bool" where
  \<comment> \<open>no block carries a stamp of a later scan\<close>
  "seen_before m \<longleftrightarrow> (\<forall>b k. bheap m b = Some k \<longrightarrow> tb_seen k \<le> scan_clock m)"

lemma seen_before_next:
  assumes "seen_before m" "scan_clock m < - 1"
  shows "seen_set (m\<lparr>scan_clock := scan_clock m + 1\<rparr>) (scan_clock m + 1) = {}"
proof -
  have "scan_clock m < scan_clock m + 1" by (rule clock_next [OF assms(2)])
  then show ?thesis using assms(1) by (fastforce simp: seen_set_def seen_before_def)
qed

lemma stamps_seen_before:
  assumes "seen_before m" "scan_clock m < - 1" "stamps_from (m\<lparr>scan_clock := scan_clock m + 1\<rparr>) (scan_clock m + 1) m'"
    "scan_clock m' = scan_clock m + 1"
  shows "seen_before m'"
proof -
  have lt: "scan_clock m < scan_clock m + 1" by (rule clock_next [OF assms(2)])
  show ?thesis
    unfolding seen_before_def
  proof (intro allI impI)
    fix b k assume "bheap m' b = Some k"
    with assms(3) have "tb_seen k = scan_clock m + 1 \<or> (\<exists>k0. bheap m b = Some k0 \<and> tb_seen k = tb_seen k0)"
      by (simp add: stamps_from_def)
    then show "tb_seen k \<le> scan_clock m'"
      using assms(1) lt unfolding seen_before_def assms(4) by fastforce
  qed
qed

lemma find_init:
  assumes "tm_fresh m" "seen_only m m'"
  shows "tool_memory_find_block_locked m' d = None"
  using assms seen_only_fields(3) [OF assms(2)] by (simp add: tm_fresh_def tool_memory_find_block_locked_def)

lemma scan_fresh: "(\<And>d. tool_memory_find_block_locked m d = None) \<Longrightarrow> scan_blocks body go m scan ds acc = Some (m, acc)"
  by (induction ds) auto

text \<open>Both passes, on a memory that has been used.\<close>

lemma tool_map_passes:
  assumes inv: "tm_inv m as cs" and seen: "seen_before m" "scan_clock m < - 2"
    and ok: "\<forall>x \<in> set (absl m as). map_entry_ok (fst x, fst (snd x))"
    and few: "length (absl m as) < 2 ^ 32"
    and room: "length fp + 8 + (\<Sum>x\<leftarrow>absl m as. 8 + length (fst x) + length (fst (snd x))) \<le> cap"
    and s: "tool_mem s = m" "\<not> disable_exact_dsml_tool_replay s" "txt \<noteq> []"
  shows "\<exists>s' n E. kv_tool_map_write cap s fp (Some txt) =
        Some (s', fp @ (if E = [] then [] else tool_map_bytes E), n, True) \<and>
      seen_only m (tool_mem s') \<and> seen_before (tool_mem s') \<and>
      set E = {(i, d). (\<exists>src. (i, d, src) \<in> set (absl m as)) \<and> d \<in> set (dsml_blocks txt)} \<and>
      distinct (map fst E)"
proof -
  define ds where "ds = dsml_blocks txt"
  define V where "V = visit (tool_memory_find_block_locked m) ds {}"
  define E where "E = map_entries m cs V"
  define m0 where "m0 = m\<lparr>scan_clock := scan_clock m + 1\<rparr>"
  have clock: "scan_clock m < - 1" "scan_clock m + 1 < - 1"
  proof -
    have "(- 2 :: u64) < - 1" by code_simp
    with seen(2) show lt: "scan_clock m < - 1" by order
    have "scan_clock m + 1 \<le> - 2" using seen(2) by (rule inc_le)
    with \<open>(- 2 :: u64) < - 1\<close> show "scan_clock m + 1 < - 1" by order
  qed
  have V: "set V = {b. \<exists>d \<in> set ds. tool_memory_find_block_locked m d = Some b}" "distinct V"
    by (simp_all add: V_def set_visit distinct_visit)
  have setE: "set E = {(i, d). (\<exists>src. (i, d, src) \<in> set (absl m as)) \<and> d \<in> set ds}"
    unfolding E_def by (rule map_entries_set [OF inv V(1)])
  have distE: "distinct (map fst E)" unfolding E_def by (rule map_entries_distinct [OF inv V(2)])
  have sub: "set E \<subseteq> (\<lambda>x. (fst x, fst (snd x))) ` set (absl m as)" using setE by force
  have lenE: "length E < 2 ^ 32"
    using map_entries_size(1) [OF sub] distE few by (simp add: distinct_map)
  have sizeE: "length (concat (map entry_bytes E)) \<le> (\<Sum>x\<leftarrow>absl m as. 8 + length (fst x) + length (fst (snd x)))"
  proof -
    have "length (concat (map entry_bytes E)) = (\<Sum>e\<leftarrow>E. 8 + length (fst e) + length (snd e))"
      by (simp add: length_concat comp_def entry_bytes_length)
    then show ?thesis
      using map_entries_size(2) [OF sub, of "\<lambda>i d. 8 + length i + length d"] distE by (simp add: distinct_map)
  qed
  have short: "(\<forall>i \<in> set (ids_of m cs b). \<not> too_long i (tb_len (the (bheap m b)))) \<and>
      tb_len (the (bheap m b)) = length (tb_dsml (the (bheap m b)))" if b: "b \<in> set V" for b
  proof -
    obtain k where k: "bheap m b = Some k" using b V(1) find_block_heap [OF inv] by blast
    then have len: "tb_len k = length (tb_dsml k)" using inv by (simp add: tm_inv_def blocks_ok_def block_const_def)
    moreover have "\<not> too_long i (tb_len k)" if "i \<in> set (ids_of m cs b)" for i
    proof -
      have "(i, tb_dsml k) \<in> set E" using that b k unfolding E_def map_entries_def by force
      with sub ok have "map_entry_ok (i, tb_dsml k)" by fastforce
      then show ?thesis using len by (simp add: map_entry_ok_def too_long_def DS4_TOOL_MEMORY_MAX_BYTES_def)
    qed
    ultimately show ?thesis using k by simp
  qed
  have so0: "seen_only m m0" unfolding m0_def by (rule seen_only_clock)
  let ?F1 = "\<lambda>a b. count_ids_loop (tb_len (the (bheap m b))) (ids_of m cs b) a"
  have S0: "seen_set m0 (scan_clock m0) = {}" unfolding m0_def using seen_before_next [OF seen(1) clock(1)] by simp
  obtain m1 where m1: "scan_blocks (\<lambda>blk ids. count_ids_loop (tb_len blk) ids) (\<lambda>_. True) m0 (scan_clock m0) ds (0, 8) =
      Some (m1, foldl ?F1 (0, 8) V)" "seen_only m m1" "scan_clock m1 = scan_clock m0" "stamps_from m0 (scan_clock m0) m1"
    using scan_blocks_spec [OF inv, of "\<lambda>blk ids. count_ids_loop (tb_len blk) ids" ?F1 m0 "\<lambda>_. True" "(0, 8)" ds "scan_clock m0"]
      so0 unfolding S0 V_def by auto
  have seen1: "seen_before m1" "scan_clock m1 < - 1"
    using stamps_seen_before [OF seen(1) clock(1)] m1(3,4) clock(2) by (simp_all add: m0_def)
  obtain w where cnt: "foldl ?F1 (0, 8) V = (word_of_nat (length E), w)"
  proof -
    have "\<forall>b \<in> set V. \<forall>i \<in> set (ids_of m cs b). \<not> too_long i (tb_len (the (bheap m b)))"
      using short by blast
    from count_pass [OF this, of "(0, 8)"] that show ?thesis
      unfolding E_def by (cases "foldl ?F1 (0, 8) V") auto
  qed
  show ?thesis
  proof (cases "E = []")
    case True
    then have "kv_tool_map_write cap s fp (Some txt) = Some (s\<lparr>tool_mem := m1\<rparr>, fp, 0, True)"
      using s m1(1) cnt unfolding kv_tool_map_write_def by (simp add: or_empty_def m0_def ds_def)
    then show ?thesis
      using m1(2) seen1(1) setE distE True unfolding ds_def by (intro exI [of _ "s\<lparr>tool_mem := m1\<rparr>"] exI [of _ 0] exI [of _ E]) simp
  next
    case False
    define m2 where "m2 = m1\<lparr>scan_clock := scan_clock m1 + 1\<rparr>"
    let ?h = "[0x4B, 0x54, 0x4D, 1] @ le_put32 (word_of_nat (length E))"
    let ?F2 = "\<lambda>a b. write_ids_loop cap (the (bheap m b)) (ids_of m cs b) a"
    have so2: "seen_only m m2" unfolding m2_def by (rule seen_only_trans [OF m1(2) seen_only_clock])
    have S2: "seen_set m2 (scan_clock m2) = {}" unfolding m2_def using seen_before_next [OF seen1] by simp
    have hdr: "fwrite cap fp ?h = (fp @ ?h, True)" using room by (intro fwrite_fits) simp
    have part: "length (fp @ ?h) + length (concat (map entry_bytes (map_entries m cs (take n V)))) \<le> cap" for n
    proof -
      have "map_entries m cs V = map_entries m cs (take n V) @ map_entries m cs (drop n V)"
        unfolding map_entries_def by (metis append_take_drop_id concat_append map_append)
      then have "length (concat (map entry_bytes (map_entries m cs (take n V)))) \<le> length (concat (map entry_bytes E))"
        unfolding E_def by simp
      with sizeE room show ?thesis by simp
    qed
    have pass: "foldl ?F2 (fp @ ?h, True) (take n V) =
        ((fp @ ?h) @ concat (map entry_bytes (map_entries m cs (take n V))), True)" for n
      using short part [of n] by (intro write_pass) (auto dest: in_set_takeD)
    have pass_all: "foldl ?F2 (fp @ ?h, True) V = ((fp @ ?h) @ concat (map entry_bytes E), True)"
      using pass [of "length V"] by (simp add: E_def)
    obtain m3 where m3: "scan_blocks (write_ids_loop cap) snd m2 (scan_clock m2) ds (fp @ ?h, True) =
        Some (m3, foldl ?F2 (fp @ ?h, True) V)" "seen_only m m3" "scan_clock m3 = scan_clock m2" "stamps_from m2 (scan_clock m2) m3"
    proof -
      have body: "write_ids_loop cap (blk\<lparr>tb_seen := x\<rparr>) = write_ids_loop cap blk" for blk x
      proof (intro ext)
        fix l a show "write_ids_loop cap (blk\<lparr>tb_seen := x\<rparr>) l a = write_ids_loop cap blk l a"
        proof (induction l arbitrary: a)
          case (Cons i js)
          then show ?case by (cases a) (simp add: Let_def case_prod_beta)
        qed simp
      qed
      show ?thesis
        using scan_blocks_spec [OF inv body refl so2, of snd "(fp @ ?h, True)" ds "scan_clock m2"] pass that
        unfolding S2 V_def [symmetric] by auto
    qed
    have nz: "(word_of_nat (length E) :: u32) \<noteq> 0"
      using False lenE by (simp add: word_of_nat_eq_0_iff nat_dvd_not_less)
    have "kv_tool_map_write cap s fp (Some txt) =
        Some (s\<lparr>tool_mem := m3\<rparr>, fp @ tool_map_bytes E, w, True)"
      using s m1(1) cnt nz m3(1) hdr pass_all unfolding kv_tool_map_write_def tool_map_bytes_def
      by (simp add: or_empty_def m0_def [symmetric] m2_def [symmetric] ds_def [symmetric] del: scan_blocks.simps)
    moreover have "seen_before m3"
      using stamps_seen_before [OF seen1] m3(3,4) by (simp add: m2_def)
    ultimately show ?thesis
      using m3(2) setE distE False unfolding ds_def
      by (intro exI [of _ "s\<lparr>tool_mem := m3\<rparr>"] exI [of _ w] exI [of _ E]) simp
  qed
qed

text \<open>
  C28. The tool map is a faithful extract of the tool-call memory: written behind any file content,
  it makes another server (or the same one after a restart) remember, for every stored call whose
  block occurs in the text and whose id is wanted, exactly the sampled block, and it changes nothing
  for other ids. Neither pass touches freed memory or loops, and the memory it is taken from stores
  what it stored.
\<close>

theorem tool_map_roundtrip:
  assumes rel: "mem_rel (tool_mem s) l" and enabled: "\<not> disable_exact_dsml_tool_replay s"
    and ne: "txt \<noteq> []"
    and seen: "seen_before (tool_mem s)" "scan_clock (tool_mem s) < - 2"
    and ok: "\<forall>x \<in> set l. map_entry_ok (fst x, fst (snd x))"
    and few: "length l < 2 ^ 32" "int (length l) \<le> 4 * tool_memory_max_entries (tool_mem s2)"
    and room: "length fp + 8 + (\<Sum>x\<leftarrow>l. 8 + length (fst x) + length (fst (snd x))) \<le> cap"
    and rel2: "mem_rel (tool_mem s2) l2" and enabled2: "\<not> disable_exact_dsml_tool_replay s2"
    and room2: "int (length l2 + length l) \<le> tool_memory_max_entries (tool_mem s2)"
      "mem_bytes l2 + (\<Sum>x\<leftarrow>l. length (fst x) + length (fst (snd x)) + 114) \<le> tool_memory_max_bytes (tool_mem s2)"
  shows "\<exists>s' file n. kv_tool_map_write cap s fp (Some txt) = Some (s', fp @ file, n, True) \<and>
    mem_rel (tool_mem s') l \<and> seen_before (tool_mem s') \<and>
    (\<exists>m2 k l2'. kv_tool_map_load_from_pos s2 file wanted = Some (s2\<lparr>tool_mem := m2\<rparr>, k) \<and> mem_rel m2 l2' \<and>
      (\<forall>i d src. (i, d, src) \<in> set l \<and> d \<in> set (dsml_blocks txt) \<and> is_wanted wanted (i, d) \<longrightarrow>
         (\<exists>src'. mem_lookup l2' i = Some (d, src'))) \<and>
      (\<forall>i. \<not> (\<exists>d src. (i, d, src) \<in> set l \<and> d \<in> set (dsml_blocks txt) \<and> is_wanted wanted (i, d)) \<longrightarrow>
         mem_lookup l2' i = mem_lookup l2 i))"
proof -
  have "\<exists>s' n E. kv_tool_map_write cap s fp (Some txt) =
        Some (s', fp @ (if E = [] then [] else tool_map_bytes E), n, True) \<and>
      seen_only (tool_mem s) (tool_mem s') \<and> seen_before (tool_mem s') \<and>
      set E = {(i, d). (\<exists>src. (i, d, src) \<in> set l) \<and> d \<in> set (dsml_blocks txt)} \<and> distinct (map fst E)"
  proof (cases "\<exists>as cs. tm_inv (tool_mem s) as cs \<and> l = absl (tool_mem s) as")
    case True
    then obtain as cs where inv: "tm_inv (tool_mem s) as cs" and l: "l = absl (tool_mem s) as" by blast
    show ?thesis
      unfolding l by (rule tool_map_passes [OF inv seen ok [unfolded l] few(1) [unfolded l] room [unfolded l] refl enabled ne])
  next
    case False
    then have fresh: "tm_fresh (tool_mem s)" and l: "l = []" using rel by (auto simp: mem_rel_def)
    define m0 where "m0 = (tool_mem s)\<lparr>scan_clock := scan_clock (tool_mem s) + 1\<rparr>"
    have "tool_memory_find_block_locked m0 d = None" for d
      using find_init [OF fresh seen_only_clock] by (simp add: m0_def)
    then have "kv_tool_map_write cap s fp (Some txt) = Some (s\<lparr>tool_mem := m0\<rparr>, fp, 0, True)"
      using enabled ne by (simp add: kv_tool_map_write_def or_empty_def m0_def scan_fresh)
    moreover have "seen_before m0" using fresh by (simp add: m0_def seen_before_def tm_fresh_def)
    ultimately show ?thesis
      unfolding l using seen_only_clock m0_def by (intro exI [of _ "s\<lparr>tool_mem := m0\<rparr>"] exI [of _ 0] exI [of _ "[]"]) simp
  qed
  then obtain s' n E where w: "kv_tool_map_write cap s fp (Some txt) =
        Some (s', fp @ (if E = [] then [] else tool_map_bytes E), n, True)"
    "seen_only (tool_mem s) (tool_mem s')" "seen_before (tool_mem s')"
    and setE: "set E = {(i, d). (\<exists>src. (i, d, src) \<in> set l) \<and> d \<in> set (dsml_blocks txt)}"
    and distE: "distinct (map fst E)" by blast
  let ?W = "filter (is_wanted wanted) E"
  have sub: "set E \<subseteq> (\<lambda>x. (fst x, fst (snd x))) ` set l" using setE by force
  have okE: "\<forall>e \<in> set E. map_entry_ok e" using sub ok by fastforce
  have sizes: "length E \<le> length l"
    "(\<Sum>e\<leftarrow>E. length (fst e) + length (snd e) + 114) \<le> (\<Sum>x\<leftarrow>l. length (fst x) + length (fst (snd x)) + 114)"
    using map_entries_size(1) [OF sub] map_entries_size(2) [OF sub, of "\<lambda>i d. length i + length d + 114"] distE
    by (simp_all add: distinct_map)
  have sumW: "(\<Sum>e\<leftarrow>?W. length (fst e) + length (snd e) + 114) \<le> (\<Sum>e\<leftarrow>E. length (fst e) + length (snd e) + 114)"
    by (induction E) auto
  obtain m2 where m2: "put_all s2 ?W = Some (s2\<lparr>tool_mem := m2\<rparr>)"
    "mem_rel m2 (foldl (\<lambda>l e. spec_put (tool_memory_max_entries (tool_mem s2)) (tool_memory_max_bytes (tool_mem s2))
      l (fst e) (snd e) TOOL_MEMORY_DISK) l2 ?W)" (is "mem_rel m2 ?l'")
    using put_all_rel [OF enabled2 rel2, of ?W] okE by auto
  have load: "kv_tool_map_load_from_pos s2 (if E = [] then [] else tool_map_bytes E) wanted =
      Some (s2\<lparr>tool_mem := m2\<rparr>, int (length ?W))"
  proof (cases "E = []")
    case True
    with m2(1) show ?thesis by (simp add: kv_tool_map_load_from_pos_def)
  next
    case False
    have cnt: "unat (word_of_nat (length E) :: u32) = length E"
      using sizes(1) few(1) by (simp add: unat_of_nat)
    then have cnt': "uint (word_of_nat (length E) :: u32) = int (length E)" by (metis uint_nat)
    have "tool_map_bytes E ! 0 = 0x4B" "tool_map_bytes E ! 1 = 0x54" "tool_map_bytes E ! 2 = 0x4D"
      "tool_map_bytes E ! 3 = 1" "\<not> length (tool_map_bytes E) < 8"
      "drop 8 (tool_map_bytes E) = concat (map entry_bytes E)"
      "le_get32 (drop 4 (tool_map_bytes E)) = word_of_nat (length E)"
      by (simp_all add: tool_map_bytes_def numeral_eq_Suc le_get32_put32)
    then have "kv_tool_map_load_from_pos s2 (tool_map_bytes E) wanted =
        map_load_loop (length E) s2 (concat (map entry_bytes E) @ []) wanted 0"
      using enabled2 few(2) sizes(1) by (simp add: kv_tool_map_load_from_pos_def Let_def cnt cnt')
    then show ?thesis
      unfolding map_load_entries [OF okE] m2(1) using False by simp
  qed
  have look: "(\<forall>e \<in> set ?W. \<exists>src. mem_lookup ?l' (fst e) = Some (snd e, src)) \<and>
      (\<forall>i. i \<notin> fst ` set ?W \<longrightarrow> mem_lookup ?l' i = mem_lookup l2 i)"
  proof (rule puts_room [OF _ _ _ _ refl])
    show "\<forall>e \<in> set ?W. map_entry_ok e" using okE by simp
    show "distinct (map fst ?W)" using distE by (rule distinct_map_filter)
    show "int (length l2 + length ?W) \<le> tool_memory_max_entries (tool_mem s2)"
      using room2(1) sizes(1) length_filter_le [of "is_wanted wanted" E] by linarith
    show "mem_bytes l2 + (\<Sum>e\<leftarrow>?W. length (fst e) + length (snd e) + 114) \<le> tool_memory_max_bytes (tool_mem s2)"
      using room2(2) sizes(2) sumW by linarith
  qed
  have inW: "(i, d) \<in> set ?W \<longleftrightarrow> (\<exists>src. (i, d, src) \<in> set l) \<and> d \<in> set (dsml_blocks txt) \<and> is_wanted wanted (i, d)" for i d
    using setE by auto
  show ?thesis
  proof (intro exI conjI)
    show "kv_tool_map_write cap s fp (Some txt) = Some (s', fp @ (if E = [] then [] else tool_map_bytes E), n, True)"
      "seen_before (tool_mem s')" by (rule w)+
    show "mem_rel (tool_mem s') l" by (rule seen_only_rel [OF w(2) rel])
    show "kv_tool_map_load_from_pos s2 (if E = [] then [] else tool_map_bytes E) wanted =
      Some (s2\<lparr>tool_mem := m2\<rparr>, int (length ?W))" by (rule load)
    show "mem_rel m2 ?l'" by (rule m2(2))
    show "\<forall>i d src. (i, d, src) \<in> set l \<and> d \<in> set (dsml_blocks txt) \<and> is_wanted wanted (i, d) \<longrightarrow>
        (\<exists>src'. mem_lookup ?l' i = Some (d, src'))"
    proof (intro allI impI)
      fix i d src assume "(i, d, src) \<in> set l \<and> d \<in> set (dsml_blocks txt) \<and> is_wanted wanted (i, d)"
      then have "(i, d) \<in> set ?W" using inW by blast
      with look show "\<exists>src'. mem_lookup ?l' i = Some (d, src')" by fastforce
    qed
    show "\<forall>i. \<not> (\<exists>d src. (i, d, src) \<in> set l \<and> d \<in> set (dsml_blocks txt) \<and> is_wanted wanted (i, d)) \<longrightarrow>
        mem_lookup ?l' i = mem_lookup l2 i"
    proof (intro allI impI)
      fix i assume no: "\<not> (\<exists>d src. (i, d, src) \<in> set l \<and> d \<in> set (dsml_blocks txt) \<and> is_wanted wanted (i, d))"
      have "i \<notin> fst ` set ?W"
      proof
        assume "i \<in> fst ` set ?W"
        then obtain d where "(i, d) \<in> set ?W" by force
        with inW no show False by blast
      qed
      with look show "mem_lookup ?l' i = mem_lookup l2 i" by blast
    qed
  qed
qed

lemma put_first_state:
  assumes "tool_memory_put_locked tool_memory_zero (Some (c # i)) (Some (c' # d)) s = Some m"
    "length i + length d + 116 \<le> 512 * 1024 * 1024"
  shows "seen_before m \<and> scan_clock m = 0"
  using assms
  by (auto simp: tool_memory_put_locked_def tool_memory_init_locked_def tool_memory_zero_def or_empty_def
      tool_memory_find_entry_locked_def tool_memory_add_def tool_memory_get_block_locked_def Let_def
      tool_memory_find_block_locked_def set_block_def set_entry_def tool_memory_link_head_def
      tool_memory_prune_locked.simps tool_memory_max_entries_def tool_memory_max_bytes_def
      SIZEOF_ENTRY_def SIZEOF_BLOCK_def seen_before_def split: if_splits)

theorem tool_map_roundtrip_witness:
  "\<exists>s' file n m2 k l2'.
     kv_tool_map_write 1000
       \<lparr>tool_mem = the (tool_memory_put_locked tool_memory_zero (Some ''call_1'')
          (Some ''<tool_calls></tool_calls>'') TOOL_MEMORY_RAM), disable_exact_dsml_tool_replay = False\<rparr>
       [] (Some ''Hi<tool_calls></tool_calls>'') = Some (s', file, n, True) \<and>
     kv_tool_map_load_from_pos \<lparr>tool_mem = tool_memory_zero, disable_exact_dsml_tool_replay = False\<rparr> file None =
       Some (\<lparr>tool_mem = m2, disable_exact_dsml_tool_replay = False\<rparr>, k) \<and>
     mem_rel m2 l2' \<and> (\<exists>src. mem_lookup l2' ''call_1'' = Some (''<tool_calls></tool_calls>'', src))"
proof -
  let ?d = "''<tool_calls></tool_calls>''"
  obtain m where m: "tool_memory_put_locked tool_memory_zero (Some ''call_1'') (Some ?d) TOOL_MEMORY_RAM = Some m"
    "mem_rel m [(''call_1'', ?d, TOOL_MEMORY_RAM)]"
    using put_first [of "''call_1''" ?d TOOL_MEMORY_RAM] by auto
  have st: "seen_before m" "scan_clock m < - 2"
    using put_first_state [OF m(1)] by (simp_all add: word_less_nat_alt)
  have block: "?d \<in> set (dsml_blocks ''Hi<tool_calls></tool_calls>'')" by code_simp
  have rel2: "mem_rel (tool_mem \<lparr>tool_mem = tool_memory_zero, disable_exact_dsml_tool_replay = False\<rparr>) []"
    by (simp add: zero_empty)
  from tool_map_roundtrip [of "\<lparr>tool_mem = m, disable_exact_dsml_tool_replay = False\<rparr>"
      "[(''call_1'', ?d, TOOL_MEMORY_RAM)]" "''Hi<tool_calls></tool_calls>''" _ "[]" 1000, OF _ _ _ _ _ _ _ _ _ rel2]
  show ?thesis
    using m st block
    by (fastforce simp: zero_limits map_entry_ok_def DS4_TOOL_MEMORY_MAX_BYTES_def mem_bytes_def is_wanted_def)
qed

end
