(* ===== verification/KvCache.thy ===== *)
theory KvCache
  imports KvFileFacts Complex_Main "HOL-Library.Signed_Division"
begin

text \<open>
  The KV disk cache of ds4_server.c as a state machine over the files of its directory: scanning,
  eviction, storing the live session, finding the longest stored prefix of a prompt and loading it.

  \<open>files\<close> lists paths with contents, in the order \<open>readdir\<close> enumerates the directory; \<open>kv_env\<close>
  says what the system calls answer (time, whether a file opens, can be created, renamed or removed,
  how large a file may become). The inference engine and its session are used through
  \<open>engine_api\<close>. Eviction scores are C doubles: exact arithmetic with the rounding \<open>rnd\<close> after
  every operation, a parameter. \<open>int\<close> fields are unbounded: lengths and options are far below
  the limit.
\<close>

section \<open>State\<close>

record kv_disk_cache =
  kc_enabled :: bool
  kc_dir :: cstr
  kc_budget_bytes :: u64
  kc_reject_different_quant :: bool
  kc_opt :: kv_cache_options
  kc_continued_last_store_tokens :: int
  kc_entry :: "kv_entry list"

type_synonym files = "(cstr \<times> bytes) list"

record kv_env =
  env_now :: u64
  env_opendir :: bool
  env_fopen :: "cstr \<Rightarrow> bool"
  env_create :: "cstr \<Rightarrow> bool"
  env_unlink :: "cstr \<Rightarrow> bool"
  env_rename :: bool
  env_close :: bool
  env_cap :: nat
  env_pid :: cstr
  env_rnd :: "rat \<Rightarrow> rat"

record 'ses engine_api =
  en_quant_bits :: int
  en_token_text :: "int \<Rightarrow> string"
  en_tokens :: "'ses \<Rightarrow> int list option"
  en_ctx :: "'ses \<Rightarrow> int"
  en_payload_bytes :: "'ses \<Rightarrow> u64"
  en_save :: "'ses \<Rightarrow> bytes \<times> bool"
  en_load :: "'ses \<Rightarrow> bytes \<Rightarrow> u64 \<Rightarrow> 'ses \<times> bytes option"
  en_invalidate :: "'ses \<Rightarrow> 'ses"

record 'ses kv_server = server +
  kv :: kv_disk_cache
  session :: 'ses
  files :: files

definition file_put :: "files \<Rightarrow> cstr \<Rightarrow> bytes \<Rightarrow> files" where
  "file_put fs p c =
     (if p \<in> fst ` set fs then map (\<lambda>x. if fst x = p then (p, c) else x) fs else fs @ [(p, c)])"

definition file_del :: "files \<Rightarrow> cstr \<Rightarrow> files" where
  "file_del fs p = filter (\<lambda>x. fst x \<noteq> p) fs"

definition dir_names :: "files \<Rightarrow> cstr \<Rightarrow> cstr list" where
  \<comment> \<open>the names \<open>readdir\<close> returns\<close>
  "dir_names fs dir =
     map (\<lambda>x. drop (length (path_join dir [])) (fst x)) (filter (\<lambda>x. prefix (path_join dir []) (fst x)) fs)"

section \<open>Scanning the directory\<close>

definition kv_cache_clear :: "kv_disk_cache \<Rightarrow> kv_disk_cache" where
  "kv_cache_clear kc = kc\<lparr>kc_entry := []\<rparr>"

definition kv_cache_push :: "kv_disk_cache \<Rightarrow> kv_entry \<Rightarrow> kv_disk_cache" where
  "kv_cache_push kc e = kc\<lparr>kc_entry := kc_entry kc @ [e]\<rparr>"

definition refresh_step :: "kv_env \<Rightarrow> files \<Rightarrow> kv_disk_cache \<Rightarrow> cstr \<Rightarrow> kv_disk_cache" where
  "refresh_step env fs kc name =
     (case sha_hex_name name of
        None \<Rightarrow> kc
      | Some sha \<Rightarrow>
          let path = path_join (kc_dir kc) name in
          case map_of fs path of
            None \<Rightarrow> kc
          | Some data \<Rightarrow>
              if \<not> env_fopen env path then kc
              else case kv_read_entry_file path sha data of
                     None \<Rightarrow> kc
                   | Some e \<Rightarrow> kv_cache_push kc e)"

definition kv_cache_refresh :: "kv_env \<Rightarrow> files \<Rightarrow> kv_disk_cache \<Rightarrow> kv_disk_cache" where
  "kv_cache_refresh env fs kc =
     (if \<not> kc_enabled kc then kc
      else if \<not> env_opendir env then kv_cache_clear kc
      else foldl (refresh_step env fs) (kv_cache_clear kc) (dir_names fs (kc_dir kc)))"

definition kv_cache_touch_file :: "kv_env \<Rightarrow> files \<Rightarrow> cstr \<Rightarrow> u32 \<Rightarrow> files" where
  "kv_cache_touch_file env fs path hits =
     (case map_of fs path of
        None \<Rightarrow> fs
      | Some data \<Rightarrow>
          if \<not> env_fopen env path then fs
          else case kv_read_header data of
                 None \<Rightarrow> fs
               | Some (e, _, _) \<Rightarrow>
                   file_put fs path
                     (kv_fill_header (ke_quant_bits e) (ke_reason e) (ke_ext_flags e) (ke_tokens e) hits
                        (ke_ctx_size e) (ke_created_at e) (env_now env) (ke_payload_bytes e) @
                      drop KV_CACHE_FIXED_HEADER data))"

definition INT64_MAX :: u64 where "INT64_MAX = 0x7FFFFFFFFFFFFFFF"

definition restore_step ::
  "kv_env \<Rightarrow> stop_list \<Rightarrow> ('ses, 'b) kv_server_scheme \<Rightarrow> cstr \<Rightarrow> ('ses, 'b) kv_server_scheme option" where
  "restore_step env wanted s name =
     (case sha_hex_name name of
        None \<Rightarrow> Some s
      | Some _ \<Rightarrow>
          let path = path_join (kc_dir (kv s)) name in
          case map_of (files s) path of
            None \<Rightarrow> Some s
          | Some data \<Rightarrow>
              if \<not> env_fopen env path then Some s
              else case kv_read_header data of
                     None \<Rightarrow> Some s
                   | Some (hdr, text_bytes, fp) \<Rightarrow>
                       let skip = ucast text_bytes + ke_payload_bytes hdr in
                       if ke_ext_flags hdr AND KV_EXT_TOOL_MAP \<noteq> 0 \<and> skip \<le> INT64_MAX
                       then map_option fst (kv_tool_map_load_from_pos s (drop (unat skip) fp) (Some wanted))
                       else Some s)"

fun restore_loop ::
  "kv_env \<Rightarrow> stop_list \<Rightarrow> ('ses, 'b) kv_server_scheme \<Rightarrow> cstr list \<Rightarrow> ('ses, 'b) kv_server_scheme option" where
  "restore_loop env wanted s [] = Some s"
| "restore_loop env wanted s (name # names) =
     (case restore_step env wanted s name of None \<Rightarrow> None | Some s1 \<Rightarrow> restore_loop env wanted s1 names)"

definition kv_cache_restore_tool_memory_for_messages ::
  "kv_env \<Rightarrow> ('ses, 'b) kv_server_scheme \<Rightarrow> chat_msgs \<Rightarrow> ('ses, 'b) kv_server_scheme option" where
  "kv_cache_restore_tool_memory_for_messages env s msgs =
     (if disable_exact_dsml_tool_replay s \<or> \<not> kc_enabled (kv s) then Some s
      else
        let wanted = collect_tool_call_ids msgs \<lparr>stop_v = [], max_len = 0\<rparr> in
        if stop_v wanted = [] \<or> \<not> env_opendir env then Some s
        else restore_loop env wanted s (dir_names (files s) (kc_dir (kv s))))"

section \<open>Eviction\<close>

definition kv_entry_is_live_continued_prefix :: "kv_entry \<Rightarrow> int list option \<Rightarrow> bool" where
  "kv_entry_is_live_continued_prefix e live =
     (if ke_reason e \<noteq> KV_REASON_CONTINUED then False
      else case live of
             None \<Rightarrow> False
           | Some l \<Rightarrow>
               if sint (ke_tokens e) \<ge> int (length l) then False
               else sha1_tokens_hex l (nat (sint (ke_tokens e))) = ke_sha e)"

definition kv_entry_eviction_score :: "(rat \<Rightarrow> rat) \<Rightarrow> kv_entry \<Rightarrow> int list option \<Rightarrow> rat" where
  "kv_entry_eviction_score rnd e live =
     (if ke_file_size e = 0 then 0
      else
        let tokens = of_nat (unat (ke_tokens e));
            score = rnd (rnd ((of_nat (unat (ke_hits e)) + 1) * tokens) /
                         rnd (of_nat (unat (ke_file_size e))))
        in if kv_entry_is_live_continued_prefix e live
           then
             let depth = rnd (tokens / of_nat (length (the live)));
                 score1 = rnd (score * (if ke_hits e \<noteq> 0 then 1 / 4 else rnd (2 / 100)))
             in rnd (score1 * depth)
           else score)"

text \<open>The index of the victim: lowest score, the least recently used one among equals, the first one
  among equals in that.\<close>

definition victim_step :: "(kv_entry \<Rightarrow> rat) \<Rightarrow> kv_entry list \<Rightarrow> nat \<Rightarrow> nat \<Rightarrow> nat" where
  "victim_step score es victim i =
     (if score (es ! i) < score (es ! victim) \<or>
         (score (es ! i) = score (es ! victim) \<and> ke_last_used (es ! i) < ke_last_used (es ! victim))
      then i else victim)"

definition eviction_victim :: "(kv_entry \<Rightarrow> rat) \<Rightarrow> kv_entry list \<Rightarrow> nat" where
  "eviction_victim score es = foldl (victim_step score es) 0 [1..<length es]"

lemma victim_fold_less:
  "v < n \<Longrightarrow> set is \<subseteq> {..<n} \<Longrightarrow> foldl (victim_step score es) v is < n"
  by (induction "is" arbitrary: v) (auto simp: victim_step_def)

lemma eviction_victim_less: "es \<noteq> [] \<Longrightarrow> eviction_victim score es < length es"
  unfolding eviction_victim_def by (rule victim_fold_less) auto

lemma victim_shorter: "es \<noteq> [] \<Longrightarrow>
    min (length es) (eviction_victim score es) + (length es - Suc (eviction_victim score es)) < length es"
  using eviction_victim_less [of es score] by linarith

function evict_loop ::
  "kv_env \<Rightarrow> (kv_entry \<Rightarrow> rat) \<Rightarrow> u64 \<Rightarrow> kv_entry list \<Rightarrow> files \<Rightarrow> u64 \<Rightarrow> kv_entry list \<times> files" where
  "evict_loop env score budget es fs tot =
     (if tot > budget \<and> es \<noteq> [] then
        let victim = eviction_victim score es;
            e = es ! victim;
            (fs1, tot1) =
              (if env_unlink env (ke_path e) \<and> ke_path e \<in> fst ` set fs
               then (file_del fs (ke_path e), if tot \<ge> ke_file_size e then tot - ke_file_size e else 0)
               else (fs, 0))
        in evict_loop env score budget (take victim es @ drop (victim + 1) es) fs1 tot1
      else (es, fs))"
  by pat_completeness auto
termination
  by (relation "measure (\<lambda>(env, score, budget, es, fs, tot). length es)")
    (auto simp: Let_def victim_shorter split: if_splits)

declare evict_loop.simps [simp del]

definition kv_cache_evict ::
  "kv_env \<Rightarrow> files \<Rightarrow> kv_disk_cache \<Rightarrow> int list option \<Rightarrow> kv_disk_cache \<times> files" where
  "kv_cache_evict env fs kc live =
     (if \<not> kc_enabled kc \<or> kc_budget_bytes kc = 0 then (kc, fs)
      else
        let kc1 = kv_cache_refresh env fs kc;
            tot = sum_list (map ke_file_size (kc_entry kc1));
            (es, fs1) = evict_loop env (\<lambda>e. kv_entry_eviction_score (env_rnd env) e live)
                          (kc_budget_bytes kc1) (kc_entry kc1) fs tot
        in (kc1\<lparr>kc_entry := es\<rparr>, fs1))"

text \<open>\<open>kv_cache_open\<close>, once the directory exists (\<open>made\<close> is the answer of \<open>mkdir_p\<close>).\<close>

definition kv_cache_zero :: kv_disk_cache where
  "kv_cache_zero =
     \<lparr>kc_enabled = False, kc_dir = [], kc_budget_bytes = 0, kc_reject_different_quant = False,
      kc_opt = \<lparr>min_tokens = 0, cold_max_tokens = 0, continued_interval_tokens = 0,
                boundary_trim_tokens = 0, boundary_align_tokens = 0\<rparr>,
      kc_continued_last_store_tokens = 0, kc_entry = []\<rparr>"

definition kv_cache_open ::
  "kv_env \<Rightarrow> bool \<Rightarrow> files \<Rightarrow> cstr option \<Rightarrow> u64 \<Rightarrow> bool \<Rightarrow> kv_cache_options \<Rightarrow> kv_disk_cache \<times> files \<times> bool" where
  "kv_cache_open env made fs dir budget_mb reject opt =
     (case dir of
        None \<Rightarrow> (kv_cache_zero, fs, False)
      | Some d \<Rightarrow>
          if d = [] \<or> \<not> made then (kv_cache_zero, fs, False)
          else
            let mb = (if budget_mb = 0 then 4096 else budget_mb);
                kc = kv_cache_zero\<lparr>kc_enabled := True, kc_dir := d, kc_budget_bytes := mb * 1024 * 1024,
                       kc_reject_different_quant := reject, kc_opt := opt\<rparr>;
                (kc1, fs1) = kv_cache_evict env fs kc None
            in (kc1, fs1, True))"

definition kv_cache_close :: "kv_disk_cache \<Rightarrow> kv_disk_cache" where
  "kv_cache_close kc = kv_cache_zero"

section \<open>Storing\<close>

definition render_tokens_text :: "(int \<Rightarrow> string) \<Rightarrow> int list \<Rightarrow> string" where
  "render_tokens_text token_text tokens = concat (map token_text tokens)"

definition tokens_copy_prefix :: "int list \<Rightarrow> int \<Rightarrow> int list" where
  "tokens_copy_prefix src n = take (nat n) src"

definition kv_cache_store_len :: "kv_disk_cache \<Rightarrow> int \<Rightarrow> int" where
  "kv_cache_store_len kc tokens =
     (let trim = boundary_trim_tokens (kc_opt kc); align = boundary_align_tokens (kc_opt kc) in
      if tokens > min_tokens (kc_opt kc) + trim then
        let stable = tokens - trim;
            stable1 = (if align > 0 then stable - stable smod align else stable)
        in if stable1 \<ge> min_tokens (kc_opt kc) then stable1 else tokens
      else tokens)"

definition kv_cache_existing_compatible ::
  "kv_env \<Rightarrow> files \<Rightarrow> kv_disk_cache \<Rightarrow> cstr \<Rightarrow> int \<Rightarrow> int \<Rightarrow> bool \<times> files" where
  "kv_cache_existing_compatible env fs kc path quant_bits ctx_size =
     (case map_of fs path of
        None \<Rightarrow> (False, fs)
      | Some data \<Rightarrow>
          if \<not> env_fopen env path then (False, fs)
          else case kv_read_entry_file path (replicate 40 CHR ''0'') data of
                 None \<Rightarrow> (False, fs)
               | Some e \<Rightarrow>
                   if (\<not> kc_reject_different_quant kc \<or> ke_quant_bits e = word_of_int quant_bits) \<and>
                      ke_ctx_size e \<le> word_of_int ctx_size
                   then (True, fs)
                   else (False, if env_unlink env path then file_del fs path else fs))"

definition kv_cache_rewrite_tool_map ::
  "kv_env \<Rightarrow> ('ses, 'b) kv_server_scheme \<Rightarrow> cstr \<Rightarrow> cstr \<Rightarrow> ('ses, 'b) kv_server_scheme option" where
  "kv_cache_rewrite_tool_map env s path txt =
     (case tool_memory_count_dsml_in_text s (Some txt) of
        None \<Rightarrow> None
      | Some n \<Rightarrow>
          if n = 0 then Some s
          else case map_of (files s) path of
            None \<Rightarrow> Some s
          | Some data \<Rightarrow>
              if \<not> env_fopen env path then Some s
              else case kv_read_header data of
                None \<Rightarrow> Some s
              | Some (hdr, text_bytes, _) \<Rightarrow>
                  let end' = word_of_nat (KV_CACHE_FIXED_HEADER + 4) + ucast text_bytes + ke_payload_bytes hdr in
                  if \<not> end' \<le> INT64_MAX then Some s
                  else
                    let trunc = take (unat end') data @ replicate (unat end' - length data) 0 in
                    case kv_tool_map_write (env_cap env) s trunc (Some txt) of
                      None \<Rightarrow> None
                    | Some (s1, file, written, ok) \<Rightarrow>
                        let file1 = (if ok \<and> written > 0
                              then kv_fill_header (ke_quant_bits hdr) (ke_reason hdr)
                                     (ke_ext_flags hdr OR KV_EXT_TOOL_MAP) (ke_tokens hdr) (ke_hits hdr)
                                     (ke_ctx_size hdr) (ke_created_at hdr) (env_now env) (ke_payload_bytes hdr) @
                                   drop KV_CACHE_FIXED_HEADER file
                              else file)
                        in Some (s1\<lparr>files := file_put (files s1) path file1\<rparr>))"

text \<open>The file that \<open>kv_cache_store_live_prefix\<close> writes: what is on disk when it stops, and whether
  all of it is.\<close>

definition store_file ::
  "kv_env \<Rightarrow> 'ses engine_api \<Rightarrow> ('ses, 'b) kv_server_scheme \<Rightarrow> bytes \<Rightarrow> string \<Rightarrow>
   (('ses, 'b) kv_server_scheme \<times> bytes \<times> bool) option" where
  "store_file env en s h rendered =
     (let (f1, ok1) = fwrite (env_cap env) [] h;
          (f2, ok2) = (if ok1 then fwrite (env_cap env) f1 (le_put32 (word_of_nat (length rendered))) else (f1, False));
          (f3, ok3) = (if ok2 then fwrite (env_cap env) f2 (bytes_of rendered) else (f2, False))
      in if \<not> ok3 then Some (s, f3, False)
         else
           let (payload, saved) = en_save en (session s);
               (f4, ok4) = fwrite (env_cap env) f3 payload
           in if \<not> (saved \<and> ok4) then Some (s, f4, False)
              else map_option (\<lambda>(s1, f5, _, ok5). (s1, f5, ok5))
                     (kv_tool_map_write (env_cap env) s f4 (Some (c_str rendered))))"

definition kv_cache_store_live_prefix ::
  "kv_env \<Rightarrow> 'ses engine_api \<Rightarrow> ('ses, 'b) kv_server_scheme \<Rightarrow> int list option \<Rightarrow> int \<Rightarrow> cstr \<Rightarrow>
   (('ses, 'b) kv_server_scheme \<times> bool) option" where
  "kv_cache_store_live_prefix env en s tokens store_len reason =
     (let kc = kv s in
      if \<not> kc_enabled kc \<or> tokens = None \<or> store_len < min_tokens (kc_opt kc) then Some (s, False)
      else
        let store_tokens = tokens_copy_prefix (the tokens) store_len;
            sha = sha1_tokens_hex store_tokens (length store_tokens);
            path = kv_path_for_sha (kc_dir kc) sha;
            quant_bits = en_quant_bits en;
            live_tokens = en_tokens en (session s);
            payload_bytes = en_payload_bytes en (session s);
            rendered = render_tokens_text (en_token_text en) store_tokens
        in if quant_bits \<noteq> 2 \<and> quant_bits \<noteq> 4 then Some (s, False)
           else if live_tokens \<noteq> Some store_tokens then Some (s, False)
           else if payload_bytes = 0 then Some (s, False)
           else if length rendered \<ge> 2 ^ 32 then Some (s, False)
           else
             let (compatible, fs1) =
                   kv_cache_existing_compatible env (files s) kc path quant_bits (en_ctx en (session s));
                 s1 = s\<lparr>files := fs1\<rparr>
             in if compatible
                then map_option (\<lambda>s2. (s2, True)) (kv_cache_rewrite_tool_map env s1 path (c_str rendered))
                else
                  let tmp = path @ ''.tmp.'' @ env_pid env in
                  if \<not> env_create env tmp then Some (s1, False)
                  else
                    do {
                      n \<leftarrow> tool_memory_count_dsml_in_text s1 (Some (c_str rendered));
                      let h = kv_fill_header (word_of_int quant_bits) (kv_reason_code (Some reason))
                                (if n > 0 then KV_EXT_TOOL_MAP else 0)
                                (word_of_nat (length store_tokens)) 0
                                (word_of_int (en_ctx en (session s))) (env_now env) (env_now env) payload_bytes;
                      (s2, file, written) \<leftarrow> store_file env en s1 h rendered;
                      let fs2 = file_put (files s2) tmp file;
                      let ok = (written \<and> env_close env \<and> env_rename env);
                      if \<not> ok then
                        Some (s2\<lparr>files := if env_unlink env tmp then file_del fs2 tmp else fs2\<rparr>, False)
                      else
                        let (kc1, fs3) = kv_cache_evict env (file_put (file_del fs2 tmp) path file) kc live_tokens
                        in Some (s2\<lparr>files := fs3, kv := kc1\<rparr>, True)
                    })"

definition kv_cache_store_current ::
  "kv_env \<Rightarrow> 'ses engine_api \<Rightarrow> ('ses, 'b) kv_server_scheme \<Rightarrow> cstr \<Rightarrow> ('ses, 'b) kv_server_scheme option" where
  "kv_cache_store_current env en s reason =
     (case en_tokens en (session s) of
        None \<Rightarrow> Some s
      | Some l \<Rightarrow> map_option fst (kv_cache_store_live_prefix env en s (Some l) (int (length l)) reason))"

definition kv_cache_note_store :: "kv_disk_cache \<Rightarrow> int \<Rightarrow> kv_disk_cache" where
  "kv_cache_note_store kc tokens =
     (if tokens > kc_continued_last_store_tokens kc then kc\<lparr>kc_continued_last_store_tokens := tokens\<rparr> else kc)"

definition kv_cache_maybe_store_continued ::
  "kv_env \<Rightarrow> 'ses engine_api \<Rightarrow> ('ses, 'b) kv_server_scheme \<Rightarrow> ('ses, 'b) kv_server_scheme option" where
  "kv_cache_maybe_store_continued env en s =
     (let kc = kv s in
      if \<not> kc_enabled kc \<or> continued_interval_tokens (kc_opt kc) \<le> 0 then Some s
      else case en_tokens en (session s) of
        None \<Rightarrow> Some s
      | Some l \<Rightarrow>
          let n = int (length l) in
          if n < min_tokens (kc_opt kc) then Some s
          else if n - kc_continued_last_store_tokens kc < continued_interval_tokens (kc_opt kc) then Some s
          else case kv_cache_store_live_prefix env en s (Some l) n ''continued'' of
            None \<Rightarrow> None
          | Some (s1, ok) \<Rightarrow> Some (if ok then s1\<lparr>kv := kv_cache_note_store (kv s1) n\<rparr> else s1))"

section \<open>Finding and loading\<close>

definition find_step ::
  "kv_disk_cache \<Rightarrow> int list \<Rightarrow> int \<Rightarrow> int \<Rightarrow> nat option \<Rightarrow> nat \<Rightarrow> nat option" where
  "find_step kc prompt quant_bits ctx_size best i =
     (let e = kc_entry kc ! i in
      if sint (ke_tokens e) > int (length prompt) then best
      else if sint (ke_tokens e) < min_tokens (kc_opt kc) then best
      else if word_of_int ctx_size < ke_ctx_size e then best
      else if kc_reject_different_quant kc \<and> ke_quant_bits e \<noteq> word_of_int quant_bits then best
      else if (case best of None \<Rightarrow> False | Some b \<Rightarrow> ke_tokens e \<le> ke_tokens (kc_entry kc ! b)) then best
      else if sha1_tokens_hex prompt (nat (sint (ke_tokens e))) = ke_sha e then Some i
      else best)"

definition kv_cache_find_prefix ::
  "kv_env \<Rightarrow> files \<Rightarrow> kv_disk_cache \<Rightarrow> int list \<Rightarrow> int \<Rightarrow> int \<Rightarrow> kv_disk_cache \<times> nat option" where
  "kv_cache_find_prefix env fs kc prompt quant_bits ctx_size =
     (let kc1 = kv_cache_refresh env fs kc in
      (kc1, foldl (find_step kc1 prompt quant_bits ctx_size) None [0..<length (kc_entry kc1)]))"

definition kv_cache_try_load_tokens ::
  "kv_env \<Rightarrow> 'ses engine_api \<Rightarrow> ('ses, 'b) kv_server_scheme \<Rightarrow> int list \<Rightarrow>
   (('ses, 'b) kv_server_scheme \<times> int \<times> cstr option) option" where
  "kv_cache_try_load_tokens env en s prompt =
     (if \<not> kc_enabled (kv s) then Some (s, 0, None)
      else if en_quant_bits en \<noteq> 2 \<and> en_quant_bits en \<noteq> 4 then Some (s, 0, None)
      else
        let (kc, idx) = kv_cache_find_prefix env (files s) (kv s) prompt (en_quant_bits en) (en_ctx en (session s));
            s0 = s\<lparr>kv := kc\<rparr>
        in case idx of
             None \<Rightarrow> Some (s0, 0, None)
           | Some i \<Rightarrow>
               let path = ke_path (kc_entry kc ! i) in
               if \<not> env_fopen env path then Some (s0, 0, None)
               else case map_of (files s) path of
                 None \<Rightarrow> Some (s0, 0, None)
               | Some data \<Rightarrow>
                   case kv_read_header data of
                     None \<Rightarrow> Some (s0\<lparr>session := en_invalidate en (session s)\<rparr>, 0, None)
                   | Some (hdr, text_bytes, fp) \<Rightarrow>
                       case en_load en (session s) (drop (unat text_bytes) fp) (ke_payload_bytes hdr) of
                         (ses, None) \<Rightarrow> Some (s0\<lparr>session := en_invalidate en ses\<rparr>, 0, None)
                       | (ses, Some rest) \<Rightarrow>
                           let s1 = s0\<lparr>session := ses\<rparr>; loaded = sint (ke_tokens hdr) in
                           if \<not> (case en_tokens en ses of
                                   None \<Rightarrow> False
                                 | Some lt \<Rightarrow> int (length lt) = loaded \<and> prefix lt prompt)
                           then Some (s1\<lparr>session := en_invalidate en ses,
                                       files := if env_unlink env path then file_del (files s1) path else files s1\<rparr>, 0, None)
                           else
                             do {
                               s2 \<leftarrow> (if ke_ext_flags hdr AND KV_EXT_TOOL_MAP \<noteq> 0
                                     then map_option fst (kv_tool_map_load_from_pos s1 rest None) else Some s1);
                               if loaded \<le> 0 then Some (s2, loaded, None)
                               else
                                 let s3 = s2\<lparr>kv := (kv s2)\<lparr>kc_continued_last_store_tokens := loaded\<rparr>\<rparr>;
                                     cold = cold_max_tokens (kc_opt (kv s3));
                                     fs = (if cold > 0 \<and> loaded > cold
                                           then (if env_unlink env path then file_del (files s3) path else files s3)
                                           else kv_cache_touch_file env (files s3) path (ke_hits hdr + 1))
                                 in Some (s3\<lparr>files := fs\<rparr>, loaded, Some path)
                             })"

end
