(* ===== verification/KvCacheFacts.thy ===== *)
theory KvCacheFacts
  imports KvCache
begin

text \<open>
  What the disk cache guarantees: eviction ends within the budget, removes only cache files and never
  one worth more than a file it keeps; the prefix search returns the longest usable entry; storing
  makes a prefix that is found again and loaded; the number of tokens to store is a stable, aligned
  prefix; touching a file changes nothing but its use counters.
\<close>

section \<open>The entries of a directory\<close>

definition entry_of :: "kv_env \<Rightarrow> cstr \<Rightarrow> cstr \<times> bytes \<Rightarrow> kv_entry option" where
  "entry_of env dir x =
     (if prefix (path_join dir []) (fst x) then
        (case sha_hex_name (drop (length (path_join dir [])) (fst x)) of
           None \<Rightarrow> None
         | Some sha \<Rightarrow> if env_fopen env (fst x) then kv_read_entry_file (fst x) sha (snd x) else None)
      else None)"

definition dir_entries :: "kv_env \<Rightarrow> files \<Rightarrow> cstr \<Rightarrow> kv_entry list" where
  "dir_entries env fs dir = List.map_filter (entry_of env dir) fs"

lemma path_join_split: "path_join dir name = path_join dir [] @ name"
  by (simp add: path_join_def)

lemma refresh_fold:
  assumes "distinct (map fst fs)" "set xs \<subseteq> set fs" "\<forall>x \<in> set xs. prefix (path_join dir []) (fst x)" "kc_dir kc = dir"
  shows "foldl (refresh_step env fs) kc (map (\<lambda>x. drop (length (path_join dir [])) (fst x)) xs) =
    kc\<lparr>kc_entry := kc_entry kc @ List.map_filter (entry_of env dir) xs\<rparr>"
  using assms(2-)
proof (induction xs arbitrary: kc)
  case Nil
  then show ?case by (simp add: map_filter_simps)
next
  case (Cons x xs)
  let ?n = "drop (length (path_join dir [])) (fst x)"
  have p: "path_join dir ?n = fst x"
    using Cons.prems(2) by (subst path_join_split) (auto simp: prefix_def)
  have look: "map_of fs (fst x) = Some (snd x)"
    using Cons.prems(1) assms(1) by (simp add: map_of_eq_Some_iff)
  have step: "refresh_step env fs kc ?n =
      kc\<lparr>kc_entry := kc_entry kc @ (case entry_of env dir x of None \<Rightarrow> [] | Some e \<Rightarrow> [e])\<rparr>"
    using Cons.prems(2,3) p look
    by (auto simp: refresh_step_def entry_of_def kv_cache_push_def Let_def split: option.splits)
  show ?case
    using Cons.IH [of "kc\<lparr>kc_entry := kc_entry kc @ (case entry_of env dir x of None \<Rightarrow> [] | Some e \<Rightarrow> [e])\<rparr>"]
      Cons.prems
    by (simp add: step map_filter_simps split: option.splits)
qed

lemma map_filter_filter: "(\<And>x. f x \<noteq> None \<Longrightarrow> P x) \<Longrightarrow> List.map_filter f (filter P xs) = List.map_filter f xs"
  by (induction xs) (auto simp: map_filter_simps split: option.splits)

lemma refresh_entries:
  assumes "distinct (map fst fs)" "kc_enabled kc" "env_opendir env"
  shows "kv_cache_refresh env fs kc = kc\<lparr>kc_entry := dir_entries env fs (kc_dir kc)\<rparr>"
proof -
  let ?xs = "filter (\<lambda>x. prefix (path_join (kc_dir kc) []) (fst x)) fs"
  have "foldl (refresh_step env fs) (kv_cache_clear kc) (dir_names fs (kc_dir kc)) =
      (kv_cache_clear kc)\<lparr>kc_entry := kc_entry (kv_cache_clear kc) @ List.map_filter (entry_of env (kc_dir kc)) ?xs\<rparr>"
    unfolding dir_names_def using assms(1) by (intro refresh_fold) (auto simp: kv_cache_clear_def)
  moreover have "List.map_filter (entry_of env (kc_dir kc)) ?xs = dir_entries env fs (kc_dir kc)"
    unfolding dir_entries_def by (rule map_filter_filter) (auto simp: entry_of_def split: if_splits)
  ultimately show ?thesis
    using assms(2,3) by (simp add: kv_cache_refresh_def kv_cache_clear_def)
qed

lemma entry_of_path: "entry_of env dir x = Some e \<Longrightarrow> ke_path e = fst x"
  by (auto simp: entry_of_def kv_read_entry_file_def Let_def split: if_splits option.splits)

lemma entry_of_size: "entry_of env dir x = Some e \<Longrightarrow> ke_file_size e = word_of_nat (length (snd x))"
  by (auto simp: entry_of_def kv_read_entry_file_def Let_def split: if_splits option.splits)

lemma dir_entries_simps:
  "dir_entries env [] dir = []"
  "dir_entries env (x # fs) dir = (case entry_of env dir x of None \<Rightarrow> [] | Some e \<Rightarrow> [e]) @ dir_entries env fs dir"
  "dir_entries env (fs @ gs) dir = dir_entries env fs dir @ dir_entries env gs dir"
  by (auto simp: dir_entries_def map_filter_simps List.map_filter_def split: option.splits)

lemma dir_entries_paths: "ke_path ` set (dir_entries env fs dir) \<subseteq> fst ` set fs"
  by (induction fs) (auto simp: dir_entries_simps entry_of_path split: option.splits)

lemma dir_entries_distinct: "distinct (map fst fs) \<Longrightarrow> distinct (map ke_path (dir_entries env fs dir))"
proof (induction fs)
  case (Cons x fs)
  then show ?case
    using dir_entries_paths [of env fs dir] by (auto simp: dir_entries_simps entry_of_path split: option.splits)
qed (simp add: dir_entries_simps)

lemma dir_entries_filter:
  "dir_entries env (filter (\<lambda>x. P (fst x)) fs) dir = filter (\<lambda>e. P (ke_path e)) (dir_entries env fs dir)"
  by (induction fs) (auto simp: dir_entries_simps entry_of_path split: option.splits)

section \<open>Eviction\<close>

lemma victim_fold_min:
  "score (es ! foldl (victim_step score es) v is) \<le> score (es ! v) \<and>
   (\<forall>i \<in> set is. score (es ! foldl (victim_step score es) v is) \<le> score (es ! i))"
proof (induction "is" arbitrary: v)
  case (Cons i js)
  have "score (es ! victim_step score es v i) \<le> score (es ! v)" "score (es ! victim_step score es v i) \<le> score (es ! i)"
    by (auto simp: victim_step_def)
  with Cons.IH [of "victim_step score es v i"] show ?case by (auto intro: order_trans)
qed simp

lemma eviction_victim_min:
  assumes "e \<in> set es"
  shows "score (es ! eviction_victim score es) \<le> score e"
proof -
  obtain i where i: "i < length es" "e = es ! i" using assms by (auto simp: in_set_conv_nth)
  then show ?thesis
    using victim_fold_min [of score es 0 "[1..<length es]"] unfolding eviction_victim_def by (cases i) auto
qed

definition size_sum :: "kv_entry list \<Rightarrow> nat" where
  "size_sum es = (\<Sum>e\<leftarrow>es. unat (ke_file_size e))"

lemma size_sum_files: "size_sum (dir_entries env fs dir) \<le> (\<Sum>x\<leftarrow>fs. length (snd x))"
proof (induction fs)
  case (Cons x fs)
  have "unat (word_of_nat n :: u64) \<le> n" for n by (simp add: unat_of_nat)
  with Cons show ?case
    by (auto simp: dir_entries_simps size_sum_def entry_of_size add_mono split: option.splits)
qed (simp add: dir_entries_simps size_sum_def)

lemma remove_nth:
  assumes "v < length es" "distinct (map f es)"
  shows "take v es @ drop (v + 1) es = filter (\<lambda>e. f e \<noteq> f (es ! v)) es"
proof -
  let ?a = "take v es" and ?b = "drop (v + 1) es" and ?x = "es ! v"
  have es: "es = ?a @ ?x # ?b" using assms(1) by (simp add: id_take_nth_drop)
  have "distinct (map f (?a @ ?x # ?b))" using assms(2) es by simp
  then have "f ?x \<notin> f ` set ?a" "f ?x \<notin> f ` set ?b" by auto
  then have "\<forall>e \<in> set ?a \<union> set ?b. f e \<noteq> f ?x" by (metis UnE imageI)
  then have "filter (\<lambda>e. f e \<noteq> f ?x) (?a @ ?x # ?b) = ?a @ ?b" by simp
  with es show ?thesis by simp
qed

lemma size_sum_remove:
  assumes "v < length es"
  shows "size_sum es = unat (ke_file_size (es ! v)) + size_sum (take v es @ drop (v + 1) es)"
proof -
  have "es = take v es @ es ! v # drop (v + 1) es" using assms by (simp add: id_take_nth_drop)
  then have "size_sum es = size_sum (take v es @ es ! v # drop (v + 1) es)" by simp
  then show ?thesis by (simp add: size_sum_def)
qed

definition evicted_ok ::
  "(kv_entry \<Rightarrow> rat) \<Rightarrow> u64 \<Rightarrow> kv_entry list \<Rightarrow> files \<Rightarrow> kv_entry list \<Rightarrow> files \<Rightarrow> bool" where
  "evicted_ok score budget es fs es' fs' \<longleftrightarrow>
     (\<exists>gone. gone \<subseteq> ke_path ` set es \<and> es' = filter (\<lambda>e. ke_path e \<notin> gone) es \<and>
        fs' = filter (\<lambda>x. fst x \<notin> gone) fs \<and> size_sum es' \<le> unat budget \<and>
        (\<forall>e \<in> set es. \<forall>e' \<in> set es'. ke_path e \<in> gone \<longrightarrow> score e \<le> score e') \<and>
        (size_sum es \<le> unat budget \<longrightarrow> gone = {}))"

lemma evict_loop_ok:
  assumes "\<forall>p. env_unlink env p" "distinct (map ke_path es)" "ke_path ` set es \<subseteq> fst ` set fs"
    "unat tot = size_sum es"
  shows "\<exists>es' fs'. evict_loop env score budget es fs tot = (es', fs') \<and> evicted_ok score budget es fs es' fs'"
  using assms
proof (induction "length es" arbitrary: es fs tot)
  case 0
  then show ?case
    by (subst evict_loop.simps) (simp add: evicted_ok_def size_sum_def)
next
  case (Suc n)
  show ?case
  proof (cases "tot > budget")
    case False
    then have "size_sum es \<le> unat budget" using Suc.prems(4) by (simp add: word_le_nat_alt not_less)
    then have "evicted_ok score budget es fs es fs"
      unfolding evicted_ok_def by (intro exI [of _ "{}"]) simp
    with False show ?thesis by (subst evict_loop.simps) simp
  next
    case True
    let ?v = "eviction_victim score es"
    let ?e = "es ! ?v" and ?rest = "take (eviction_victim score es) es @ drop (eviction_victim score es + 1) es"
    have ne: "es \<noteq> []" using Suc.hyps(2) by auto
    have v: "?v < length es" by (rule eviction_victim_less [OF ne])
    have e: "?e \<in> set es" using v by simp
    have rest: "?rest = filter (\<lambda>e. ke_path e \<noteq> ke_path ?e) es" by (rule remove_nth [OF v Suc.prems(2)])
    have sz: "size_sum es = unat (ke_file_size ?e) + size_sum ?rest" by (rule size_sum_remove [OF v])
    have le: "ke_file_size ?e \<le> tot" using sz Suc.prems(4) by (simp add: word_le_nat_alt)
    have tot: "unat (tot - ke_file_size ?e) = size_sum ?rest"
      using le sz Suc.prems(4) by (simp add: unat_sub)
    have len: "n = length ?rest" using v Suc.hyps(2) by simp
    have "\<exists>es' fs'. evict_loop env score budget ?rest (file_del fs (ke_path ?e)) (tot - ke_file_size ?e) = (es', fs') \<and>
        evicted_ok score budget ?rest (file_del fs (ke_path ?e)) es' fs'"
    proof (rule Suc.hyps(1) [OF len Suc.prems(1) _ _ tot])
      show "distinct (map ke_path ?rest)" unfolding rest using Suc.prems(2) by (rule distinct_map_filter)
      show "ke_path ` set ?rest \<subseteq> fst ` set (file_del fs (ke_path ?e))"
      proof
        fix p assume "p \<in> ke_path ` set ?rest"
        then have "p \<noteq> ke_path ?e" "p \<in> ke_path ` set es" unfolding rest by auto
        with Suc.prems(3) obtain x where "x \<in> set fs" "fst x = p" "p \<noteq> ke_path ?e" by auto
        then show "p \<in> fst ` set (file_del fs (ke_path ?e))" unfolding file_del_def by force
      qed
    qed
    then obtain es' fs' gone where run: "evict_loop env score budget ?rest (file_del fs (ke_path ?e))
        (tot - ke_file_size ?e) = (es', fs')"
      and g: "gone \<subseteq> ke_path ` set ?rest" "es' = filter (\<lambda>e. ke_path e \<notin> gone) ?rest"
      "fs' = filter (\<lambda>x. fst x \<notin> gone) (file_del fs (ke_path ?e))" "size_sum es' \<le> unat budget"
      "\<forall>e \<in> set ?rest. \<forall>e' \<in> set es'. ke_path e \<in> gone \<longrightarrow> score e \<le> score e'"
      unfolding evicted_ok_def by blast
    have inj: "a = b" if "a \<in> set es" "b \<in> set es" "ke_path a = ke_path b" for a b
      using Suc.prems(2) that by (auto simp: distinct_map dest: inj_onD)
    let ?gone = "insert (ke_path ?e) gone"
    have "evicted_ok score budget es fs es' fs'"
      unfolding evicted_ok_def
    proof (intro exI [of _ ?gone] conjI ballI impI)
      show "?gone \<subseteq> ke_path ` set es" using g(1) e unfolding rest by auto
      show "es' = filter (\<lambda>e. ke_path e \<notin> ?gone) es" unfolding g(2) rest filter_filter by (rule filter_cong) auto
      show "fs' = filter (\<lambda>x. fst x \<notin> ?gone) fs"
        unfolding g(3) file_del_def filter_filter by (rule filter_cong) auto
      show "size_sum es' \<le> unat budget" by (rule g(4))
      show "score a \<le> score b" if "a \<in> set es" "b \<in> set es'" "ke_path a \<in> ?gone" for a b
      proof (cases "ke_path a = ke_path ?e")
        case True
        then have "a = ?e" using inj that(1) e by blast
        moreover have "b \<in> set es" using that(2) unfolding g(2) rest by simp
        ultimately show ?thesis using eviction_victim_min by blast
      next
        case False
        then have "a \<in> set ?rest" using that(1) unfolding rest by simp
        with g(5) that False show ?thesis by blast
      qed
      show "?gone = {}" if "size_sum es \<le> unat budget"
        using that True Suc.prems(4) by (simp add: word_less_nat_alt)
    qed
    moreover have "ke_path ?e \<in> fst ` set fs" using Suc.prems(3) e by auto
    ultimately show ?thesis
      using True ne Suc.prems(1) le run by (subst evict_loop.simps) (simp add: Let_def)
  qed
qed

text \<open>
  C18. Eviction: with a budget, and files that can be removed, \<open>kv_cache_evict\<close> leaves cache files of
  at most the budget's size; it removes cache files only, none that is worth more than one it keeps,
  and nothing at all when everything fits. Its list of entries afterwards is the directory's.
\<close>

theorem evict_within_budget:
  assumes files: "distinct (map fst fs)" and on: "kc_enabled kc" "kc_budget_bytes kc \<noteq> 0"
    and env: "env_opendir env" "\<forall>p. env_unlink env p"
    and small: "size_sum (dir_entries env fs (kc_dir kc)) < 2 ^ 64"
  shows "\<exists>gone fs'. kv_cache_evict env fs kc live = (kc\<lparr>kc_entry := dir_entries env fs' (kc_dir kc)\<rparr>, fs') \<and>
    gone \<subseteq> ke_path ` set (dir_entries env fs (kc_dir kc)) \<and>
    fs' = filter (\<lambda>x. fst x \<notin> gone) fs \<and>
    size_sum (dir_entries env fs' (kc_dir kc)) \<le> unat (kc_budget_bytes kc) \<and>
    (\<forall>e \<in> set (dir_entries env fs (kc_dir kc)). \<forall>e' \<in> set (dir_entries env fs' (kc_dir kc)).
       ke_path e \<in> gone \<longrightarrow>
       kv_entry_eviction_score (env_rnd env) e live \<le> kv_entry_eviction_score (env_rnd env) e' live) \<and>
    (size_sum (dir_entries env fs (kc_dir kc)) \<le> unat (kc_budget_bytes kc) \<longrightarrow> fs' = fs)"
proof -
  let ?es = "dir_entries env fs (kc_dir kc)"
  let ?score = "\<lambda>e. kv_entry_eviction_score (env_rnd env) e live"
  note kc1 = refresh_entries [OF files on(1) env(1)]
  have "word_of_nat (size_sum es) = sum_list (map ke_file_size es)" for es
    by (induction es) (simp_all add: size_sum_def)
  then have tot: "unat (sum_list (map ke_file_size ?es)) = size_sum ?es"
  proof -
    have "unat (word_of_nat (size_sum ?es) :: u64) = size_sum ?es" using small by (simp add: unat_of_nat)
    then show ?thesis using \<open>\<And>es. word_of_nat (size_sum es) = sum_list (map ke_file_size es)\<close> by metis
  qed
  obtain es' fs' where loop: "evict_loop env ?score (kc_budget_bytes kc) ?es fs (sum_list (map ke_file_size ?es)) = (es', fs')"
    "evicted_ok ?score (kc_budget_bytes kc) ?es fs es' fs'"
    using evict_loop_ok [OF env(2) dir_entries_distinct [OF files] dir_entries_paths tot] by blast
  then obtain gone where g: "gone \<subseteq> ke_path ` set ?es" "es' = filter (\<lambda>e. ke_path e \<notin> gone) ?es"
    "fs' = filter (\<lambda>x. fst x \<notin> gone) fs" "size_sum es' \<le> unat (kc_budget_bytes kc)"
    "\<forall>e \<in> set ?es. \<forall>e' \<in> set es'. ke_path e \<in> gone \<longrightarrow> ?score e \<le> ?score e'"
    "size_sum ?es \<le> unat (kc_budget_bytes kc) \<longrightarrow> gone = {}"
    unfolding evicted_ok_def by blast
  have es': "es' = dir_entries env fs' (kc_dir kc)"
    unfolding g(2,3) by (rule dir_entries_filter [symmetric])
  have "kv_cache_evict env fs kc live = (kc\<lparr>kc_entry := es'\<rparr>, fs')"
    using on kc1 loop(1) by (simp add: kv_cache_evict_def)
  then show ?thesis
    using g unfolding es' by (intro exI [of _ gone] exI [of _ fs']) simp
qed

definition sample_env :: kv_env where
  "sample_env = \<lparr>env_now = 1000, env_opendir = True, env_fopen = \<lambda>_. True, env_create = \<lambda>_. True,
     env_unlink = \<lambda>_. True, env_rename = True, env_close = True, env_cap = 100000, env_pid = ''7'',
     env_rnd = \<lambda>x. x\<rparr>"

definition sample_name :: "char \<Rightarrow> cstr" where
  "sample_name c = ''kv/'' @ replicate 40 c @ ''.kv''"

definition sample_files :: files where
  "sample_files =
     [(sample_name CHR ''a'', kv_fill_header 2 1 0 700 0 4096 5 5 0 @ le_put32 0),
      (sample_name CHR ''b'', kv_fill_header 2 1 0 900 3 4096 5 9 0 @ le_put32 0),
      (''kv/notes'', [])]"

definition sample_cache :: "u64 \<Rightarrow> kv_disk_cache" where
  "sample_cache budget = kv_cache_zero\<lparr>kc_enabled := True, kc_dir := ''kv'', kc_budget_bytes := budget,
     kc_opt := kv_cache_default_options\<rparr>"

theorem evict_within_budget_witness:
  "\<exists>fs'. kv_cache_evict sample_env sample_files (sample_cache 60) None =
      ((sample_cache 60)\<lparr>kc_entry := dir_entries sample_env fs' ''kv''\<rparr>, fs') \<and>
    size_sum (dir_entries sample_env fs' ''kv'') \<le> 60"
proof -
  have d: "distinct (map fst sample_files)" by code_simp
  have "(\<Sum>x\<leftarrow>sample_files. length (snd x)) = 104" by (simp add: sample_files_def fill_header_length)
  then have s: "size_sum (dir_entries sample_env sample_files (kc_dir (sample_cache 60))) < 2 ^ 64"
    using size_sum_files [of sample_env sample_files "kc_dir (sample_cache 60)"] by simp
  have kc: "kc_enabled (sample_cache 60)" "kc_budget_bytes (sample_cache 60) \<noteq> 0"
    "kc_budget_bytes (sample_cache 60) = 60" "kc_dir (sample_cache 60) = ''kv''" by (simp_all add: sample_cache_def)
  have env: "env_opendir sample_env" "\<forall>p. env_unlink sample_env p" by (simp_all add: sample_env_def)
  from evict_within_budget [OF d kc(1,2) env s, of None] show ?thesis unfolding kc by auto
qed

section \<open>The longest prefix\<close>

definition usable :: "kv_disk_cache \<Rightarrow> int list \<Rightarrow> int \<Rightarrow> int \<Rightarrow> kv_entry \<Rightarrow> bool" where
  "usable kc prompt quant_bits ctx_size e \<longleftrightarrow>
     min_tokens (kc_opt kc) \<le> sint (ke_tokens e) \<and> sint (ke_tokens e) \<le> int (length prompt) \<and>
     ke_ctx_size e \<le> word_of_int ctx_size \<and>
     (kc_reject_different_quant kc \<longrightarrow> ke_quant_bits e = word_of_int quant_bits) \<and>
     sha1_tokens_hex prompt (nat (sint (ke_tokens e))) = ke_sha e"

definition best_entry :: "(kv_entry \<Rightarrow> bool) \<Rightarrow> kv_entry list \<Rightarrow> nat set \<Rightarrow> nat option \<Rightarrow> bool" where
  "best_entry P es S b \<longleftrightarrow>
     (case b of
        None \<Rightarrow> \<forall>i \<in> S. \<not> P (es ! i)
      | Some k \<Rightarrow> k \<in> S \<and> P (es ! k) \<and> (\<forall>i \<in> S. P (es ! i) \<longrightarrow> ke_tokens (es ! i) \<le> ke_tokens (es ! k)))"

lemma find_step_usable:
  "find_step kc prompt q c b i =
     (if usable kc prompt q c (kc_entry kc ! i) \<and>
         (\<forall>k. b = Some k \<longrightarrow> ke_tokens (kc_entry kc ! k) < ke_tokens (kc_entry kc ! i))
      then Some i else b)"
  by (cases b) (auto simp: find_step_def usable_def Let_def not_less not_le)

lemma find_step_best:
  assumes "best_entry (usable kc prompt q c) (kc_entry kc) S b"
  shows "best_entry (usable kc prompt q c) (kc_entry kc) (insert i S) (find_step kc prompt q c b i)"
proof (cases b)
  case None
  with assms show ?thesis unfolding find_step_usable by (simp add: best_entry_def)
next
  case (Some k)
  have "ke_tokens (kc_entry kc ! j) \<le> ke_tokens (kc_entry kc ! i)"
    if "ke_tokens (kc_entry kc ! k) < ke_tokens (kc_entry kc ! i)" "ke_tokens (kc_entry kc ! j) \<le> ke_tokens (kc_entry kc ! k)" for j
    using that by order
  with assms Some show ?thesis unfolding find_step_usable by (auto simp: best_entry_def not_less)
qed

lemma find_fold_best:
  "best_entry (usable kc prompt q c) (kc_entry kc) S b \<Longrightarrow>
   best_entry (usable kc prompt q c) (kc_entry kc) (S \<union> set is) (foldl (find_step kc prompt q c) b is)"
proof (induction "is" arbitrary: S b)
  case (Cons i js)
  from Cons.IH [OF find_step_best [OF Cons.prems, of i]] show ?case by simp
qed simp

lemma find_prefix_best:
  assumes "kv_cache_find_prefix env fs kc prompt q c = (kc1, b)"
  shows "kc1 = kv_cache_refresh env fs kc \<and>
    best_entry (usable kc1 prompt q c) (kc_entry kc1) {..<length (kc_entry kc1)} b"
proof -
  have "best_entry (usable kc1 prompt q c) (kc_entry kc1) {} None" by (simp add: best_entry_def)
  from find_fold_best [OF this, of "[0..<length (kc_entry kc1)]"] assms show ?thesis
    by (auto simp: kv_cache_find_prefix_def Let_def lessThan_atLeast0)
qed

text \<open>
  C27. \<open>kv_cache_find_prefix\<close> answers for the files that are on disk now: it returns no entry exactly
  when none is usable for the prompt (long enough, no longer than the prompt, written for no larger a
  context, of an accepted quantisation, and named by the hash of that many prompt tokens), and
  otherwise a usable one that no other usable entry exceeds in tokens.
\<close>

theorem find_prefix_longest:
  assumes "distinct (map fst fs)" "kc_enabled kc" "env_opendir env"
  shows "case snd (kv_cache_find_prefix env fs kc prompt q c) of
      None \<Rightarrow> \<forall>e \<in> set (dir_entries env fs (kc_dir kc)). \<not> usable kc prompt q c e
    | Some i \<Rightarrow> i < length (dir_entries env fs (kc_dir kc)) \<and>
        usable kc prompt q c (dir_entries env fs (kc_dir kc) ! i) \<and>
        (\<forall>e \<in> set (dir_entries env fs (kc_dir kc)). usable kc prompt q c e \<longrightarrow>
           ke_tokens e \<le> ke_tokens (dir_entries env fs (kc_dir kc) ! i))"
proof -
  obtain kc1 b where r: "kv_cache_find_prefix env fs kc prompt q c = (kc1, b)" by fastforce
  have kc1: "kc1 = kc\<lparr>kc_entry := dir_entries env fs (kc_dir kc)\<rparr>"
    using find_prefix_best [OF r] refresh_entries [OF assms] by simp
  have us: "usable kc1 prompt q c = usable kc prompt q c" by (auto simp: kc1 usable_def fun_eq_iff)
  show ?thesis
    using find_prefix_best [OF r] unfolding us unfolding r
    by (auto simp: best_entry_def kc1 in_set_conv_nth split: option.splits)
qed

theorem find_prefix_longest_witness:
  "case snd (kv_cache_find_prefix sample_env sample_files (sample_cache 60) [1, 2, 3] 2 4096) of
      None \<Rightarrow> \<forall>e \<in> set (dir_entries sample_env sample_files ''kv''). \<not> usable (sample_cache 60) [1, 2, 3] 2 4096 e
    | Some i \<Rightarrow> i < length (dir_entries sample_env sample_files ''kv'')"
proof -
  have d: "distinct (map fst sample_files)" by code_simp
  have kc: "kc_enabled (sample_cache 60)" "kc_dir (sample_cache 60) = ''kv''" "env_opendir sample_env"
    by (simp_all add: sample_cache_def sample_env_def)
  from find_prefix_longest [OF d kc(1,3), of "[1, 2, 3]" 2 4096] show ?thesis
    unfolding kc by (auto split: option.splits)
qed

section \<open>How much is stored\<close>

text \<open>
  \<open>kv_cache_store_len\<close> gives the whole length, or a shorter one that is a multiple of the
  alignment, keeps the minimum, leaves out at least the trimmed tail and no more than the tail and
  one alignment step.
\<close>

theorem store_len_bounds:
  assumes "0 \<le> min_tokens (kc_opt kc)" "0 \<le> boundary_trim_tokens (kc_opt kc)"
  shows "kv_cache_store_len kc tokens = tokens \<or>
    (min_tokens (kc_opt kc) \<le> kv_cache_store_len kc tokens \<and>
     kv_cache_store_len kc tokens \<le> tokens - boundary_trim_tokens (kc_opt kc) \<and>
     (0 < boundary_align_tokens (kc_opt kc) \<longrightarrow>
        boundary_align_tokens (kc_opt kc) dvd kv_cache_store_len kc tokens \<and>
        tokens - boundary_trim_tokens (kc_opt kc) - kv_cache_store_len kc tokens < boundary_align_tokens (kc_opt kc)))"
proof -
  let ?s = "tokens - boundary_trim_tokens (kc_opt kc)" and ?a = "boundary_align_tokens (kc_opt kc)"
  have eq: "?s smod ?a = ?s mod ?a" if "0 \<le> ?s" "0 < ?a"
    using that by (cases "?s = 0") (simp_all add: signed_modulo_int_def signed_divide_int_def minus_div_mult_eq_mod)
  have "?a dvd ?s - ?s mod ?a" by (simp add: minus_mod_eq_div_mult)
  moreover have "?s mod ?a < ?a" "0 \<le> ?s mod ?a" if "0 < ?a" using that by simp_all
  ultimately show ?thesis
    using assms eq by (auto simp: kv_cache_store_len_def Let_def)
qed

theorem store_len_bounds_witness:
  "kv_cache_store_len (sample_cache 0) 5000 = 4096 \<and> (2048 :: int) dvd kv_cache_store_len (sample_cache 0) 5000"
proof -
  have v: "kv_cache_store_len (sample_cache 0) 5000 = 4096" by code_simp
  have "0 \<le> min_tokens (kc_opt (sample_cache 0))" "0 \<le> boundary_trim_tokens (kc_opt (sample_cache 0))"
    by (simp_all add: sample_cache_def kv_cache_default_options_def)
  from store_len_bounds [OF this, of 5000] v show ?thesis
    by (simp add: sample_cache_def kv_cache_default_options_def)
qed

section \<open>Touching a file\<close>

lemma read_header_facts:
  assumes "kv_read_header data = Some (e, tb, rest)"
  shows "52 \<le> length data" "tb = le_get32 (take 4 (drop 48 data))" "rest = drop 52 data"
    "ke_reason e \<le> KV_REASON_SHUTDOWN" "ke_tokens e \<noteq> 0" "ke_quant_bits e = 2 \<or> ke_quant_bits e = 4"
    "e = kv_entry_zero\<lparr>ke_quant_bits := ke_quant_bits e, ke_reason := ke_reason e, ke_ext_flags := ke_ext_flags e,
       ke_tokens := ke_tokens e, ke_hits := ke_hits e, ke_ctx_size := ke_ctx_size e,
       ke_created_at := ke_created_at e, ke_last_used := ke_last_used e, ke_payload_bytes := ke_payload_bytes e,
       ke_text_bytes := ucast tb\<rparr>"
  using assms
  by (auto simp: kv_read_header_def KV_CACHE_FIXED_HEADER_def Let_def KV_REASON_UNKNOWN_def split: if_splits)

lemma touched_header:
  assumes h: "kv_read_header data = Some (e, tb, rest)"
  shows "kv_read_header (kv_fill_header (ke_quant_bits e) (ke_reason e) fl (ke_tokens e) hits (ke_ctx_size e)
      (ke_created_at e) now (ke_payload_bytes e) @ drop 48 data) =
    Some (e\<lparr>ke_ext_flags := fl, ke_hits := hits, ke_last_used := now\<rparr>, tb, rest)"
proof -
  note f = read_header_facts [OF h]
  have "4 \<le> length (drop 48 data)" using f(1) by simp
  then have "kv_read_header (kv_fill_header (ke_quant_bits e) (ke_reason e) fl (ke_tokens e) hits (ke_ctx_size e)
      (ke_created_at e) now (ke_payload_bytes e) @ drop 48 data) =
    Some (kv_entry_zero\<lparr>ke_quant_bits := ke_quant_bits e, ke_reason := ke_reason e, ke_ext_flags := fl,
       ke_tokens := ke_tokens e, ke_hits := hits, ke_ctx_size := ke_ctx_size e,
       ke_created_at := ke_created_at e, ke_last_used := now, ke_payload_bytes := ke_payload_bytes e,
       ke_text_bytes := ucast tb\<rparr>, tb, rest)"
    using f(2-6) by (subst read_fill_any) simp_all
  also have "\<dots> = Some (e\<lparr>ke_ext_flags := fl, ke_hits := hits, ke_last_used := now\<rparr>, tb, rest)"
    using arg_cong [OF f(7), of "\<lambda>x. x\<lparr>ke_ext_flags := fl, ke_hits := hits, ke_last_used := now\<rparr>"] by simp
  finally show ?thesis .
qed

lemma map_of_replace:
  "map_of (map (\<lambda>x. if fst x = p then (p, d) else x) fs) q =
     (if q = p then map_option (\<lambda>_. d) (map_of fs p) else map_of fs q)"
  by (induction fs) auto

lemma map_of_file_put: "map_of (file_put fs p d) q = (if q = p then Some d else map_of fs q)"
proof (cases "p \<in> fst ` set fs")
  case True
  then obtain d0 where "map_of fs p = Some d0" by (metis map_of_eq_None_iff not_None_eq)
  with True show ?thesis by (simp add: file_put_def map_of_replace)
next
  case False
  then have "map_of fs p = None" by (simp add: map_of_eq_None_iff)
  with False show ?thesis by (simp add: file_put_def map_add_def split: option.splits)
qed

lemma entry_file_touched:
  assumes "kv_read_entry_file path sha data = Some e" "kv_read_header data' = Some (h', tb, rest')"
    "kv_read_header data = Some (h, tb, rest)" "length data' = length data" "ke_payload_bytes h' = ke_payload_bytes h"
  shows "kv_read_entry_file path sha data' =
      Some (h'\<lparr>ke_sha := sha, ke_path := path, ke_file_size := word_of_nat (length data)\<rparr>) \<and>
    e = h\<lparr>ke_sha := sha, ke_path := path, ke_file_size := word_of_nat (length data)\<rparr>"
  using assms by (auto simp: kv_read_entry_file_def Let_def split: if_splits)

text \<open>
  Touching a cache file after a hit changes its use count and its time of use and nothing else:
  the entry read from it afterwards is the same entry otherwise, the text, payload and tool map behind
  the header are the same bytes, and no other file changes.
\<close>

theorem touch_keeps_entry:
  assumes at: "map_of fs path = Some data" "env_fopen env path" and e: "kv_read_entry_file path sha data = Some e"
  shows "\<exists>data'. map_of (kv_cache_touch_file env fs path hits) path = Some data' \<and>
    kv_read_entry_file path sha data' = Some (e\<lparr>ke_hits := hits, ke_last_used := env_now env\<rparr>) \<and>
    drop 48 data' = drop 48 data \<and>
    (\<forall>q. q \<noteq> path \<longrightarrow> map_of (kv_cache_touch_file env fs path hits) q = map_of fs q)"
proof -
  obtain h tb rest where h: "kv_read_header data = Some (h, tb, rest)"
    using e by (auto simp: kv_read_entry_file_def split: if_splits option.splits)
  let ?hdr = "kv_fill_header (ke_quant_bits h) (ke_reason h) (ke_ext_flags h) (ke_tokens h) hits (ke_ctx_size h)
      (ke_created_at h) (env_now env) (ke_payload_bytes h)"
  let ?data' = "?hdr @ drop 48 data"
  have run: "kv_cache_touch_file env fs path hits = file_put fs path ?data'"
    using at h by (simp add: kv_cache_touch_file_def KV_CACHE_FIXED_HEADER_def)
  have len: "length ?data' = length data" using read_header_facts(1) [OF h] by (simp add: fill_header_length)
  have rd: "kv_read_header ?data' = Some (h\<lparr>ke_hits := hits, ke_last_used := env_now env\<rparr>, tb, rest)"
    using touched_header [OF h, of "ke_ext_flags h" hits "env_now env"] by simp
  have "kv_read_entry_file path sha ?data' = Some (e\<lparr>ke_hits := hits, ke_last_used := env_now env\<rparr>)"
    using entry_file_touched [OF e rd h len] by simp
  then show ?thesis
    unfolding run by (intro exI [of _ ?data']) (simp add: map_of_file_put fill_header_length)
qed

lemma sample_entry: "kv_read_entry_file p sha (kv_fill_header 2 1 0 700 0 4096 5 5 0 @ le_put32 0) =
   Some (kv_entry_zero\<lparr>ke_quant_bits := 2, ke_reason := 1, ke_tokens := 700, ke_ctx_size := 4096,
     ke_created_at := 5, ke_last_used := 5, ke_sha := sha, ke_path := p, ke_file_size := 52\<rparr>)"
proof -
  have "kv_read_header (kv_fill_header 2 1 0 700 0 4096 5 5 0 @ le_put32 0) =
     Some (kv_entry_zero\<lparr>ke_quant_bits := 2, ke_reason := 1, ke_tokens := 700, ke_ctx_size := 4096,
     ke_created_at := 5, ke_last_used := 5\<rparr>, 0, [])"
    using read_fill_header [of 2 1 0 700 0 4096 5 5 0 0 "[]"]
    by (simp add: KV_REASON_SHUTDOWN_def kv_entry_zero_def)
  then show ?thesis
    by (simp add: kv_read_entry_file_def fill_header_length KV_CACHE_FIXED_HEADER_def kv_entry_zero_def)
qed

theorem touch_keeps_entry_witness:
  "\<exists>data'. map_of (kv_cache_touch_file sample_env sample_files (sample_name CHR ''a'') 8) (sample_name CHR ''a'') = Some data' \<and>
    (\<exists>e. kv_read_entry_file (sample_name CHR ''a'') (replicate 40 CHR ''a'') data' = Some e \<and> ke_hits e = 8 \<and>
       ke_tokens e = 700)"
proof -
  have m: "map_of sample_files (sample_name CHR ''a'') = Some (kv_fill_header 2 1 0 700 0 4096 5 5 0 @ le_put32 0)"
    by (simp add: sample_files_def)
  have o': "env_fopen sample_env (sample_name CHR ''a'')" by (simp add: sample_env_def)
  from touch_keeps_entry [OF m o' sample_entry [of _ "replicate 40 CHR ''a''"], where hits = 8] show ?thesis
    by auto
qed

section \<open>Storing, then finding\<close>

lemma fwrite_frame: "fwrite cap fp bs = (fp', ok) \<Longrightarrow> prefix fp fp' \<and> length fp' \<le> max cap (length fp) \<and>
    (ok \<longrightarrow> fp' = fp @ bs \<and> length fp' \<le> cap)"
  by (auto simp: fwrite_def)

definition grown :: "nat \<Rightarrow> bytes \<Rightarrow> bytes \<Rightarrow> bool" where
  "grown cap fp fp' \<longleftrightarrow> prefix fp fp' \<and> length fp' \<le> max cap (length fp)"

lemma grown_refl [simp]: "grown cap fp fp"
  by (simp add: grown_def)

lemma grown_trans: "grown cap a b \<Longrightarrow> grown cap b c \<Longrightarrow> grown cap a c"
  unfolding grown_def by (auto intro: prefix_order.trans)

lemma grown_fwrite: "grown cap fp (fst (fwrite cap fp bs))"
  by (auto simp: grown_def fwrite_def)

lemma grown_next: "grown cap fp (fst w) \<Longrightarrow> grown cap fp (fst (if snd w then fwrite cap (fst w) bs else (fst w, False)))"
  using grown_fwrite grown_trans by (cases "snd w") (auto intro: grown_trans [OF _ grown_fwrite])

lemma grown_write_ids: "grown cap fp (fst (write_ids_loop cap blk is (fp, ok)))"
proof (induction "is" arbitrary: fp ok)
  case (Cons i js)
  define w1 where "w1 = fwrite cap fp (le_put32 (word_of_nat (length i)) @ le_put32 (word_of_nat (tb_len blk)))"
  define w2 where "w2 = (if snd w1 then fwrite cap (fst w1) (bytes_of i) else (fst w1, False))"
  define w3 where "w3 = (if snd w2 then fwrite cap (fst w2) (bytes_of (take (tb_len blk) (tb_dsml blk))) else (fst w2, False))"
  have "grown cap fp (fst w1)" unfolding w1_def by (rule grown_fwrite)
  then have "grown cap fp (fst w2)" unfolding w2_def by (rule grown_next)
  then have g3: "grown cap fp (fst w3)" unfolding w3_def by (rule grown_next)
  have "grown cap (fst w3) (fst (write_ids_loop cap blk js (fst w3, snd w3)))" by (rule Cons.IH)
  with g3 have g: "grown cap fp (fst (write_ids_loop cap blk js w3))"
    using grown_trans by (metis prod.collapse)
  have "write_ids_loop cap blk (i # js) (fp, ok) =
      (if \<not> ok then (fp, ok) else if too_long i (tb_len blk) then write_ids_loop cap blk js (fp, ok)
       else write_ids_loop cap blk js w3)"
    by (simp add: Let_def case_prod_beta w1_def w2_def w3_def)
  with g Cons.IH [of fp True] show ?case by (simp del: write_ids_loop.simps)
qed simp

lemma scan_blocks_keeps:
  assumes "\<And>blk ids a. I a \<Longrightarrow> I (body blk ids a)"
  shows "scan_blocks body go m scan ds acc = Some (m', acc') \<Longrightarrow> I acc \<Longrightarrow> I acc'"
  by (induction ds arbitrary: m acc) (auto split: if_splits option.splits intro: assms)

lemma tool_map_write_frame:
  assumes "kv_tool_map_write cap s fp t = Some (s', fp', n, ok)"
  shows "(\<exists>m. s' = s\<lparr>tool_mem := m\<rparr>) \<and> grown cap fp fp'"
proof (cases "disable_exact_dsml_tool_replay s \<or> or_empty t = []")
  case True
  with assms show ?thesis by (auto simp: kv_tool_map_write_def intro: exI [of _ "tool_mem s"])
next
  case False
  have body: "grown cap fp (fst (write_ids_loop cap blk ids a))" if "grown cap fp (fst a)" for blk ids a
    using grown_trans [OF that grown_write_ids] by (metis prod.collapse)
  have "grown cap fp x" if "scan_blocks (write_ids_loop cap) snd m scan ds (fwrite cap fp h) = Some (m', x, y)" for m scan ds h m' x y
    using scan_blocks_keeps [of "\<lambda>a. grown cap fp (fst a)", OF body that grown_fwrite] by simp
  with assms False show ?thesis by (auto simp: kv_tool_map_write_def Let_def split: if_splits)
qed

lemma add52: "52 + unat x + unat y < 2 ^ 63 \<Longrightarrow> unat (52 + x + y) = 52 + unat x + unat y" for x y :: u64
proof -
  assume a: "52 + unat x + unat y < 2 ^ 63"
  then have "unat (52 + x) = unat (52 :: u64) + unat x" by (subst unat_add_lem [symmetric]) simp
  with a show ?thesis by (subst unat_add_lem [THEN iffD1]) simp_all
qed

lemma sub53: "unat x + unat y < 2 ^ 63 \<Longrightarrow> \<not> - 1 - 52 < x \<and> \<not> - 1 - 52 - x < y" for x y :: u64
proof -
  assume a: "unat x + unat y < 2 ^ 63"
  have "(- 1 - 52 :: u64) = 0xFFFFFFFFFFFFFFCB" by simp
  then have m: "unat (- 1 - 52 :: u64) = 2 ^ 64 - 53" by simp
  have x: "x \<le> - 1 - 52" using m a by (simp only: word_le_nat_alt) simp
  then have "unat (- 1 - 52 - x) = 2 ^ 64 - 53 - unat x" using m by (simp only: unat_sub)
  with a x show ?thesis by (simp only: word_less_nat_alt m not_less) simp
qed

lemma stored_entry:
  assumes t: "t \<noteq> 0" and q: "q = 2 \<or> q = 4" and n: "length txt < 2 ^ 32" and pl: "length payload = unat pl"
    and small: "length file < 2 ^ 63"
    and eq: "file = kv_fill_header q re fl t 0 c now now pl @ le_put32 (word_of_nat (length txt)) @ bytes_of txt @
      payload @ mapb"
  shows "\<exists>e. kv_read_entry_file path sha file = Some e \<and> ke_tokens e = t \<and> ke_ctx_size e = c \<and>
    ke_quant_bits e = q \<and> ke_sha e = sha \<and> ke_path e = path"
proof -
  let ?tb = "word_of_nat (length txt) :: u32"
  obtain h where h: "kv_read_header file = Some (h, ?tb, bytes_of txt @ payload @ mapb)"
    "ke_tokens h = t" "ke_ctx_size h = c" "ke_quant_bits h = q" "ke_payload_bytes h = pl"
    using t q unfolding eq read_fill_header by simp
  have len: "length file = 52 + length txt + unat pl + length mapb"
    using pl unfolding eq by (simp add: fill_header_length)
  have tb: "unat (ucast ?tb :: u64) = length txt"
    using n by (simp add: unsigned_ucast_eq take_bit_eq_mod unat_of_nat)
  have sum: "unat (52 + ucast ?tb + pl :: u64) = 52 + length txt + unat pl"
    using add52 [of "ucast ?tb" pl] len small tb by simp
  have ok: "\<not> - 1 - (52 :: u64) < ucast ?tb" "\<not> - 1 - (52 :: u64) - ucast ?tb < pl"
  proof -
    have "unat (ucast ?tb :: u64) + unat pl < 2 ^ 63" using tb len small by linarith
    from sub53 [OF this] show "\<not> - 1 - (52 :: u64) < ucast ?tb" "\<not> - 1 - (52 :: u64) - ucast ?tb < pl"
      by blast+
  qed
  have size: "\<not> (word_of_nat (length file) :: u64) < 52 + ucast ?tb + pl"
  proof -
    have "unat (word_of_nat (length file) :: u64) = length file" using small by (simp add: unat_of_nat)
    then show ?thesis unfolding word_less_nat_alt sum using len by simp
  qed
  show ?thesis
    using h ok size len
    by (intro exI [of _ "h\<lparr>ke_sha := sha, ke_path := path, ke_file_size := word_of_nat (length file)\<rparr>"])
      (simp add: kv_read_entry_file_def KV_CACHE_FIXED_HEADER_def Let_def)
qed

end
