(* ===== verification/KvStore.thy ===== *)
theory KvStore
  imports KvCacheFacts
begin

text \<open>
  Storing and finding again: the file \<open>kv_cache_store_live_prefix\<close> leaves behind has the name of its
  tokens' hash and is read back as a valid entry, so that a later request whose prompt continues these
  tokens finds them, and a restarted server loads them together with the tool calls.
\<close>

section \<open>The name of a stored prefix\<close>

lemma sha1_h_length: "length (sc_h c) = 5 \<Longrightarrow> length (sc_h (sha1_update_loop c p)) = 5"
proof (induction c p rule: sha1_update_loop.induct)
  case (1 c p)
  have t: "length (sha1_transform h b) = 5" for h b
    by (simp add: sha1_transform_def split: prod.splits)
  show ?case
  proof (cases "p = [] \<or> \<not> sc_used c < 64")
    case True
    with 1(2) show ?thesis by (subst sha1_update_loop.simps) simp
  next
    case False
    define n where "n = min (64 - sc_used c) (length p)"
    define c1 where "c1 = c\<lparr>sc_block := take (sc_used c) (sc_block c) @ take n p @ drop (sc_used c + n) (sc_block c),
        sc_used := sc_used c + n\<rparr>"
    define c2 where "c2 = (if sc_used c1 = 64 then c1\<lparr>sc_h := sha1_transform (sc_h c1) (sc_block c1), sc_used := 0\<rparr>
                  else c1)"
    have "length (sc_h c2) = 5" using 1(2) t by (simp add: c2_def c1_def)
    with False have "length (sc_h (sha1_update_loop c2 (drop n p))) = 5"
      by (intro 1(1) [OF _ n_def refl c1_def c2_def])
    moreover have "sha1_update_loop c p = sha1_update_loop c2 (drop n p)"
      using False by (subst sha1_update_loop.simps) (simp add: Let_def n_def c1_def c2_def)
    ultimately show ?thesis by simp
  qed
qed

lemma sha1_update_h_length: "length (sc_h c) = 5 \<Longrightarrow> length (sc_h (sha1_update c p)) = 5"
  by (simp add: sha1_update_def sha1_h_length)

lemma sha1_pad_h_length: "length (sc_h c) = 5 \<Longrightarrow> length (sc_h (sha1_pad fuel c)) = 5"
  by (induction fuel arbitrary: c) (simp_all add: sha1_update_h_length)

lemma sha1_final_length: "length (sc_h c) = 5 \<Longrightarrow> length (sha1_final c) = 20"
  by (simp add: sha1_final_def Let_def length_concat comp_def be_bytes32_def sha1_update_h_length
      sha1_pad_h_length sum_list_triv)

lemma hex_digit_facts: "n < 16 \<Longrightarrow> isxdigit (''0123456789abcdef'' ! n) \<and> tolower (''0123456789abcdef'' ! n) = ''0123456789abcdef'' ! n"
proof -
  have "list_all (\<lambda>n. isxdigit (''0123456789abcdef'' ! n) \<and> tolower (''0123456789abcdef'' ! n) = ''0123456789abcdef'' ! n) [0..<16]"
    by code_simp
  then show "n < 16 \<Longrightarrow> ?thesis" by (simp add: list_all_iff)
qed

lemma hex20_facts: "length bs = 20 \<Longrightarrow> length (hex20 bs) = 40 \<and> list_all isxdigit (hex20 bs) \<and> map tolower (hex20 bs) = hex20 bs"
proof -
  have b: "unat (drop_bit 4 b) < 16" "unat (b AND 15) < 16" for b :: u8
  proof -
    have "unat b < 2 ^ LENGTH(8)" by (rule unsigned_less)
    then have "unat b < 256" by simp
    then show "unat (drop_bit 4 b) < 16" "unat (b AND 15) < 16"
      unfolding byte_nibbles by (simp_all add: less_mult_imp_div_less)
  qed
  have "list_all isxdigit (hex20 bs) \<and> map tolower (hex20 bs) = hex20 bs" for bs
  proof -
    have "list_all isxdigit (concat (map (\<lambda>b. [''0123456789abcdef'' ! unat (drop_bit 4 b), ''0123456789abcdef'' ! unat (b AND 15)]) xs)) \<and>
        map tolower (concat (map (\<lambda>b. [''0123456789abcdef'' ! unat (drop_bit 4 b), ''0123456789abcdef'' ! unat (b AND 15)]) xs)) =
        concat (map (\<lambda>b. [''0123456789abcdef'' ! unat (drop_bit 4 b), ''0123456789abcdef'' ! unat (b AND 15)]) xs)" for xs :: "u8 list"
      by (induction xs) (simp_all add: hex_digit_facts b)
    then show ?thesis unfolding hex20_def by blast
  qed
  moreover assume "length bs = 20"
  then have "length (hex20 bs) = 40" by (simp add: hex20_def length_concat comp_def sum_list_triv)
  ultimately show ?thesis by blast
qed

lemma sha1_tokens_hex_facts:
  "length (sha1_tokens_hex l n) = 40" "list_all isxdigit (sha1_tokens_hex l n)"
  "map tolower (sha1_tokens_hex l n) = sha1_tokens_hex l n"
proof -
  have "length (sc_h (foldl (\<lambda>c v. sha1_update c (le_put32 (word_of_int v))) c xs)) = 5" if "length (sc_h c) = 5" for c xs
    using that by (induction xs arbitrary: c) (simp_all add: sha1_update_h_length)
  then have "length (sha1_final (foldl (\<lambda>c v. sha1_update c (le_put32 (word_of_int v))) sha1_init (take n l))) = 20"
    by (intro sha1_final_length) (simp add: sha1_init_def)
  from hex20_facts [OF this] show "length (sha1_tokens_hex l n) = 40" "list_all isxdigit (sha1_tokens_hex l n)"
    "map tolower (sha1_tokens_hex l n) = sha1_tokens_hex l n" by (simp_all add: sha1_tokens_hex_def)
qed

lemma stored_name: "sha_hex_name (take 40 (sha1_tokens_hex l n) @ ''.kv'') = Some (sha1_tokens_hex l n)"
  using sha1_tokens_hex_facts [of l n] by (simp add: sha_hex_name_def)

lemma entry_of_stored:
  assumes "env_fopen env (kv_path_for_sha dir (sha1_tokens_hex l n))"
  shows "entry_of env dir (kv_path_for_sha dir (sha1_tokens_hex l n), data) =
    kv_read_entry_file (kv_path_for_sha dir (sha1_tokens_hex l n)) (sha1_tokens_hex l n) data"
proof -
  have "kv_path_for_sha dir (sha1_tokens_hex l n) = path_join dir [] @ (take 40 (sha1_tokens_hex l n) @ ''.kv'')"
    unfolding kv_path_for_sha_def by (rule path_join_split)
  with assms show ?thesis unfolding entry_of_def by (simp only: fst_conv snd_conv) (simp add: stored_name)
qed

section \<open>What a store leaves behind\<close>

lemma store_file_ok:
  assumes st: "store_file env en s h rendered = Some (s', file, True)" and save: "en_save en (session s) = (payload, ok)"
  shows "\<exists>mapb m. file = h @ le_put32 (word_of_nat (length rendered)) @ bytes_of rendered @ payload @ mapb \<and>
    length file \<le> env_cap env \<and> s' = s\<lparr>tool_mem := m\<rparr>"
proof -
  let ?cap = "env_cap env"
  obtain f1 ok1 f2 ok2 f3 ok3 f4 ok4 where
    w: "fwrite ?cap [] h = (f1, ok1)" "(if ok1 then fwrite ?cap f1 (le_put32 (word_of_nat (length rendered))) else (f1, False)) = (f2, ok2)"
    "(if ok2 then fwrite ?cap f2 (bytes_of rendered) else (f2, False)) = (f3, ok3)" "fwrite ?cap f3 payload = (f4, ok4)"
    by (metis prod.exhaust)
  have run: "store_file env en s h rendered =
      (if \<not> ok3 then Some (s, f3, False) else if \<not> (ok \<and> ok4) then Some (s, f4, False)
       else map_option (\<lambda>(s1, f5, _, ok5). (s1, f5, ok5)) (kv_tool_map_write ?cap s f4 (Some (c_str rendered))))"
    using w save by (simp add: store_file_def Let_def)
  with st have o3: "ok3" "ok4" by (auto split: if_splits)
  then have o12: "ok2" "ok1" using w by (auto split: if_splits)
  have f4: "f4 = h @ le_put32 (word_of_nat (length rendered)) @ bytes_of rendered @ payload" "length f4 \<le> ?cap"
    using w o3 o12 by (auto dest!: fwrite_frame)
  obtain n where tm: "kv_tool_map_write ?cap s f4 (Some (c_str rendered)) = Some (s', file, n, True)"
    using st o3 unfolding run by (auto split: if_splits)
  from tool_map_write_frame [OF tm] f4 show ?thesis
    by (auto simp: grown_def prefix_def)
qed

lemma evict_fits:
  assumes "distinct (map fst fs)" "kc_enabled kc" "env_opendir env"
    and fits: "kc_budget_bytes kc = 0 \<or> size_sum (dir_entries env fs (kc_dir kc)) \<le> unat (kc_budget_bytes kc)"
  shows "\<exists>es. kv_cache_evict env fs kc live = (kc\<lparr>kc_entry := es\<rparr>, fs)"
proof (cases "kc_budget_bytes kc = 0")
  case True
  then show ?thesis by (intro exI [of _ "kc_entry kc"]) (simp add: kv_cache_evict_def)
next
  case False
  let ?es = "dir_entries env fs (kc_dir kc)"
  have eq: "word_of_nat (size_sum es) = sum_list (map ke_file_size es)" for es
    by (induction es) (simp_all add: size_sum_def)
  have "unat (word_of_nat (size_sum ?es) :: u64) \<le> size_sum ?es" by (simp add: unat_of_nat)
  then have "\<not> kc_budget_bytes kc < sum_list (map ke_file_size ?es)"
    using fits False unfolding eq word_less_nat_alt by linarith
  then show ?thesis
    using False assms(2) refresh_entries [OF assms(1-3)]
    by (intro exI [of _ ?es]) (simp add: kv_cache_evict_def evict_loop.simps [of _ _ _ ?es])
qed

lemma file_del_put: "file_del (file_put fs p d) p = file_del fs p"
proof -
  have "filter (\<lambda>x. fst x \<noteq> p) (map (\<lambda>x. if fst x = p then (p, d) else x) fs) = filter (\<lambda>x. fst x \<noteq> p) fs"
    by (induction fs) auto
  then show ?thesis by (simp add: file_del_def file_put_def)
qed

lemma file_put_new: "p \<notin> fst ` set fs \<Longrightarrow> file_put fs p d = fs @ [(p, d)]"
  by (simp add: file_put_def)

text \<open>The file of a stored prefix.\<close>

definition prefix_file ::
  "'ses engine_api \<Rightarrow> 'ses \<Rightarrow> int list \<Rightarrow> bytes \<Rightarrow> bytes \<Rightarrow> bool" where
  "prefix_file en ses toks payload file \<longleftrightarrow>
     (\<exists>r fl now txt mapb. length txt < 2 ^ 32 \<and>
        file = kv_fill_header (word_of_int (en_quant_bits en)) r fl (word_of_nat (length toks)) 0
                 (word_of_int (en_ctx en ses)) now now (en_payload_bytes en ses) @
               le_put32 (word_of_nat (length txt)) @ bytes_of txt @ payload @ mapb)"

lemma store_effect:
  assumes run: "kv_cache_store_live_prefix env en s (Some toks) n reason = Some (s', True)"
    and st: "st = take (nat n) toks" and path: "path = kv_path_for_sha (kc_dir (kv s)) (sha1_tokens_hex st (length st))"
    and new: "path \<notin> fst ` set (files s)" and dist: "distinct (map fst (files s))" and dir: "env_opendir env"
    and save: "en_save en (session s) = (payload, ok)"
    and fits: "kc_budget_bytes (kv s) = 0 \<or>
      size_sum (dir_entries env (files s) (kc_dir (kv s))) + env_cap env \<le> unat (kc_budget_bytes (kv s))"
  shows "\<exists>fs file es m. s' = s\<lparr>tool_mem := m, files := fs @ [(path, file)], kv := (kv s)\<lparr>kc_entry := es\<rparr>\<rparr> \<and>
    fs = file_del (files s) (path @ ''.tmp.'' @ env_pid env) \<and>
    prefix_file en (session s) st payload file \<and> length file \<le> env_cap env \<and>
    kc_enabled (kv s) \<and> min_tokens (kc_opt (kv s)) \<le> n \<and> (en_quant_bits en = 2 \<or> en_quant_bits en = 4) \<and>
    en_tokens en (session s) = Some st \<and> en_payload_bytes en (session s) \<noteq> 0"
proof -
  let ?kc = "kv s" and ?q = "en_quant_bits en" and ?tmp = "path @ ''.tmp.'' @ env_pid env"
  let ?txt = "render_tokens_text (en_token_text en) st"
  have guards: "kc_enabled ?kc" "min_tokens (kc_opt ?kc) \<le> n" "?q = 2 \<or> ?q = 4"
    "en_tokens en (session s) = Some st" "en_payload_bytes en (session s) \<noteq> 0" "length ?txt < 2 ^ 32"
    using run unfolding kv_cache_store_live_prefix_def tokens_copy_prefix_def Let_def
    by (auto simp: st split: if_splits)
  have comp: "kv_cache_existing_compatible env (files s) ?kc path ?q (en_ctx en (session s)) = (False, files s)"
  proof -
    have "map_of (files s) path = None" using new by (simp add: map_of_eq_None_iff)
    then show ?thesis by (simp add: kv_cache_existing_compatible_def)
  qed
  have s0: "s\<lparr>files := files s\<rparr> = s" by simp
  define rest where "rest = (\<lambda>h. do {
      (s2, file, written) \<leftarrow> store_file env en s h ?txt;
      let fs2 = file_put (files s2) ?tmp file;
      let ok = (written \<and> env_close env \<and> env_rename env);
      if \<not> ok then Some (s2\<lparr>files := if env_unlink env ?tmp then file_del fs2 ?tmp else fs2\<rparr>, False)
      else
        let (kc1, fs3) = kv_cache_evict env (file_put (file_del fs2 ?tmp) path file) ?kc (en_tokens en (session s))
        in Some (s2\<lparr>files := fs3, kv := kc1\<rparr>, True) })"
  define hdr where "hdr = (\<lambda>n :: int. kv_fill_header (word_of_int ?q) (kv_reason_code (Some reason))
      (if n > 0 then KV_EXT_TOOL_MAP else 0) (word_of_nat (length st)) 0
      (word_of_int (en_ctx en (session s))) (env_now env) (env_now env) (en_payload_bytes en (session s)))"
  have gq: "(?q \<noteq> 2 \<and> ?q \<noteq> 4) = False" using guards(3) by auto
  have unf: "kv_cache_store_live_prefix env en s (Some toks) n reason =
      (if \<not> env_create env ?tmp then Some (s, False)
       else Option.bind (tool_memory_count_dsml_in_text s (Some (c_str ?txt))) (\<lambda>n. rest (hdr n)))"
    using guards comp unfolding kv_cache_store_live_prefix_def tokens_copy_prefix_def option.sel st [symmetric]
      Let_def path [symmetric] rest_def hdr_def by (simp add: s0 gq)
  have "\<exists>k. rest (hdr k) = Some (s', True)"
    using run unfolding unf by (auto split: if_splits)
  then have "\<exists>h r fl now. h = kv_fill_header (word_of_int ?q) r fl (word_of_nat (length st)) 0
          (word_of_int (en_ctx en (session s))) now now (en_payload_bytes en (session s)) \<and> rest h = Some (s', True)"
    unfolding hdr_def by blast
  then obtain h r fl now where h: "h = kv_fill_header (word_of_int ?q) r fl (word_of_nat (length st)) 0
          (word_of_int (en_ctx en (session s))) now now (en_payload_bytes en (session s))" "rest h = Some (s', True)" by blast
  obtain s2 "file" where sf: "store_file env en s h ?txt = Some (s2, file, True)"
    and ev: "(let (kc1, fs3) = kv_cache_evict env (file_put (file_del (file_put (files s2) ?tmp file) ?tmp) path file) ?kc (Some st)
        in Some (s2\<lparr>files := fs3, kv := kc1\<rparr>, True)) = Some (s', True)"
    using h(2) guards(4) unfolding rest_def by (auto simp: Let_def split: if_splits)
  obtain mapb m where img: "file = h @ le_put32 (word_of_nat (length ?txt)) @ bytes_of ?txt @ payload @ mapb"
    and cap: "length file \<le> env_cap env" and s2: "s2 = s\<lparr>tool_mem := m\<rparr>"
    using store_file_ok [OF sf save] by blast
  define fs where "fs = file_del (files s) ?tmp"
  have pn: "path \<notin> fst ` set fs" using new unfolding fs_def file_del_def by auto
  have fs3: "file_put (file_del (file_put (files s2) ?tmp file) ?tmp) path file = fs @ [(path, file)]"
    unfolding file_del_put using file_put_new [OF pn] by (simp add: s2 fs_def)
  have dist': "distinct (map fst (fs @ [(path, file)]))"
    using dist pn unfolding fs_def file_del_def by (auto intro: distinct_map_filter)
  have "size_sum (dir_entries env (fs @ [(path, file)]) (kc_dir ?kc)) \<le>
      size_sum (dir_entries env (files s) (kc_dir ?kc)) + env_cap env"
  proof -
    have "size_sum (filter P es) \<le> size_sum es" for P es by (induction es) (auto simp: size_sum_def)
    then have "size_sum (dir_entries env fs (kc_dir ?kc)) \<le> size_sum (dir_entries env (files s) (kc_dir ?kc))"
      unfolding fs_def file_del_def using dir_entries_filter [of env "\<lambda>p. p \<noteq> ?tmp" "files s" "kc_dir ?kc"] by simp
    moreover have "size_sum (dir_entries env [(path, file)] (kc_dir ?kc)) \<le> env_cap env"
      using size_sum_files [of env "[(path, file)]" "kc_dir ?kc"] cap by simp
    moreover have "size_sum (a @ b) = size_sum a + size_sum b" for a b by (simp add: size_sum_def)
    ultimately show ?thesis by (simp add: dir_entries_simps(3))
  qed
  with fits have "kc_budget_bytes ?kc = 0 \<or>
      size_sum (dir_entries env (fs @ [(path, file)]) (kc_dir ?kc)) \<le> unat (kc_budget_bytes ?kc)" by linarith
  from evict_fits [OF dist' guards(1) dir this, of "Some st"] obtain es where
    "kv_cache_evict env (fs @ [(path, file)]) ?kc (Some st) = (?kc\<lparr>kc_entry := es\<rparr>, fs @ [(path, file)])" by blast
  with ev have "s' = s\<lparr>tool_mem := m, files := fs @ [(path, file)], kv := ?kc\<lparr>kc_entry := es\<rparr>\<rparr>"
    unfolding fs3 by (simp add: s2)
  moreover have "prefix_file en (session s) st payload file"
    unfolding prefix_file_def using guards(6) img h(1) by blast
  ultimately show ?thesis using guards cap fs_def by blast
qed

lemma sint_small: "k < 2 ^ 31 \<Longrightarrow> sint (word_of_nat k :: u32) = int k"
proof -
  assume k: "k < 2 ^ 31"
  then have "unat (word_of_nat k :: u32) = k" by (simp add: unat_of_nat)
  then have "uint (word_of_nat k :: u32) = int k" by (metis uint_nat)
  with k show ?thesis by (simp add: sint_uint signed_take_bit_int_eq_self)
qed

lemma sint_nonneg_unat: "0 \<le> sint w \<Longrightarrow> sint w = int (unat w)" for w :: u32
proof -
  assume a: "0 \<le> sint w"
  have s: "sint w = signed_take_bit 31 (uint w)" by (simp add: sint_uint)
  with a have "\<not> bit (uint w) 31" by (simp add: signed_take_bit_nonnegative_iff)
  then have "sint w = take_bit 32 (uint w)" unfolding s signed_take_bit_eq_take_bit_minus by simp
  moreover have "uint w < 2 ^ LENGTH(32)" by (rule unsigned_less)
  ultimately show ?thesis by (simp add: take_bit_int_eq_self)
qed

lemma sint_mono: "v \<le> w \<Longrightarrow> 0 \<le> sint v \<Longrightarrow> 0 \<le> sint w \<Longrightarrow> sint v \<le> sint w" for v w :: u32
  using sint_nonneg_unat [of v] sint_nonneg_unat [of w] by (simp only: word_le_nat_alt of_nat_le_iff)

lemma sha1_prefix: "prefix st prompt \<Longrightarrow> sha1_tokens_hex prompt (length st) = sha1_tokens_hex st (length st)"
  by (auto simp: sha1_tokens_hex_def prefix_def)

lemma prefix_file_entry:
  assumes pf: "prefix_file en ses st payload file" and q: "en_quant_bits en = 2 \<or> en_quant_bits en = 4"
    and n: "st \<noteq> []" "length st < 2 ^ 31" and pl: "length payload = unat (en_payload_bytes en ses)"
    and cap: "length file < 2 ^ 63"
  shows "(\<exists>e. kv_read_entry_file path sha file = Some e \<and> ke_tokens e = word_of_nat (length st) \<and>
      ke_ctx_size e = word_of_int (en_ctx en ses) \<and> ke_quant_bits e = word_of_int (en_quant_bits en) \<and>
      ke_sha e = sha \<and> ke_path e = path) \<and>
    (\<exists>h tb txt mapb. kv_read_header file = Some (h, tb, bytes_of txt @ payload @ mapb) \<and> unat tb = length txt \<and>
      ke_tokens h = word_of_nat (length st) \<and> ke_payload_bytes h = en_payload_bytes en ses)"
proof -
  obtain r fl now "txt" mapb where tl: "length txt < 2 ^ 32" and img: "file = kv_fill_header (word_of_int (en_quant_bits en)) r fl
      (word_of_nat (length st)) 0 (word_of_int (en_ctx en ses)) now now (en_payload_bytes en ses) @
      le_put32 (word_of_nat (length txt)) @ bytes_of txt @ payload @ mapb"
    using pf unfolding prefix_file_def by blast
  have t: "(word_of_nat (length st) :: u32) \<noteq> 0"
    using n by (simp add: word_of_nat_eq_0_iff nat_dvd_not_less)
  have q8: "(word_of_int (en_quant_bits en) :: u8) = 2 \<or> (word_of_int (en_quant_bits en) :: u8) = 4" using q by auto
  have "unat (word_of_nat (length txt) :: u32) = length txt" using tl by (simp add: unat_of_nat)
  with stored_entry [OF t q8 tl pl cap img, of path sha] q8 t show ?thesis
    unfolding img read_fill_header by fastforce
qed

text \<open>The directory after a store: what was there (less a leftover temporary file) and a new entry that
  is usable for every continuation of the stored tokens.\<close>

definition new_entry ::
  "kv_env \<Rightarrow> 'ses engine_api \<Rightarrow> ('ses, 'b) kv_server_scheme \<Rightarrow> int list \<Rightarrow> bytes \<Rightarrow> files \<Rightarrow> files \<Rightarrow> kv_entry \<Rightarrow> bool" where
  "new_entry env en s st payload fs' fs e \<longleftrightarrow>
     (\<exists>file h tb txt mapb. fs' = fs @ [(ke_path e, file)] \<and> distinct (map fst fs') \<and> set fs \<subseteq> set (files s) \<and>
        dir_entries env fs' (kc_dir (kv s)) = dir_entries env fs (kc_dir (kv s)) @ [e] \<and>
        sint (ke_tokens e) = int (length st) \<and> ke_ctx_size e = word_of_int (en_ctx en (session s)) \<and>
        ke_quant_bits e = word_of_int (en_quant_bits en) \<and> ke_sha e = sha1_tokens_hex st (length st) \<and>
        kv_read_header file = Some (h, tb, bytes_of txt @ payload @ mapb) \<and> unat tb = length txt \<and>
        ke_tokens h = ke_tokens e \<and> ke_payload_bytes h = en_payload_bytes en (session s))"

lemma after_store:
  assumes run: "kv_cache_store_live_prefix env en s (Some toks) n reason = Some (s', True)"
    and st: "st = take (nat n) toks"
    and new: "kv_path_for_sha (kc_dir (kv s)) (sha1_tokens_hex st (nat n)) \<notin> fst ` set (files s)"
    and dist: "distinct (map fst (files s))" and env: "env_opendir env" "\<forall>p. env_fopen env p" "env_cap env < 2 ^ 63"
    and save: "en_save en (session s) = (payload, ok)" "length payload = unat (en_payload_bytes en (session s))"
    and fits: "kc_budget_bytes (kv s) = 0 \<or>
      size_sum (dir_entries env (files s) (kc_dir (kv s))) + env_cap env \<le> unat (kc_budget_bytes (kv s))"
    and n: "0 < n" "n \<le> int (length toks)" "n < 2 ^ 31"
  shows "\<exists>fs e es. new_entry env en s st payload (files s') fs e \<and> kv s' = (kv s)\<lparr>kc_entry := es\<rparr> \<and>
    kc_enabled (kv s) \<and> min_tokens (kc_opt (kv s)) \<le> n \<and> (en_quant_bits en = 2 \<or> en_quant_bits en = 4)"
proof -
  have len: "length st = nat n" using n by (simp add: st)
  define path where "path = kv_path_for_sha (kc_dir (kv s)) (sha1_tokens_hex st (length st))"
  have new': "path \<notin> fst ` set (files s)" using new len by (simp add: path_def)
  obtain fs "file" es m where s': "s' = s\<lparr>tool_mem := m, files := fs @ [(path, file)], kv := (kv s)\<lparr>kc_entry := es\<rparr>\<rparr>"
    and fs: "fs = file_del (files s) (path @ ''.tmp.'' @ env_pid env)"
    and pf: "prefix_file en (session s) st payload file" "length file \<le> env_cap env"
    and g: "kc_enabled (kv s)" "min_tokens (kc_opt (kv s)) \<le> n" "en_quant_bits en = 2 \<or> en_quant_bits en = 4"
    using store_effect [OF run st path_def new' dist env(1) save(1) fits] by blast
  have small: "length st < 2 ^ 31" using n len by simp
  have ne: "st \<noteq> []" using n len by (metis length_0_conv nat_0_iff not_le)
  obtain e h tb "txt" mapb where e: "kv_read_entry_file path (sha1_tokens_hex st (length st)) file = Some e"
    "ke_tokens e = word_of_nat (length st)" "ke_ctx_size e = word_of_int (en_ctx en (session s))"
    "ke_quant_bits e = word_of_int (en_quant_bits en)" "ke_sha e = sha1_tokens_hex st (length st)" "ke_path e = path"
    and h: "kv_read_header file = Some (h, tb, bytes_of txt @ payload @ mapb)" "unat tb = length txt"
      "ke_tokens h = word_of_nat (length st)" "ke_payload_bytes h = en_payload_bytes en (session s)"
    using prefix_file_entry [OF pf(1) g(3) ne small save(2), of path "sha1_tokens_hex st (length st)"] pf(2) env(3)
    by auto
  have "distinct (map fst (fs @ [(path, file)]))" "set fs \<subseteq> set (files s)"
    using dist new' unfolding fs file_del_def by (auto intro: distinct_map_filter)
  moreover have "entry_of env (kc_dir (kv s)) (path, file) = Some e"
    unfolding path_def using entry_of_stored [of env "kc_dir (kv s)" st "length st" "file"] env(2) e(1) by (simp add: path_def)
  moreover have "sint (ke_tokens e) = int (length st)" using e(2) sint_small [OF small] by simp
  ultimately have "new_entry env en s st payload (files s') fs e"
    unfolding new_entry_def using e h
    by (intro exI [of _ "file"] exI [of _ h] exI [of _ tb] exI [of _ "txt"] exI [of _ mapb]) (simp add: s' dir_entries_simps)
  with g show ?thesis by (intro exI [of _ fs] exI [of _ e] exI [of _ es]) (simp add: s')
qed

lemma best_entry_None: "best_entry P xs {..<length xs} None \<Longrightarrow> x \<in> set xs \<Longrightarrow> \<not> P x"
  by (auto simp: best_entry_def in_set_conv_nth)

lemma new_entry_usable:
  assumes "new_entry env en s st payload fs' fs e" "prefix st prompt" "min_tokens (kc_opt kc) \<le> int (length st)"
  shows "usable kc prompt (en_quant_bits en) (en_ctx en (session s)) e"
  using assms prefix_length_le [OF assms(2)] sha1_prefix [OF assms(2)] by (auto simp: new_entry_def usable_def)


definition sample_engine :: "nat engine_api" where
  "sample_engine =
     \<lparr>en_quant_bits = 2, en_token_text = \<lambda>_. ''x'', en_tokens = \<lambda>k. if k = 0 then Some [] else Some [1, 2, 3],
      en_ctx = \<lambda>_. 4096, en_payload_bytes = \<lambda>_. 1, en_save = \<lambda>_. ([7], True),
      en_load = \<lambda>k bs n. case bs of [] \<Rightarrow> (0, None) | b # r \<Rightarrow> (1, Some r), en_invalidate = \<lambda>_. 0\<rparr>"

definition sample_server :: "nat \<Rightarrow> files \<Rightarrow> nat kv_server" where
  "sample_server k fs = \<lparr>tool_mem = tool_memory_zero, disable_exact_dsml_tool_replay = True,
     kv = (sample_cache 0)\<lparr>kc_opt := kv_cache_default_options\<lparr>min_tokens := 2\<rparr>\<rparr>, session = k, files = fs\<rparr>"

lemma sample_store:
  "\<exists>s'. kv_cache_store_live_prefix sample_env sample_engine (sample_server 1 []) (Some [1, 2, 3]) 3 ''cold'' = Some (s', True)"
  by (simp add: kv_cache_store_live_prefix_def sample_env_def sample_engine_def sample_server_def sample_cache_def
      tokens_copy_prefix_def kv_cache_existing_compatible_def tool_memory_count_dsml_in_text_def store_file_def
      fwrite_def fill_header_length kv_tool_map_write_def kv_cache_evict_def render_tokens_text_def
      kv_cache_default_options_def Let_def)


section \<open>Loading after a restart\<close>

lemma map_load_total:
  assumes "\<not> disable_exact_dsml_tool_replay s" "mem_rel (tool_mem s) l"
  shows "\<exists>m' l' k. map_load_loop todo s fp wanted n = Some (s\<lparr>tool_mem := m'\<rparr>, k) \<and> mem_rel m' l'"
  using assms
proof (induction todo arbitrary: s fp n l)
  case 0
  then show ?case by (intro exI [of _ "tool_mem s"] exI [of _ l] exI [of _ n]) simp
next
  case (Suc todo)
  have stop: "\<exists>m' l' k. Some (s, n) = Some (s\<lparr>tool_mem := m'\<rparr>, k) \<and> mem_rel m' l'"
    using Suc.prems by (intro exI [of _ "tool_mem s"] exI [of _ l] exI [of _ n]) simp
  have step: "\<exists>m' l' k. (case tool_memory_put_source s (Some i) (Some d) TOOL_MEMORY_DISK of
        None \<Rightarrow> None | Some s1 \<Rightarrow> map_load_loop todo s1 f wanted (n + 1)) = Some (s\<lparr>tool_mem := m'\<rparr>, k) \<and> mem_rel m' l'" for i d f
  proof (cases "i = [] \<or> d = []")
    case True
    then have "tool_memory_put_source s (Some i) (Some d) TOOL_MEMORY_DISK = Some s"
      by (auto simp: tool_memory_put_source_def or_empty_def)
    with Suc show ?thesis by simp
  next
    case False
    obtain m1 l1 where m1: "tool_memory_put_locked (tool_mem s) (Some i) (Some d) TOOL_MEMORY_DISK = Some m1" "mem_rel m1 l1"
      using put_refines [OF Suc.prems(2), of "Some i" "Some d" TOOL_MEMORY_DISK] by blast
    have "tool_memory_put_source s (Some i) (Some d) TOOL_MEMORY_DISK = Some (s\<lparr>tool_mem := m1\<rparr>)"
      using False Suc.prems(1) m1(1) by (simp add: tool_memory_put_source_def or_empty_def)
    moreover have "\<exists>m' l' k. map_load_loop todo (s\<lparr>tool_mem := m1\<rparr>) f wanted (n + 1) =
        Some ((s\<lparr>tool_mem := m1\<rparr>)\<lparr>tool_mem := m'\<rparr>, k) \<and> mem_rel m' l'"
      using Suc.prems(1) m1(2) by (intro Suc.IH) simp_all
    ultimately show ?thesis by simp
  qed
  show ?case
    unfolding map_load_loop.simps Let_def using stop step Suc.IH [OF Suc.prems] by (simp only: split: if_split) blast
qed

lemma map_load_pos_total:
  assumes "mem_rel (tool_mem s) l"
  shows "\<exists>m' l' k. kv_tool_map_load_from_pos s fp wanted = Some (s\<lparr>tool_mem := m'\<rparr>, k) \<and> mem_rel m' l'"
proof -
  have stop: "\<exists>m' l' k. Some (s, 0) = Some (s\<lparr>tool_mem := m'\<rparr>, k) \<and> mem_rel m' l'"
    using assms by (intro exI [of _ "tool_mem s"] exI [of _ l] exI [of _ 0]) simp
  show ?thesis
  proof (cases "disable_exact_dsml_tool_replay s")
    case True
    with stop show ?thesis by (simp add: kv_tool_map_load_from_pos_def)
  next
    case False
    show ?thesis
      unfolding kv_tool_map_load_from_pos_def Let_def using stop map_load_total [OF False assms]
      by (simp only: split: if_split) blast
  qed
qed



end
