(* ===== verification/Requests.thy ===== *)
theory Requests
  imports KvStore Render Anthropic
begin

text \<open>
  The three request parsers of ds4_server.c: \<open>parse_chat_request\<close>, \<open>parse_anthropic_request\<close> and
  \<open>parse_completion_request\<close>, from the JSON body to the rendered prompt and the request record.

  A \<open>char *\<close> variable that owns its string is a \<open>ptr\<close>: after \<open>free(x)\<close> it is \<open>Freed\<close> until it is
  assigned again, and freeing it a second time is undefined behaviour (\<open>Memory_error\<close>). This is
  tracked for the variables \<open>r->model\<close>, \<open>system\<close> and \<open>prompt\<close> of the parsers; inside the values of
  members (messages, tools) a failed parse is None.

  The functions \<open>(float)v\<close> and the tokenizer (\<open>ds4_tokenize_rendered_chat\<close>) are parameters.
\<close>

section \<open>Requests\<close>

datatype 'a ptr = Null | Owned 'a | Freed

datatype req_kind = REQ_CHAT | REQ_COMPLETION

record request =
  r_kind :: req_kind
  r_api :: api_style
  r_prompt :: "int list"
  r_model :: "cstr ptr"
  r_stops :: stop_list
  r_prompt_text :: "cstr option"
  r_tool_orders :: tool_schema_orders
  r_max_tokens :: int
  r_top_k :: int
  r_temperature :: double
  r_top_p :: double
  r_min_p :: double
  r_seed :: u64
  r_stream :: bool
  r_stream_include_usage :: bool
  r_think_mode :: think_mode
  r_has_tools :: bool
  r_tool_replay :: tool_replay_stats

definition request_init :: "req_kind \<Rightarrow> int \<Rightarrow> request" where
  "request_init kind max_tokens =
     \<lparr>r_kind = kind, r_api = API_OPENAI, r_prompt = [], r_model = Owned ''deepseek-v4-flash'',
      r_stops = \<lparr>stop_v = [], max_len = 0\<rparr>, r_prompt_text = None, r_tool_orders = [],
      r_max_tokens = max_tokens, r_top_k = 0, r_temperature = Fin 1, r_top_p = Fin 1, r_min_p = Fin 0,
      r_seed = 0, r_stream = False, r_stream_include_usage = False, r_think_mode = THINK_HIGH,
      r_has_tools = False,
      r_tool_replay = \<lparr>rs_mem = 0, rs_disk = 0, rs_canonical = 0, rs_missing_ids = 0\<rparr>\<rparr>"

text \<open>The local variables of the three parsers.\<close>

record req_state =
  q_req :: request
  q_got_messages :: bool
  q_tool_choice_none :: bool
  q_got_thinking :: bool
  q_thinking_enabled :: bool
  q_effort :: think_mode
  q_msgs :: chat_msgs
  q_system :: "cstr ptr"
  q_schemas :: "cstr option"
  q_prompt :: "cstr ptr"

definition req_state_init :: "request \<Rightarrow> req_state" where
  "req_state_init r =
     \<lparr>q_req = r, q_got_messages = False, q_tool_choice_none = False, q_got_thinking = False,
      q_thinking_enabled = True, q_effort = THINK_HIGH, q_msgs = [], q_system = Null,
      q_schemas = None, q_prompt = Null\<rparr>"

definition upd_req :: "(request \<Rightarrow> request) \<Rightarrow> req_state \<Rightarrow> req_state" where
  "upd_req f q = q\<lparr>q_req := f (q_req q)\<rparr>"

datatype 's req_result = Accepted request 's | Rejected cstr | Memory_error

section \<open>The member loop of a request\<close>

text \<open>Like \<open>json_members\<close>, but a failure keeps the variables as they are when the code jumps to
  \<open>bad\<close>: \<open>Inl q\<close>.\<close>

function req_members ::
  "(cstr \<Rightarrow> 'q \<Rightarrow> string \<Rightarrow> 'q + 'q \<times> string) \<Rightarrow> 'q \<Rightarrow> string \<Rightarrow> 'q + 'q \<times> string" where
  "req_members h q s =
     (if s = [] then Inl q
      else if peek s = CHR ''}'' then Inr (q, s)
      else case json_string s of
             None \<Rightarrow> Inl q
           | Some (key, s1) \<Rightarrow>
               let s2 = json_ws s1 in
               if peek s2 \<noteq> CHR '':'' then Inl q
               else case h key q (tl s2) of
                      Inl q' \<Rightarrow> Inl q'
                    | Inr (q', s3) \<Rightarrow>
                        if length s3 < length s then req_members h q' (json_sep s3) else Inl q')"
  by pat_completeness auto
termination
  by (relation "measure (\<lambda>(h, q, s). length s)") (auto intro: le_less_trans [OF json_sep_length])

declare req_members.simps [simp del]

definition req_object :: "(cstr \<Rightarrow> 'q \<Rightarrow> string \<Rightarrow> 'q + 'q \<times> string) \<Rightarrow> 'q \<Rightarrow> string \<Rightarrow> 'q + 'q \<times> string" where
  "req_object h q body =
     (let p = json_ws body in
      if peek p \<noteq> CHR ''{'' then Inl q else req_members h q (json_ws (tl p)))"

text \<open>\<open>if (!parser(&p, &var)) goto bad;\<close>\<close>

definition read_into :: "'x parser \<Rightarrow> ('x \<Rightarrow> 'q \<Rightarrow> 'q) \<Rightarrow> 'q \<Rightarrow> string \<Rightarrow> 'q + 'q \<times> string" where
  "read_into parse upd q s =
     (case parse s of None \<Rightarrow> Inl q | Some (x, r) \<Rightarrow> Inr (upd x q, r))"

definition skip_into :: "'q \<Rightarrow> string \<Rightarrow> 'q + 'q \<times> string" where
  "skip_into q s = (case json_skip_value s of None \<Rightarrow> Inl q | Some r \<Rightarrow> Inr (q, r))"

section \<open>Members\<close>

definition read_model :: "req_state \<Rightarrow> string \<Rightarrow> req_state + req_state \<times> string" where
  \<comment> \<open>\<open>free(r->model); if (!json_string(&p, &r->model)) goto bad;\<close>\<close>
  "read_model q s =
     read_into json_string (\<lambda>x. upd_req (\<lambda>r. r\<lparr>r_model := Owned x\<rparr>)) (upd_req (\<lambda>r. r\<lparr>r_model := Freed\<rparr>) q) s"

definition read_tools :: "req_state \<Rightarrow> string \<Rightarrow> req_state + req_state \<times> string" where
  "read_tools q s =
     read_into (parse_tools_value (r_tool_orders (q_req q)))
       (\<lambda>(schemas, orders) q1. upd_req (\<lambda>r. r\<lparr>r_tool_orders := orders\<rparr>) (q1\<lparr>q_schemas := Some schemas\<rparr>))
       (q\<lparr>q_schemas := None\<rparr>) s"

definition seed_of :: "double \<Rightarrow> u64" where
  "seed_of v = (if dless (Fin 0) v then cast_u64 v else 0)"

definition chat_member ::
  "(double \<Rightarrow> double) \<Rightarrow> cstr \<Rightarrow> req_state \<Rightarrow> string \<Rightarrow> req_state + req_state \<times> string" where
  "chat_member narrow key q s =
     (if key = ''messages'' then
        read_into (parse_messages []) (\<lambda>m q1. q1\<lparr>q_msgs := m, q_got_messages := True\<rparr>) (q\<lparr>q_msgs := []\<rparr>) s
      else if key = ''tools'' then read_tools q s
      else if key = ''tool_choice'' then
        (let s1 = json_ws s in
         if peek s1 = DQ then read_into json_string (\<lambda>x q1. q1\<lparr>q_tool_choice_none := (x = ''none'')\<rparr>) q s1
         else skip_into q s1)
      else if key = ''model'' then read_model q s
      else if key = ''max_tokens'' \<or> key = ''max_completion_tokens'' then
        read_into json_int (\<lambda>n. upd_req (\<lambda>r. r\<lparr>r_max_tokens := n\<rparr>)) q s
      else if key = ''temperature'' then
        read_into json_number (\<lambda>v. upd_req (\<lambda>r. r\<lparr>r_temperature := narrow v\<rparr>)) q s
      else if key = ''top_p'' then read_into json_number (\<lambda>v. upd_req (\<lambda>r. r\<lparr>r_top_p := narrow v\<rparr>)) q s
      else if key = ''min_p'' then read_into json_number (\<lambda>v. upd_req (\<lambda>r. r\<lparr>r_min_p := narrow v\<rparr>)) q s
      else if key = ''top_k'' then read_into json_int (\<lambda>n. upd_req (\<lambda>r. r\<lparr>r_top_k := n\<rparr>)) q s
      else if key = ''seed'' then read_into json_number (\<lambda>v. upd_req (\<lambda>r. r\<lparr>r_seed := seed_of v\<rparr>)) q s
      else if key = ''stream'' then read_into json_bool (\<lambda>b. upd_req (\<lambda>r. r\<lparr>r_stream := b\<rparr>)) q s
      else if key = ''stream_options'' then
        read_into (parse_stream_options (r_stream_include_usage (q_req q)))
          (\<lambda>b. upd_req (\<lambda>r. r\<lparr>r_stream_include_usage := b\<rparr>)) q s
      else if key = ''thinking'' then
        read_into (parse_thinking_control_value (q_thinking_enabled q))
          (\<lambda>b q1. q1\<lparr>q_thinking_enabled := b, q_got_thinking := True\<rparr>) q s
      else if key = ''reasoning_effort'' then
        read_into (parse_reasoning_effort_value (q_effort q)) (\<lambda>e q1. q1\<lparr>q_effort := e\<rparr>) q s
      else if key = ''think'' then
        read_into json_bool (\<lambda>b q1. q1\<lparr>q_thinking_enabled := b, q_got_thinking := True\<rparr>) q s
      else if key = ''stop'' then
        read_into (parse_stop (r_stops (q_req q))) (\<lambda>x. upd_req (\<lambda>r. r\<lparr>r_stops := x\<rparr>)) q s
      else skip_into q s)"

definition tool_choice_member :: "cstr \<Rightarrow> req_state \<Rightarrow> req_state parser" where
  "tool_choice_member key q s =
     (if key = ''type'' then
        (case json_string s of None \<Rightarrow> None | Some (x, r) \<Rightarrow> Some (q\<lparr>q_tool_choice_none := (x = ''none'')\<rparr>, r))
      else skip_member q s)"

definition anthropic_member ::
  "(double \<Rightarrow> double) \<Rightarrow> cstr \<Rightarrow> req_state \<Rightarrow> string \<Rightarrow> req_state + req_state \<times> string" where
  "anthropic_member narrow key q s =
     (if key = ''messages'' then
        read_into (parse_anthropic_messages []) (\<lambda>m q1. q1\<lparr>q_msgs := m, q_got_messages := True\<rparr>) (q\<lparr>q_msgs := []\<rparr>) s
      else if key = ''system'' then
        read_into parse_anthropic_system (\<lambda>x q1. q1\<lparr>q_system := Owned x\<rparr>)
          (q\<lparr>q_system := (if q_system q = Null then Null else Freed)\<rparr>) s
      else if key = ''tools'' then read_tools q s
      else if key = ''tool_choice'' then
        (let s1 = json_ws s in
         if peek s1 = CHR ''{'' then
           read_into (json_members tool_choice_member q) (\<lambda>q1 _. q1) q (json_ws (tl s1))
         else skip_into q s1)
      else if key = ''model'' then read_model q s
      else if key = ''max_tokens'' then read_into json_int (\<lambda>n. upd_req (\<lambda>r. r\<lparr>r_max_tokens := n\<rparr>)) q s
      else if key = ''temperature'' then
        read_into json_number (\<lambda>v. upd_req (\<lambda>r. r\<lparr>r_temperature := narrow v\<rparr>)) q s
      else if key = ''top_p'' then read_into json_number (\<lambda>v. upd_req (\<lambda>r. r\<lparr>r_top_p := narrow v\<rparr>)) q s
      else if key = ''top_k'' then read_into json_int (\<lambda>n. upd_req (\<lambda>r. r\<lparr>r_top_k := n\<rparr>)) q s
      else if key = ''stream'' then read_into json_bool (\<lambda>b. upd_req (\<lambda>r. r\<lparr>r_stream := b\<rparr>)) q s
      else if key = ''stop_sequences'' then
        read_into (parse_stop (r_stops (q_req q))) (\<lambda>x. upd_req (\<lambda>r. r\<lparr>r_stops := x\<rparr>)) q s
      else if key = ''thinking'' then
        read_into (parse_thinking_control_value (q_thinking_enabled q))
          (\<lambda>b q1. q1\<lparr>q_thinking_enabled := b, q_got_thinking := True\<rparr>) q s
      else if key = ''output_config'' then
        read_into (parse_output_config_effort (q_effort q)) (\<lambda>e q1. q1\<lparr>q_effort := e\<rparr>) q s
      else if key = ''reasoning_effort'' then
        read_into (parse_reasoning_effort_value (q_effort q)) (\<lambda>e q1. q1\<lparr>q_effort := e\<rparr>) q s
      else skip_into q s)"

text \<open>\<open>parse_prompt\<close>: on failure, what \<open>*out\<close> was set to before it failed, if it was.\<close>

function prompt_tail :: "string \<Rightarrow> string option" where
  \<comment> \<open>the loop over the remaining elements, and the closing bracket\<close>
  "prompt_tail p =
     (if p \<noteq> [] \<and> peek p \<noteq> CHR '']'' then
        (let p1 = json_ws p in
         if peek p1 = CHR '','' then
           (case json_skip_value (tl p1) of
              None \<Rightarrow> None
            | Some p2 \<Rightarrow> if length p2 < length p then prompt_tail p2 else None)
         else if peek p1 = CHR '']'' then Some (tl p1) else None)
      else if peek p = CHR '']'' then Some (tl p) else None)"
  by pat_completeness auto
termination
  by (relation "measure length") auto

declare prompt_tail.simps [simp del]

definition parse_prompt :: "string \<Rightarrow> cstr option + cstr \<times> string" where
  "parse_prompt s0 =
     (let s = json_ws s0 in
      if peek s = DQ then (case json_string s of None \<Rightarrow> Inl None | Some x \<Rightarrow> Inr x)
      else if peek s \<noteq> CHR ''['' then (case json_skip_value s of None \<Rightarrow> Inl None | Some r \<Rightarrow> Inr ([], r))
      else
        let s1 = json_ws (tl s);
            first = (if peek s1 = DQ then (case json_string s1 of None \<Rightarrow> Inl None | Some x \<Rightarrow> Inr x)
                     else if s1 \<noteq> [] \<and> peek s1 \<noteq> CHR '']'' then
                       (case json_skip_value s1 of None \<Rightarrow> Inl (Some []) | Some r \<Rightarrow> Inr ([], r))
                     else Inr ([], s1))
        in case first of
             Inl w \<Rightarrow> Inl w
           | Inr (x, r) \<Rightarrow> (case prompt_tail r of None \<Rightarrow> Inl (Some x) | Some r' \<Rightarrow> Inr (x, r')))"

definition read_prompt :: "req_state \<Rightarrow> string \<Rightarrow> req_state + req_state \<times> string" where
  "read_prompt q s =
     (case parse_prompt s of
        Inl None \<Rightarrow> Inl (q\<lparr>q_prompt := (if q_prompt q = Null then Null else Freed)\<rparr>)
      | Inl (Some x) \<Rightarrow> Inl (q\<lparr>q_prompt := Owned x\<rparr>)
      | Inr (x, r) \<Rightarrow> Inr (q\<lparr>q_prompt := Owned x\<rparr>, r))"

definition completion_member ::
  "(double \<Rightarrow> double) \<Rightarrow> cstr \<Rightarrow> req_state \<Rightarrow> string \<Rightarrow> req_state + req_state \<times> string" where
  "completion_member narrow key q s =
     (if key = ''prompt'' then read_prompt q s
      else if key = ''model'' then read_model q s
      else if key = ''max_tokens'' then read_into json_int (\<lambda>n. upd_req (\<lambda>r. r\<lparr>r_max_tokens := n\<rparr>)) q s
      else if key = ''temperature'' then
        read_into json_number (\<lambda>v. upd_req (\<lambda>r. r\<lparr>r_temperature := narrow v\<rparr>)) q s
      else if key = ''top_p'' then read_into json_number (\<lambda>v. upd_req (\<lambda>r. r\<lparr>r_top_p := narrow v\<rparr>)) q s
      else if key = ''min_p'' then read_into json_number (\<lambda>v. upd_req (\<lambda>r. r\<lparr>r_min_p := narrow v\<rparr>)) q s
      else if key = ''top_k'' then read_into json_int (\<lambda>n. upd_req (\<lambda>r. r\<lparr>r_top_k := n\<rparr>)) q s
      else if key = ''seed'' then read_into json_number (\<lambda>v. upd_req (\<lambda>r. r\<lparr>r_seed := seed_of v\<rparr>)) q s
      else if key = ''stream'' then read_into json_bool (\<lambda>b. upd_req (\<lambda>r. r\<lparr>r_stream := b\<rparr>)) q s
      else if key = ''stream_options'' then
        read_into (parse_stream_options (r_stream_include_usage (q_req q)))
          (\<lambda>b. upd_req (\<lambda>r. r\<lparr>r_stream_include_usage := b\<rparr>)) q s
      else if key = ''thinking'' then
        read_into (parse_thinking_control_value (q_thinking_enabled q))
          (\<lambda>b q1. q1\<lparr>q_thinking_enabled := b, q_got_thinking := True\<rparr>) q s
      else if key = ''reasoning_effort'' then
        read_into (parse_reasoning_effort_value (q_effort q)) (\<lambda>e q1. q1\<lparr>q_effort := e\<rparr>) q s
      else if key = ''think'' then
        read_into json_bool (\<lambda>b q1. q1\<lparr>q_thinking_enabled := b, q_got_thinking := True\<rparr>) q s
      else if key = ''stop'' then
        read_into (parse_stop (r_stops (q_req q))) (\<lambda>x. upd_req (\<lambda>r. r\<lparr>r_stops := x\<rparr>)) q s
      else skip_into q s)"

section \<open>The request parsers\<close>

text \<open>Freeing the variables of a request that is refused.\<close>

definition refuse :: "req_state \<Rightarrow> cstr \<Rightarrow> 's req_result" where
  "refuse q err =
     (if r_model (q_req q) = Freed \<or> q_system q = Freed \<or> q_prompt q = Freed then Memory_error
      else Rejected err)"

definition model_name :: "req_state \<Rightarrow> cstr" where
  "model_name q = (case r_model (q_req q) of Owned m \<Rightarrow> m | _ \<Rightarrow> [])"

definition choose_think_mode :: "req_state \<Rightarrow> int \<Rightarrow> think_mode" where
  "choose_think_mode q ctx_size =
     (let e0 = q_thinking_enabled q;
          e1 = (if \<not> q_got_thinking q \<and> model_alias_disables_thinking (model_name q) then False else e0);
          e2 = (if \<not> q_got_thinking q \<and> model_alias_enables_thinking (model_name q) then True else e1)
      in ds4_think_mode_for_context (think_mode_from_enabled e2 (q_effort q)) ctx_size)"

text \<open>What the two chat parsers do once the body is read.\<close>

definition finish_chat ::
  "kv_env \<Rightarrow> (cstr \<Rightarrow> int list) \<Rightarrow> ('ses, 'b) kv_server_scheme \<Rightarrow> int \<Rightarrow> req_state \<Rightarrow>
   ('ses, 'b) kv_server_scheme req_result" where
  "finish_chat env tokenize s ctx_size q =
     (let has_tools = (q_schemas q \<noteq> None \<and> q_schemas q \<noteq> Some [] \<and> \<not> q_tool_choice_none q);
          mode = choose_think_mode q ctx_size
      in case kv_cache_restore_tool_memory_for_messages env s (q_msgs q) of
           None \<Rightarrow> Memory_error
         | Some s1 \<Rightarrow>
             (case tool_memory_attach_to_messages s1 (q_msgs q) (r_tool_replay (q_req q)) of
                None \<Rightarrow> Memory_error
              | Some (s2, msgs, stats) \<Rightarrow>
                  let prompt_text = render_chat_prompt_text msgs (if has_tools then q_schemas q else None) mode in
                  Accepted ((q_req q)\<lparr>r_has_tools := has_tools, r_think_mode := mode, r_tool_replay := stats,
                              r_prompt_text := Some prompt_text, r_prompt := tokenize prompt_text\<rparr>) s2))"

definition parse_chat_request ::
  "(double \<Rightarrow> double) \<Rightarrow> kv_env \<Rightarrow> (cstr \<Rightarrow> int list) \<Rightarrow> ('ses, 'b) kv_server_scheme \<Rightarrow> cstr \<Rightarrow> int \<Rightarrow> int \<Rightarrow>
   ('ses, 'b) kv_server_scheme req_result" where
  "parse_chat_request narrow env tokenize s body def_tokens ctx_size =
     (case req_object (chat_member narrow) (req_state_init (request_init REQ_CHAT def_tokens)) body of
        Inl q \<Rightarrow> refuse q ''invalid JSON request''
      | Inr (q, _) \<Rightarrow>
          if \<not> q_got_messages q then refuse q ''missing messages''
          else finish_chat env tokenize s ctx_size q)"

definition parse_anthropic_request ::
  "(double \<Rightarrow> double) \<Rightarrow> kv_env \<Rightarrow> (cstr \<Rightarrow> int list) \<Rightarrow> ('ses, 'b) kv_server_scheme \<Rightarrow> cstr \<Rightarrow> int \<Rightarrow> int \<Rightarrow>
   ('ses, 'b) kv_server_scheme req_result" where
  "parse_anthropic_request narrow env tokenize s body def_tokens ctx_size =
     (case req_object (anthropic_member narrow)
             (req_state_init ((request_init REQ_CHAT def_tokens)\<lparr>r_api := API_ANTHROPIC\<rparr>)) body of
        Inl q \<Rightarrow> refuse q ''invalid JSON request''
      | Inr (q, _) \<Rightarrow>
          if \<not> q_got_messages q then refuse q ''missing messages''
          else
            let q1 = (case q_system q of
                        Owned sys \<Rightarrow>
                          if sys \<noteq> [] then
                            q\<lparr>q_msgs := chat_msgs_push (q_msgs q)
                                 (chat_msg_zero\<lparr>role := Some ''system'', content := Some sys\<rparr>),
                              q_system := Null\<rparr>
                          else q
                      | _ \<Rightarrow> q)
            in finish_chat env tokenize s ctx_size q1)"

definition completion_prompt_text :: "think_mode \<Rightarrow> cstr \<Rightarrow> cstr" where
  "completion_prompt_text mode prompt =
     BOS @ (if mode = THINK_MAX then ds4_think_max_prefix else []) @
     ''You are a helpful assistant'' @ USER_TAG @ prompt @ ASSISTANT_TAG @
     (if ds4_think_mode_enabled mode then ''<think>'' else ''</think>'')"

definition parse_completion_request ::
  "(double \<Rightarrow> double) \<Rightarrow> (cstr \<Rightarrow> int list) \<Rightarrow> 's \<Rightarrow> cstr \<Rightarrow> int \<Rightarrow> int \<Rightarrow> 's req_result" where
  "parse_completion_request narrow tokenize s body def_tokens ctx_size =
     (case req_object (completion_member narrow) (req_state_init (request_init REQ_COMPLETION def_tokens)) body of
        Inl q \<Rightarrow> refuse q ''invalid JSON request''
      | Inr (q, _) \<Rightarrow>
          (case q_prompt q of
             Owned prompt \<Rightarrow>
               let mode = choose_think_mode q ctx_size;
                   prompt_text = completion_prompt_text mode prompt
               in Accepted ((q_req q)\<lparr>r_think_mode := mode, r_prompt_text := Some prompt_text,
                              r_prompt := tokenize prompt_text\<rparr>) s
           | _ \<Rightarrow> refuse q ''missing prompt''))"

end
