(* ===== verification/MessageFacts.thy ===== *)
theory MessageFacts
  imports Anthropic
begin

text \<open>
  Every handler of the message parsers only moves the pointer forward: interpretations of
  \<open>member_handler\<close> and \<open>elem_handler\<close>, from the innermost object outwards. They give each nested
  loop the equation of the C loop, without the test that the pointer moved, and each parser the
  fact that what it leaves is a suffix of what it was given.
\<close>

lemma moves_object: "peek s = CHR ''{'' \<Longrightarrow> suffix r (json_ws (tl s)) \<Longrightarrow> moves s r"
  by (rule moves_behind) auto

lemma json_content_suffix [parser_suffix]: "json_content s = Some (b, r) \<Longrightarrow> suffix r s"
  by (auto simp: json_content_def Let_def split: option.splits if_splits
           intro: ws_suffix_trans behind_suffix json_string_suffix json_lit_suffix json_skip_value_suffix
             content_elem.elems_suffix)

text \<open>A member that is read with a parser and stored.\<close>

lemma stored_member:
  "(case v of None \<Rightarrow> None | Some (x, r) \<Rightarrow> Some (f x, r)) = Some (y, r') \<longleftrightarrow> (\<exists>x. v = Some (x, r') \<and> f x = y)"
  by (cases v) auto

lemmas member_cases = option.splits if_splits prod.splits

section \<open>OpenAI messages\<close>

interpretation function_call: member_handler function_call_member
  by unfold_locales
     (auto simp: function_call_member_def Let_def split: member_cases
           intro: parser_suffix ws_suffix_trans)

lemma parse_function_call_suffix [parser_suffix]: "parse_function_call tc s = Some (tc', r) \<Longrightarrow> suffix r s"
  by (auto simp: parse_function_call_def Let_def split: if_splits
           intro: behind_suffix function_call.members_suffix)

interpretation tool_call: member_handler tool_call_member
  by unfold_locales
     (auto simp: tool_call_member_def split: member_cases intro: parser_suffix)

interpretation tool_calls: elem_handler tool_calls_elem
  by unfold_locales
     (auto simp: tool_calls_elem_def split: member_cases intro: moves_object tool_call.members_suffix)

lemma parse_tool_calls_value_suffix [parser_suffix]: "parse_tool_calls_value cs s = Some (cs', r) \<Longrightarrow> suffix r s"
  by (auto simp: parse_tool_calls_value_def Let_def split: member_cases
           intro: ws_suffix_trans behind_suffix json_lit_suffix tool_calls.elems_suffix)

interpretation message: member_handler message_member
  by unfold_locales
     (simp add: message_member_def stored_member split: if_splits; (elim exE conjE)?; erule parser_suffix)

interpretation messages: elem_handler messages_elem
  by unfold_locales
     (auto simp: messages_elem_def split: member_cases intro: moves_object message.members_suffix)

lemma parse_messages_suffix [parser_suffix]: "parse_messages ms s = Some (ms', r) \<Longrightarrow> suffix r s"
  by (auto simp: parse_messages_def Let_def split: if_splits intro: behind_suffix messages.elems_suffix)

interpretation schema_order: member_handler schema_order_member
  by unfold_locales
     (auto simp: schema_order_member_def split: member_cases intro: parser_suffix)

interpretation tools: elem_handler tools_elem
  by unfold_locales
     (auto simp: tools_elem_def Let_def split: member_cases intro: json_raw_value_moves)

lemma parse_tools_value_suffix [parser_suffix]: "parse_tools_value os s = Some (x, r) \<Longrightarrow> suffix r s"
  by (cases x) (auto simp: parse_tools_value_def Let_def split: member_cases
           intro: ws_suffix_trans behind_suffix json_lit_suffix tools.elems_suffix)

section \<open>Anthropic messages\<close>

interpretation content_block: member_handler content_block_member
  by unfold_locales
     (simp add: content_block_member_def stored_member split: if_splits; (elim exE conjE)?; erule parser_suffix)

lemma parse_anthropic_content_block_moves:
  "parse_anthropic_content_block rl msg s = Some (msg', r) \<Longrightarrow> moves s r"
  by (auto simp: parse_anthropic_content_block_def split: member_cases
           intro: moves_object content_block.members_suffix)

interpretation anthropic_content: elem_handler anthropic_content_elem
  by unfold_locales
     (auto simp: anthropic_content_elem_def split: member_cases
           intro: json_string_moves parse_anthropic_content_block_moves skip_member_moves)

lemma parse_anthropic_content_suffix [parser_suffix]:
  "parse_anthropic_content msg s = Some (msg', r) \<Longrightarrow> suffix r s"
  by (auto simp: parse_anthropic_content_def Let_def split: member_cases
           intro: ws_suffix_trans behind_suffix json_lit_suffix json_string_suffix skip_member_suffix
             anthropic_content.elems_suffix)

interpretation anthropic_message: member_handler anthropic_message_member
  by unfold_locales
     (auto simp: anthropic_message_member_def split: member_cases intro: parser_suffix)

interpretation anthropic_messages: elem_handler anthropic_messages_elem
  by unfold_locales
     (auto simp: anthropic_messages_elem_def split: member_cases
           intro: moves_object anthropic_message.members_suffix)

lemma parse_anthropic_messages_suffix [parser_suffix]:
  "parse_anthropic_messages ms s = Some (ms', r) \<Longrightarrow> suffix r s"
  by (auto simp: parse_anthropic_messages_def Let_def split: if_splits
           intro: behind_suffix anthropic_messages.elems_suffix)

interpretation anthropic_system_obj: member_handler anthropic_system_member
  by unfold_locales
     (auto simp: anthropic_system_member_def split: member_cases intro: parser_suffix)

interpretation anthropic_system: elem_handler anthropic_system_elem
  by unfold_locales
     (auto simp: anthropic_system_elem_def parse_anthropic_system_object_def split: member_cases
           intro: json_string_moves skip_member_moves moves_object anthropic_system_obj.members_suffix)

lemma parse_anthropic_system_suffix [parser_suffix]: "parse_anthropic_system s = Some (x, r) \<Longrightarrow> suffix r s"
  by (auto simp: parse_anthropic_system_def Let_def split: member_cases
           intro: ws_suffix_trans behind_suffix json_lit_suffix json_string_suffix skip_member_suffix
             anthropic_system.elems_suffix)

end
