(* ===== verification/RequestLoop.thy ===== *)
theory RequestLoop
  imports Requests MessageFacts
begin

text \<open>
  The member loop of a request: the interface \<open>request_handler\<close>, under which the loop has the
  equation of the C loop (without the test that the pointer moved), and the relation
  \<open>member_reach\<close>: the states in which the loop stands before each member. A loop fails exactly
  where it is reached: either at the syntax of an object, or in the value of a member.
\<close>

section \<open>Reaching a member\<close>

inductive at_member :: "string \<Rightarrow> cstr \<Rightarrow> string \<Rightarrow> bool" where
  \<comment> \<open>the text stands at a key; the third argument is the text behind its colon\<close>
  at_memberI: "\<lbrakk>s \<noteq> []; peek s \<noteq> CHR ''}''; json_string s = Some (key, s1); peek (json_ws s1) = CHR '':'';
    v = tl (json_ws s1)\<rbrakk> \<Longrightarrow> at_member s key v"

inductive member_reach :: "(cstr \<Rightarrow> 'q \<Rightarrow> string \<Rightarrow> 'q + 'q \<times> string) \<Rightarrow> 'q \<Rightarrow> string \<Rightarrow> 'q \<Rightarrow> string \<Rightarrow> bool"
  for h where
  reach_here: "member_reach h q s q s"
| reach_next: "\<lbrakk>at_member s key v; h key q v = Inr (q1, s1); member_reach h q1 (json_sep s1) q2 s2\<rbrakk>
    \<Longrightarrow> member_reach h q s q2 s2"

inductive_cases at_member_elim: "at_member s key v"

lemma at_member_unique: "at_member s key v \<Longrightarrow> at_member s key' v' \<Longrightarrow> key' = key \<and> v' = v"
  by (auto elim!: at_member_elim)

lemma at_member_moves: "at_member s key v \<Longrightarrow> moves s v"
  by (auto elim!: at_member_elim
           intro!: moves_trans [OF json_string_moves] suffix_tl_trans json_ws_suffix)

lemma at_member_cstring: "at_member s key v \<Longrightarrow> cstring s \<Longrightarrow> cstring key \<and> cstring v"
  by (meson at_member_elim at_member_moves cstring_suffix json_string_cstring moves_suffix)

text \<open>\<open>member_fails h q body P\<close>: the loop over the members of the body reaches a key, in a state and
  with a value for which \<open>P\<close> holds.\<close>

definition member_fails ::
  "(cstr \<Rightarrow> 'q \<Rightarrow> string \<Rightarrow> 'q + 'q \<times> string) \<Rightarrow> 'q \<Rightarrow> string \<Rightarrow> (cstr \<Rightarrow> 'q \<Rightarrow> string \<Rightarrow> bool) \<Rightarrow> bool" where
  "member_fails h q body P \<longleftrightarrow> peek (json_ws body) = CHR ''{'' \<and>
     (\<exists>q1 s1 key v. member_reach h q (json_ws (tl (json_ws body))) q1 s1 \<and> at_member s1 key v \<and> P key q1 v)"

lemma cstring_tl: "cstring s \<Longrightarrow> cstring (tl s)"
  by (rule cstring_suffix) (rule suffix_tl)

lemma cstring_ws: "cstring s \<Longrightarrow> cstring (json_ws s)"
  by (rule cstring_suffix) (rule json_ws_suffix)

lemma cstring_object: "cstring body \<Longrightarrow> cstring (json_ws (tl (json_ws body)))"
  by (intro cstring_ws cstring_tl)

section \<open>The interface of a request's members\<close>

locale request_handler =
  fixes h :: "cstr \<Rightarrow> 'q \<Rightarrow> string \<Rightarrow> 'q + 'q \<times> string"
  assumes handler_suffix: "h key q s = Inr (q', r) \<Longrightarrow> suffix r s"
begin

lemma next_shorter: "at_member s key v \<Longrightarrow> h key q v = Inr (q1, s1) \<Longrightarrow> length (json_sep s1) < length s"
  by (meson at_member_moves handler_suffix json_sep_length le_less_trans moves_length moves_trans)

lemma req_members_eq:
  "req_members h q s =
     (if s = [] then Inl q
      else if peek s = CHR ''}'' then Inr (q, s)
      else case json_string s of
             None \<Rightarrow> Inl q
           | Some (key, s1) \<Rightarrow>
               if peek (json_ws s1) \<noteq> CHR '':'' then Inl q
               else case h key q (tl (json_ws s1)) of
                      Inl q' \<Rightarrow> Inl q'
                    | Inr (q', s3) \<Rightarrow> req_members h q' (json_sep s3))"
proof -
  have "length s3 < length s" if "json_string s = Some (key, s1)" "h key q (tl (json_ws s1)) = Inr (q', s3)"
    for key s1 q' s3
    by (meson handler_suffix json_string_moves json_ws_suffix moves_length moves_trans suffix_order.trans
        suffix_tl_trans that)
  then show ?thesis
    by (subst req_members.simps) (auto simp: Let_def split: option.splits sum.splits)
qed

lemma req_members_member:
  "at_member s key v \<Longrightarrow> req_members h q s =
     (case h key q v of Inl q' \<Rightarrow> Inl q' | Inr (q', s3) \<Rightarrow> req_members h q' (json_sep s3))"
  by (erule at_member_elim) (simp add: req_members_eq [of q s])

lemma not_at_member:
  assumes "\<And>key v. \<not> at_member s key v"
  shows "req_members h q s = (if s \<noteq> [] \<and> peek s = CHR ''}'' then Inr (q, s) else Inl q)"
proof -
  have "peek (json_ws s1) \<noteq> CHR '':''" if "s \<noteq> []" "peek s \<noteq> CHR ''}''" "json_string s = Some (key, s1)" for key s1
    using assms [of key "tl (json_ws s1)"] that by (auto intro: at_memberI)
  then show ?thesis by (subst req_members_eq) (auto split: option.splits)
qed

lemma reach_run: "member_reach h q s q' s' \<Longrightarrow> req_members h q s = req_members h q' s'"
  by (induction rule: member_reach.induct) (simp_all add: req_members_member)

text \<open>Where the loop stops.\<close>

lemma members_stop:
  "\<exists>q1 s1. member_reach h q s q1 s1 \<and>
     (if s1 \<noteq> [] \<and> peek s1 = CHR ''}'' then req_members h q s = Inr (q1, s1)
      else req_members h q s = Inl q1 \<and> (\<forall>key v. \<not> at_member s1 key v) \<or>
        (\<exists>key v q2. at_member s1 key v \<and> h key q1 v = Inl q2 \<and> req_members h q s = Inl q2))"
proof (induction "length s" arbitrary: q s rule: less_induct)
  case less
  show ?case
  proof (cases "\<exists>key v. at_member s key v")
    case False
    then show ?thesis
      by (intro exI [of _ q] exI [of _ s] conjI reach_here) (auto simp: not_at_member)
  next
    case True
    then obtain key v where kv: "at_member s key v" by blast
    then have ne: "s \<noteq> []" "peek s \<noteq> CHR ''}''" by (auto elim: at_member_elim)
    show ?thesis
    proof (cases "h key q v")
      case (Inl q2)
      then show ?thesis
        using kv ne by (intro exI [of _ q] exI [of _ s] conjI reach_here) (auto simp: req_members_member)
    next
      case (Inr y)
      obtain q1 s1 where y: "y = (q1, s1)" by (cases y)
      have run: "req_members h q s = req_members h q1 (json_sep s1)"
        using kv Inr y by (simp add: req_members_member)
      from less.hyps [OF next_shorter [OF kv Inr [unfolded y]], of q1] obtain q3 s3 where
        IH: "member_reach h q1 (json_sep s1) q3 s3"
        "if s3 \<noteq> [] \<and> peek s3 = CHR ''}'' then req_members h q1 (json_sep s1) = Inr (q3, s3)
         else req_members h q1 (json_sep s1) = Inl q3 \<and> (\<forall>key v. \<not> at_member s3 key v) \<or>
           (\<exists>key v q2. at_member s3 key v \<and> h key q3 v = Inl q2 \<and> req_members h q1 (json_sep s1) = Inl q2)"
        by blast
      have "member_reach h q s q3 s3" using kv Inr y IH(1) by (blast intro: reach_next)
      with IH(2) show ?thesis unfolding run by blast
    qed
  qed
qed

text \<open>An invariant of the state that every member keeps.\<close>

lemma reach_invariant:
  assumes keep: "\<And>key b t b' t'. I b \<Longrightarrow> cstring t \<Longrightarrow> cstring key \<Longrightarrow> h key b t = Inr (b', t') \<Longrightarrow> I b'"
  shows "member_reach h q s q' s' \<Longrightarrow> I q \<Longrightarrow> cstring s \<Longrightarrow> I q' \<and> cstring s'"
proof (induction rule: member_reach.induct)
  case (reach_next s key v q q1 s1 q2 s2)
  have "cstring key" "cstring v" using at_member_cstring reach_next.hyps(1) reach_next.prems(2) by blast+
  moreover have "cstring (json_sep s1)"
    using \<open>cstring v\<close> handler_suffix reach_next.hyps(2) cstring_suffix json_sep_suffix by blast
  ultimately show ?case using keep reach_next by blast
qed simp

lemma members_invariant:
  assumes keep: "\<And>key b t b' t'. I b \<Longrightarrow> cstring t \<Longrightarrow> cstring key \<Longrightarrow> h key b t = Inr (b', t') \<Longrightarrow> I b'"
    and run: "req_members h q s = Inr (q', r)" and start: "I q" "cstring s"
  shows "I q'"
proof -
  obtain q1 s1 where *: "member_reach h q s q1 s1"
    "if s1 \<noteq> [] \<and> peek s1 = CHR ''}'' then req_members h q s = Inr (q1, s1)
     else req_members h q s = Inl q1 \<and> (\<forall>key v. \<not> at_member s1 key v) \<or>
        (\<exists>key v q2. at_member s1 key v \<and> h key q1 v = Inl q2 \<and> req_members h q s = Inl q2)"
    using members_stop [of q s] by blast
  from *(2) run have "q' = q1" by (auto split: if_splits)
  moreover have "I q1 \<and> cstring s1"
    by (rule reach_invariant [where I = I, OF _ *(1) start]) (rule keep)
  ultimately show ?thesis by simp
qed

text \<open>A failing run whose final state is bad, while every state the loop stands in is good, fails
  in the value of a member.\<close>

lemma failing_member:
  assumes keep: "\<And>key b t b' t'. I b \<Longrightarrow> cstring t \<Longrightarrow> cstring key \<Longrightarrow> h key b t = Inr (b', t') \<Longrightarrow> I b'"
    and start: "I q" "cstring s" and good: "\<And>b. I b \<Longrightarrow> \<not> bad b"
  shows "(\<exists>q'. req_members h q s = Inl q' \<and> bad q') \<longleftrightarrow>
    (\<exists>q1 s1 key v q2. member_reach h q s q1 s1 \<and> I q1 \<and> cstring s1 \<and> at_member s1 key v \<and> h key q1 v = Inl q2 \<and> bad q2)"
    (is "?fails \<longleftrightarrow> ?at")
proof
  assume ?fails
  then obtain q' where run: "req_members h q s = Inl q'" "bad q'" by blast
  obtain q1 s1 where *: "member_reach h q s q1 s1"
    "if s1 \<noteq> [] \<and> peek s1 = CHR ''}'' then req_members h q s = Inr (q1, s1)
     else req_members h q s = Inl q1 \<and> (\<forall>key v. \<not> at_member s1 key v) \<or>
        (\<exists>key v q2. at_member s1 key v \<and> h key q1 v = Inl q2 \<and> req_members h q s = Inl q2)"
    using members_stop [of q s] by blast
  have I1: "I q1 \<and> cstring s1"
    by (rule reach_invariant [where I = I, OF _ *(1) start]) (rule keep)
  with good have "\<not> bad q1" by blast
  with *(2) run have "\<exists>key v q2. at_member s1 key v \<and> h key q1 v = Inl q2 \<and> q2 = q'"
    by (auto split: if_splits)
  with *(1) I1 run(2) show ?at by blast
next
  assume ?at
  then show ?fails using reach_run req_members_member by fastforce
qed

text \<open>The same for the whole body.\<close>

lemma object_invariant:
  assumes keep: "\<And>key b t b' t'. I b \<Longrightarrow> cstring t \<Longrightarrow> cstring key \<Longrightarrow> h key b t = Inr (b', t') \<Longrightarrow> I b'"
    and run: "req_object h q body = Inr (q', r)" and start: "I q" "cstring body"
  shows "I q'"
proof (rule members_invariant [where I = I, OF _ _ start(1) cstring_object [OF start(2)]])
  show "req_members h q (json_ws (tl (json_ws body))) = Inr (q', r)"
    using run by (simp add: req_object_def Let_def split: if_splits)
qed (rule keep)

lemma object_fails:
  assumes keep: "\<And>key b t b' t'. I b \<Longrightarrow> cstring t \<Longrightarrow> cstring key \<Longrightarrow> h key b t = Inr (b', t') \<Longrightarrow> I b'"
    and start: "I q" "cstring body" and good: "\<And>b. I b \<Longrightarrow> \<not> bad b"
    and fails: "\<And>key b t b'. I b \<Longrightarrow> h key b t = Inl b' \<Longrightarrow> bad b' \<longleftrightarrow> P key b t"
    and stuck: "\<And>key b t. P key b t \<Longrightarrow> \<exists>b'. h key b t = Inl b'"
  shows "(\<exists>q'. req_object h q body = Inl q' \<and> bad q') \<longleftrightarrow> member_fails h q body P"
proof (cases "peek (json_ws body) = CHR ''{''")
  case True
  let ?s = "json_ws (tl (json_ws body))"
  note cs = cstring_object [OF start(2)]
  have "(\<exists>q'. req_members h q ?s = Inl q' \<and> bad q') \<longleftrightarrow>
    (\<exists>q1 s1 key v q2. member_reach h q ?s q1 s1 \<and> I q1 \<and> cstring s1 \<and> at_member s1 key v \<and> h key q1 v = Inl q2 \<and> bad q2)"
    by (rule failing_member [where I = I, OF keep start(1) cs good])
  also have "\<dots> \<longleftrightarrow> (\<exists>q1 s1 key v. member_reach h q ?s q1 s1 \<and> at_member s1 key v \<and> P key q1 v)"
  proof -
    have "I q1 \<and> cstring s1" if "member_reach h q ?s q1 s1" for q1 s1
      by (rule reach_invariant [where I = I, OF keep that start(1) cs])
    with fails stuck show ?thesis by meson
  qed
  finally show ?thesis using True by (simp add: req_object_def Let_def member_fails_def)
next
  case False
  with good [OF start(1)] show ?thesis by (simp add: req_object_def Let_def member_fails_def)
qed

end

end
