(* ===== verification/RequestFacts.thy ===== *)
theory RequestFacts
  imports RequestLoop
begin

text \<open>
  What the request parsers promise: the three member tables are interpretations of
  \<open>request_handler\<close>; an accepted request is well formed; and the only way a parser frees a string
  twice is a malformed \<open>model\<close> (or second \<open>system\<close> or \<open>prompt\<close>) value.
\<close>

section \<open>The members only move forward\<close>

lemma read_into_Inr: "read_into p u q s = Inr (q', r) \<longleftrightarrow> (\<exists>x. p s = Some (x, r) \<and> q' = u x q)"
  by (auto simp: read_into_def split: option.splits)

lemma read_into_Inl: "read_into p u q s = Inl q' \<longleftrightarrow> p s = None \<and> q' = q"
  by (auto simp: read_into_def split: option.splits)

lemma skip_into_Inr: "skip_into q s = Inr (q', r) \<longleftrightarrow> json_skip_value s = Some r \<and> q' = q"
  by (auto simp: skip_into_def split: option.splits)

lemma skip_into_Inl: "skip_into q s = Inl q' \<longleftrightarrow> json_skip_value s = None \<and> q' = q"
  by (auto simp: skip_into_def split: option.splits)

lemmas read_simps = read_into_Inr read_into_Inl skip_into_Inr skip_into_Inl

lemma prompt_tail_suffix: "prompt_tail p = Some r \<Longrightarrow> suffix r p"
proof (induction p arbitrary: r rule: prompt_tail.induct)
  case (1 p)
  show ?case
  proof (cases "p \<noteq> [] \<and> peek p \<noteq> CHR '']'' \<and> peek (json_ws p) = CHR '',''")
    case True
    with "1.prems" obtain p2 where p2: "json_skip_value (tl (json_ws p)) = Some p2" "length p2 < length p"
      "prompt_tail p2 = Some r"
      by (subst (asm) prompt_tail.simps) (auto simp: Let_def split: option.splits if_splits)
    have "suffix r p2" by (rule "1.IH") (use True p2 in auto)
    also have "suffix p2 p" by (meson json_skip_value_suffix json_ws_suffix p2(1) suffix_order.trans suffix_tl)
    finally show ?thesis .
  next
    case False
    with "1.prems" show ?thesis
      by (subst (asm) prompt_tail.simps)
         (auto simp: Let_def split: if_splits intro: suffix_tl_trans json_ws_suffix suffix_tl)
  qed
qed

lemma parse_prompt_suffix: "parse_prompt s = Inr (x, r) \<Longrightarrow> suffix r s"
  by (auto simp: parse_prompt_def Let_def split: option.splits if_splits sum.splits
           dest!: prompt_tail_suffix json_string_suffix json_skip_value_suffix intro: ws_suffix_trans)
     (meson behind_suffix suffix_order.trans)+

lemma read_model_suffix: "read_model q s = Inr (q', r) \<Longrightarrow> suffix r s"
  by (auto simp: read_model_def read_simps intro: json_string_suffix)

lemma read_tools_suffix: "read_tools q s = Inr (q', r) \<Longrightarrow> suffix r s"
  by (auto simp: read_tools_def read_simps intro: parser_suffix)

lemma read_prompt_suffix: "read_prompt q s = Inr (q', r) \<Longrightarrow> suffix r s"
  by (auto simp: read_prompt_def split: sum.splits option.splits intro: parse_prompt_suffix)

interpretation tool_choice: member_handler tool_choice_member
  by unfold_locales
     (auto simp: tool_choice_member_def split: member_cases intro: parser_suffix)

lemma chat_member_suffix: "chat_member narrow key q s = Inr (q', r) \<Longrightarrow> suffix r s"
  by (simp add: chat_member_def read_simps Let_def split: if_splits; (elim exE conjE)?;
      (erule parser_suffix | erule read_model_suffix | erule read_tools_suffix | (rule ws_suffix_trans, erule parser_suffix)))

interpretation chat: request_handler "chat_member narrow" for narrow
  by unfold_locales (rule chat_member_suffix)

lemma anthropic_member_suffix: "anthropic_member narrow key q s = Inr (q', r) \<Longrightarrow> suffix r s"
  by (simp add: anthropic_member_def read_simps Let_def split: if_splits; (elim exE conjE)?;
      (erule parser_suffix | erule read_model_suffix | erule read_tools_suffix
       | (rule ws_suffix_trans, erule parser_suffix) | (rule behind_suffix, erule tool_choice.members_suffix)))

interpretation anthropic: request_handler "anthropic_member narrow" for narrow
  by unfold_locales (rule anthropic_member_suffix)

lemma completion_member_suffix: "completion_member narrow key q s = Inr (q', r) \<Longrightarrow> suffix r s"
  by (simp add: completion_member_def read_simps Let_def split: if_splits; (elim exE conjE)?;
      (erule parser_suffix | erule read_model_suffix | erule read_prompt_suffix))

interpretation completion: request_handler "completion_member narrow" for narrow
  by unfold_locales (rule completion_member_suffix)

section \<open>What every member keeps\<close>

definition freed_again :: "req_state \<Rightarrow> bool" where
  "freed_again q \<longleftrightarrow> r_model (q_req q) = Freed \<or> q_system q = Freed \<or> q_prompt q = Freed"

definition req_ok :: "req_kind \<Rightarrow> api_style \<Rightarrow> req_state \<Rightarrow> bool" where
  "req_ok kind api q \<longleftrightarrow> r_kind (q_req q) = kind \<and> r_api (q_req q) = api \<and> (\<exists>m. r_model (q_req q) = Owned m) \<and>
     stop_wf (r_stops (q_req q)) \<and> q_system q \<noteq> Freed \<and> q_prompt q \<noteq> Freed"

lemma req_ok_init: "req_ok kind API_OPENAI (req_state_init (request_init kind n))"
  "req_ok kind API_ANTHROPIC (req_state_init ((request_init kind n)\<lparr>r_api := API_ANTHROPIC\<rparr>))"
  by (simp_all add: req_ok_def req_state_init_def request_init_def stop_wf_def)

lemma req_ok_not_freed: "req_ok kind api q \<Longrightarrow> \<not> freed_again q"
  by (auto simp: req_ok_def freed_again_def)

lemma read_model_ok: "read_model q s = Inr (q', r) \<Longrightarrow> req_ok kind api q \<Longrightarrow> req_ok kind api q'"
  by (auto simp: read_model_def read_simps upd_req_def req_ok_def)

lemma read_tools_ok: "read_tools q s = Inr (q', r) \<Longrightarrow> req_ok kind api q \<Longrightarrow> req_ok kind api q'"
  by (auto simp: read_tools_def read_simps upd_req_def req_ok_def)

lemma read_prompt_ok: "read_prompt q s = Inr (q', r) \<Longrightarrow> req_ok kind api q \<Longrightarrow> req_ok kind api q'"
  by (auto simp: read_prompt_def req_ok_def split: sum.splits option.splits)

lemma read_stop_ok:
  "parse_stop (r_stops (q_req q)) s = Some (x, r) \<Longrightarrow> cstring s \<Longrightarrow> req_ok kind api q \<Longrightarrow>
    req_ok kind api (upd_req (\<lambda>r. r\<lparr>r_stops := x\<rparr>) q)"
  by (auto simp: upd_req_def req_ok_def dest: parse_stop_wf)

lemma tool_choice_ok:
  "json_members tool_choice_member q s = Some (q', r) \<Longrightarrow> cstring s \<Longrightarrow> req_ok kind api q \<Longrightarrow> req_ok kind api q'"
proof (rule tool_choice.members_invariant [where I = "req_ok kind api"])
  show "req_ok kind api b'"
    if "req_ok kind api b" "tool_choice_member key b t = Some (b', t')" for key b t b' t'
    using that by (auto simp: tool_choice_member_def req_ok_def skip_member_def split: if_splits option.splits)
qed

lemma req_ok_simple:
  "req_ok kind api (q\<lparr>q_got_messages := b\<rparr>) = req_ok kind api q"
  "req_ok kind api (q\<lparr>q_msgs := ms\<rparr>) = req_ok kind api q"
  "req_ok kind api (q\<lparr>q_tool_choice_none := b\<rparr>) = req_ok kind api q"
  "req_ok kind api (q\<lparr>q_got_thinking := b\<rparr>) = req_ok kind api q"
  "req_ok kind api (q\<lparr>q_thinking_enabled := b\<rparr>) = req_ok kind api q"
  "req_ok kind api (q\<lparr>q_effort := e\<rparr>) = req_ok kind api q"
  "req_ok kind api (upd_req (\<lambda>r. r\<lparr>r_max_tokens := n\<rparr>) q) = req_ok kind api q"
  "req_ok kind api (upd_req (\<lambda>r. r\<lparr>r_temperature := d\<rparr>) q) = req_ok kind api q"
  "req_ok kind api (upd_req (\<lambda>r. r\<lparr>r_top_p := d\<rparr>) q) = req_ok kind api q"
  "req_ok kind api (upd_req (\<lambda>r. r\<lparr>r_min_p := d\<rparr>) q) = req_ok kind api q"
  "req_ok kind api (upd_req (\<lambda>r. r\<lparr>r_top_k := n\<rparr>) q) = req_ok kind api q"
  "req_ok kind api (upd_req (\<lambda>r. r\<lparr>r_seed := w\<rparr>) q) = req_ok kind api q"
  "req_ok kind api (upd_req (\<lambda>r. r\<lparr>r_stream := b\<rparr>) q) = req_ok kind api q"
  "req_ok kind api (upd_req (\<lambda>r. r\<lparr>r_stream_include_usage := b\<rparr>) q) = req_ok kind api q"
  by (simp_all add: req_ok_def upd_req_def)

lemma chat_member_ok:
  "chat_member narrow key q s = Inr (q', r) \<Longrightarrow> req_ok kind api q \<Longrightarrow> cstring s \<Longrightarrow> req_ok kind api q'"
  by (simp add: chat_member_def read_simps Let_def split: if_splits; (elim exE conjE)?;
      ((simp only: req_ok_simple; fail) | (erule read_tools_ok, assumption) | (erule read_model_ok, assumption)
       | (hypsubst, erule read_stop_ok, assumption, assumption)))

lemma chat_member_failure:
  assumes "req_ok kind api q" "chat_member narrow key q s = Inl q'"
  shows "freed_again q' \<longleftrightarrow> key = ''model'' \<and> json_string s = None"
  using assms(2) req_ok_not_freed [OF assms(1)]
  by (simp add: chat_member_def read_simps Let_def split: if_splits)
     (auto simp: freed_again_def read_model_def read_tools_def read_simps upd_req_def)


lemma anthropic_member_ok:
  "anthropic_member narrow key q s = Inr (q', r) \<Longrightarrow> req_ok kind api q \<Longrightarrow> cstring s \<Longrightarrow> req_ok kind api q'"
  by (simp add: anthropic_member_def read_simps Let_def split: if_splits; (elim exE conjE)?;
      ((simp only: req_ok_simple; fail) | (erule read_tools_ok, assumption) | (erule read_model_ok, assumption)
       | (hypsubst, erule read_stop_ok, assumption, assumption)
       | (erule tool_choice_ok, intro cstring_ws cstring_tl, assumption, assumption)
       | (simp add: req_ok_def; fail)))

lemma anthropic_member_failure:
  assumes "req_ok kind api q" "anthropic_member narrow key q s = Inl q'"
  shows "freed_again q' \<longleftrightarrow> key = ''model'' \<and> json_string s = None \<or>
    key = ''system'' \<and> q_system q \<noteq> Null \<and> parse_anthropic_system s = None"
  using assms(2) req_ok_not_freed [OF assms(1)]
  by (simp add: anthropic_member_def read_simps Let_def split: if_splits)
     (auto simp: freed_again_def read_model_def read_tools_def read_simps upd_req_def)

lemma completion_member_ok:
  "completion_member narrow key q s = Inr (q', r) \<Longrightarrow> req_ok kind api q \<Longrightarrow> cstring s \<Longrightarrow> req_ok kind api q'"
  by (simp add: completion_member_def read_simps Let_def split: if_splits; (elim exE conjE)?;
      ((simp only: req_ok_simple; fail) | (erule read_prompt_ok, assumption) | (erule read_model_ok, assumption)
       | (hypsubst, erule read_stop_ok, assumption, assumption)))

lemma completion_member_failure:
  assumes "req_ok kind api q" "completion_member narrow key q s = Inl q'"
  shows "freed_again q' \<longleftrightarrow> key = ''model'' \<and> json_string s = None \<or>
    key = ''prompt'' \<and> q_prompt q \<noteq> Null \<and> parse_prompt s = Inl None"
  using assms(2) req_ok_not_freed [OF assms(1)]
  by (simp add: completion_member_def read_simps Let_def split: if_splits)
     (auto simp: freed_again_def read_model_def read_prompt_def read_simps upd_req_def split: sum.splits option.splits)

section \<open>The tool memory behind a request\<close>

lemma restore_step_total:
  assumes "mem_rel (tool_mem s) l"
  shows "\<exists>m' l'. restore_step env wanted s name = Some (s\<lparr>tool_mem := m'\<rparr>) \<and> mem_rel m' l'"
proof -
  have stay: "\<exists>m' l'. Some s = Some (s\<lparr>tool_mem := m'\<rparr>) \<and> mem_rel m' l'"
    using assms by (intro exI [of _ "tool_mem s"] exI [of _ l]) simp
  have load: "\<exists>m' l'. map_option fst (kv_tool_map_load_from_pos s fp w) = Some (s\<lparr>tool_mem := m'\<rparr>) \<and> mem_rel m' l'"
    for fp w
    using map_load_pos_total [OF assms, of fp w] by (elim exE conjE) (auto intro!: exI)
  show ?thesis
    unfolding restore_step_def Let_def
    by (cases "sha_hex_name name"; cases "map_of (files s) (path_join (kc_dir (kv s)) name)")
       (auto simp only: option.case prod.case if_True if_False split: option.split prod.split if_split
          intro!: stay load)
qed

lemma restore_loop_total:
  "mem_rel (tool_mem s) l \<Longrightarrow>
    \<exists>m' l'. restore_loop env wanted s names = Some (s\<lparr>tool_mem := m'\<rparr>) \<and> mem_rel m' l'"
proof (induction names arbitrary: s l)
  case Nil
  then show ?case by (intro exI [of _ "tool_mem s"] exI [of _ l]) simp
next
  case (Cons name names)
  obtain m1 l1 where s1: "restore_step env wanted s name = Some (s\<lparr>tool_mem := m1\<rparr>)" "mem_rel m1 l1"
    using restore_step_total [OF Cons.prems] by blast
  have "mem_rel (tool_mem (s\<lparr>tool_mem := m1\<rparr>)) l1" using s1(2) by simp
  from Cons.IH [OF this] obtain m' l' where
    "restore_loop env wanted (s\<lparr>tool_mem := m1\<rparr>) names = Some (s\<lparr>tool_mem := m1\<rparr>\<lparr>tool_mem := m'\<rparr>)" "mem_rel m' l'"
    by blast
  with s1(1) show ?case by (intro exI [of _ m'] exI [of _ l']) simp
qed

lemma restore_total:
  assumes "mem_rel (tool_mem s) l"
  shows "\<exists>m' l'. kv_cache_restore_tool_memory_for_messages env s msgs = Some (s\<lparr>tool_mem := m'\<rparr>) \<and> mem_rel m' l'"
proof -
  have "\<exists>m' l'. Some s = Some (s\<lparr>tool_mem := m'\<rparr>) \<and> mem_rel m' l'"
    using assms by (intro exI [of _ "tool_mem s"] exI [of _ l]) simp
  then show ?thesis
    using restore_loop_total [OF assms]
    by (simp add: kv_cache_restore_tool_memory_for_messages_def Let_def)
qed

lemma attach_total:
  assumes "mem_rel (tool_mem s) l"
  shows "\<exists>m' l' msgs' st'. tool_memory_attach_to_messages s msgs st = Some (s\<lparr>tool_mem := m'\<rparr>, msgs', st') \<and> mem_rel m' l'"
proof (cases "disable_exact_dsml_tool_replay s")
  case True
  then show ?thesis
    using assms
    by (intro exI [of _ "tool_mem s"] exI [of _ l] exI [of _ msgs] exI [of _ "count_unattached msgs st"])
       (simp add: tool_memory_attach_to_messages_def)
next
  case False
  have "same_content l l" by (simp add: same_content_def)
  from attach_loop_spec [OF assms this, of msgs st] obtain m' l' st' where
    "attach_loop (tool_mem s) msgs st = Some (m', map (\<lambda>x. x\<lparr>calls := replay_calls l (calls x)\<rparr>) msgs, st')"
    "mem_rel m' l'" by blast
  with False show ?thesis
    by (intro exI [of _ m'] exI [of _ l'] exI [of _ "map (\<lambda>x. x\<lparr>calls := replay_calls l (calls x)\<rparr>) msgs"]
          exI [of _ st']) (simp add: tool_memory_attach_to_messages_def)
qed

lemma finish_chat_spec:
  assumes "mem_rel (tool_mem s) l"
  shows "\<exists>m' l' msgs st. finish_chat env tokenize s ctx q =
    (let has_tools = (q_schemas q \<noteq> None \<and> q_schemas q \<noteq> Some [] \<and> \<not> q_tool_choice_none q);
         mode = choose_think_mode q ctx;
         txt' = render_chat_prompt_text msgs (if has_tools then q_schemas q else None) mode
     in Accepted ((q_req q)\<lparr>r_has_tools := has_tools, r_think_mode := mode, r_tool_replay := st,
                    r_prompt_text := Some txt', r_prompt := tokenize txt'\<rparr>) (s\<lparr>tool_mem := m'\<rparr>)) \<and> mem_rel m' l'"
proof -
  obtain m1 l1 where s1: "kv_cache_restore_tool_memory_for_messages env s (q_msgs q) = Some (s\<lparr>tool_mem := m1\<rparr>)"
    "mem_rel m1 l1" using restore_total [OF assms] by blast
  have "mem_rel (tool_mem (s\<lparr>tool_mem := m1\<rparr>)) l1" using s1(2) by simp
  from attach_total [OF this, of "q_msgs q" "r_tool_replay (q_req q)"] obtain m' l' msgs' st' where
    "tool_memory_attach_to_messages (s\<lparr>tool_mem := m1\<rparr>) (q_msgs q) (r_tool_replay (q_req q)) =
      Some (s\<lparr>tool_mem := m1\<rparr>\<lparr>tool_mem := m'\<rparr>, msgs', st')" "mem_rel m' l'" by blast
  with s1(1) show ?thesis
    by (intro exI [of _ m'] exI [of _ l'] exI [of _ msgs'] exI [of _ st']) (simp add: finish_chat_def Let_def)
qed

section \<open>Properties\<close>

lemma refuse_memory_error: "refuse q err = Memory_error \<longleftrightarrow> freed_again q"
  by (simp add: refuse_def freed_again_def)

definition model_fails :: "cstr \<Rightarrow> req_state \<Rightarrow> string \<Rightarrow> bool" where
  "model_fails key q v \<longleftrightarrow> key = ''model'' \<and> json_string v = None"

definition system_fails :: "cstr \<Rightarrow> req_state \<Rightarrow> string \<Rightarrow> bool" where
  "system_fails key q v \<longleftrightarrow> key = ''system'' \<and> q_system q \<noteq> Null \<and> parse_anthropic_system v = None"

definition prompt_fails :: "cstr \<Rightarrow> req_state \<Rightarrow> string \<Rightarrow> bool" where
  "prompt_fails key q v \<longleftrightarrow> key = ''prompt'' \<and> q_prompt q \<noteq> Null \<and> parse_prompt v = Inl None"

abbreviation chat_start :: "int \<Rightarrow> req_state" where
  "chat_start d \<equiv> req_state_init (request_init REQ_CHAT d)"

abbreviation anthropic_start :: "int \<Rightarrow> req_state" where
  "anthropic_start d \<equiv> req_state_init ((request_init REQ_CHAT d)\<lparr>r_api := API_ANTHROPIC\<rparr>)"

abbreviation completion_start :: "int \<Rightarrow> req_state" where
  "completion_start d \<equiv> req_state_init (request_init REQ_COMPLETION d)"

lemma chat_object_ok:
  "req_object (chat_member narrow) (chat_start d) body = Inr (q, r) \<Longrightarrow> cstring body \<Longrightarrow> req_ok REQ_CHAT API_OPENAI q"
  by (erule chat.object_invariant [rotated]) (auto simp: req_ok_init intro: chat_member_ok)

lemma anthropic_object_ok:
  "req_object (anthropic_member narrow) (anthropic_start d) body = Inr (q, r) \<Longrightarrow> cstring body \<Longrightarrow>
    req_ok REQ_CHAT API_ANTHROPIC q"
  by (erule anthropic.object_invariant [rotated]) (auto simp: req_ok_init intro: anthropic_member_ok)

lemma completion_object_ok:
  "req_object (completion_member narrow) (completion_start d) body = Inr (q, r) \<Longrightarrow> cstring body \<Longrightarrow>
    req_ok REQ_COMPLETION API_OPENAI q"
  by (erule completion.object_invariant [rotated]) (auto simp: req_ok_init intro: completion_member_ok)

lemma chat_object_fails:
  assumes "cstring body"
  shows "(\<exists>q. req_object (chat_member narrow) (chat_start d) body = Inl q \<and> freed_again q) \<longleftrightarrow>
    member_fails (chat_member narrow) (chat_start d) body model_fails"
proof (rule chat.object_fails [where I = "req_ok REQ_CHAT API_OPENAI"])
  show "\<exists>b'. chat_member narrow key b t = Inl b'" if "model_fails key b t" for key b t
    using that by (simp add: model_fails_def chat_member_def read_model_def read_into_def)
  show "freed_again b' \<longleftrightarrow> model_fails key b t" if "req_ok REQ_CHAT API_OPENAI b" "chat_member narrow key b t = Inl b'" for key b t b'
    using chat_member_failure [OF that] by (simp only: model_fails_def)
  show "req_ok REQ_CHAT API_OPENAI b'" if "req_ok REQ_CHAT API_OPENAI b" "cstring t" "chat_member narrow key b t = Inr (b', t')" for key b t b' t'
    by (rule chat_member_ok [OF that(3,1,2)])
qed (rule req_ok_init assms req_ok_not_freed, assumption?)+

lemma anthropic_object_fails:
  assumes "cstring body"
  shows "(\<exists>q. req_object (anthropic_member narrow) (anthropic_start d) body = Inl q \<and> freed_again q) \<longleftrightarrow>
    member_fails (anthropic_member narrow) (anthropic_start d) body
      (\<lambda>key q v. model_fails key q v \<or> system_fails key q v)"
proof (rule anthropic.object_fails [where I = "req_ok REQ_CHAT API_ANTHROPIC"])
  show "\<exists>b'. anthropic_member narrow key b t = Inl b'" if "model_fails key b t \<or> system_fails key b t" for key b t
    using that by (elim disjE) (simp_all add: model_fails_def system_fails_def anthropic_member_def read_model_def read_into_def)
  show "freed_again b' \<longleftrightarrow> model_fails key b t \<or> system_fails key b t" if "req_ok REQ_CHAT API_ANTHROPIC b" "anthropic_member narrow key b t = Inl b'" for key b t b'
    using anthropic_member_failure [OF that] by (simp only: model_fails_def system_fails_def)
  show "req_ok REQ_CHAT API_ANTHROPIC b'" if "req_ok REQ_CHAT API_ANTHROPIC b" "cstring t" "anthropic_member narrow key b t = Inr (b', t')" for key b t b' t'
    by (rule anthropic_member_ok [OF that(3,1,2)])
qed (rule req_ok_init assms req_ok_not_freed, assumption?)+

lemma completion_object_fails:
  assumes "cstring body"
  shows "(\<exists>q. req_object (completion_member narrow) (completion_start d) body = Inl q \<and> freed_again q) \<longleftrightarrow>
    member_fails (completion_member narrow) (completion_start d) body
      (\<lambda>key q v. model_fails key q v \<or> prompt_fails key q v)"
proof (rule completion.object_fails [where I = "req_ok REQ_COMPLETION API_OPENAI"])
  show "\<exists>b'. completion_member narrow key b t = Inl b'" if "model_fails key b t \<or> prompt_fails key b t" for key b t
    using that by (elim disjE) (simp_all add: model_fails_def prompt_fails_def completion_member_def read_model_def
        read_into_def read_prompt_def)
  show "freed_again b' \<longleftrightarrow> model_fails key b t \<or> prompt_fails key b t" if "req_ok REQ_COMPLETION API_OPENAI b" "completion_member narrow key b t = Inl b'" for key b t b'
    using completion_member_failure [OF that] by (simp only: model_fails_def prompt_fails_def)
  show "req_ok REQ_COMPLETION API_OPENAI b'" if "req_ok REQ_COMPLETION API_OPENAI b" "cstring t" "completion_member narrow key b t = Inr (b', t')" for key b t b' t'
    by (rule completion_member_ok [OF that(3,1,2)])
qed (rule req_ok_init assms req_ok_not_freed, assumption?)+


text \<open>Concretely: the body \<open>{"model": 5}\<close>.\<close>

definition bad_model_body :: cstr where
  "bad_model_body = [CHR ''{'', DQ] @ ''model'' @ [DQ] @ '': 5}''"


lemma anthropic_system_ok:
  "req_ok kind api q \<Longrightarrow> q_system q = Owned x \<Longrightarrow> req_ok kind api (q\<lparr>q_msgs := ms, q_system := Null\<rparr>)"
  by (simp add: req_ok_def)

text \<open>
  \<open>parse_anthropic_request\<close> frees a string twice exactly when its loop reaches a \<open>model\<close> member
  whose value is not a string, or a second \<open>system\<close> member with a malformed value.
\<close>

theorem anthropic_request_memory_error:
  assumes "cstring body" and "mem_rel (tool_mem s) l"
  shows "parse_anthropic_request narrow env tokenize s body d ctx = Memory_error \<longleftrightarrow>
    member_fails (anthropic_member narrow) (anthropic_start d) body
      (\<lambda>key q v. model_fails key q v \<or> system_fails key q v)"
proof (cases "req_object (anthropic_member narrow) (anthropic_start d) body")
  case (Inl q)
  then show ?thesis
    using anthropic_object_fails [OF assms(1), of narrow d]
    by (auto simp: parse_anthropic_request_def refuse_memory_error)
next
  case (Inr y)
  obtain q r where y: "y = (q, r)" by (cases y)
  have "\<not> freed_again q" using anthropic_object_ok [OF Inr [unfolded y] assms(1)] by (rule req_ok_not_freed)
  moreover have "finish_chat env tokenize s ctx q' \<noteq> Memory_error" for q'
    using finish_chat_spec [OF assms(2), of env tokenize ctx q'] by (auto simp: Let_def)
  ultimately have "parse_anthropic_request narrow env tokenize s body d ctx \<noteq> Memory_error"
    using Inr y by (simp add: parse_anthropic_request_def refuse_memory_error Let_def)
  then show ?thesis using anthropic_object_fails [OF assms(1), of narrow d] Inr by simp
qed

definition bad_system_body :: cstr where
  "bad_system_body = [CHR ''{'', DQ] @ ''system'' @ [DQ] @ '':null,'' @ [DQ] @ ''system'' @ [DQ] @ '':?}''"

theorem anthropic_request_memory_error_witness:
  "member_fails (anthropic_member (\<lambda>v. v)) (anthropic_start 16) bad_system_body
      (\<lambda>key q v. model_fails key q v \<or> system_fails key q v)"
proof -
  have "case req_object (anthropic_member (\<lambda>v. v)) (anthropic_start 16) bad_system_body of
      Inl q \<Rightarrow> q_system q = Freed | Inr _ \<Rightarrow> False"
    by code_simp
  then have "parse_anthropic_request (\<lambda>v. v) sample_env (\<lambda>_. []) (sample_server 1 []) bad_system_body 16 4096 = Memory_error"
    by (cases "req_object (anthropic_member (\<lambda>v. v)) (anthropic_start 16) bad_system_body")
       (simp_all add: parse_anthropic_request_def refuse_def)
  moreover have "mem_rel (tool_mem (sample_server 1 [])) []" by (simp add: sample_server_def zero_empty)
  moreover have "cstring bad_system_body" by code_simp
  ultimately show ?thesis
    using anthropic_request_memory_error [of bad_system_body "sample_server 1 []" "[]" "\<lambda>v. v" sample_env "\<lambda>_. []" 16 4096]
    by blast
qed

section \<open>Accepted requests are well formed\<close>

definition request_wf :: "(cstr \<Rightarrow> int list) \<Rightarrow> int \<Rightarrow> request \<Rightarrow> bool" where
  "request_wf tokenize ctx r \<longleftrightarrow>
     (\<exists>m. r_model r = Owned m) \<and> stop_wf (r_stops r) \<and>
     (\<exists>t. r_prompt_text r = Some t \<and> r_prompt r = tokenize t) \<and>
     (r_think_mode r = THINK_MAX \<longrightarrow> 393216 \<le> ctx)"

lemma choose_think_mode_max:
  assumes "choose_think_mode q ctx = THINK_MAX"
  shows "393216 \<le> ctx"
proof -
  let ?c = "if ctx > 0 then ctx else 0"
  from assms have "\<not> (word_of_int ?c :: u32) < 393216"
    by (auto simp: choose_think_mode_def Let_def ds4_think_mode_for_context_def DS4_THINK_MAX_MIN_CONTEXT_def
          split: if_splits)
  then have "393216 \<le> ?c mod 2 ^ 32"
    by (simp add: word_less_def uint_word_of_int take_bit_eq_mod not_less)
  also have "\<dots> \<le> ?c" by (rule zmod_le_nonneg_dividend) simp
  finally show ?thesis by (simp split: if_splits)
qed

lemma finish_chat_accepted:
  assumes "req_ok kind api q" "mem_rel (tool_mem s) l" "finish_chat env tokenize s ctx q = Accepted r s'"
  shows "request_wf tokenize ctx r \<and> r_kind r = kind \<and> r_api r = api \<and>
    (\<exists>l'. s' = s\<lparr>tool_mem := tool_mem s'\<rparr> \<and> mem_rel (tool_mem s') l')"
proof -
  obtain m' l' msgs st where *: "finish_chat env tokenize s ctx q =
    (let has_tools = (q_schemas q \<noteq> None \<and> q_schemas q \<noteq> Some [] \<and> \<not> q_tool_choice_none q);
         mode = choose_think_mode q ctx;
         txt' = render_chat_prompt_text msgs (if has_tools then q_schemas q else None) mode
     in Accepted ((q_req q)\<lparr>r_has_tools := has_tools, r_think_mode := mode, r_tool_replay := st,
                    r_prompt_text := Some txt', r_prompt := tokenize txt'\<rparr>) (s\<lparr>tool_mem := m'\<rparr>))" "mem_rel m' l'"
    using finish_chat_spec [OF assms(2)] by blast
  from *(1) assms(3) have s': "s' = s\<lparr>tool_mem := m'\<rparr>" by (simp add: Let_def)
  from *(1) assms(3,1) have "request_wf tokenize ctx r \<and> r_kind r = kind \<and> r_api r = api"
    by (auto simp: Let_def request_wf_def req_ok_def dest: choose_think_mode_max)
  moreover have "s' = s\<lparr>tool_mem := tool_mem s'\<rparr> \<and> mem_rel (tool_mem s') l'" using s' *(2) by simp
  ultimately show ?thesis by blast
qed

text \<open>
  C26. A chat request that either API accepts is well formed: it owns its model name, its stop list
  is well formed, its prompt is the tokenized rendered text, maximal thinking is chosen only in a
  context that has room for it; and parsing changes nothing of the server but its tool memory,
  which stays a list of remembered calls.
\<close>

theorem chat_request_accepted:
  assumes "cstring body" and "mem_rel (tool_mem s) l"
    and "parse_chat_request narrow env tokenize s body d ctx = Accepted r s' \<and> api = API_OPENAI \<or>
      parse_anthropic_request narrow env tokenize s body d ctx = Accepted r s' \<and> api = API_ANTHROPIC"
  shows "request_wf tokenize ctx r \<and> r_kind r = REQ_CHAT \<and> r_api r = api \<and>
    (\<exists>l'. s' = s\<lparr>tool_mem := tool_mem s'\<rparr> \<and> mem_rel (tool_mem s') l')"
proof -
  have "\<exists>q. req_ok REQ_CHAT api q \<and> finish_chat env tokenize s ctx q = Accepted r s'"
    using assms(3)
  proof (elim disjE conjE)
    assume *: "parse_chat_request narrow env tokenize s body d ctx = Accepted r s'" "api = API_OPENAI"
    then obtain q p where "req_object (chat_member narrow) (chat_start d) body = Inr (q, p)"
      "finish_chat env tokenize s ctx q = Accepted r s'"
      by (auto simp: parse_chat_request_def refuse_def split: sum.splits if_splits)
    with * chat_object_ok [OF _ assms(1)] show ?thesis by blast
  next
    assume *: "parse_anthropic_request narrow env tokenize s body d ctx = Accepted r s'" "api = API_ANTHROPIC"
    then obtain q p where q: "req_object (anthropic_member narrow) (anthropic_start d) body = Inr (q, p)"
      by (auto simp: parse_anthropic_request_def refuse_def split: sum.splits if_splits)
    then have ok: "req_ok REQ_CHAT api q" using * anthropic_object_ok [OF _ assms(1)] by blast
    from * q show ?thesis
      using anthropic_system_ok [OF ok] ok
      by (auto simp: parse_anthropic_request_def refuse_def Let_def split: if_splits ptr.splits)
  qed
  with finish_chat_accepted [OF _ assms(2)] show ?thesis by blast
qed

definition hello_body :: cstr where
  "hello_body = [CHR ''{'', DQ] @ ''messages'' @ [DQ] @ '':[{'' @ [DQ] @ ''content'' @ [DQ] @ '':'' @ [DQ] @ ''hi'' @ [DQ] @ ''}]}''"

lemma sample_finish:
  "finish_chat sample_env tokenize (sample_server 1 []) ctx q =
    (let txt' = render_chat_prompt_text (q_msgs q) (if q_schemas q \<noteq> None \<and> q_schemas q \<noteq> Some [] \<and> \<not> q_tool_choice_none q then q_schemas q else None) (choose_think_mode q ctx)
     in Accepted ((q_req q)\<lparr>r_has_tools := q_schemas q \<noteq> None \<and> q_schemas q \<noteq> Some [] \<and> \<not> q_tool_choice_none q,
          r_think_mode := choose_think_mode q ctx, r_tool_replay := count_unattached (q_msgs q) (r_tool_replay (q_req q)),
          r_prompt_text := Some txt', r_prompt := tokenize txt'\<rparr>) (sample_server 1 []))"
  by (simp add: finish_chat_def Let_def kv_cache_restore_tool_memory_for_messages_def tool_memory_attach_to_messages_def
      sample_server_def)

theorem chat_request_accepted_witness:
  "\<exists>r s'. parse_chat_request (\<lambda>v. v) sample_env (\<lambda>t. map (\<lambda>_. 1) t) (sample_server 1 []) hello_body 16 4096 = Accepted r s' \<and>
     request_wf (\<lambda>t. map (\<lambda>_. 1) t) 4096 r \<and> r_kind r = REQ_CHAT \<and> r_api r = API_OPENAI"
proof -
  have "case req_object (chat_member (\<lambda>v. v)) (chat_start 16) hello_body of Inl _ \<Rightarrow> False | Inr (q, _) \<Rightarrow> q_got_messages q"
    by code_simp
  then obtain r s' where run: "parse_chat_request (\<lambda>v. v) sample_env (\<lambda>t. map (\<lambda>_. 1) t) (sample_server 1 []) hello_body 16 4096 = Accepted r s'"
    by (cases "req_object (chat_member (\<lambda>v. v)) (chat_start 16) hello_body")
       (auto simp: parse_chat_request_def sample_finish Let_def simp del: One_nat_def)
  have "mem_rel (tool_mem (sample_server 1 [])) []" by (simp add: sample_server_def zero_empty)
  moreover have "cstring hello_body" by code_simp
  ultimately show ?thesis
    using chat_request_accepted [of hello_body "sample_server 1 []" "[]" "\<lambda>v. v" sample_env "\<lambda>t. map (\<lambda>_. 1) t" 16 4096 r s' API_OPENAI] run
    by blast
qed

lemma completion_accepted:
  assumes "cstring body" "parse_completion_request narrow tokenize s body d ctx = Accepted r s'"
  shows "s' = s \<and> request_wf tokenize ctx r \<and> r_kind r = REQ_COMPLETION \<and>
    (\<exists>prompt. r_prompt_text r = Some (completion_prompt_text (r_think_mode r) prompt))"
proof -
  from assms(2) obtain q p prompt where q: "req_object (completion_member narrow) (completion_start d) body = Inr (q, p)"
    "r = (q_req q)\<lparr>r_think_mode := choose_think_mode q ctx,
       r_prompt_text := Some (completion_prompt_text (choose_think_mode q ctx) prompt),
       r_prompt := tokenize (completion_prompt_text (choose_think_mode q ctx) prompt)\<rparr>" "s' = s"
    by (auto simp: parse_completion_request_def refuse_def Let_def split: sum.splits if_splits ptr.splits)
  have "req_ok REQ_COMPLETION API_OPENAI q" using completion_object_ok [OF q(1) assms(1)] .
  with q(2,3) show ?thesis
    by (auto simp: request_wf_def req_ok_def dest: choose_think_mode_max)
qed


definition bad_prompt_body :: cstr where
  "bad_prompt_body = [CHR ''{'', DQ] @ ''prompt'' @ [DQ] @ '':1,'' @ [DQ] @ ''prompt'' @ [DQ] @ '':?}''"


end
