(* ===== verification/Sse.thy ===== *)
theory Sse
  imports Requests DsmlParse
begin

text \<open>
  What ds4_server.c writes to a client: HTTP responses, and the frames of a server-sent event
  stream in the OpenAI and the Anthropic dialect. A frame is a value of \<open>sse_frame\<close>; its bytes are
  \<open>frame_bytes\<close>. The state \<open>net\<close> is the client's side of the connection: the frames that reached it,
  how many further calls of \<open>send_all\<close> will succeed (a call that fails delivers no frame), and how far
  the random source of made-up tool ids has been read.
\<close>

section \<open>Numbers in texts\<close>

fun dec_nat :: "nat \<Rightarrow> string" where
  "dec_nat n = (if n < 10 then [char_of (48 + n)] else dec_nat (n div 10) @ [char_of (48 + n mod 10)])"

declare dec_nat.simps [simp del]

definition dec_int :: "int \<Rightarrow> string" where
  \<comment> \<open>\<open>%d\<close>, \<open>%ld\<close>\<close>
  "dec_int i = (if i < 0 then ''-'' @ dec_nat (nat (- i)) else dec_nat (nat i))"

section \<open>Frames\<close>

datatype anthropic_block_type = ANTH_BLOCK_NONE | ANTH_BLOCK_THINKING | ANTH_BLOCK_TEXT

datatype sse_frame =
    Http int cstr cstr
  | Headers
  | Chunk "cstr option" "cstr option"
  | Usage int int
  | Done
  | Delta cstr string
  | Tool_start nat cstr cstr
  | Tool_args nat string
  | Tool_deltas "tool_call list"
  | Chat_finish cstr
  | Message_start int
  | Block_start nat anthropic_block_type
  | Block_delta nat anthropic_block_type string
  | Block_signature nat
  | Block_stop nat
  | Tool_block_start nat cstr cstr
  | Tool_block_json nat "cstr option"
  | Message_delta cstr int
  | Message_stop

record net =
  sent :: "sse_frame list"
  writes_left :: nat
  rnd_pos :: nat

definition send_all :: "net \<Rightarrow> sse_frame list \<Rightarrow> net \<times> bool" where
  "send_all w fs =
     (if writes_left w = 0 then (w, False)
      else (w\<lparr>sent := sent w @ fs, writes_left := writes_left w - 1\<rparr>, True))"

definition req_model :: "request \<Rightarrow> cstr" where
  "req_model r = (case r_model r of Owned m \<Rightarrow> m | _ \<Rightarrow> [])"

section \<open>The bytes of a frame\<close>

definition append_json_object_string :: "string \<Rightarrow> cstr option \<Rightarrow> string" where
  "append_json_object_string b json = json_escape b (c_str (append_json_object_or_empty [] json))"

text \<open>The two loops over calls write an id made from the response id when a call has none.\<close>

fun append_tool_call_items :: "bool \<Rightarrow> string \<Rightarrow> cstr \<Rightarrow> nat \<Rightarrow> tool_call list \<Rightarrow> string" where
  \<open>append_tool_call_items indexed b prefix_id i [] = b\<close>
| \<open>append_tool_call_items indexed b prefix_id i (tc # tcs) =
     (let b1 = (if i \<noteq> 0 then b @ '','' else b);
          b2 = b1 @ (if indexed then ''{"index":'' @ dec_nat i @ '',"id":'' else ''{"id":'');
          b3 = json_escape b2 (case tc_id tc of Some x \<Rightarrow> x | None \<Rightarrow> prefix_id @ ''_tool_'' @ dec_nat i);
          b4 = json_escape (b3 @ '',"type":"function","function":{"name":'') (or_empty (tc_name tc));
          b5 = append_json_object_string (b4 @ '',"arguments":'') (tc_arguments tc)
      in append_tool_call_items indexed (b5 @ ''}}'') prefix_id (i + 1) tcs)\<close>

definition append_tool_calls_json :: "string \<Rightarrow> tool_call list \<Rightarrow> cstr \<Rightarrow> string" where
  "append_tool_calls_json b cs prefix_id = append_tool_call_items False (b @ ''['') prefix_id 0 cs @ '']''"

definition append_tool_call_deltas_json :: "string \<Rightarrow> tool_call list \<Rightarrow> cstr \<Rightarrow> string" where
  "append_tool_call_deltas_json b cs prefix_id = append_tool_call_items True (b @ ''['') prefix_id 0 cs @ '']''"

definition http_response_bytes :: "int \<Rightarrow> cstr \<Rightarrow> cstr \<Rightarrow> string" where
  "http_response_bytes code type body =
     (let reason = (if code = 200 then ''OK'' else if code = 400 then ''Bad Request''
                    else if code = 404 then ''Not Found'' else if code = 500 then ''Internal Server Error''
                    else ''Error'');
          crlf = [CHR 0x0D, NL]
      in ''HTTP/1.1 '' @ dec_int code @ '' '' @ reason @ crlf @
         ''Content-Type: '' @ type @ crlf @
         ''Content-Length: '' @ dec_nat (length body) @ crlf @
         ''Connection: close'' @ crlf @ crlf @ body)"

definition chat_head :: "int \<Rightarrow> cstr \<Rightarrow> cstr \<Rightarrow> string" where
  \<open>chat_head now ident model =
     json_escape (''data: {"id":"'' @ ident @ ''","object":"chat.completion.chunk","created":'' @ dec_int now
       @ '',"model":'') model\<close>

definition text_head :: "int \<Rightarrow> cstr \<Rightarrow> cstr \<Rightarrow> string" where
  \<open>text_head now ident model =
     json_escape (''data: {"id":"'' @ ident @ ''","object":"text_completion","created":'' @ dec_int now
       @ '',"model":'') model\<close>

definition sse_chunk_bytes :: "int \<Rightarrow> request \<Rightarrow> cstr \<Rightarrow> cstr option \<Rightarrow> cstr option \<Rightarrow> string" where
  \<open>sse_chunk_bytes now r ident txt fin =
     (if r_kind r = REQ_CHAT then
        (let b1 = chat_head now ident (req_model r) @ '',"choices":[{"index":0,"delta":'';
             b2 = (case txt of
                     Some x \<Rightarrow> json_escape (b1 @ ''{"content":'') x @ ''}''
                   | None \<Rightarrow> b1 @ (if fin \<noteq> None then ''{}'' else ''{"role":"assistant"}''));
             b3 = b2 @ '',"finish_reason":'';
             b4 = (case fin of Some f \<Rightarrow> json_escape b3 f | None \<Rightarrow> b3 @ ''null'')
         in b4 @ ''}]}'' @ [NL, NL])
      else
        (let b1 = json_escape (text_head now ident (req_model r) @ '',"choices":[{"text":'') (or_empty txt)
                  @ '',"index":0,"finish_reason":'';
             b2 = (case fin of Some f \<Rightarrow> json_escape b1 f | None \<Rightarrow> b1 @ ''null'')
         in b2 @ ''}]}'' @ [NL, NL]))\<close>

definition sse_usage_bytes :: "int \<Rightarrow> request \<Rightarrow> cstr \<Rightarrow> int \<Rightarrow> int \<Rightarrow> string" where
  \<open>sse_usage_bytes now r ident prompt_tokens completion_tokens =
     (if r_kind r = REQ_CHAT then chat_head now ident (req_model r) else text_head now ident (req_model r))
     @ '',"choices":[],"usage":'' @
     ''{"prompt_tokens":'' @ dec_int prompt_tokens @ '',"completion_tokens":'' @ dec_int completion_tokens @
     '',"total_tokens":'' @ dec_int (prompt_tokens + completion_tokens) @ ''}}'' @ [NL, NL]\<close>

definition sse_event_bytes :: "cstr \<Rightarrow> string \<Rightarrow> string" where
  "sse_event_bytes event data = ''event: '' @ event @ [NL] @ ''data: '' @ data @ [NL, NL]"

definition anthropic_stop_reason :: "cstr option \<Rightarrow> cstr" where
  "anthropic_stop_reason fin =
     (if fin = Some ''tool_calls'' then ''tool_use''
      else if fin = Some ''length'' then ''max_tokens'' else ''end_turn'')"

definition frame_bytes :: "int \<Rightarrow> request \<Rightarrow> cstr \<Rightarrow> sse_frame \<Rightarrow> string" where
  \<open>frame_bytes now r ident f =
     (let head = chat_head now ident (req_model r);
          delta = '',"choices":[{"index":0,"delta":{'';
          open_end = ''},"finish_reason":null}]}'' @ [NL, NL]
      in case f of
        Http code type body \<Rightarrow> http_response_bytes code type body
      | Headers \<Rightarrow> ''HTTP/1.1 200 OK'' @ [CHR 0x0D, NL] @ ''Content-Type: text/event-stream'' @ [CHR 0x0D, NL] @
          ''Cache-Control: no-cache'' @ [CHR 0x0D, NL] @ ''Connection: close'' @ [CHR 0x0D, NL, CHR 0x0D, NL]
      | Chunk txt fin \<Rightarrow> sse_chunk_bytes now r ident txt fin
      | Usage p c \<Rightarrow> sse_usage_bytes now r ident p c
      | Done \<Rightarrow> ''data: [DONE]'' @ [NL, NL]
      | Delta field txt \<Rightarrow>
          json_escape_n (json_escape (head @ delta) field @ '':'') txt (length txt) @ open_end
      | Tool_start i tool_id name \<Rightarrow>
          json_escape (json_escape (head @ delta @ ''"tool_calls":[{"index":'' @ dec_nat i @ '',"id":'') tool_id
            @ '',"type":"function","function":{"name":'') name @ '',"arguments":""}}]'' @ open_end
      | Tool_args i txt \<Rightarrow>
          json_escape_n (head @ delta @ ''"tool_calls":[{"index":'' @ dec_nat i @ '',"function":{"arguments":'')
            txt (length txt) @ ''}}]'' @ open_end
      | Tool_deltas cs \<Rightarrow> append_tool_call_deltas_json (head @ delta @ ''"tool_calls":'') cs ident @ open_end
      | Chat_finish fin \<Rightarrow>
          json_escape (head @ delta @ ''},"finish_reason":'') fin @ ''}]}'' @ [NL, NL]
      | Message_start prompt_tokens \<Rightarrow>
          sse_event_bytes ''message_start''
            (''{"type":"message_start","message":{"id":"'' @ ident @ ''","type":"message","role":"assistant","model":'' @
             json_escape [] (req_model r) @
             '',"content":[],"stop_reason":null,"stop_sequence":null,"usage":{"input_tokens":'' @
             dec_int prompt_tokens @ '',"output_tokens":0}}}'')
      | Block_start i type \<Rightarrow>
          sse_event_bytes ''content_block_start''
            (''{"type":"content_block_start","index":'' @ dec_nat i @ '',"content_block":'' @
             (if type = ANTH_BLOCK_THINKING then ''{"type":"thinking","thinking":"","signature":""}}''
              else ''{"type":"text","text":""}}''))
      | Block_delta i type txt \<Rightarrow>
          sse_event_bytes ''content_block_delta''
            (json_escape_n (''{"type":"content_block_delta","index":'' @ dec_nat i @ '',"delta":'' @
               (if type = ANTH_BLOCK_THINKING then ''{"type":"thinking_delta","thinking":''
                else ''{"type":"text_delta","text":'')) txt (length txt) @ ''}}'')
      | Block_signature i \<Rightarrow>
          sse_event_bytes ''content_block_delta''
            (json_escape (''{"type":"content_block_delta","index":'' @ dec_nat i @
               '',"delta":{"type":"signature_delta","signature":'') ident @ ''}}'')
      | Block_stop i \<Rightarrow>
          sse_event_bytes ''content_block_stop'' (''{"type":"content_block_stop","index":'' @ dec_nat i @ ''}'')
      | Tool_block_start i tool_id name \<Rightarrow>
          sse_event_bytes ''content_block_start''
            (json_escape (json_escape (''{"type":"content_block_start","index":'' @ dec_nat i @
               '',"content_block":{"type":"tool_use","id":'') tool_id @ '',"name":'') name @ '',"input":{}}}'')
      | Tool_block_json i args \<Rightarrow>
          sse_event_bytes ''content_block_delta''
            (append_json_object_string (''{"type":"content_block_delta","index":'' @ dec_nat i @
               '',"delta":{"type":"input_json_delta","partial_json":'') args @ ''}}'')
      | Message_delta fin n \<Rightarrow>
          sse_event_bytes ''message_delta''
            (json_escape ''{"type":"message_delta","delta":{"stop_reason":'' (anthropic_stop_reason (Some fin)) @
             '',"stop_sequence":null},"usage":{"output_tokens":'' @ dec_int n @ ''}}'')
      | Message_stop \<Rightarrow> sse_event_bytes ''message_stop'' ''{"type":"message_stop"}'')\<close>

section \<open>Writing responses\<close>

definition http_response :: "net \<Rightarrow> int \<Rightarrow> cstr \<Rightarrow> cstr \<Rightarrow> net \<times> bool" where
  \<comment> \<open>header and body are two writes; a frame stands for both\<close>
  "http_response w code type body =
     (case send_all w [] of
        (w1, False) \<Rightarrow> (w1, False)
      | (w1, True) \<Rightarrow> send_all w1 [Http code type body])"

definition http_error :: "net \<Rightarrow> int \<Rightarrow> cstr \<Rightarrow> net \<times> bool" where
  \<open>http_error w code msg =
     http_response w code ''application/json''
       (json_escape ''{"error":{"message":'' msg @ '',"type":"invalid_request_error"}}'' @ [NL])\<close>

definition sse_headers :: "net \<Rightarrow> net \<times> bool" where
  "sse_headers w = send_all w [Headers]"

definition sse_chunk :: "net \<Rightarrow> cstr option \<Rightarrow> cstr option \<Rightarrow> net \<times> bool" where
  "sse_chunk w txt fin = send_all w [Chunk txt fin]"

definition sse_usage_chunk :: "net \<Rightarrow> request \<Rightarrow> int \<Rightarrow> int \<Rightarrow> net \<times> bool" where
  "sse_usage_chunk w r prompt_tokens completion_tokens =
     (if \<not> r_stream_include_usage r then (w, True) else send_all w [Usage prompt_tokens completion_tokens])"

definition sse_done :: "net \<Rightarrow> request \<Rightarrow> int \<Rightarrow> int \<Rightarrow> net \<times> bool" where
  "sse_done w r prompt_tokens completion_tokens =
     (case sse_usage_chunk w r prompt_tokens completion_tokens of
        (w1, False) \<Rightarrow> (w1, False)
      | (w1, True) \<Rightarrow> send_all w1 [Done])"

definition sse_chat_finish ::
  "net \<Rightarrow> request \<Rightarrow> cstr option \<Rightarrow> cstr option \<Rightarrow> tool_call list \<Rightarrow> cstr \<Rightarrow> int \<Rightarrow> int \<Rightarrow> net \<times> bool" where
  "sse_chat_finish w r txt thought cs fin prompt_tokens completion_tokens =
     (case sse_chunk w None None of
        (w1, False) \<Rightarrow> (w1, False)
      | (w1, True) \<Rightarrow>
          (case send_all w1
                  ((if or_empty thought \<noteq> [] then [Delta ''reasoning_content'' (or_empty thought)] else []) @
                   (if or_empty txt \<noteq> [] then [Delta ''content'' (or_empty txt)] else []) @
                   (if cs \<noteq> [] then [Tool_deltas cs] else []) @
                   [Chat_finish fin]) of
             (w2, False) \<Rightarrow> (w2, False)
           | (w2, True) \<Rightarrow> sse_done w2 r prompt_tokens completion_tokens))"

definition sse_chat_delta_n :: "net \<Rightarrow> cstr \<Rightarrow> string \<Rightarrow> net \<times> bool" where
  "sse_chat_delta_n w field txt = (if txt = [] then (w, True) else send_all w [Delta field txt])"

definition sse_chat_tool_call_start_delta :: "net \<Rightarrow> nat \<Rightarrow> cstr \<Rightarrow> cstr \<Rightarrow> net \<times> bool" where
  "sse_chat_tool_call_start_delta w i tool_id name = send_all w [Tool_start i tool_id name]"

definition sse_chat_tool_call_args_delta_n :: "net \<Rightarrow> nat \<Rightarrow> string \<Rightarrow> net \<times> bool" where
  "sse_chat_tool_call_args_delta_n w i txt = (if txt = [] then (w, True) else send_all w [Tool_args i txt])"

definition final_response ::
  "net \<Rightarrow> int \<Rightarrow> request \<Rightarrow> cstr \<Rightarrow> cstr \<Rightarrow> cstr option \<Rightarrow> tool_call list \<Rightarrow> cstr \<Rightarrow> int \<Rightarrow> int \<Rightarrow> net \<times> bool" where
  \<open>final_response w now r ident txt thought cs fin prompt_tokens completion_tokens =
     http_response w 200 ''application/json''
       ((if r_kind r = REQ_CHAT then
           (let b1 = json_escape (''{"id":"'' @ ident @ ''","object":"chat.completion","created":'' @ dec_int now
                       @ '',"model":'') (req_model r);
                b2 = json_escape (b1 @ '',"choices":[{"index":0,"message":{"role":"assistant","content":'') txt;
                b3 = (if or_empty thought \<noteq> []
                      then json_escape (b2 @ '',"reasoning_content":'') (or_empty thought) else b2);
                b4 = (if cs \<noteq> [] then append_tool_calls_json (b3 @ '',"tool_calls":'') cs ident else b3)
            in json_escape (b4 @ ''},"finish_reason":'') fin @ ''}],"usage":'')
         else
           (let b1 = json_escape (''{"id":"'' @ ident @ ''","object":"text_completion","created":'' @ dec_int now
                       @ '',"model":'') (req_model r);
                b2 = json_escape (b1 @ '',"choices":[{"text":'') txt
            in json_escape (b2 @ '',"index":0,"finish_reason":'') fin @ ''}],"usage":''))
        @ ''{"prompt_tokens":'' @ dec_int prompt_tokens @ '',"completion_tokens":'' @ dec_int completion_tokens @
        '',"total_tokens":'' @ dec_int (prompt_tokens + completion_tokens) @ ''}}'' @ [NL])\<close>

section \<open>The Anthropic response\<close>

definition append_anthropic_tool_use :: "string \<Rightarrow> tool_call \<Rightarrow> cstr \<Rightarrow> nat \<Rightarrow> string" where
  \<open>append_anthropic_tool_use b tc id_prefix i =
     (let b1 = json_escape (b @ ''{"type":"tool_use","id":'')
                 (if or_empty (tc_id tc) \<noteq> [] then or_empty (tc_id tc)
                  else ''toolu_'' @ id_prefix @ ''_'' @ dec_nat i);
          b2 = json_escape (b1 @ '',"name":'') (or_empty (tc_name tc))
      in append_json_object_or_empty (b2 @ '',"input":'') (tc_arguments tc) @ ''}'')\<close>

definition append_anthropic_thinking :: "string \<Rightarrow> cstr \<Rightarrow> cstr \<Rightarrow> string" where
  \<open>append_anthropic_thinking b thought signature =
     json_escape (json_escape (b @ ''{"type":"thinking","thinking":'') thought @ '',"signature":'') signature @ ''}''\<close>

fun append_anthropic_tool_uses :: "bool \<Rightarrow> string \<Rightarrow> cstr \<Rightarrow> nat \<Rightarrow> tool_call list \<Rightarrow> string" where
  "append_anthropic_tool_uses wrote b id_prefix i [] = b"
| "append_anthropic_tool_uses wrote b id_prefix i (tc # tcs) =
     append_anthropic_tool_uses True
       (append_anthropic_tool_use (if wrote then b @ '','' else b) tc id_prefix i) id_prefix (i + 1) tcs"

definition append_anthropic_content :: "string \<Rightarrow> cstr \<Rightarrow> cstr option \<Rightarrow> tool_call list \<Rightarrow> cstr \<Rightarrow> string" where
  \<open>append_anthropic_content b txt thought cs id_prefix =
     (let thinks = (or_empty thought \<noteq> []);
          b1 = (if thinks then append_anthropic_thinking (b @ ''['') (or_empty thought) id_prefix else b @ ''['');
          b2 = (if txt \<noteq> []
                then json_escape ((if thinks then b1 @ '','' else b1) @ ''{"type":"text","text":'') txt @ ''}''
                else b1);
          b3 = append_anthropic_tool_uses (thinks \<or> txt \<noteq> []) b2 id_prefix 0 cs;
          wrote_after_thinking = (txt \<noteq> [] \<or> cs \<noteq> []);
          wrote = (thinks \<or> wrote_after_thinking)
      in (if \<not> wrote \<or> thinks \<and> \<not> wrote_after_thinking
          then (if wrote then b3 @ '','' else b3) @ ''{"type":"text","text":""}'' else b3) @ '']'')\<close>

definition anthropic_final_response ::
  "net \<Rightarrow> request \<Rightarrow> cstr \<Rightarrow> cstr \<Rightarrow> cstr option \<Rightarrow> tool_call list \<Rightarrow> cstr \<Rightarrow> int \<Rightarrow> int \<Rightarrow> net \<times> bool" where
  \<open>anthropic_final_response w r ident txt thought cs fin prompt_tokens completion_tokens =
     http_response w 200 ''application/json''
       (json_escape
          (append_anthropic_content
             (json_escape (''{"id":"'' @ ident @ ''","type":"message","role":"assistant","model":'') (req_model r)
              @ '',"content":'') txt thought cs ident @ '',"stop_reason":'')
          (anthropic_stop_reason (Some fin)) @
        '',"stop_sequence":null,"usage":'' @
        ''{"input_tokens":'' @ dec_int prompt_tokens @ '',"output_tokens":'' @ dec_int completion_tokens @ ''}}'' @ [NL])\<close>

end
