(* ===== verification/OpenaiStream.thy ===== *)
theory OpenaiStream
  imports Sse
begin

text \<open>
  The streaming state machines of ds4_server.c for OpenAI chat clients: \<open>openai_sse_stream_update\<close>
  is called with the text generated so far (\<open>raw\<close>, and how much of it may be looked at, \<open>raw_len\<close>)
  and turns what is new into frames: reasoning, content, and, inside a tool-call block, the header and
  argument fragments of each call. Offsets into \<open>raw\<close> are numbers; a text pointer \<open>raw + pos\<close> is
  \<open>drop pos raw\<close>, so \<open>strstr\<close> sees all of \<open>raw\<close>, as in the code, not only its first \<open>raw_len\<close> bytes.
\<close>

section \<open>How much of a text may be streamed\<close>

text \<open>The loops \<open>for (i = limit; i > scan; i--) if (raw[i - 1] == c)\<close>.\<close>

primrec last_byte :: "string \<Rightarrow> char \<Rightarrow> nat \<Rightarrow> nat \<Rightarrow> nat option" where
  "last_byte raw c scan 0 = None"
| "last_byte raw c scan (Suc i) =
     (if Suc i > scan then (if raw ! i = c then Some i else last_byte raw c scan i) else None)"

definition text_stream_safe_limit :: "string \<Rightarrow> nat \<Rightarrow> nat \<Rightarrow> bool \<Rightarrow> bool \<Rightarrow> nat" where
  "text_stream_safe_limit raw start raw_len has_tools final =
     (if raw_len \<le> start then raw_len
      else if has_tools then
        (case find_any_tool_start (drop start raw) of
           Some i \<Rightarrow> utf8_stream_safe_len raw start (trim_tool_separator_ws raw start (start + i)) True
         | None \<Rightarrow>
             if final then utf8_stream_safe_len raw start raw_len final
             else
               let l1 = trim_tool_separator_ws raw start raw_len;
                   scan = (if raw_len - start > 80 then raw_len - 80 else start);
                   l2 = (case last_byte raw (CHR ''<'') scan raw_len of
                           None \<Rightarrow> l1 | Some marker \<Rightarrow> if marker < l1 then marker else l1);
                   l3 = trim_tool_separator_ws raw start l2
               in utf8_stream_safe_len raw start l3 final)
      else utf8_stream_safe_len raw start raw_len final)"

section \<open>The tool-call stream\<close>

datatype openai_tool_stream_state =
    OPENAI_TOOL_BETWEEN_INVOKES
  | OPENAI_TOOL_BETWEEN_PARAMS
  | OPENAI_TOOL_PARAM_VALUE
  | OPENAI_TOOL_DONE
  | OPENAI_TOOL_ERROR

record openai_tool_stream =
  ts_state :: openai_tool_stream_state
  ts_style :: dsml_style
  ts_parse_pos :: nat
  ts_index :: nat
  ts_active :: bool
  ts_emitted_any :: bool
  ts_args_open :: bool
  ts_first_param :: bool
  ts_param_is_string :: bool
  ts_ids :: "cstr option list"

definition openai_tool_stream_zero :: openai_tool_stream where
  "openai_tool_stream_zero =
     \<lparr>ts_state = OPENAI_TOOL_BETWEEN_INVOKES,
      ts_style = \<lparr>tool_calls_start = [], tool_calls_end = [], invoke_start = [], invoke_end = [],
                  param_start = [], param_end = []\<rparr>,
      ts_parse_pos = 0, ts_index = 0, ts_active = False, ts_emitted_any = False, ts_args_open = False,
      ts_first_param = False, ts_param_is_string = False, ts_ids = []\<rparr>"

definition openai_tool_stream_has_id :: "openai_tool_stream \<Rightarrow> cstr \<Rightarrow> nat \<Rightarrow> bool" where
  "openai_tool_stream_has_id ts ident up \<longleftrightarrow> ident \<noteq> [] \<and> Some ident \<in> set (take up (ts_ids ts))"

function grow_cap :: "nat \<Rightarrow> nat \<Rightarrow> nat" where
  \<comment> \<open>\<open>while (cap <= index) cap *= 2;\<close>\<close>
  "grow_cap index cap = (if cap \<le> index \<and> 0 < cap then grow_cap index (cap * 2) else cap)"
  by pat_completeness auto
termination
  by (relation "measure (\<lambda>(index, cap). Suc index - cap)") auto

declare grow_cap.simps [simp del]

definition ids_reserve :: "cstr option list \<Rightarrow> nat \<Rightarrow> cstr option list" where
  "ids_reserve ids index =
     (if index \<ge> length ids
      then (let cap = grow_cap index (if ids \<noteq> [] then length ids else 4)
            in ids @ replicate (cap - length ids) None)
      else ids)"

partial_function (option) stream_id_loop ::
  "'a server_scheme \<Rightarrow> openai_tool_stream \<Rightarrow> nat \<Rightarrow> (nat \<Rightarrow> u8 list) \<Rightarrow> nat \<Rightarrow> (cstr \<times> nat) option" where
  "stream_id_loop s ts index rnd k =
     (let ident = random_tool_id (rnd k) API_OPENAI in
      if \<not> openai_tool_stream_has_id ts ident index \<and> \<not> tool_memory_has_id s (Some ident)
      then Some (ident, k + 1)
      else stream_id_loop s ts index rnd (k + 1))"

definition openai_tool_stream_id ::
  "'a server_scheme \<Rightarrow> (nat \<Rightarrow> u8 list) \<Rightarrow> openai_tool_stream \<Rightarrow> nat \<Rightarrow> net \<Rightarrow>
   (cstr \<times> openai_tool_stream \<times> net) option" where
  "openai_tool_stream_id s rnd ts index w =
     (let ids = ids_reserve (ts_ids ts) index; ts1 = ts\<lparr>ts_ids := ids\<rparr> in
      case ids ! index of
        Some ident \<Rightarrow> Some (ident, ts1, w)
      | None \<Rightarrow>
          (case stream_id_loop s ts1 index rnd (rnd_pos w) of
             None \<Rightarrow> None
           | Some (ident, k) \<Rightarrow> Some (ident, ts1\<lparr>ts_ids := ids[index := Some ident]\<rparr>, w\<lparr>rnd_pos := k\<rparr>)))"

definition raw_full_lit :: "string \<Rightarrow> nat \<Rightarrow> nat \<Rightarrow> string \<Rightarrow> bool" where
  "raw_full_lit raw raw_len pos lit \<longleftrightarrow>
     pos \<le> raw_len \<and> length lit \<le> raw_len - pos \<and> take (length lit) (drop pos raw) = lit"

definition raw_partial_lit :: "string \<Rightarrow> nat \<Rightarrow> nat \<Rightarrow> string \<Rightarrow> bool" where
  "raw_partial_lit raw raw_len pos lit \<longleftrightarrow>
     pos \<le> raw_len \<and> raw_len - pos < length lit \<and>
     take (raw_len - pos) (drop pos raw) = take (raw_len - pos) lit"

definition raw_partial_any :: "string \<Rightarrow> nat \<Rightarrow> nat \<Rightarrow> string \<Rightarrow> string \<Rightarrow> bool" where
  "raw_partial_any raw raw_len pos a b \<longleftrightarrow> raw_partial_lit raw raw_len pos a \<or> raw_partial_lit raw raw_len pos b"

definition find_lit_bounded :: "string \<Rightarrow> nat \<Rightarrow> string \<Rightarrow> nat option" where
  \<comment> \<open>the first offset at which the literal lies within the first \<open>n\<close> bytes\<close>
  "find_lit_bounded s n lit =
     (if length lit = 0 then Some 0
      else if n < length lit then None
      else find (\<lambda>i. take (length lit) (drop i s) = lit) [0..<n - length lit + 1])"

definition dsml_entities :: "string list" where
  "dsml_entities = [''&amp;'', ''&lt;'', ''&gt;'', ''&quot;'', ''&apos;'']"

definition dsml_entity_stream_safe_len :: "string \<Rightarrow> nat \<Rightarrow> nat \<Rightarrow> nat" where
  "dsml_entity_stream_safe_len raw start limit =
     (let scan = (if limit > start + 6 then limit - 6 else start) in
      case last_byte raw (CHR ''&'') scan limit of
        None \<Rightarrow> limit
      | Some amp \<Rightarrow>
          if (\<exists>e \<in> set dsml_entities. limit - amp < length e \<and>
                take (limit - amp) (drop amp raw) = take (limit - amp) e)
          then amp else limit)"

definition tool_param_value_stream_safe_len :: "string \<Rightarrow> nat \<Rightarrow> nat \<Rightarrow> string \<Rightarrow> bool \<Rightarrow> nat" where
  "tool_param_value_stream_safe_len raw start raw_len p_end is_str =
     (let end_len = length p_end;
          scan = (if raw_len > start + end_len then raw_len - end_len else start);
          l1 = (case last_byte raw (CHR ''<'') scan raw_len of
                  None \<Rightarrow> raw_len
                | Some marker \<Rightarrow>
                    if raw_len - marker < end_len \<and>
                       take (raw_len - marker) (drop marker raw) = take (raw_len - marker) p_end
                    then marker else raw_len);
          l2 = (if is_str then dsml_entity_stream_safe_len raw start l1 else l1)
      in utf8_stream_safe_len raw start l2 False)"

text \<open>The bytes from \<open>a\<close> to \<open>b\<close> of a text.\<close>

definition piece :: "string \<Rightarrow> nat \<Rightarrow> nat \<Rightarrow> string" where
  "piece raw a b = take (b - a) (drop a raw)"

definition openai_tool_emit_args_fragment :: "openai_tool_stream \<Rightarrow> net \<Rightarrow> string \<Rightarrow> net \<times> bool" where
  "openai_tool_emit_args_fragment ts w txt = sse_chat_tool_call_args_delta_n w (ts_index ts) txt"

definition openai_tool_emit_string_value :: "openai_tool_stream \<Rightarrow> net \<Rightarrow> string \<Rightarrow> net \<times> bool" where
  "openai_tool_emit_string_value ts w txt =
     (if txt = [] then (w, True)
      else let unescaped = dsml_unescape_text (c_str txt) in
           openai_tool_emit_args_fragment ts w (json_escape_fragment_n [] unescaped (length unescaped)))"

definition openai_tool_emit_value :: "openai_tool_stream \<Rightarrow> net \<Rightarrow> string \<Rightarrow> net \<times> bool" where
  "openai_tool_emit_value ts w txt =
     (if ts_param_is_string ts then openai_tool_emit_string_value ts w txt
      else openai_tool_emit_args_fragment ts w txt)"

definition openai_tool_emit_param_prefix ::
  "openai_tool_stream \<Rightarrow> net \<Rightarrow> cstr \<Rightarrow> bool \<Rightarrow> openai_tool_stream \<times> net \<times> bool" where
  "openai_tool_emit_param_prefix ts w name is_str =
     (let frag = json_escape (if ts_first_param ts then [] else '','') name @ '':'' @ (if is_str then [DQ] else []);
          ts1 = ts\<lparr>ts_first_param := False\<rparr>;
          (w1, ok) = openai_tool_emit_args_fragment ts1 w frag
      in (ts1, w1, ok))"

definition openai_tool_stream_init :: "string \<Rightarrow> nat \<Rightarrow> nat \<Rightarrow> openai_tool_stream \<times> bool" where
  "openai_tool_stream_init raw raw_len pos =
     (let ts = openai_tool_stream_zero\<lparr>ts_active := True, ts_parse_pos := pos\<rparr>;
          use = (\<lambda>sty. (ts\<lparr>ts_style := sty, ts_parse_pos := pos + length (tool_calls_start sty)\<rparr>, True))
      in if raw_full_lit raw raw_len pos DS4_TOOL_CALLS_START then use style_dsml
         else if raw_full_lit raw raw_len pos DS4_TOOL_CALLS_START_SHORT then use style_short
         else if raw_full_lit raw raw_len pos ''<tool_calls>'' then use style_xml
         else (ts\<lparr>ts_active := False, ts_state := OPENAI_TOOL_ERROR\<rparr>, False))"

definition openai_tool_stream_fail :: "openai_tool_stream \<Rightarrow> openai_tool_stream" where
  "openai_tool_stream_fail ts = ts\<lparr>ts_active := False, ts_state := OPENAI_TOOL_ERROR\<rparr>"

text \<open>\<open>memchr(raw + pos, '>', raw_len - pos)\<close>, as an offset into \<open>raw\<close>.\<close>

definition find_tag_end :: "string \<Rightarrow> nat \<Rightarrow> nat \<Rightarrow> nat option" where
  "find_tag_end raw raw_len pos =
     map_option (\<lambda>i. pos + i) (strchr (take (raw_len - pos) (drop pos raw)) (CHR ''>''))"

definition openai_tool_start_invoke ::
  "'a server_scheme \<Rightarrow> (nat \<Rightarrow> u8 list) \<Rightarrow> openai_tool_stream \<Rightarrow> net \<Rightarrow> string \<Rightarrow> nat \<Rightarrow>
   (openai_tool_stream \<times> net \<times> bool) option" where
  "openai_tool_start_invoke s rnd ts w raw raw_len =
     (case find_tag_end raw raw_len (ts_parse_pos ts) of
        None \<Rightarrow> Some (ts, w, True)
      | Some e \<Rightarrow>
          (case dsml_attr (c_str (piece raw (ts_parse_pos ts) (e + 1))) ''name'' of
             None \<Rightarrow> Some (openai_tool_stream_fail ts, w, True)
           | Some name \<Rightarrow>
               (case openai_tool_stream_id s rnd ts (ts_index ts) w of
                  None \<Rightarrow> None
                | Some (tool_id, ts1, w1) \<Rightarrow>
                    (case sse_chat_tool_call_start_delta w1 (ts_index ts1) tool_id name of
                       (w2, False) \<Rightarrow> Some (ts1, w2, False)
                     | (w2, True) \<Rightarrow>
                         (case openai_tool_emit_args_fragment ts1 w2 ''{'' of
                            (w3, False) \<Rightarrow> Some (ts1, w3, False)
                          | (w3, True) \<Rightarrow>
                              Some (ts1\<lparr>ts_emitted_any := True, ts_args_open := True, ts_first_param := True,
                                      ts_parse_pos := e + 1, ts_state := OPENAI_TOOL_BETWEEN_PARAMS\<rparr>, w3, True))))))"

definition openai_tool_start_param ::
  "openai_tool_stream \<Rightarrow> net \<Rightarrow> string \<Rightarrow> nat \<Rightarrow> openai_tool_stream \<times> net \<times> bool" where
  "openai_tool_start_param ts w raw raw_len =
     (case find_tag_end raw raw_len (ts_parse_pos ts) of
        None \<Rightarrow> (ts, w, True)
      | Some e \<Rightarrow>
          let tag = c_str (piece raw (ts_parse_pos ts) (e + 1)) in
          (case (dsml_attr tag ''name'', dsml_attr tag ''string'') of
             (Some name, Some is_str) \<Rightarrow>
               let string_value = (is_str = ''true'');
                   (ts1, w1, ok) = openai_tool_emit_param_prefix ts w name string_value
               in if \<not> ok then (ts1, w1, False)
                  else (ts1\<lparr>ts_param_is_string := string_value, ts_parse_pos := e + 1,
                          ts_state := OPENAI_TOOL_PARAM_VALUE\<rparr>, w1, True)
           | _ \<Rightarrow> (openai_tool_stream_fail ts, w, True)))"

definition openai_tool_finish_param ::
  "openai_tool_stream \<Rightarrow> net \<Rightarrow> string \<Rightarrow> nat \<Rightarrow> openai_tool_stream \<times> net \<times> bool" where
  "openai_tool_finish_param ts w raw value_end =
     (case (if value_end > ts_parse_pos ts
            then openai_tool_emit_value ts w (piece raw (ts_parse_pos ts) value_end) else (w, True)) of
        (w1, False) \<Rightarrow> (ts, w1, False)
      | (w1, True) \<Rightarrow>
          (case (if ts_param_is_string ts then openai_tool_emit_args_fragment ts w1 [DQ] else (w1, True)) of
             (w2, False) \<Rightarrow> (ts, w2, False)
           | (w2, True) \<Rightarrow>
               (ts\<lparr>ts_parse_pos := value_end + length (param_end (ts_style ts)),
                   ts_state := OPENAI_TOOL_BETWEEN_PARAMS\<rparr>, w2, True)))"

text \<open>One iteration of the loop of \<open>openai_tool_stream_update\<close>: it returns, or it continues.\<close>

datatype loop_exit = Continue | Return bool

definition skip_ws_pos :: "string \<Rightarrow> nat \<Rightarrow> nat \<Rightarrow> nat" where
  \<comment> \<open>\<open>while (pos < raw_len && isspace(raw[pos])) pos++;\<close>\<close>
  "skip_ws_pos raw raw_len pos = pos + length (takeWhile isspace (take (raw_len - pos) (drop pos raw)))"

definition openai_tool_between_invokes ::
  "'a server_scheme \<Rightarrow> (nat \<Rightarrow> u8 list) \<Rightarrow> openai_tool_stream \<Rightarrow> net \<Rightarrow> string \<Rightarrow> nat \<Rightarrow>
   (loop_exit \<times> openai_tool_stream \<times> net) option" where
  "openai_tool_between_invokes s rnd ts0 w raw raw_len =
     (let ts = ts0\<lparr>ts_parse_pos := skip_ws_pos raw raw_len (ts_parse_pos ts0)\<rparr>;
          pos = ts_parse_pos ts; sty = ts_style ts
      in if pos \<ge> raw_len then Some (Return True, ts, w)
         else if raw_full_lit raw raw_len pos (tool_calls_end sty) then
           Some (Return True, ts\<lparr>ts_parse_pos := pos + length (tool_calls_end sty), ts_active := False,
                   ts_state := OPENAI_TOOL_DONE\<rparr>, w)
         else if raw_partial_any raw raw_len pos (tool_calls_end sty) (invoke_start sty) then
           Some (Return True, ts, w)
         else if raw_full_lit raw raw_len pos (invoke_start sty) then
           (case openai_tool_start_invoke s rnd ts w raw raw_len of
              None \<Rightarrow> None
            | Some (ts1, w1, False) \<Rightarrow> Some (Return False, ts1, w1)
            | Some (ts1, w1, True) \<Rightarrow>
                Some (if ts_parse_pos ts1 = pos \<and> ts_state ts1 = ts_state ts then Return True else Continue, ts1, w1))
         else Some (Return True, openai_tool_stream_fail ts, w))"

definition openai_tool_between_params ::
  "openai_tool_stream \<Rightarrow> net \<Rightarrow> string \<Rightarrow> nat \<Rightarrow> loop_exit \<times> openai_tool_stream \<times> net" where
  "openai_tool_between_params ts0 w raw raw_len =
     (let ts = ts0\<lparr>ts_parse_pos := skip_ws_pos raw raw_len (ts_parse_pos ts0)\<rparr>;
          pos = ts_parse_pos ts; sty = ts_style ts
      in if pos \<ge> raw_len then (Return True, ts, w)
         else if raw_full_lit raw raw_len pos (invoke_end sty) then
           (case (if ts_args_open ts then openai_tool_emit_args_fragment ts w ''}'' else (w, True)) of
              (w1, False) \<Rightarrow> (Return False, ts, w1)
            | (w1, True) \<Rightarrow>
                (Continue, ts\<lparr>ts_args_open := False, ts_parse_pos := pos + length (invoke_end sty),
                    ts_index := ts_index ts + 1, ts_state := OPENAI_TOOL_BETWEEN_INVOKES\<rparr>, w1))
         else if raw_partial_any raw raw_len pos (invoke_end sty) (param_start sty) then (Return True, ts, w)
         else if raw_full_lit raw raw_len pos (param_start sty) then
           (case openai_tool_start_param ts w raw raw_len of
              (ts1, w1, False) \<Rightarrow> (Return False, ts1, w1)
            | (ts1, w1, True) \<Rightarrow>
                (if ts_parse_pos ts1 = pos \<and> ts_state ts1 = ts_state ts then Return True else Continue, ts1, w1))
         else (Return True, openai_tool_stream_fail ts, w))"

definition openai_tool_param_value ::
  "openai_tool_stream \<Rightarrow> net \<Rightarrow> string \<Rightarrow> nat \<Rightarrow> loop_exit \<times> openai_tool_stream \<times> net" where
  "openai_tool_param_value ts w raw raw_len =
     (let pos = ts_parse_pos ts; p_end = param_end (ts_style ts) in
      case find_lit_bounded (drop pos raw) (raw_len - pos) p_end of
        Some e \<Rightarrow>
          (case openai_tool_finish_param ts w raw (pos + e) of
             (ts1, w1, False) \<Rightarrow> (Return False, ts1, w1)
           | (ts1, w1, True) \<Rightarrow> (Continue, ts1, w1))
      | None \<Rightarrow>
          let limit = tool_param_value_stream_safe_len raw pos raw_len p_end (ts_param_is_string ts) in
          if limit > pos then
            (case openai_tool_emit_value ts w (piece raw pos limit) of
               (w1, False) \<Rightarrow> (Return False, ts, w1)
             | (w1, True) \<Rightarrow> (Return True, ts\<lparr>ts_parse_pos := limit\<rparr>, w1))
          else (Return True, ts, w))"

definition openai_tool_step ::
  "'a server_scheme \<Rightarrow> (nat \<Rightarrow> u8 list) \<Rightarrow> openai_tool_stream \<Rightarrow> net \<Rightarrow> string \<Rightarrow> nat \<Rightarrow>
   (loop_exit \<times> openai_tool_stream \<times> net) option" where
  "openai_tool_step s rnd ts w raw raw_len =
     (case ts_state ts of
        OPENAI_TOOL_BETWEEN_INVOKES \<Rightarrow> openai_tool_between_invokes s rnd ts w raw raw_len
      | OPENAI_TOOL_BETWEEN_PARAMS \<Rightarrow> Some (openai_tool_between_params ts w raw raw_len)
      | OPENAI_TOOL_PARAM_VALUE \<Rightarrow> Some (openai_tool_param_value ts w raw raw_len)
      | _ \<Rightarrow> Some (Return True, ts, w))"

text \<open>The loop. It makes progress with every round, so the test that it does is never false.\<close>

function openai_tool_stream_update ::
  "'a server_scheme \<Rightarrow> (nat \<Rightarrow> u8 list) \<Rightarrow> openai_tool_stream \<Rightarrow> net \<Rightarrow> string \<Rightarrow> nat \<Rightarrow>
   (openai_tool_stream \<times> net \<times> bool) option" where
  "openai_tool_stream_update s rnd ts w raw raw_len =
     (if ts_active ts \<and> ts_parse_pos ts < raw_len then
        (case openai_tool_step s rnd ts w raw raw_len of
           None \<Rightarrow> None
         | Some (Return ok, ts1, w1) \<Rightarrow> Some (ts1, w1, ok)
         | Some (Continue, ts1, w1) \<Rightarrow>
             if \<not> ts_active ts1 \<or> ts_parse_pos ts < ts_parse_pos ts1
             then openai_tool_stream_update s rnd ts1 w1 raw raw_len else None)
      else Some (ts, w, True))"
  by pat_completeness auto
termination
  by (relation "measure (\<lambda>(s, rnd, ts, w, raw, raw_len).
        (if ts_active ts then Suc (raw_len - ts_parse_pos ts) else 0))") auto

declare openai_tool_stream_update.simps [simp del]

section \<open>The stream of a chat\<close>

datatype openai_stream_mode = OPENAI_STREAM_THINKING | OPENAI_STREAM_TEXT | OPENAI_STREAM_TOOL | OPENAI_STREAM_SUPPRESS

record openai_stream =
  os_mode :: openai_stream_mode
  os_emit_pos :: nat
  os_active :: bool
  os_checked_think_prefix :: bool
  os_sent_reasoning :: bool
  os_sent_content :: bool
  os_tool :: openai_tool_stream

definition openai_stream_start :: "request \<Rightarrow> openai_stream" where
  "openai_stream_start r =
     \<lparr>os_mode = (if ds4_think_mode_enabled (r_think_mode r) then OPENAI_STREAM_THINKING else OPENAI_STREAM_TEXT),
      os_emit_pos = 0, os_active = True, os_checked_think_prefix = False, os_sent_reasoning = False,
      os_sent_content = False, os_tool = openai_tool_stream_zero\<rparr>"

text \<open>The part that both APIs share: how far the reasoning reaches that can be shown now.
  None: the text is still a proper prefix of \<open><think>\<close>, so nothing is decided.\<close>

definition THINK_OPEN :: string where "THINK_OPEN = ''<think>''"
definition THINK_CLOSE :: string where "THINK_CLOSE = ''</think>''"

definition undecided_prefix :: "string \<Rightarrow> nat \<Rightarrow> bool \<Rightarrow> bool" where
  "undecided_prefix raw raw_len final \<longleftrightarrow>
     raw_len < length THINK_OPEN \<and> take raw_len raw = take raw_len THINK_OPEN \<and> \<not> final"

definition has_think_prefix :: "string \<Rightarrow> nat \<Rightarrow> bool" where
  "has_think_prefix raw raw_len \<longleftrightarrow> raw_len \<ge> length THINK_OPEN \<and> prefix THINK_OPEN raw"

definition thinking_limit :: "string \<Rightarrow> nat \<Rightarrow> nat \<Rightarrow> bool \<Rightarrow> nat" where
  "thinking_limit raw pos raw_len final =
     (case strstr (drop pos raw) THINK_CLOSE of
        Some i \<Rightarrow> pos + i
      | None \<Rightarrow>
          if final then raw_len
          else let hold = length THINK_CLOSE - 1 in
               utf8_stream_safe_len raw pos (if raw_len > hold then raw_len - hold else pos) False)"

definition openai_run_tool ::
  "'a server_scheme \<Rightarrow> (nat \<Rightarrow> u8 list) \<Rightarrow> openai_stream \<Rightarrow> net \<Rightarrow> string \<Rightarrow> nat \<Rightarrow> (openai_stream \<times> net \<times> bool) option" where
  \<comment> \<open>\<open>if (st->mode == OPENAI_STREAM_TOOL)\<close>\<close>
  "openai_run_tool s rnd st w raw raw_len =
     (if os_mode st = OPENAI_STREAM_TOOL then
        (case openai_tool_stream_update s rnd (os_tool st) w raw raw_len of
           None \<Rightarrow> None
         | Some (ts, w1, False) \<Rightarrow> Some (st\<lparr>os_tool := ts\<rparr>, w1, False)
         | Some (ts, w1, True) \<Rightarrow>
             Some (if ts_active ts then st\<lparr>os_tool := ts\<rparr>
                   else st\<lparr>os_tool := ts, os_mode := OPENAI_STREAM_SUPPRESS\<rparr>, w1, True))
      else Some (st, w, True))"

definition openai_after_text :: "bool \<Rightarrow> openai_stream \<Rightarrow> string \<Rightarrow> nat \<Rightarrow> bool \<Rightarrow> openai_stream" where
  \<comment> \<open>the state of the stream once the content that can be shown is sent\<close>
  "openai_after_text has_tools st raw raw_len final =
     (let pos = os_emit_pos st;
          limit = text_stream_safe_limit raw pos raw_len has_tools final;
          st1 = (if limit > pos then st\<lparr>os_sent_content := True, os_emit_pos := limit\<rparr> else st)
      in case (if has_tools then find_any_tool_start (drop pos raw) else None) of
           Some i \<Rightarrow>
             let (ts, ok) = openai_tool_stream_init raw raw_len (pos + i)
             in st1\<lparr>os_emit_pos := pos + i, os_tool := ts,
                    os_mode := (if ok then OPENAI_STREAM_TOOL else OPENAI_STREAM_SUPPRESS)\<rparr>
         | None \<Rightarrow> if final then st1\<lparr>os_mode := OPENAI_STREAM_SUPPRESS\<rparr> else st1)"

definition openai_text_update ::
  "'a server_scheme \<Rightarrow> (nat \<Rightarrow> u8 list) \<Rightarrow> bool \<Rightarrow> openai_stream \<Rightarrow> net \<Rightarrow> string \<Rightarrow> nat \<Rightarrow> bool \<Rightarrow>
   (openai_stream \<times> net \<times> bool) option" where
  \<comment> \<open>\<open>if (st->mode == OPENAI_STREAM_TEXT)\<close> and what follows\<close>
  "openai_text_update s rnd has_tools st w raw raw_len final =
     (if os_mode st = OPENAI_STREAM_TEXT then
        (let pos = os_emit_pos st; limit = text_stream_safe_limit raw pos raw_len has_tools final in
         case (if limit > pos then sse_chat_delta_n w ''content'' (piece raw pos limit) else (w, True)) of
           (w1, False) \<Rightarrow> Some (st, w1, False)
         | (w1, True) \<Rightarrow> openai_run_tool s rnd (openai_after_text has_tools st raw raw_len final) w1 raw raw_len)
      else openai_run_tool s rnd st w raw raw_len)"

definition openai_show_reasoning :: "openai_stream \<Rightarrow> net \<Rightarrow> string \<Rightarrow> nat \<Rightarrow> bool \<Rightarrow> openai_stream \<times> net \<times> bool" where
  \<comment> \<open>the reasoning that can be shown, and the state after it\<close>
  "openai_show_reasoning st w raw raw_len final =
     (let pos = os_emit_pos st; limit = thinking_limit raw pos raw_len final in
      if limit > pos then
        (case sse_chat_delta_n w ''reasoning_content'' (piece raw pos limit) of
           (w1, False) \<Rightarrow> (st, w1, False)
         | (w1, True) \<Rightarrow> (st\<lparr>os_sent_reasoning := True, os_emit_pos := limit\<rparr>, w1, True))
      else (st, w, True))"

definition openai_check_prefix :: "openai_stream \<Rightarrow> string \<Rightarrow> nat \<Rightarrow> openai_stream" where
  "openai_check_prefix st raw raw_len =
     (if os_checked_think_prefix st then st
      else st\<lparr>os_emit_pos := (if has_think_prefix raw raw_len then length THINK_OPEN else os_emit_pos st),
              os_checked_think_prefix := True\<rparr>)"

definition openai_sse_stream_update ::
  "'a server_scheme \<Rightarrow> (nat \<Rightarrow> u8 list) \<Rightarrow> bool \<Rightarrow> openai_stream \<Rightarrow> net \<Rightarrow> string \<Rightarrow> nat \<Rightarrow> bool \<Rightarrow>
   (openai_stream \<times> net \<times> bool) option" where
  "openai_sse_stream_update s rnd has_tools st w raw raw_len final =
     (if \<not> os_active st then Some (st, w, True)
      else if os_mode st = OPENAI_STREAM_THINKING then
        (if \<not> os_checked_think_prefix st \<and> undecided_prefix raw raw_len final then Some (st, w, True)
         else
           let st0 = openai_check_prefix st raw raw_len; pos = os_emit_pos st0 in
           case openai_show_reasoning st0 w raw raw_len final of
             (st1, w1, False) \<Rightarrow> Some (st1, w1, False)
           | (st1, w1, True) \<Rightarrow>
               (case strstr (drop pos raw) THINK_CLOSE of
                  Some i \<Rightarrow>
                    openai_text_update s rnd has_tools
                      (st1\<lparr>os_emit_pos := pos + i + length THINK_CLOSE, os_mode := OPENAI_STREAM_TEXT\<rparr>)
                      w1 raw raw_len final
                | None \<Rightarrow>
                    if final then Some (st1\<lparr>os_mode := OPENAI_STREAM_SUPPRESS\<rparr>, w1, True)
                    else Some (st1, w1, True)))
      else openai_text_update s rnd has_tools st w raw raw_len final)"

definition openai_sse_finish_live ::
  "'a server_scheme \<Rightarrow> (nat \<Rightarrow> u8 list) \<Rightarrow> request \<Rightarrow> openai_stream \<Rightarrow> net \<Rightarrow> string \<Rightarrow> tool_call list \<Rightarrow> cstr \<Rightarrow>
   int \<Rightarrow> int \<Rightarrow> (openai_stream \<times> net \<times> bool) option" where
  "openai_sse_finish_live s rnd r st w raw cs fin prompt_tokens completion_tokens =
     (case openai_sse_stream_update s rnd (r_has_tools r) st w raw (length raw) True of
        None \<Rightarrow> None
      | Some (st1, w1, False) \<Rightarrow> Some (st1, w1, False)
      | Some (st1, w1, True) \<Rightarrow>
          (case send_all w1 ((if cs \<noteq> [] \<and> \<not> ts_emitted_any (os_tool st1) then [Tool_deltas cs] else []) @ [Chat_finish fin]) of
             (w2, False) \<Rightarrow> Some (st1, w2, False)
           | (w2, True) \<Rightarrow>
               (case sse_done w2 r prompt_tokens completion_tokens of (w3, ok) \<Rightarrow> Some (st1, w3, ok))))"

definition request_uses_openai_live_stream :: "request \<Rightarrow> bool" where
  "request_uses_openai_live_stream r \<longleftrightarrow> r_stream r \<and> r_api r = API_OPENAI \<and> r_kind r = REQ_CHAT"

definition request_uses_structured_stream :: "request \<Rightarrow> bool" where
  "request_uses_structured_stream r \<longleftrightarrow> r_stream r \<and> (r_api r = API_ANTHROPIC \<or> request_uses_openai_live_stream r)"

text \<open>The ids a stream has shown become the ids of the parsed calls.\<close>

definition apply_openai_stream_tool_ids :: "tool_calls \<Rightarrow> openai_stream \<Rightarrow> tool_calls" where
  "apply_openai_stream_tool_ids cs st =
     cs\<lparr>calls_v := map (\<lambda>(i, tc).
          if or_empty (tc_id tc) \<noteq> [] then tc
          else if i < length (ts_ids (os_tool st)) \<and> or_empty (ts_ids (os_tool st) ! i) \<noteq> []
          then tc\<lparr>tc_id := ts_ids (os_tool st) ! i\<rparr> else tc) (enumerate 0 (calls_v cs))\<rparr>"

end
