(* ===== verification/StreamSplit.thy ===== *)
theory StreamSplit
  imports OpenaiStream
begin

text \<open>
  What a stream shows does not depend on how the generated text arrives. \<open>split_text\<close> says what a
  complete text consists of: the reasoning before \<open></think>\<close>, and the answer up to a tool-call block.
  \<open>split_step\<close> is what one call of a stream update shows of the text so far. The locale
  \<open>text_splitter\<close> is the interface of an update function that shows what \<open>split_step\<close> says; in it
  the pieces shown for any sequence of growing texts are proved to add up to \<open>split_text\<close>.
\<close>

section \<open>Occurrences\<close>

definition first_at :: "(nat \<Rightarrow> bool) \<Rightarrow> nat \<Rightarrow> nat \<Rightarrow> bool" where
  "first_at P p j \<longleftrightarrow> p \<le> j \<and> P j \<and> (\<forall>k. p \<le> k \<and> k < j \<longrightarrow> \<not> P k)"

lemma first_at_unique: "first_at P p i \<Longrightarrow> first_at P p j \<Longrightarrow> i = j"
  unfolding first_at_def by (meson linorder_neqE_nat)

lemma first_at_later: "first_at P a j \<Longrightarrow> a \<le> p \<Longrightarrow> p \<le> j \<Longrightarrow> first_at P p j"
  by (auto simp: first_at_def)

lemma first_at_earlier: "first_at P p j \<Longrightarrow> a \<le> p \<Longrightarrow> (\<And>k. a \<le> k \<Longrightarrow> k < p \<Longrightarrow> \<not> P k) \<Longrightarrow> first_at P a j"
  by (fastforce simp: first_at_def)

lemma occurs_at_drop_iff: "p \<le> length s \<Longrightarrow> occurs_at (drop p s) m i \<longleftrightarrow> occurs_at s m (p + i)"
  by (auto simp: occurs_at_def add.commute)

lemma strstr_drop_Some:
  assumes "p \<le> length s"
  shows "strstr (drop p s) m = Some i \<longleftrightarrow> first_at (occurs_at s m) p (p + i)"
proof
  assume *: "strstr (drop p s) m = Some i"
  have "\<not> occurs_at s m k" if "p \<le> k" "k < p + i" for k
    using strstr_first [OF *, of "k - p"] that assms by (auto simp: occurs_at_drop_iff)
  then show "first_at (occurs_at s m) p (p + i)"
    using strstr_Some [OF *] assms by (auto simp: first_at_def occurs_at_drop_iff)
next
  assume *: "first_at (occurs_at s m) p (p + i)"
  then have i: "occurs_at (drop p s) m i" using assms by (auto simp: first_at_def occurs_at_drop_iff)
  show "strstr (drop p s) m = Some i"
  proof (cases "strstr (drop p s) m")
    case None
    with i show ?thesis by (auto dest: strstr_None)
  next
    case (Some k)
    then have "k \<le> i" using strstr_first i by blast
    moreover have "\<not> k < i"
      using strstr_Some [OF Some] * assms by (auto simp: first_at_def occurs_at_drop_iff)
    ultimately show ?thesis using Some by simp
  qed
qed

lemma strstr_drop_None:
  assumes "p \<le> length s"
  shows "strstr (drop p s) m = None \<longleftrightarrow> (\<forall>j \<ge> p. \<not> occurs_at s m j)"
proof
  assume *: "strstr (drop p s) m = None"
  show "\<forall>j \<ge> p. \<not> occurs_at s m j"
  proof (intro allI impI)
    fix j assume "p \<le> j"
    with strstr_None [OF *, of "j - p"] assms show "\<not> occurs_at s m j" by (simp add: occurs_at_drop_iff)
  qed
next
  assume "\<forall>j \<ge> p. \<not> occurs_at s m j"
  with strstr_drop_Some [OF assms] show "strstr (drop p s) m = None"
    by (metis first_at_def not_None_eq)
qed

lemma occurs_at_take:
  assumes "n \<le> length s" "m \<noteq> []"
  shows "occurs_at (take n s) m j \<longleftrightarrow> occurs_at s m j \<and> j + length m \<le> n"
proof
  assume *: "occurs_at (take n s) m j"
  then have "j + length m \<le> n" using occurs_at_length [OF *] assms by simp
  with * show "occurs_at s m j \<and> j + length m \<le> n"
    by (auto simp: occurs_at_def prefix_iff_take drop_take min_def split: if_splits)
next
  assume "occurs_at s m j \<and> j + length m \<le> n"
  then show "occurs_at (take n s) m j"
    using assms by (auto simp: occurs_at_def prefix_iff_take drop_take min_def)
qed

section \<open>Tool-call markers\<close>

definition tool_starts :: "string list" where
  "tool_starts = [DS4_TOOL_CALLS_START, DS4_TOOL_CALLS_START_SHORT, ''<tool_calls>'']"

definition tool_at :: "string \<Rightarrow> nat \<Rightarrow> bool" where
  "tool_at s j \<longleftrightarrow> (\<exists>m \<in> set tool_starts. occurs_at s m j)"

lemma tool_starts_shape:
  "m \<in> set tool_starts \<Longrightarrow> m \<noteq> [] \<and> hd m = CHR ''<'' \<and> CHR ''<'' \<notin> set (tl m) \<and> 12 \<le> length m \<and> length m \<le> 80"
  by (auto simp: tool_starts_def dsml_tag_defs dsml_short_tag_defs)

lemma find_any_tool_start_first:
  assumes "p \<le> length s"
  shows "find_any_tool_start (drop p s) = Some i \<longleftrightarrow> first_at (tool_at s) p (p + i)"
    and "find_any_tool_start (drop p s) = None \<longleftrightarrow> (\<forall>j \<ge> p. \<not> tool_at s j)"
proof -
  let ?f = "\<lambda>m. strstr (drop p s) m"
  define a b c where "a = ?f DS4_TOOL_CALLS_START" and "b = ?f DS4_TOOL_CALLS_START_SHORT" and "c = ?f ''<tool_calls>''"
  have fs: "find_any_tool_start (drop p s) = plus_offset (plus_offset (plus_offset None a) b) c"
    by (simp add: find_any_tool_start_def a_def b_def c_def)
  have none: "find_any_tool_start (drop p s) = None \<longleftrightarrow> a = None \<and> b = None \<and> c = None"
    by (auto simp: fs plus_offset_def split: option.splits if_splits)
  then show N: "find_any_tool_start (drop p s) = None \<longleftrightarrow> (\<forall>j \<ge> p. \<not> tool_at s j)"
    by (auto simp: a_def b_def c_def strstr_drop_None [OF assms] tool_at_def tool_starts_def)
  have some: "find_any_tool_start (drop p s) = Some k \<Longrightarrow>
      Some k \<in> {a, b, c} \<and> (\<forall>l. Some l \<in> {a, b, c} \<longrightarrow> k \<le> l)" for k
    by (auto simp: fs plus_offset_def split: option.splits if_splits)
  have fwd: "first_at (tool_at s) p (p + k)" if "find_any_tool_start (drop p s) = Some k" for k
  proof -
    from some [OF that] have "a = Some k \<or> b = Some k \<or> c = Some k" by auto
    then have "tool_at s (p + k)"
      by (auto simp: a_def b_def c_def strstr_drop_Some [OF assms] first_at_def tool_at_def tool_starts_def)
    moreover have "\<not> tool_at s j" if "p \<le> j" "j < p + k" for j
    proof
      assume "tool_at s j"
      then obtain m where m: "m \<in> set tool_starts" "occurs_at s m j" by (auto simp: tool_at_def)
      then have "occurs_at (drop p s) m (j - p)" using that(1) assms by (simp add: occurs_at_drop_iff)
      then obtain l where "?f m = Some l" "l \<le> j - p"
        by (metis not_None_eq strstr_None strstr_first)
      moreover have "?f m \<in> {a, b, c}" using m(1) by (auto simp: tool_starts_def a_def b_def c_def)
      ultimately have "k \<le> j - p" using some [OF \<open>find_any_tool_start (drop p s) = Some k\<close>] by force
      then show False using that by simp
    qed
    ultimately show ?thesis by (auto simp: first_at_def)
  qed
  show "find_any_tool_start (drop p s) = Some i \<longleftrightarrow> first_at (tool_at s) p (p + i)"
  proof
    assume "first_at (tool_at s) p (p + i)"
    moreover from this N obtain k where "find_any_tool_start (drop p s) = Some k"
      by (cases "find_any_tool_start (drop p s)") (auto simp: first_at_def)
    ultimately show "find_any_tool_start (drop p s) = Some i" using fwd first_at_unique by fastforce
  qed (rule fwd)
qed

lemma occurs_at_nth: "occurs_at s m j \<Longrightarrow> k < length m \<Longrightarrow> s ! (j + k) = m ! k"
  by (auto simp: occurs_at_def prefix_def nth_append dest!: arg_cong [where f = "\<lambda>x. x ! k"])

lemma tool_at_char: "tool_at s j \<Longrightarrow> s ! j = CHR ''<''"
  using tool_starts_shape by (fastforce simp: tool_at_def hd_conv_nth dest: occurs_at_nth [where k = 0])

text \<open>Two markers never overlap, so the first marker of a part is the first of the whole.\<close>

lemma tool_at_alone:
  assumes "m \<in> set tool_starts" "occurs_at s m j" "j < k" "k < j + length m"
  shows "s ! k \<noteq> CHR ''<''"
proof -
  have "s ! k = m ! (k - j)" using occurs_at_nth [OF assms(2), of "k - j"] assms(3,4) by simp
  moreover have "m ! (k - j) = tl m ! (k - j - 1)" using assms(3,4) by (simp add: nth_tl Suc_diff_Suc)
  moreover have "k - j - 1 < length (tl m)" using assms(3,4) by simp
  ultimately show ?thesis using tool_starts_shape [OF assms(1)] by (metis nth_mem)
qed

lemma tool_at_take: "n \<le> length s \<Longrightarrow> tool_at (take n s) j \<Longrightarrow> tool_at s j"
  using tool_starts_shape by (auto simp: tool_at_def occurs_at_take)

lemma tool_at_take_first:
  assumes "n \<le> length s" "first_at (tool_at (take n s)) p j"
  shows "first_at (tool_at s) p j"
proof -
  have here: "tool_at (take n s) j" using assms(2) by (simp add: first_at_def)
  then have j: "j < n" using tool_starts_shape occurs_at_length assms(1)
    by (fastforce simp: tool_at_def)
  have "\<not> tool_at s k" if "p \<le> k" "k < j" for k
  proof
    assume "tool_at s k"
    then obtain m where m: "m \<in> set tool_starts" "occurs_at s m k" by (auto simp: tool_at_def)
    have "\<not> occurs_at (take n s) m k" using assms(2) that m(1) by (auto simp: first_at_def tool_at_def)
    then have "n < k + length m" using m assms(1) tool_starts_shape by (auto simp: occurs_at_take)
    then have "s ! j \<noteq> CHR ''<''" using tool_at_alone [OF m that(2)] j by simp
    moreover have "s ! j = CHR ''<''" using tool_at_char [OF here] j by simp
    ultimately show False by simp
  qed
  then show ?thesis using assms tool_at_take here by (auto simp: first_at_def)
qed

section \<open>Trimming and UTF-8\<close>

lemma trim_le: "trim_tool_separator_ws s a j \<le> j"
  by (induction s a j rule: trim_tool_separator_ws.induct) (subst trim_tool_separator_ws.simps, auto)

lemma trim_ge: "a \<le> j \<Longrightarrow> a \<le> trim_tool_separator_ws s a j"
  by (induction s a j rule: trim_tool_separator_ws.induct) (subst trim_tool_separator_ws.simps, auto)

lemma trim_low: "j \<le> a \<Longrightarrow> trim_tool_separator_ws s a j = j"
  by (subst trim_tool_separator_ws.simps) simp

lemma trim_mono: "i \<le> j \<Longrightarrow> trim_tool_separator_ws s a i \<le> trim_tool_separator_ws s a j"
proof (induction j)
  case (Suc j)
  show ?case
  proof (cases "i = Suc j")
    case False
    with Suc have le: "trim_tool_separator_ws s a i \<le> trim_tool_separator_ws s a j" by simp
    have "trim_tool_separator_ws s a (Suc j) = (if Suc j > a \<and> isspace (s ! j) then trim_tool_separator_ws s a j else Suc j)"
      by (subst trim_tool_separator_ws.simps) simp
    then show ?thesis using le trim_le [of s a i] Suc.prems False by auto
  qed simp
qed simp

lemma trim_mid: "a \<le> r \<Longrightarrow> r \<le> trim_tool_separator_ws s a j \<Longrightarrow> trim_tool_separator_ws s r j = trim_tool_separator_ws s a j"
proof (induction j)
  case 0
  then show ?case by (simp add: trim_low)
next
  case (Suc j)
  have *: "trim_tool_separator_ws s b (Suc j) = (if Suc j > b \<and> isspace (s ! j) then trim_tool_separator_ws s b j else Suc j)" for b
    by (subst trim_tool_separator_ws.simps) simp
  show ?case
  proof (cases "Suc j > a \<and> isspace (s ! j)")
    case True
    with Suc.prems * have r: "r \<le> trim_tool_separator_ws s a j" by simp
    then have "r \<le> j" using trim_le [of s a j] by simp
    with True r Suc * show ?thesis by simp
  next
    case False
    with Suc.prems * have "r \<le> Suc j" by simp
    with False Suc.prems(1) show ?thesis by (auto simp: *)
  qed
qed

lemma trim_take: "j \<le> n \<Longrightarrow> trim_tool_separator_ws (take n s) a j = trim_tool_separator_ws s a j"
proof (induction j)
  case 0
  then show ?case by (simp add: trim_low)
next
  case (Suc j)
  then show ?case
    by (subst (1 2) trim_tool_separator_ws.simps) simp
qed

lemma utf8_back_le: "utf8_back s a p c \<le> p"
  by (induction s a p c rule: utf8_back.induct) (subst utf8_back.simps, auto)

lemma utf8_safe_le: "utf8_stream_safe_len s a l final \<le> l"
  using utf8_back_le [of s a l 0] by (auto simp: utf8_stream_safe_len_def Let_def)

section \<open>Pieces\<close>

lemma piece_join: "a \<le> b \<Longrightarrow> b \<le> c \<Longrightarrow> piece s a b @ piece s b c = piece s a c"
proof -
  assume "a \<le> b" "b \<le> c"
  then have "drop b s = drop (b - a) (drop a s)" by simp
  then show ?thesis
    using \<open>a \<le> b\<close> \<open>b \<le> c\<close> take_add [of "b - a" "c - b" "drop a s"] by (simp add: piece_def)
qed

lemma piece_empty [simp]: "b \<le> a \<Longrightarrow> piece s a b = []"
  by (simp add: piece_def)

lemma piece_take: "b \<le> n \<Longrightarrow> piece (take n s) a b = piece s a b"
  by (simp add: piece_def drop_take min_def)

lemma piece_all [simp]: "piece s a (length s) = drop a s"
  by (simp add: piece_def)

lemma piece_offset [simp]: "piece s a (a + i) = take i (drop a s)"
  by (simp add: piece_def)

section \<open>What a complete text consists of\<close>

definition think_start :: "string \<Rightarrow> nat" where
  "think_start t = (if prefix THINK_OPEN t then length THINK_OPEN else 0)"

definition answer_text :: "bool \<Rightarrow> string \<Rightarrow> nat \<Rightarrow> string" where
  "answer_text has_tools t a =
     (case (if has_tools then find_any_tool_start (drop a t) else None) of
        Some i \<Rightarrow> piece t a (trim_tool_separator_ws t a (a + i))
      | None \<Rightarrow> drop a t)"

definition split_text :: "bool \<Rightarrow> bool \<Rightarrow> string \<Rightarrow> string \<times> string" where
  \<comment> \<open>(reasoning, content)\<close>
  "split_text has_tools thinking t =
     (if thinking then
        (let s = think_start t in
         case strstr (drop s t) THINK_CLOSE of
           Some i \<Rightarrow> (take i (drop s t), answer_text has_tools t (s + i + length THINK_CLOSE))
         | None \<Rightarrow> (drop s t, []))
      else ([], answer_text has_tools t 0))"

section \<open>One call of an update\<close>

datatype split_mode = Thinking | Answer | Stopped

record split_state =
  sp_mode :: split_mode
  sp_pos :: nat
  sp_checked :: bool

definition split_start :: "bool \<Rightarrow> split_state" where
  "split_start thinking = \<lparr>sp_mode = (if thinking then Thinking else Answer), sp_pos = 0, sp_checked = False\<rparr>"

definition split_answer :: "bool \<Rightarrow> string \<Rightarrow> nat \<Rightarrow> bool \<Rightarrow> split_state \<Rightarrow> split_state \<times> string" where
  "split_answer has_tools raw n final sp =
     (let pos = sp_pos sp;
          limit = text_stream_safe_limit raw pos n has_tools final
      in (case (if has_tools then find_any_tool_start (drop pos raw) else None) of
            Some i \<Rightarrow> sp\<lparr>sp_mode := Stopped, sp_pos := pos + i\<rparr>
          | None \<Rightarrow> (let sp1 = sp\<lparr>sp_pos := max pos limit\<rparr> in if final then sp1\<lparr>sp_mode := Stopped\<rparr> else sp1),
          piece raw pos limit))"

definition split_step :: "bool \<Rightarrow> string \<Rightarrow> nat \<Rightarrow> bool \<Rightarrow> split_state \<Rightarrow> split_state \<times> string \<times> string" where
  "split_step has_tools raw n final sp =
     (case sp_mode sp of
        Stopped \<Rightarrow> (sp, [], [])
      | Answer \<Rightarrow> (let (sp', c) = split_answer has_tools raw n final sp in (sp', [], c))
      | Thinking \<Rightarrow>
          if \<not> sp_checked sp \<and> undecided_prefix raw n final then (sp, [], [])
          else
            let sp0 = (if sp_checked sp then sp
                       else sp\<lparr>sp_pos := (if has_think_prefix raw n then length THINK_OPEN else sp_pos sp),
                               sp_checked := True\<rparr>);
                pos = sp_pos sp0;
                limit = thinking_limit raw pos n final
            in (case strstr (drop pos raw) THINK_CLOSE of
                  Some i \<Rightarrow>
                    let (sp', c) = split_answer has_tools raw n final
                                     (sp0\<lparr>sp_mode := Answer, sp_pos := pos + i + length THINK_CLOSE\<rparr>)
                    in (sp', piece raw pos limit, c)
                | None \<Rightarrow>
                    (let sp1 = sp0\<lparr>sp_pos := max pos limit\<rparr> in if final then sp1\<lparr>sp_mode := Stopped\<rparr> else sp1,
                     piece raw pos limit, [])))"

section \<open>The answer\<close>

definition answer_inv :: "string \<Rightarrow> bool \<Rightarrow> nat \<Rightarrow> nat \<Rightarrow> string \<Rightarrow> bool" where
  "answer_inv t has_tools a pos c \<longleftrightarrow>
     a \<le> pos \<and> pos \<le> length t \<and> c = piece t a pos \<and>
     (has_tools \<longrightarrow> (\<forall>j. first_at (tool_at t) a j \<longrightarrow> pos \<le> trim_tool_separator_ws t a j))"

text \<open>A view of a text: its first \<open>n\<close> bytes, of which \<open>k\<close> may be shown; less than a marker is held back.\<close>

definition window :: "string \<Rightarrow> nat \<Rightarrow> nat \<Rightarrow> bool \<Rightarrow> bool" where
  "window t n k final \<longleftrightarrow> n \<le> length t \<and> k \<le> n \<and> n \<le> k + 11 \<and> (final \<longrightarrow> k = length t)"

lemma last_byte_Some: "last_byte s c scan i = Some m \<Longrightarrow> scan \<le> m \<and> m < i \<and> s ! m = c \<and> (\<forall>j. m < j \<and> j < i \<longrightarrow> s ! j \<noteq> c)"
  by (induction i) (auto split: if_splits simp: less_Suc_eq)

lemma last_byte_None: "last_byte s c scan i = None \<Longrightarrow> scan \<le> j \<Longrightarrow> j < i \<Longrightarrow> s ! j \<noteq> c"
  by (induction i) (auto split: if_splits simp: less_Suc_eq)

lemma tool_hold:
  assumes win: "window t n k False" and p: "p < k"
    and none: "\<forall>j \<ge> p. \<not> tool_at (take n t) j"
    and tool: "tool_at t j" "p \<le> j"
  shows "text_stream_safe_limit (take n t) p k True False \<le> trim_tool_separator_ws t p j"
proof -
  have n: "n \<le> length t" "k \<le> n" "n \<le> k + 11" using win by (auto simp: window_def)
  obtain m where m: "m \<in> set tool_starts" "occurs_at t m j" using tool(1) by (auto simp: tool_at_def)
  have shape: "m \<noteq> []" "length m \<le> 80" using tool_starts_shape [OF m(1)] by auto
  have "\<not> occurs_at (take n t) m j" using none tool(2) m(1) by (auto simp: tool_at_def)
  then have cut: "n < j + length m" using m(2) n shape by (simp add: occurs_at_take)
  define l1 where "l1 = trim_tool_separator_ws (take n t) p k"
  define scan where "scan = (if k - p > 80 then k - 80 else p)"
  define l2 where "l2 = (case last_byte (take n t) (CHR ''<'') scan k of
      None \<Rightarrow> l1 | Some marker \<Rightarrow> if marker < l1 then marker else l1)"
  define l3 where "l3 = trim_tool_separator_ws (take n t) p l2"
  have l1: "l1 \<le> k" by (simp add: l1_def trim_le)
  have "l2 \<le> j"
  proof (cases "j < k")
    case False
    then show ?thesis using l1 by (auto simp: l2_def split: option.splits)
  next
    case True
    have jc: "take n t ! j = CHR ''<''" using tool_at_char [OF tool(1)] True n by simp
    have "scan \<le> j" using tool(2) cut shape n True by (auto simp: scan_def)
    with jc True obtain marker where mk: "last_byte (take n t) (CHR ''<'') scan k = Some marker"
      using last_byte_None by fastforce
    have "marker \<le> j"
    proof (rule ccontr)
      assume "\<not> marker \<le> j"
      moreover have "marker < k" "take n t ! marker = CHR ''<''" using last_byte_Some [OF mk] by auto
      ultimately show False using tool_at_alone [OF m, of marker] cut n by simp
    qed
    with mk show ?thesis by (auto simp: l2_def)
  qed
  moreover have "l2 \<le> n" using l1 n by (auto simp: l2_def split: option.splits)
  ultimately have l3: "l3 \<le> trim_tool_separator_ws t p j"
    by (simp add: l3_def trim_take trim_mono)
  have "text_stream_safe_limit (take n t) p k True False = utf8_stream_safe_len (take n t) p l3 False"
    using none p n find_any_tool_start_first(2) [of p "take n t"]
    unfolding text_stream_safe_limit_def Let_def l3_def l2_def scan_def l1_def by simp
  then show ?thesis using utf8_safe_le [of "take n t" p l3 False] l3 by simp
qed

lemma first_exists:
  assumes "P j" "a \<le> j"
  shows "\<exists>i. first_at P a i \<and> i \<le> j"
proof -
  let ?i = "LEAST i. a \<le> i \<and> P i"
  have "a \<le> ?i \<and> P ?i" using assms LeastI [of "\<lambda>i. a \<le> i \<and> P i" j] by simp
  moreover have "\<not> P k" if "a \<le> k" "k < ?i" for k
    using not_less_Least [OF that(2)] that(1) by blast
  moreover have "?i \<le> j" using assms by (simp add: Least_le)
  ultimately show ?thesis by (auto simp: first_at_def)
qed

lemma not_tool_beyond: "length s \<le> j \<Longrightarrow> \<not> tool_at s j"
  using tool_starts_shape occurs_at_length by (fastforce simp: tool_at_def)

lemma find_any_empty: "find_any_tool_start [] = None"
  using find_any_tool_start_first(2) [of 0 "[]"] by (simp add: not_tool_beyond)

lemma limit_le:
  "(if has_tools then find_any_tool_start (drop p raw) else None) = None \<Longrightarrow>
    text_stream_safe_limit raw p k has_tools final \<le> k"
proof -
  assume *: "(if has_tools then find_any_tool_start (drop p raw) else None) = None"
  have u: "utf8_stream_safe_len raw p (trim_tool_separator_ws raw p l) f \<le> l" for l f
    by (rule order_trans [OF utf8_safe_le trim_le])
  have "(case last_byte raw (CHR ''<'') scan k of None \<Rightarrow> trim_tool_separator_ws raw p k
      | Some marker \<Rightarrow> if marker < trim_tool_separator_ws raw p k then marker else trim_tool_separator_ws raw p k) \<le> k" for scan
    using trim_le [of raw p k] by (auto split: option.splits)
  then show ?thesis
    using * utf8_safe_le [of raw p k] order_trans [OF u]
    unfolding text_stream_safe_limit_def Let_def by (auto split: option.splits)
qed

lemma answer_step:
  assumes inv: "answer_inv t has_tools a (sp_pos sp) c" and win: "window t n k final"
    and mode: "sp_mode sp = Answer" and step: "split_answer has_tools (take n t) k final sp = (sp', d)"
  shows "sp_mode sp' = Answer \<and> \<not> final \<and> answer_inv t has_tools a (sp_pos sp') (c @ d) \<or>
    sp_mode sp' = Stopped \<and> c @ d = answer_text has_tools t a"
proof -
  define pos where "pos = sp_pos sp"
  define raw where "raw = take n t"
  define limit where "limit = text_stream_safe_limit raw pos k has_tools final"
  have n: "n \<le> length t" "k \<le> n" "n \<le> k + 11" using win by (auto simp: window_def)
  have a: "a \<le> pos" "pos \<le> length t" "c = piece t a pos"
    and before: "has_tools \<Longrightarrow> first_at (tool_at t) a j \<Longrightarrow> pos \<le> trim_tool_separator_ws t a j" for j
    using inv by (auto simp: answer_inv_def pos_def)
  have before': "pos \<le> j" if "has_tools" "first_at (tool_at t) a j" for j
    using before [OF that] trim_le [of t a j] by simp
  show ?thesis
  proof (cases "if has_tools then find_any_tool_start (drop pos raw) else None")
    case (Some i)
    then have ht: has_tools and found: "find_any_tool_start (drop pos raw) = Some i" by (auto split: if_splits)
    have "pos \<le> n"
      using found tool_starts_shape by (cases "pos \<le> n") (auto simp: raw_def find_any_empty)
    then have first_raw: "first_at (tool_at raw) pos (pos + i)"
      using find_any_tool_start_first(1) [of pos raw i] found n by (simp add: raw_def)
    then have first_pos: "first_at (tool_at t) pos (pos + i)"
      using tool_at_take_first n by (simp add: raw_def)
    have "\<not> tool_at t j" if j: "a \<le> j" "j < pos" for j
    proof
      assume "tool_at t j"
      then obtain i0 where "first_at (tool_at t) a i0" "i0 \<le> j" using first_exists [OF _ j(1)] by blast
      with before' [OF ht] j(2) show False by fastforce
    qed
    then have first_a: "first_at (tool_at t) a (pos + i)" using first_at_earlier [OF first_pos a(1)] by blast
    let ?r = "trim_tool_separator_ws t a (pos + i)"
    have r: "pos \<le> ?r" "?r \<le> pos + i" using before [OF ht first_a] trim_le by auto
    have "tool_at raw (pos + i)" using first_raw by (simp add: first_at_def)
    then have "pos + i + 12 \<le> n"
      using tool_starts_shape n by (fastforce simp: tool_at_def raw_def occurs_at_take)
    then have i: "pos < k" "pos + i \<le> n" using n(3) by simp_all
    have "limit = trim_tool_separator_ws raw pos (pos + i)"
      using i found ht by (simp add: limit_def text_stream_safe_limit_def utf8_stream_safe_len_def)
    also have "\<dots> = ?r" using i(2) trim_mid [OF a(1) r(1)] by (simp add: raw_def trim_take)
    finally have limit: "limit = ?r" .
    have "split_answer has_tools (take n t) k final sp = (sp\<lparr>sp_mode := Stopped, sp_pos := pos + i\<rparr>, piece raw pos limit)"
      using ht found [unfolded pos_def raw_def] by (simp add: split_answer_def Let_def pos_def limit_def raw_def)
    with step limit r i have "d = piece t pos ?r" "sp' = sp\<lparr>sp_mode := Stopped, sp_pos := pos + i\<rparr>"
      by (simp_all add: raw_def piece_take)
    moreover have "find_any_tool_start (drop a t) = Some (pos + i - a)"
      using find_any_tool_start_first(1) [of a t "pos + i - a"] first_a a by simp
    ultimately show ?thesis using ht a r piece_join [of a pos ?r t] by (simp add: answer_text_def)
  next
    case None
    then have none: "\<not> tool_at raw j" if "has_tools" "pos \<le> j" for j
      using find_any_tool_start_first(2) [of pos raw] that not_tool_beyond [of raw j] by (cases "pos \<le> length raw") auto
    have lim: "limit \<le> k" unfolding limit_def by (rule limit_le) (use None in \<open>auto split: if_splits\<close>)
    have d: "d = piece t pos limit"
      using step None lim n by (auto simp: split_answer_def Let_def pos_def limit_def raw_def piece_take)
    have cd: "c @ d = piece t a (max pos limit)"
      using a d piece_join [of a pos limit t] by (cases "pos \<le> limit") auto
    show ?thesis
    proof (cases final)
      case True
      then have all: "k = length t" "n = length t" using win by (auto simp: window_def)
      have "max pos limit = length t"
        using a(2) all lim None True by (auto simp: limit_def text_stream_safe_limit_def utf8_stream_safe_len_def split: option.splits)
      then have "c @ d = drop a t" using cd by simp
      moreover have "find_any_tool_start (drop a t) = None" if has_tools
      proof -
        have "\<not> tool_at t j" if j: "a \<le> j" for j
        proof
          assume "tool_at t j"
          then obtain i0 where i0: "first_at (tool_at t) a i0" using first_exists [OF _ j] by blast
          have "pos \<le> i0" by (rule before' [OF \<open>has_tools\<close> i0])
          then have "\<not> tool_at t i0" using none [OF \<open>has_tools\<close>] all by (simp add: raw_def)
          with i0 show False by (simp add: first_at_def)
        qed
        then show ?thesis using find_any_tool_start_first(2) [of a t] a by simp
      qed
      moreover have "sp_mode sp' = Stopped" using step None True by (auto simp: split_answer_def Let_def pos_def raw_def)
      ultimately show ?thesis by (simp add: answer_text_def)
    next
      case False
      have sp': "sp' = sp\<lparr>sp_pos := max pos limit\<rparr>"
        using step None False by (auto simp: split_answer_def Let_def pos_def limit_def raw_def)
      have "max pos limit \<le> trim_tool_separator_ws t a j" if "has_tools" "first_at (tool_at t) a j" for j
      proof (cases "pos < k")
        case True
        have j: "tool_at t j" "pos \<le> j" using that before' by (auto simp: first_at_def)
        have "limit \<le> trim_tool_separator_ws t pos j"
          unfolding limit_def raw_def using that(1) tool_hold [OF _ True _ j] win False none by (simp add: raw_def)
        then show ?thesis using before [OF that] trim_mid [OF a(1) before [OF that]] by simp
      next
        case False
        then have "limit \<le> pos" using lim by simp
        with before [OF that] show ?thesis by simp
      qed
      then have "answer_inv t has_tools a (max pos limit) (c @ d)"
        using a lim n cd by (auto simp: answer_inv_def)
      then show ?thesis using sp' mode False by simp
    qed
  qed
qed

section \<open>The reasoning\<close>

lemma think_close_ne [simp]: "THINK_CLOSE \<noteq> []" "length THINK_CLOSE = 8"
  by (simp_all add: THINK_CLOSE_def)

lemma first_at_take:
  assumes "n \<le> length t" "m \<noteq> []" "first_at (occurs_at (take n t) m) p j"
  shows "first_at (occurs_at t m) p j \<and> j + length m \<le> n"
proof -
  have j: "occurs_at t m j" "j + length m \<le> n" "p \<le> j"
    using assms by (auto simp: first_at_def occurs_at_take)
  moreover have "\<not> occurs_at t m k" if "p \<le> k" "k < j" for k
    using assms that j(2) by (auto simp: first_at_def occurs_at_take)
  ultimately show ?thesis by (auto simp: first_at_def)
qed

lemma think_prefix_known:
  assumes win: "window t n k final" and decided: "\<not> undecided_prefix (take n t) k final"
  shows "has_think_prefix (take n t) k \<longleftrightarrow> prefix THINK_OPEN t"
proof (cases "k \<ge> length THINK_OPEN")
  case True
  with win show ?thesis by (auto simp: has_think_prefix_def window_def prefix_iff_take min_def)
next
  case False
  have "\<not> prefix THINK_OPEN t"
  proof (cases final)
    case True
    with False win show ?thesis by (auto simp: window_def dest: prefix_length_le)
  next
    case nf: False
    have "k \<le> n" "k \<le> length THINK_OPEN" using win False by (auto simp: window_def)
    then have "take k t \<noteq> take k THINK_OPEN"
      using decided nf False by (auto simp: undecided_prefix_def min_def)
    then show ?thesis using \<open>k \<le> length THINK_OPEN\<close> by (auto simp: prefix_def)
  qed
  with False show ?thesis by (simp add: has_think_prefix_def)
qed

lemma thinking_limit_le:
  assumes "strstr (drop p raw) THINK_CLOSE = None"
  shows "thinking_limit raw p k final \<le> max p k \<and>
    (\<not> final \<longrightarrow> thinking_limit raw p k final \<le> p \<or> thinking_limit raw p k final + 7 \<le> k)"
proof (cases final)
  case True
  with assms show ?thesis by (simp add: thinking_limit_def)
next
  case False
  let ?l = "if k > 7 then k - 7 else p"
  have "utf8_stream_safe_len raw p ?l False \<le> ?l" by (rule utf8_safe_le)
  moreover have "thinking_limit raw p k final = utf8_stream_safe_len raw p ?l False"
    using assms False by (simp add: thinking_limit_def)
  ultimately show ?thesis by (auto split: if_splits)
qed

definition thinking_inv :: "string \<Rightarrow> nat \<Rightarrow> string \<Rightarrow> bool" where
  "thinking_inv t pos r \<longleftrightarrow>
     (let s = think_start t in
      s \<le> pos \<and> pos \<le> length t \<and> r = piece t s pos \<and>
      (\<forall>j. first_at (occurs_at t THINK_CLOSE) s j \<longrightarrow> pos \<le> j))"

definition answer_start :: "bool \<Rightarrow> string \<Rightarrow> nat \<Rightarrow> string \<Rightarrow> bool" where
  "answer_start thinking t a r \<longleftrightarrow>
     (if thinking then
        (let s = think_start t in
         \<exists>j. first_at (occurs_at t THINK_CLOSE) s j \<and> r = piece t s j \<and> a = j + length THINK_CLOSE)
      else r = [] \<and> a = 0)"

definition split_inv :: "string \<Rightarrow> bool \<Rightarrow> bool \<Rightarrow> split_state \<Rightarrow> string \<Rightarrow> string \<Rightarrow> bool" where
  "split_inv t has_tools thinking sp r c \<longleftrightarrow>
     (case sp_mode sp of
        Stopped \<Rightarrow> split_text has_tools thinking t = (r, c)
      | Answer \<Rightarrow> \<exists>a. answer_start thinking t a r \<and> answer_inv t has_tools a (sp_pos sp) c
      | Thinking \<Rightarrow> thinking \<and> c = [] \<and>
          (if sp_checked sp then thinking_inv t (sp_pos sp) r else sp_pos sp = 0 \<and> r = []))"

lemma think_start_le: "think_start t \<le> length t"
  by (auto simp: think_start_def dest: prefix_length_le)

lemma answer_start_text:
  assumes "answer_start thinking t a r" "c = answer_text has_tools t a"
  shows "split_text has_tools thinking t = (r, c)"
proof (cases thinking)
  case True
  then obtain j where j: "first_at (occurs_at t THINK_CLOSE) (think_start t) j" "r = piece t (think_start t) j"
    "a = j + 8" using assms(1) by (auto simp: answer_start_def Let_def)
  then obtain i where i: "j = think_start t + i" by (auto simp: first_at_def le_iff_add)
  with j have "strstr (drop (think_start t) t) THINK_CLOSE = Some i"
    using strstr_drop_Some [OF think_start_le, of t THINK_CLOSE i] by simp
  with True j i assms(2) show ?thesis by (simp add: split_text_def Let_def)
next
  case False
  with assms show ?thesis by (simp add: split_text_def answer_start_def)
qed

lemma split_inv_start: "split_inv t has_tools thinking (split_start thinking) [] []"
  by (auto simp: split_inv_def split_start_def answer_start_def answer_inv_def)

lemma answer_split:
  assumes "answer_start thinking t a r" "answer_inv t has_tools a (sp_pos sp) c" "sp_mode sp = Answer"
    "window t n k final" "split_answer has_tools (take n t) k final sp = (sp', d)"
  shows "split_inv t has_tools thinking sp' r (c @ d) \<and> (final \<longrightarrow> sp_mode sp' = Stopped)"
  using answer_step [OF assms(2,4,3,5)] assms(1) answer_start_text [OF assms(1)]
  by (auto simp: split_inv_def)

lemma thinking_step:
  assumes inv: "thinking_inv t (sp_pos sp) r" and win: "window t n k final" and th: thinking
    and mode: "sp_mode sp = Thinking" "sp_checked sp"
    and step: "split_step has_tools (take n t) k final sp = (sp', dr, dc)"
  shows "split_inv t has_tools thinking sp' (r @ dr) dc \<and> (final \<longrightarrow> sp_mode sp' = Stopped)"
proof -
  define s where "s = think_start t"
  define pos where "pos = sp_pos sp"
  define raw where "raw = take n t"
  define limit where "limit = thinking_limit raw pos k final"
  have n: "n \<le> length t" "k \<le> n" "n \<le> k + 11" and lr: "length raw = n"
    using win by (auto simp: window_def raw_def)
  have s: "s \<le> pos" "pos \<le> length t" "r = piece t s pos"
    and before: "\<And>j. first_at (occurs_at t THINK_CLOSE) s j \<Longrightarrow> pos \<le> j"
    using inv by (auto simp: thinking_inv_def Let_def s_def pos_def)
  have none_before: "\<not> occurs_at t THINK_CLOSE j" if j: "s \<le> j" "j < pos" for j
  proof
    assume "occurs_at t THINK_CLOSE j"
    then obtain i0 where "first_at (occurs_at t THINK_CLOSE) s i0" "i0 \<le> j" using first_exists [OF _ j(1)] by blast
    with before j(2) show False by fastforce
  qed
  show ?thesis
  proof (cases "strstr (drop pos raw) THINK_CLOSE")
    case (Some i)
    have "pos \<le> n" using Some lr by (cases "pos \<le> n") (auto simp: strstr.simps [of "[]"])
    then have first_raw: "first_at (occurs_at raw THINK_CLOSE) pos (pos + i)"
      using strstr_drop_Some [of pos raw] Some lr by simp
    have first: "first_at (occurs_at t THINK_CLOSE) pos (pos + i)" "pos + i + 8 \<le> n"
      using first_at_take [OF n(1) _ first_raw [unfolded raw_def]] by simp_all
    have first_s: "first_at (occurs_at t THINK_CLOSE) s (pos + i)"
      by (rule first_at_earlier [OF first(1) s(1) none_before])
    have limit: "limit = pos + i" using Some by (simp add: limit_def thinking_limit_def)
    let ?sp = "sp\<lparr>sp_mode := Answer, sp_pos := pos + i + length THINK_CLOSE\<rparr>"
    have run: "split_answer has_tools raw k final ?sp = (sp', dc)" "dr = piece raw pos (pos + i)"
      using step Some mode limit
      by (auto simp: split_step_def Let_def pos_def raw_def limit_def split: prod.splits)
    have "r @ dr = piece t s (pos + i)"
      using s run(2) first(2) by (simp add: raw_def piece_take piece_join del: piece_offset)
    then have "answer_start thinking t (pos + i + 8) (r @ dr)"
      using th first_s by (auto simp: answer_start_def Let_def s_def)
    moreover have "answer_inv t has_tools (pos + i + 8) (sp_pos ?sp) []"
      using first(2) n(1) by (auto simp: answer_inv_def first_at_def intro: trim_ge)
    moreover have "sp_mode ?sp = Answer" by simp
    ultimately show ?thesis
      using answer_split [OF _ _ _ win run(1) [unfolded raw_def], where c = "[]"] by simp
  next
    case None
    have pn: "\<not> occurs_at raw THINK_CLOSE j" if j: "pos \<le> j" for j
    proof (cases "pos \<le> n")
      case True
      then show ?thesis using strstr_drop_None [of pos raw] None j lr by blast
    next
      case False
      then show ?thesis using occurs_at_length [of raw THINK_CLOSE j] j lr by auto
    qed
    have late: "n < j + 8" if "pos \<le> j" "occurs_at t THINK_CLOSE j" for j
      using pn [OF that(1)] that(2) n by (auto simp: raw_def occurs_at_take)
    let ?p = "max pos limit"
    have out: "sp' = (let sp1 = sp\<lparr>sp_pos := ?p\<rparr> in if final then sp1\<lparr>sp_mode := Stopped\<rparr> else sp1)"
      "dr = piece raw pos limit" "dc = []"
      using step None mode by (auto simp: split_step_def Let_def pos_def raw_def limit_def)
    have lim: "limit \<le> max pos k" "\<not> final \<Longrightarrow> limit \<le> pos \<or> limit + 7 \<le> k"
      using thinking_limit_le [OF None, of k final] by (simp_all add: limit_def)
    have dr: "dr = piece t pos limit"
      using out(2) lim(1) n by (cases "limit \<le> pos") (auto simp: raw_def piece_take)
    have rr: "r @ dr = piece t s ?p"
      using s dr piece_join [of s pos limit t] by (cases "pos \<le> limit") auto
    show ?thesis
    proof (cases final)
      case True
      then have k: "k = length t" "n = length t" using win by (auto simp: window_def)
      have "limit = k" using True None by (simp add: limit_def thinking_limit_def)
      then have "?p = length t" using s(2) k by simp
      moreover have "strstr (drop s t) THINK_CLOSE = None"
      proof -
        have "\<not> occurs_at t THINK_CLOSE j" if "s \<le> j" for j
          using none_before [OF that] late [of j] occurs_at_length [of t THINK_CLOSE j] k
          by (cases "pos \<le> j") auto
        then show ?thesis using strstr_drop_None [OF think_start_le, of t THINK_CLOSE] by (simp add: s_def)
      qed
      ultimately show ?thesis
        using out(1,3) True th rr by (simp add: split_inv_def split_text_def s_def Let_def)
    next
      case False
      have "?p \<le> j" if "first_at (occurs_at t THINK_CLOSE) s j" for j
      proof -
        have "occurs_at t THINK_CLOSE j" "pos \<le> j" using that before by (auto simp: first_at_def)
        then have "n < j + 8" "pos \<le> j" using late by auto
        with lim(2) [OF False] n show ?thesis by auto
      qed
      moreover have "?p \<le> length t" using s(2) lim(1) n by auto
      ultimately have "thinking_inv t ?p (r @ dr)" using s rr by (auto simp: thinking_inv_def Let_def s_def)
      then show ?thesis using out(1,3) False th mode by (simp add: split_inv_def)
    qed
  qed
qed

lemma split_step_inv:
  assumes inv: "split_inv t has_tools thinking sp r c" and win: "window t n k final"
    and step: "split_step has_tools (take n t) k final sp = (sp', dr, dc)"
  shows "split_inv t has_tools thinking sp' (r @ dr) (c @ dc) \<and> (final \<longrightarrow> sp_mode sp' = Stopped)"
proof (cases "sp_mode sp")
  case Stopped
  with inv step show ?thesis by (auto simp: split_step_def split_inv_def)
next
  case Answer
  then obtain a where "answer_start thinking t a r" "answer_inv t has_tools a (sp_pos sp) c"
    using inv by (auto simp: split_inv_def)
  moreover from step Answer have "split_answer has_tools (take n t) k final sp = (sp', dc)" "dr = []"
    by (auto simp: split_step_def split: prod.splits)
  ultimately show ?thesis using answer_split [OF _ _ Answer win] by auto
next
  case Thinking
  then have th: thinking and c: "c = []" using inv by (auto simp: split_inv_def)
  show ?thesis
  proof (cases "sp_checked sp")
    case True
    then have "thinking_inv t (sp_pos sp) r" using inv Thinking by (simp add: split_inv_def)
    from thinking_step [OF this win th Thinking True step] c show ?thesis by simp
  next
    case False
    then have zero: "sp_pos sp = 0" "r = []" using inv Thinking by (auto simp: split_inv_def)
    show ?thesis
    proof (cases "undecided_prefix (take n t) k final")
      case True
      then have "sp' = sp" "dr = []" "dc = []" "\<not> final"
        using step Thinking False by (auto simp: split_step_def undecided_prefix_def)
      with inv show ?thesis by simp
    next
      case decided: False
      define sp0 where "sp0 = sp\<lparr>sp_pos := think_start t, sp_checked := True\<rparr>"
      have "(if has_think_prefix (take n t) k then length THINK_OPEN else sp_pos sp) = think_start t"
        using think_prefix_known [OF win decided] zero by (simp add: think_start_def)
      then have "split_step has_tools (take n t) k final sp0 = (sp', dr, dc)"
        using step Thinking False decided by (simp add: split_step_def sp0_def)
      moreover have "thinking_inv t (sp_pos sp0) []"
        by (auto simp: thinking_inv_def sp0_def Let_def think_start_le first_at_def)
      ultimately show ?thesis
        using thinking_step [of t sp0 "[]" n k final thinking has_tools sp' dr dc] win th Thinking zero c
        by (simp add: sp0_def)
    qed
  qed
qed

section \<open>The interface of a stream update\<close>

locale text_splitter =
  fixes step :: "string \<Rightarrow> nat \<Rightarrow> bool \<Rightarrow> 'st \<Rightarrow> 'st option"
    and view :: "'st \<Rightarrow> split_state"
    and shown_reasoning shown_content :: "'st \<Rightarrow> string"
    and has_tools :: bool
  assumes step_shows: "step raw k final x = Some x' \<Longrightarrow>
    \<exists>dr dc. split_step has_tools raw k final (view x) = (view x', dr, dc) \<and>
      shown_reasoning x' = shown_reasoning x @ dr \<and> shown_content x' = shown_content x @ dc"
begin

fun run :: "(string \<times> nat) list \<Rightarrow> 'st \<Rightarrow> 'st option" where
  "run [] x = Some x"
| "run ((raw, k) # chunks) x = Option.bind (step raw k False x) (run chunks)"

lemma run_inv:
  "run chunks x = Some x' \<Longrightarrow>
   \<forall>(raw, k) \<in> set chunks. \<exists>n. raw = take n t \<and> window t n k False \<Longrightarrow>
   split_inv t has_tools thinking (view x) (shown_reasoning x) (shown_content x) \<Longrightarrow>
   split_inv t has_tools thinking (view x') (shown_reasoning x') (shown_content x')"
proof (induction chunks arbitrary: x)
  case (Cons c chunks)
  obtain raw k where c: "c = (raw, k)" by (cases c)
  with Cons.prems(1) obtain x1 where x1: "step raw k False x = Some x1" "run chunks x1 = Some x'" by auto
  from Cons.prems(2) c obtain n where n: "raw = take n t" "window t n k False" by auto
  from step_shows [OF x1(1)] obtain dr dc where
    s: "split_step has_tools raw k False (view x) = (view x1, dr, dc)"
    "shown_reasoning x1 = shown_reasoning x @ dr" "shown_content x1 = shown_content x @ dc" by blast
  have "split_inv t has_tools thinking (view x1) (shown_reasoning x1) (shown_content x1)"
    using split_step_inv [OF Cons.prems(3) n(2) s(1) [unfolded n(1)]] s(2,3) by simp
  with Cons.IH [OF x1(2)] Cons.prems(2) show ?case by simp
qed simp

text \<open>Whatever the pieces in which the text arrives: in the end all of its reasoning and content
  has been shown, once and in order, and nothing of its tool calls.\<close>

lemma shows_split_text:
  assumes chunks: "\<forall>(raw, k) \<in> set chunks. prefix raw t \<and> k \<le> length raw \<and> length raw \<le> k + 11"
    and start: "view x = split_start thinking" "shown_reasoning x = []" "shown_content x = []"
    and runs: "run chunks x = Some x1" "step t (length t) True x1 = Some x2"
  shows "(shown_reasoning x2, shown_content x2) = split_text has_tools thinking t"
proof -
  have "\<forall>(raw, k) \<in> set chunks. \<exists>n. raw = take n t \<and> window t n k False"
  proof (intro ballI, clarify)
    fix raw k assume "(raw, k) \<in> set chunks"
    then have *: "prefix raw t" "k \<le> length raw" "length raw \<le> k + 11" using chunks by auto
    then have "raw = take (length raw) t" by (auto simp: prefix_def)
    then show "\<exists>n. raw = take n t \<and> window t n k False"
      using * by (intro exI [of _ "length raw"]) (auto simp: window_def dest: prefix_length_le)
  qed
  from run_inv [OF runs(1) this, of thinking] have
    inv: "split_inv t has_tools thinking (view x1) (shown_reasoning x1) (shown_content x1)"
    using start split_inv_start by simp
  from step_shows [OF runs(2)] obtain dr dc where
    s: "split_step has_tools t (length t) True (view x1) = (view x2, dr, dc)"
    "shown_reasoning x2 = shown_reasoning x1 @ dr" "shown_content x2 = shown_content x1 @ dc" by blast
  have "window t (length t) (length t) True" by (simp add: window_def)
  from split_step_inv [OF inv this, of "view x2" dr dc] s show ?thesis by (auto simp: split_inv_def)
qed

end

end
