(* ===== verification/OpenaiStreamFacts.thy ===== *)
theory OpenaiStreamFacts
  imports StreamSplit KvStore
begin

text \<open>
  The OpenAI chat stream is a \<open>text_splitter\<close>: its \<open>reasoning_content\<close> and \<open>content\<close> deltas add up to
  the reasoning and the content of the text, however the text was cut while it was generated.
\<close>

section \<open>What the client has received\<close>

definition deltas :: "cstr \<Rightarrow> sse_frame list \<Rightarrow> string" where
  "deltas field fs = concat (map (\<lambda>f. case f of Delta g t \<Rightarrow> if g = field then t else [] | _ \<Rightarrow> []) fs)"

lemma deltas_simps [simp]:
  "deltas field [] = []" "deltas field (fs @ gs) = deltas field fs @ deltas field gs"
  "deltas field [Delta g t] = (if g = field then t else [])"
  by (simp_all add: deltas_def)

definition no_delta :: "sse_frame \<Rightarrow> bool" where
  "no_delta f \<longleftrightarrow> (case f of Delta _ _ \<Rightarrow> False | _ \<Rightarrow> True)"

lemma deltas_none: "\<forall>f \<in> set fs. no_delta f \<Longrightarrow> deltas field fs = []"
  by (induction fs) (auto simp: deltas_def no_delta_def split: sse_frame.splits)

text \<open>\<open>adds_no_delta w w'\<close>: between two states of the connection only other frames were sent.\<close>

definition adds_no_delta :: "net \<Rightarrow> net \<Rightarrow> bool" where
  "adds_no_delta w w' \<longleftrightarrow> (\<exists>fs. sent w' = sent w @ fs \<and> (\<forall>f \<in> set fs. no_delta f))"

lemma adds_refl [simp]: "adds_no_delta w w"
  by (auto simp: adds_no_delta_def)

lemma adds_trans: "adds_no_delta w w1 \<Longrightarrow> adds_no_delta w1 w2 \<Longrightarrow> adds_no_delta w w2"
  by (auto simp: adds_no_delta_def)

lemma adds_rnd [simp]: "adds_no_delta w (w1\<lparr>rnd_pos := k\<rparr>) = adds_no_delta w w1"
  "adds_no_delta (w\<lparr>rnd_pos := k\<rparr>) w1 = adds_no_delta w w1"
  by (auto simp: adds_no_delta_def)

lemma adds_deltas: "adds_no_delta w w' \<Longrightarrow> deltas field (sent w') = deltas field (sent w)"
  by (auto simp: adds_no_delta_def deltas_none)

lemma adds_send: "send_all w fs = (w', ok) \<Longrightarrow> \<forall>f \<in> set fs. no_delta f \<Longrightarrow> adds_no_delta w w'"
  by (auto simp: send_all_def adds_no_delta_def split: if_splits)

lemma adds_args: "openai_tool_emit_args_fragment ts w txt = (w', ok) \<Longrightarrow> adds_no_delta w w'"
  by (auto simp: openai_tool_emit_args_fragment_def sse_chat_tool_call_args_delta_n_def no_delta_def
        split: if_splits intro: adds_send)

lemma adds_value: "openai_tool_emit_value ts w txt = (w', ok) \<Longrightarrow> adds_no_delta w w'"
  by (auto simp: openai_tool_emit_value_def openai_tool_emit_string_value_def Let_def
        split: if_splits intro: adds_args)

lemma adds_start: "sse_chat_tool_call_start_delta w i a b = (w', ok) \<Longrightarrow> adds_no_delta w w'"
  by (auto simp: sse_chat_tool_call_start_delta_def no_delta_def intro: adds_send)

lemma adds_id: "openai_tool_stream_id s rnd ts i w = Some (x, ts', w') \<Longrightarrow> adds_no_delta w w'"
  by (auto simp: openai_tool_stream_id_def Let_def split: option.splits)

lemma adds_start_invoke:
  "openai_tool_start_invoke s rnd ts w raw n = Some (ts', w', ok) \<Longrightarrow> adds_no_delta w w'"
  by (auto simp: openai_tool_start_invoke_def split: option.splits prod.splits bool.splits
        dest!: adds_id adds_start adds_args intro: adds_trans)

lemma adds_start_param: "openai_tool_start_param ts w raw n = (ts', w', ok) \<Longrightarrow> adds_no_delta w w'"
  by (auto simp: openai_tool_start_param_def openai_tool_emit_param_prefix_def Let_def
        split: option.splits prod.splits if_splits dest!: adds_args)

lemma adds_finish_param: "openai_tool_finish_param ts w raw n = (ts', w', ok) \<Longrightarrow> adds_no_delta w w'"
  by (auto simp: openai_tool_finish_param_def split: prod.splits bool.splits if_splits
        dest!: adds_args adds_value intro: adds_trans)

lemma adds_step: "openai_tool_step s rnd ts w raw n = Some (e, ts', w') \<Longrightarrow> adds_no_delta w w'"
  by (auto simp: openai_tool_step_def openai_tool_between_invokes_def openai_tool_between_params_def
        openai_tool_param_value_def Let_def
        split: openai_tool_stream_state.splits option.splits prod.splits bool.splits if_splits
        dest!: adds_args adds_value adds_start_invoke adds_start_param adds_finish_param)

text \<open>What every round of the tool loop keeps holds after the loop.\<close>

lemma tool_update_induct:
  assumes keep: "\<And>ts w e ts' w'. I ts w \<Longrightarrow> openai_tool_step s rnd ts w raw n = Some (e, ts', w') \<Longrightarrow> I ts' w'"
  shows "openai_tool_stream_update s rnd ts w raw n = Some (ts', w', ok) \<Longrightarrow> I ts w \<Longrightarrow> I ts' w'"
proof (induction "(if ts_active ts then Suc (n - ts_parse_pos ts) else 0)" arbitrary: ts w rule: less_induct)
  case less
  show ?case
  proof (cases "ts_active ts \<and> ts_parse_pos ts < n")
    case False
    with less.prems show ?thesis by (auto simp: openai_tool_stream_update.simps [of s rnd ts])
  next
    case True
    with less.prems(1) obtain e ts1 w1 where st: "openai_tool_step s rnd ts w raw n = Some (e, ts1, w1)"
      by (subst (asm) openai_tool_stream_update.simps) (auto split: option.splits)
    have I1: "I ts1 w1" by (rule keep [OF less.prems(2) st])
    show ?thesis
    proof (cases e)
      case (Return b)
      with st True less.prems(1) I1 show ?thesis by (simp add: openai_tool_stream_update.simps [of s rnd ts])
    next
      case Continue
      with st True less.prems(1) have more: "\<not> ts_active ts1 \<or> ts_parse_pos ts < ts_parse_pos ts1"
        "openai_tool_stream_update s rnd ts1 w1 raw n = Some (ts', w', ok)"
        by (auto simp: openai_tool_stream_update.simps [of s rnd ts] split: if_splits)
      show ?thesis by (rule less.hyps [OF _ more(2) I1]) (use more(1) True in auto)
    qed
  qed
qed

lemma adds_update:
  "openai_tool_stream_update s rnd ts w raw n = Some (ts', w', ok) \<Longrightarrow> adds_no_delta w w'"
  by (erule tool_update_induct [where I = "\<lambda>_. adds_no_delta w", rotated]) (auto intro: adds_trans adds_step)

section \<open>The stream of a chat is a text splitter\<close>

definition openai_step ::
  "'a server_scheme \<Rightarrow> (nat \<Rightarrow> u8 list) \<Rightarrow> bool \<Rightarrow> string \<Rightarrow> nat \<Rightarrow> bool \<Rightarrow> openai_stream \<times> net \<Rightarrow> (openai_stream \<times> net) option" where
  \<comment> \<open>an update all of whose writes succeed\<close>
  "openai_step s rnd has_tools raw k final x =
     (case openai_sse_stream_update s rnd has_tools (fst x) (snd x) raw k final of
        Some (st, w, True) \<Rightarrow> Some (st, w)
      | _ \<Rightarrow> None)"

definition openai_view :: "openai_stream \<times> net \<Rightarrow> split_state" where
  "openai_view x =
     (let st = fst x in
      \<lparr>sp_mode = (if \<not> os_active st then Stopped
                  else case os_mode st of OPENAI_STREAM_THINKING \<Rightarrow> Thinking | OPENAI_STREAM_TEXT \<Rightarrow> Answer | _ \<Rightarrow> Stopped),
       sp_pos = os_emit_pos st, sp_checked = os_checked_think_prefix st\<rparr>)"

definition openai_reasoning :: "openai_stream \<times> net \<Rightarrow> string" where
  "openai_reasoning x = deltas ''reasoning_content'' (sent (snd x))"

definition openai_content :: "openai_stream \<times> net \<Rightarrow> string" where
  "openai_content x = deltas ''content'' (sent (snd x))"

lemma delta_n_True:
  "sse_chat_delta_n w field txt = (w', True) \<Longrightarrow>
    deltas g (sent w') = deltas g (sent w) @ (if g = field then txt else [])"
  by (auto simp: sse_chat_delta_n_def send_all_def split: if_splits)

lemma run_tool_view:
  "openai_run_tool s rnd st w raw k = Some (st', w', ok) \<Longrightarrow> os_mode st \<noteq> OPENAI_STREAM_THINKING \<Longrightarrow>
    adds_no_delta w w' \<and> openai_view (st', w') = openai_view (st, w)"
  by (auto simp: openai_run_tool_def openai_view_def split: if_splits option.splits bool.splits dest!: adds_update)

lemma after_text_view:
  assumes "os_active st" "os_mode st = OPENAI_STREAM_TEXT"
  shows "split_answer has_tools raw k final (openai_view (st, w)) =
    (openai_view (openai_after_text has_tools st raw k final, w'),
     piece raw (os_emit_pos st) (text_stream_safe_limit raw (os_emit_pos st) k has_tools final))"
  using assms
  by (auto simp: split_answer_def openai_view_def openai_after_text_def Let_def max_def
        split: option.splits prod.splits)

lemma after_text_mode: "os_mode st = OPENAI_STREAM_TEXT \<Longrightarrow> os_mode (openai_after_text ht st raw k final) \<noteq> OPENAI_STREAM_THINKING"
  by (auto simp: openai_after_text_def Let_def split: option.splits prod.splits)

lemma text_update_shows:
  assumes mode: "os_active st" "os_mode st = OPENAI_STREAM_TEXT"
    and run: "openai_text_update s rnd has_tools st w raw k final = Some (st', w', True)"
  shows "\<exists>c. split_answer has_tools raw k final (openai_view (st, w)) = (openai_view (st', w'), c) \<and>
    openai_reasoning (st', w') = openai_reasoning (st, w) \<and> openai_content (st', w') = openai_content (st, w) @ c"
proof -
  define pos where "pos = os_emit_pos st"
  define limit where "limit = text_stream_safe_limit raw pos k has_tools final"
  define st2 where "st2 = openai_after_text has_tools st raw k final"
  obtain w1 ok where w1: "(if limit > pos then sse_chat_delta_n w ''content'' (piece raw pos limit) else (w, True)) = (w1, ok)"
    by (metis surj_pair)
  have "openai_text_update s rnd has_tools st w raw k final =
      (if ok then openai_run_tool s rnd st2 w1 raw k else Some (st, w1, False))"
    using mode w1 unfolding openai_text_update_def Let_def st2_def limit_def pos_def by (cases ok) simp_all
  with run have "ok" and tail: "openai_run_tool s rnd st2 w1 raw k = Some (st', w', True)" by (auto split: if_splits)
  have "adds_no_delta w1 w'" "openai_view (st', w') = openai_view (st2, w1)"
    using run_tool_view [OF tail] after_text_mode [OF mode(2)] by (auto simp: st2_def)
  moreover have "deltas g (sent w1) = deltas g (sent w) @ (if g = ''content'' then piece raw pos limit else [])" for g
    using w1 \<open>ok\<close> by (auto split: if_splits dest: delta_n_True)
  moreover have "split_answer has_tools raw k final (openai_view (st, w)) = (openai_view (st2, w1), piece raw pos limit)"
    using after_text_view [OF mode, of has_tools raw k final w w1] by (simp add: st2_def pos_def limit_def)
  ultimately show ?thesis by (auto simp: openai_reasoning_def openai_content_def adds_deltas)
qed

lemma openai_step_shows:
  assumes "openai_step s rnd has_tools raw k final x = Some x'"
  shows "\<exists>dr dc. split_step has_tools raw k final (openai_view x) = (openai_view x', dr, dc) \<and>
    openai_reasoning x' = openai_reasoning x @ dr \<and> openai_content x' = openai_content x @ dc"
proof -
  obtain st w st' w' where x: "x = (st, w)" "x' = (st', w')" by (cases x, cases x')
  have run: "openai_sse_stream_update s rnd has_tools st w raw k final = Some (st', w', True)"
    using assms by (auto simp: openai_step_def x split: option.splits bool.splits)
  show ?thesis
  proof (cases "os_active st \<and> os_mode st = OPENAI_STREAM_THINKING")
    case False
    show ?thesis
    proof (cases "os_active st \<and> os_mode st = OPENAI_STREAM_TEXT")
      case True
      with run have "openai_text_update s rnd has_tools st w raw k final = Some (st', w', True)"
        by (simp add: openai_sse_stream_update_def)
      from text_update_shows [OF _ _ this] True obtain c where
        c: "split_answer has_tools raw k final (openai_view (st, w)) = (openai_view (st', w'), c)"
        "openai_reasoning (st', w') = openai_reasoning (st, w)" "openai_content (st', w') = openai_content (st, w) @ c"
        by blast
      have "sp_mode (openai_view (st, w)) = Answer" using True by (simp add: openai_view_def)
      with c show ?thesis by (auto simp: x split_step_def)
    next
      case stopped: False
      then have "sp_mode (openai_view (st, w)) = Stopped"
        using False by (cases "os_mode st") (auto simp: openai_view_def)
      moreover have "adds_no_delta w w' \<and> openai_view (st', w') = openai_view (st, w)"
        using run False stopped run_tool_view [of s rnd st w raw k st' w' True]
        by (auto simp: openai_sse_stream_update_def openai_text_update_def split: if_splits)
      ultimately show ?thesis
        by (auto simp: x split_step_def openai_reasoning_def openai_content_def adds_deltas)
    qed
  next
    case True
    then have view: "sp_mode (openai_view (st, w)) = Thinking" by (simp add: openai_view_def)
    show ?thesis
    proof (cases "\<not> os_checked_think_prefix st \<and> undecided_prefix raw k final")
      case undecided: True
      with run True have "st' = st" "w' = w" by (simp_all add: openai_sse_stream_update_def)
      with undecided view show ?thesis by (auto simp: x split_step_def openai_view_def)
    next
      case False
      define st0 where "st0 = openai_check_prefix st raw k"
      define pos where "pos = os_emit_pos st0"
      define limit where "limit = thinking_limit raw pos k final"
      obtain st1 w1 ok where sh: "openai_show_reasoning st0 w raw k final = (st1, w1, ok)" by (metis surj_pair)
      have cont: "(if ok then
          (case strstr (drop pos raw) THINK_CLOSE of
             Some i \<Rightarrow> openai_text_update s rnd has_tools
                (st1\<lparr>os_emit_pos := pos + i + length THINK_CLOSE, os_mode := OPENAI_STREAM_TEXT\<rparr>) w1 raw k final
           | None \<Rightarrow> if final then Some (st1\<lparr>os_mode := OPENAI_STREAM_SUPPRESS\<rparr>, w1, True) else Some (st1, w1, True))
         else Some (st1, w1, False)) = Some (st', w', True)"
        using run True False sh unfolding openai_sse_stream_update_def Let_def st0_def [symmetric] pos_def [symmetric]
        by (cases ok) (simp_all del: not_None_eq)
      then have ok by (auto split: if_splits)
      have st1: "st1 = (if limit > pos then st0\<lparr>os_sent_reasoning := True, os_emit_pos := limit\<rparr> else st0)"
        and d1: "deltas g (sent w1) = deltas g (sent w) @ (if g = ''reasoning_content'' then piece raw pos limit else [])" for g
        using sh \<open>ok\<close>
        by (auto simp: openai_show_reasoning_def Let_def pos_def [symmetric] limit_def [symmetric]
             split: if_splits prod.splits bool.splits dest: delta_n_True)
      have st0: "os_active st0" "os_checked_think_prefix st0" "os_mode st0 = OPENAI_STREAM_THINKING" "os_emit_pos st0 = pos"
        "pos = (if os_checked_think_prefix st then os_emit_pos st
                else if has_think_prefix raw k then length THINK_OPEN else os_emit_pos st)"
        using True by (auto simp: st0_def openai_check_prefix_def pos_def)
      show ?thesis
      proof (cases "strstr (drop pos raw) THINK_CLOSE")
        case (Some i)
        define st2 where "st2 = st1\<lparr>os_emit_pos := pos + i + length THINK_CLOSE, os_mode := OPENAI_STREAM_TEXT\<rparr>"
        have run2: "openai_text_update s rnd has_tools st2 w1 raw k final = Some (st', w', True)"
          using cont \<open>ok\<close> Some by (simp add: st2_def)
        have st2: "os_active st2" "os_mode st2 = OPENAI_STREAM_TEXT" using st1 st0 by (auto simp: st2_def)
        from text_update_shows [OF st2 run2] obtain c where
          c: "split_answer has_tools raw k final (openai_view (st2, w1)) = (openai_view (st', w'), c)"
          "openai_reasoning (st', w') = openai_reasoning (st2, w1)" "openai_content (st', w') = openai_content (st2, w1) @ c"
          by blast
        have "openai_view (st2, w1) = \<lparr>sp_mode = Answer, sp_pos = pos + i + length THINK_CLOSE, sp_checked = True\<rparr>"
          using st1 st0 by (auto simp: st2_def openai_view_def)
        then have "split_step has_tools raw k final (openai_view (st, w)) = (openai_view (st', w'), piece raw pos limit, c)"
          using True False Some st0(5) c(1)
          by (auto simp: split_step_def openai_view_def Let_def limit_def split: if_splits)
        then show ?thesis using c(2,3) d1 by (auto simp: x openai_reasoning_def openai_content_def)
      next
        case None
        have end_st: "st' = (if final then st1\<lparr>os_mode := OPENAI_STREAM_SUPPRESS\<rparr> else st1)" "w' = w1"
          using cont \<open>ok\<close> None by (auto split: if_splits)
        have "split_step has_tools raw k final (openai_view (st, w)) = (openai_view (st', w'), piece raw pos limit, [])"
          using True False None st0 st1 end_st
          by (auto simp: split_step_def openai_view_def Let_def limit_def max_def split: if_splits)
        then show ?thesis using d1 end_st by (auto simp: x openai_reasoning_def openai_content_def)
      qed
    qed
  qed
qed

interpretation openai_splitter: text_splitter "openai_step s rnd has_tools" openai_view openai_reasoning openai_content has_tools
  for s :: "'a server_scheme" and rnd has_tools
  by unfold_locales (rule openai_step_shows)

section \<open>The deltas add up\<close>

fun openai_feed ::
  "'a server_scheme \<Rightarrow> (nat \<Rightarrow> u8 list) \<Rightarrow> bool \<Rightarrow> (string \<times> nat) list \<Rightarrow> openai_stream \<times> net \<Rightarrow> (openai_stream \<times> net) option" where
  "openai_feed s rnd has_tools [] x = Some x"
| "openai_feed s rnd has_tools ((raw, k) # chunks) x =
     Option.bind (openai_step s rnd has_tools raw k False x) (openai_feed s rnd has_tools chunks)"

lemma openai_feed_run: "openai_feed s rnd has_tools chunks x = text_splitter.run (openai_step s rnd has_tools) chunks x"
proof (induction chunks arbitrary: x)
  case (Cons c chunks)
  then have "openai_feed s rnd has_tools chunks = text_splitter.run (openai_step s rnd has_tools) chunks" by (intro ext)
  then show ?case by (cases c) simp
qed simp


definition sample_net :: net where
  "sample_net = \<lparr>sent = [Headers, Chunk None None], writes_left = 100, rnd_pos = 0\<rparr>"

definition plain_server :: server where
  "plain_server = \<lparr>tool_mem = tool_memory_zero, disable_exact_dsml_tool_replay = True\<rparr>"

definition sample_rnd :: "nat \<Rightarrow> u8 list" where
  "sample_rnd k = replicate 16 (word_of_nat k)"

definition sample_answer :: string where
  "sample_answer = ''<think>why</think>ok <tool_calls>''"

definition sample_chunks :: "(string \<times> nat) list" where
  "sample_chunks = [(''<think>wh'', 9), (''<think>why</think>ok '', 21)]"


definition long_stop :: stop_list where
  "long_stop = \<lparr>stop_v = [replicate 30 (CHR ''x'')], max_len = 30\<rparr>"

definition held_chunk :: "string \<Rightarrow> string \<times> nat" where
  \<comment> \<open>what \<open>generate_job\<close> lets the stream see of a text\<close>
  "held_chunk raw = (raw, utf8_stream_safe_len raw 0 (stop_list_stream_safe_len long_stop (length raw)) False)"

definition no_think_request :: request where
  "no_think_request = (request_init REQ_CHAT 5)\<lparr>r_think_mode := THINK_NONE\<rparr>"

text \<open>
  When a stop sequence makes the server hold back more than a marker, content is lost: with a
  stop sequence of thirty bytes, the answer \<open>Hi<tool_calls></tool_calls>\<close> generated in two pieces is
  streamed without its content \<open>Hi\<close>.
\<close>

theorem stop_hold_loses_content:
  "(case openai_feed plain_server sample_rnd True [held_chunk ''Hi<tool_calls>'']
           (openai_stream_start no_think_request, sample_net) of
      None \<Rightarrow> False
    | Some x \<Rightarrow> (case openai_step plain_server sample_rnd True ''Hi<tool_calls></tool_calls>'' 27 True x of
         None \<Rightarrow> False
       | Some (st, w') \<Rightarrow> deltas ''content'' (sent w') = [])) \<and>
   snd (split_text True False ''Hi<tool_calls></tool_calls>'') = ''Hi''"
  by code_simp

end
