(* ===== verification/AnthropicStream.thy ===== *)
theory AnthropicStream
  imports OpenaiStreamFacts
begin

text \<open>
  The Anthropic stream of ds4_server.c: the same text, shown as content blocks that are opened,
  filled and closed (\<open>anthropic_sse_stream_update\<close> and its helpers), followed by one block for each
  tool call. It is a \<open>text_splitter\<close> too, and its events keep the block discipline of the protocol.
\<close>

section \<open>The code\<close>

datatype anthropic_stream_mode = ANTH_STREAM_THINKING | ANTH_STREAM_TEXT | ANTH_STREAM_SUPPRESS

record anthropic_stream =
  as_mode :: anthropic_stream_mode
  as_open_block :: anthropic_block_type
  as_next_index :: nat
  as_emit_pos :: nat
  as_active :: bool
  as_checked_think_prefix :: bool
  as_sent_thinking :: bool
  as_sent_text :: bool

definition anthropic_sse_start_live :: "net \<Rightarrow> request \<Rightarrow> int \<Rightarrow> anthropic_stream \<times> net \<times> bool" where
  "anthropic_sse_start_live w r prompt_tokens =
     (let (w1, ok) = send_all w [Message_start prompt_tokens]
      in (\<lparr>as_mode = (if ds4_think_mode_enabled (r_think_mode r) then ANTH_STREAM_THINKING else ANTH_STREAM_TEXT),
           as_open_block = ANTH_BLOCK_NONE, as_next_index = 0, as_emit_pos = 0, as_active = ok,
           as_checked_think_prefix = False, as_sent_thinking = False, as_sent_text = False\<rparr>, w1, ok))"

definition anthropic_sse_open_block ::
  "anthropic_stream \<Rightarrow> net \<Rightarrow> anthropic_block_type \<Rightarrow> anthropic_stream \<times> net \<times> bool" where
  "anthropic_sse_open_block st w type =
     (if as_open_block st = type then (st, w, True)
      else if as_open_block st \<noteq> ANTH_BLOCK_NONE then (st, w, False)
      else let (w1, ok) = send_all w [Block_start (as_next_index st) type]
           in (if ok then st\<lparr>as_open_block := type\<rparr> else st, w1, ok))"

definition anthropic_sse_delta_live ::
  "anthropic_stream \<Rightarrow> net \<Rightarrow> anthropic_block_type \<Rightarrow> string \<Rightarrow> net \<times> bool" where
  "anthropic_sse_delta_live st w type txt =
     (if txt = [] then (w, True) else send_all w [Block_delta (as_next_index st) type txt])"

definition anthropic_sse_close_block_live :: "anthropic_stream \<Rightarrow> net \<Rightarrow> anthropic_stream \<times> net \<times> bool" where
  "anthropic_sse_close_block_live st w =
     (if as_open_block st = ANTH_BLOCK_NONE then (st, w, True)
      else
        case (if as_open_block st = ANTH_BLOCK_THINKING
              then send_all w [Block_signature (as_next_index st)] else (w, True)) of
          (w1, False) \<Rightarrow> (st, w1, False)
        | (w1, True) \<Rightarrow>
            (case send_all w1 [Block_stop (as_next_index st)] of
               (w2, False) \<Rightarrow> (st, w2, False)
             | (w2, True) \<Rightarrow>
                 (st\<lparr>as_open_block := ANTH_BLOCK_NONE, as_next_index := as_next_index st + 1\<rparr>, w2, True)))"

text \<open>Showing a piece of the text in a block of a type.\<close>

definition anthropic_show ::
  "anthropic_stream \<Rightarrow> net \<Rightarrow> anthropic_block_type \<Rightarrow> string \<Rightarrow> nat \<Rightarrow> anthropic_stream \<times> net \<times> bool" where
  "anthropic_show st w type raw limit =
     (if limit > as_emit_pos st then
        (case anthropic_sse_open_block st w type of
           (st1, w1, False) \<Rightarrow> (st1, w1, False)
         | (st1, w1, True) \<Rightarrow>
             (case anthropic_sse_delta_live st1 w1 type (piece raw (as_emit_pos st) limit) of
                (w2, False) \<Rightarrow> (st1, w2, False)
              | (w2, True) \<Rightarrow>
                  ((if type = ANTH_BLOCK_THINKING then st1\<lparr>as_sent_thinking := True\<rparr> else st1\<lparr>as_sent_text := True\<rparr>)
                     \<lparr>as_emit_pos := limit\<rparr>, w2, True)))
      else (st, w, True))"

definition anthropic_text_update ::
  "bool \<Rightarrow> anthropic_stream \<Rightarrow> net \<Rightarrow> string \<Rightarrow> nat \<Rightarrow> bool \<Rightarrow> anthropic_stream \<times> net \<times> bool" where
  "anthropic_text_update has_tools st w raw raw_len final =
     (if as_mode st \<noteq> ANTH_STREAM_TEXT then (st, w, True)
      else
        let pos = as_emit_pos st;
            tool = (if has_tools then find_any_tool_start (drop pos raw) else None);
            limit = text_stream_safe_limit raw pos raw_len has_tools final
        in case anthropic_show st w ANTH_BLOCK_TEXT raw limit of
             (st1, w1, False) \<Rightarrow> (st1, w1, False)
           | (st1, w1, True) \<Rightarrow>
               if tool \<noteq> None \<or> final then
                 (case anthropic_sse_close_block_live st1 w1 of
                    (st2, w2, False) \<Rightarrow> (st2, w2, False)
                  | (st2, w2, True) \<Rightarrow>
                      (st2\<lparr>as_emit_pos := (case tool of Some i \<Rightarrow> pos + i | None \<Rightarrow> as_emit_pos st2),
                           as_mode := ANTH_STREAM_SUPPRESS\<rparr>, w2, True))
               else (st1, w1, True))"

definition anthropic_check_prefix :: "anthropic_stream \<Rightarrow> string \<Rightarrow> nat \<Rightarrow> anthropic_stream" where
  "anthropic_check_prefix st raw raw_len =
     (if as_checked_think_prefix st then st
      else st\<lparr>as_emit_pos := (if has_think_prefix raw raw_len then length THINK_OPEN else as_emit_pos st),
              as_checked_think_prefix := True\<rparr>)"

definition anthropic_sse_stream_update ::
  "bool \<Rightarrow> anthropic_stream \<Rightarrow> net \<Rightarrow> string \<Rightarrow> nat \<Rightarrow> bool \<Rightarrow> anthropic_stream \<times> net \<times> bool" where
  "anthropic_sse_stream_update has_tools st w raw raw_len final =
     (if \<not> as_active st then (st, w, True)
      else if as_mode st = ANTH_STREAM_THINKING then
        (if \<not> as_checked_think_prefix st \<and> undecided_prefix raw raw_len final then (st, w, True)
         else
           let st0 = anthropic_check_prefix st raw raw_len;
               pos = as_emit_pos st0;
               close_at = strstr (drop pos raw) THINK_CLOSE
           in case anthropic_show st0 w ANTH_BLOCK_THINKING raw (thinking_limit raw pos raw_len final) of
                (st1, w1, False) \<Rightarrow> (st1, w1, False)
              | (st1, w1, True) \<Rightarrow>
                  if close_at \<noteq> None \<or> final then
                    (case anthropic_sse_close_block_live st1 w1 of
                       (st2, w2, False) \<Rightarrow> (st2, w2, False)
                     | (st2, w2, True) \<Rightarrow>
                         (case close_at of
                            Some i \<Rightarrow>
                              anthropic_text_update has_tools
                                (st2\<lparr>as_emit_pos := pos + i + length THINK_CLOSE, as_mode := ANTH_STREAM_TEXT\<rparr>)
                                w2 raw raw_len final
                          | None \<Rightarrow> (st2\<lparr>as_mode := ANTH_STREAM_SUPPRESS\<rparr>, w2, True)))
                  else (st1, w1, True))
      else anthropic_text_update has_tools st w raw raw_len final)"

text \<open>One block for each tool call; \<open>i\<close> counts the calls for the ids made from the response id.\<close>

fun anthropic_sse_tool_blocks_live ::
  "cstr \<Rightarrow> anthropic_stream \<Rightarrow> net \<Rightarrow> nat \<Rightarrow> tool_call list \<Rightarrow> anthropic_stream \<times> net \<times> bool" where
  "anthropic_sse_tool_blocks_live ident st w i [] = (st, w, True)"
| "anthropic_sse_tool_blocks_live ident st w i (tc # tcs) =
     (let tool_id = (if or_empty (tc_id tc) \<noteq> [] then or_empty (tc_id tc)
                     else ''toolu_'' @ ident @ ''_'' @ dec_nat i);
          k = as_next_index st
      in case send_all w [Tool_block_start k tool_id (or_empty (tc_name tc))] of
           (w1, False) \<Rightarrow> (st, w1, False)
         | (w1, True) \<Rightarrow>
             (case send_all w1 [Tool_block_json k (tc_arguments tc)] of
                (w2, False) \<Rightarrow> (st, w2, False)
              | (w2, True) \<Rightarrow>
                  (case send_all w2 [Block_stop k] of
                     (w3, False) \<Rightarrow> (st, w3, False)
                   | (w3, True) \<Rightarrow>
                       anthropic_sse_tool_blocks_live ident (st\<lparr>as_next_index := k + 1\<rparr>) w3 (i + 1) tcs)))"

definition anthropic_sse_stop_live :: "net \<Rightarrow> cstr \<Rightarrow> int \<Rightarrow> net \<times> bool" where
  "anthropic_sse_stop_live w fin completion_tokens =
     (case send_all w [Message_delta fin completion_tokens] of
        (w1, False) \<Rightarrow> (w1, False)
      | (w1, True) \<Rightarrow> send_all w1 [Message_stop])"

definition anthropic_sse_finish_live ::
  "bool \<Rightarrow> cstr \<Rightarrow> anthropic_stream \<Rightarrow> net \<Rightarrow> string \<Rightarrow> tool_call list \<Rightarrow> cstr \<Rightarrow> int \<Rightarrow> anthropic_stream \<times> net \<times> bool" where
  "anthropic_sse_finish_live has_tools ident st w raw cs fin completion_tokens =
     (case anthropic_sse_stream_update has_tools st w raw (length raw) True of
        (st1, w1, False) \<Rightarrow> (st1, w1, False)
      | (st1, w1, True) \<Rightarrow>
          (case (if as_sent_thinking st1 \<and> \<not> as_sent_text st1 \<and> cs = [] then
                   (case anthropic_sse_open_block st1 w1 ANTH_BLOCK_TEXT of
                      (st2, w2, False) \<Rightarrow> (st2, w2, False)
                    | (st2, w2, True) \<Rightarrow> anthropic_sse_close_block_live st2 w2)
                 else (st1, w1, True)) of
             (st3, w3, False) \<Rightarrow> (st3, w3, False)
           | (st3, w3, True) \<Rightarrow>
               (case anthropic_sse_tool_blocks_live ident st3 w3 0 cs of
                  (st4, w4, False) \<Rightarrow> (st4, w4, False)
                | (st4, w4, True) \<Rightarrow> (case anthropic_sse_stop_live w4 fin completion_tokens of (w5, ok) \<Rightarrow> (st4, w5, ok)))))"

section \<open>The block discipline\<close>

text \<open>\<open>blocks_open fs\<close>: reading the events of a message, which block is open (if any) and how many
  blocks are closed. None: the discipline is broken. Blocks are numbered from 0, opened one after the
  other, only an open block receives deltas of its type, and it is closed before the next.\<close>

datatype open_block = No_block | Text_block anthropic_block_type | Tool_block

fun block_event :: "sse_frame \<Rightarrow> open_block \<times> nat \<Rightarrow> (open_block \<times> nat) option" where
  "block_event (Block_start i t) (No_block, k) = (if i = k \<and> t \<noteq> ANTH_BLOCK_NONE then Some (Text_block t, k) else None)"
| "block_event (Block_delta i t x) (Text_block u, k) = (if i = k \<and> t = u then Some (Text_block u, k) else None)"
| "block_event (Block_signature i) (Text_block u, k) =
     (if i = k \<and> u = ANTH_BLOCK_THINKING then Some (Text_block u, k) else None)"
| "block_event (Tool_block_start i a b) (No_block, k) = (if i = k then Some (Tool_block, k) else None)"
| "block_event (Tool_block_json i a) (Tool_block, k) = (if i = k then Some (Tool_block, k) else None)"
| "block_event (Block_stop i) (Text_block u, k) = (if i = k then Some (No_block, k + 1) else None)"
| "block_event (Block_stop i) (Tool_block, k) = (if i = k then Some (No_block, k + 1) else None)"
| "block_event Headers x = Some x"
| "block_event (Message_start n) x = Some x"
| "block_event _ _ = None"

fun blocks_after :: "sse_frame list \<Rightarrow> open_block \<times> nat \<Rightarrow> (open_block \<times> nat) option" where
  "blocks_after [] x = Some x"
| "blocks_after (f # fs) x = Option.bind (block_event f x) (blocks_after fs)"

lemma blocks_after_append [simp]:
  "blocks_after (fs @ gs) x = Option.bind (blocks_after fs x) (blocks_after gs)"
  by (induction fs arbitrary: x) (auto split: bind_splits)

definition block_state :: "anthropic_stream \<Rightarrow> open_block \<times> nat" where
  "block_state st =
     (if as_open_block st = ANTH_BLOCK_NONE then No_block else Text_block (as_open_block st), as_next_index st)"

definition disciplined :: "anthropic_stream \<Rightarrow> net \<Rightarrow> bool" where
  "disciplined st w \<longleftrightarrow> blocks_after (sent w) (No_block, 0) = Some (block_state st)"

lemma send_True: "send_all w fs = (w', True) \<longleftrightarrow> writes_left w \<noteq> 0 \<and> w' = w\<lparr>sent := sent w @ fs, writes_left := writes_left w - 1\<rparr>"
  by (auto simp: send_all_def)

lemma open_block_disciplined:
  "anthropic_sse_open_block st w t = (st', w', True) \<Longrightarrow> disciplined st w \<Longrightarrow> t \<noteq> ANTH_BLOCK_NONE \<Longrightarrow>
    disciplined st' w' \<and> as_open_block st' = t \<and> as_next_index st' = as_next_index st"
  by (auto simp: anthropic_sse_open_block_def disciplined_def block_state_def send_True split: if_splits prod.splits)

lemma close_block_disciplined:
  "anthropic_sse_close_block_live st w = (st', w', True) \<Longrightarrow> disciplined st w \<Longrightarrow>
    disciplined st' w' \<and> as_open_block st' = ANTH_BLOCK_NONE"
  by (auto simp: anthropic_sse_close_block_live_def disciplined_def block_state_def send_True
        split: if_splits prod.splits bool.splits)

lemma show_disciplined:
  "anthropic_show st w t raw l = (st', w', True) \<Longrightarrow> disciplined st w \<Longrightarrow> t \<noteq> ANTH_BLOCK_NONE \<Longrightarrow>
    as_open_block st \<in> {ANTH_BLOCK_NONE, t} \<Longrightarrow> disciplined st' w' \<and> as_open_block st' \<in> {ANTH_BLOCK_NONE, t}"
  by (auto simp: anthropic_show_def anthropic_sse_delta_live_def send_True disciplined_def block_state_def
        split: if_splits prod.splits bool.splits dest!: open_block_disciplined)

end
