(* ===== verification/AnthropicFacts.thy ===== *)
theory AnthropicFacts
  imports AnthropicStream
begin

text \<open>
  The Anthropic stream shows what the text consists of (it is a \<open>text_splitter\<close>), and its events
  keep the block discipline of the protocol, whatever pieces the text arrives in.
\<close>

section \<open>What the client has received\<close>

definition block_text :: "anthropic_block_type \<Rightarrow> sse_frame list \<Rightarrow> string" where
  "block_text t fs = concat (map (\<lambda>f. case f of Block_delta _ u x \<Rightarrow> if u = t then x else [] | _ \<Rightarrow> []) fs)"

lemma block_text_simps [simp]:
  "block_text t [] = []" "block_text t (fs @ gs) = block_text t fs @ block_text t gs"
  "block_text t (Block_delta i u x # fs) = (if u = t then x else []) @ block_text t fs"
  "block_text t (Block_start i u # fs) = block_text t fs" "block_text t (Block_stop i # fs) = block_text t fs"
  "block_text t (Block_signature i # fs) = block_text t fs"
  "block_text t (Message_start n # fs) = block_text t fs" "block_text t (Headers # fs) = block_text t fs"
  by (simp_all add: block_text_def)

definition anthropic_view :: "anthropic_stream \<times> net \<Rightarrow> split_state" where
  "anthropic_view x =
     (let st = fst x in
      \<lparr>sp_mode = (if \<not> as_active st then Stopped
                  else case as_mode st of ANTH_STREAM_THINKING \<Rightarrow> Thinking | ANTH_STREAM_TEXT \<Rightarrow> Answer | _ \<Rightarrow> Stopped),
       sp_pos = as_emit_pos st, sp_checked = as_checked_think_prefix st\<rparr>)"

definition anthropic_step ::
  "bool \<Rightarrow> string \<Rightarrow> nat \<Rightarrow> bool \<Rightarrow> anthropic_stream \<times> net \<Rightarrow> (anthropic_stream \<times> net) option" where
  \<comment> \<open>an update all of whose writes succeed\<close>
  "anthropic_step has_tools raw k final x =
     (case anthropic_sse_stream_update has_tools (fst x) (snd x) raw k final of
        (st, w, ok) \<Rightarrow> if ok then Some (st, w) else None)"

lemma anth_show_True:
  assumes "anthropic_show st w t raw limit = (st', w', True)"
  shows "block_text u (sent w') = block_text u (sent w) @ (if u = t then piece raw (as_emit_pos st) limit else [])"
    and "as_emit_pos st' = max (as_emit_pos st) limit"
    and "as_mode st' = as_mode st" and "as_active st' = as_active st"
    and "as_checked_think_prefix st' = as_checked_think_prefix st"
  using assms
  by (auto simp: anthropic_show_def anthropic_sse_open_block_def anthropic_sse_delta_live_def send_True max_def
        split: if_splits prod.splits bool.splits)

lemma anth_close_True:
  assumes "anthropic_sse_close_block_live st w = (st', w', True)"
  shows "block_text u (sent w') = block_text u (sent w)"
    and "as_emit_pos st' = as_emit_pos st" and "as_mode st' = as_mode st" and "as_active st' = as_active st"
    and "as_checked_think_prefix st' = as_checked_think_prefix st"
  using assms
  by (auto simp: anthropic_sse_close_block_live_def send_True split: if_splits prod.splits bool.splits)

lemma anth_text_True:
  assumes mode: "as_active st" "as_mode st = ANTH_STREAM_TEXT"
    and run: "anthropic_text_update has_tools st w raw k final = (st', w', True)"
  shows "\<exists>c. split_answer has_tools raw k final (anthropic_view (st, w)) = (anthropic_view (st', w'), c) \<and>
    block_text u (sent w') = block_text u (sent w) @ (if u = ANTH_BLOCK_TEXT then c else [])"
proof -
  define pos where "pos = as_emit_pos st"
  define tool where "tool = (if has_tools then find_any_tool_start (drop pos raw) else None)"
  define limit where "limit = text_stream_safe_limit raw pos k has_tools final"
  obtain st1 w1 ok where sh: "anthropic_show st w ANTH_BLOCK_TEXT raw limit = (st1, w1, ok)" by (metis surj_pair)
  have cont: "(if ok then
      (if tool \<noteq> None \<or> final then
         (case anthropic_sse_close_block_live st1 w1 of
            (st2, w2, False) \<Rightarrow> (st2, w2, False)
          | (st2, w2, True) \<Rightarrow>
              (st2\<lparr>as_emit_pos := (case tool of Some i \<Rightarrow> pos + i | None \<Rightarrow> as_emit_pos st2),
                   as_mode := ANTH_STREAM_SUPPRESS\<rparr>, w2, True))
       else (st1, w1, True)) else (st1, w1, False)) = (st', w', True)"
    using run mode sh unfolding anthropic_text_update_def Let_def pos_def tool_def limit_def by (cases ok) simp_all
  then have ok: ok by (auto split: if_splits)
  note s1 = anth_show_True [OF sh [unfolded eqTrueI [OF ok]]]
  have shown: "split_answer has_tools raw k final (anthropic_view (st, w)) = (anthropic_view (st', w'), piece raw pos limit) \<and>
      block_text u (sent w') = block_text u (sent w1)"
  proof (cases "tool \<noteq> None \<or> final")
    case False
    then have "st' = st1" "w' = w1" using cont ok by auto
    with False mode s1 show ?thesis
      by (auto simp: split_answer_def anthropic_view_def Let_def pos_def [symmetric] tool_def limit_def)
  next
    case True
    with cont ok obtain st2 where cl: "anthropic_sse_close_block_live st1 w1 = (st2, w', True)"
      and st': "st' = st2\<lparr>as_emit_pos := (case tool of Some i \<Rightarrow> pos + i | None \<Rightarrow> as_emit_pos st2), as_mode := ANTH_STREAM_SUPPRESS\<rparr>"
      by (auto split: prod.splits bool.splits)
    note s2 = anth_close_True [OF cl]
    show ?thesis using True mode s1 s2(2-) s2(1) [of u]
      by (cases has_tools) (auto simp: st' split_answer_def anthropic_view_def Let_def pos_def [symmetric] tool_def limit_def
          split: option.splits)
  qed
  with s1(1) [of u] show ?thesis by (auto simp: pos_def)
qed

lemma anthropic_step_shows:
  assumes "anthropic_step has_tools raw k final x = Some x'"
  shows "\<exists>dr dc. split_step has_tools raw k final (anthropic_view x) = (anthropic_view x', dr, dc) \<and>
    block_text ANTH_BLOCK_THINKING (sent (snd x')) = block_text ANTH_BLOCK_THINKING (sent (snd x)) @ dr \<and>
    block_text ANTH_BLOCK_TEXT (sent (snd x')) = block_text ANTH_BLOCK_TEXT (sent (snd x)) @ dc"
proof -
  obtain st w st' w' where x: "x = (st, w)" "x' = (st', w')" by (cases x, cases x')
  have run: "anthropic_sse_stream_update has_tools st w raw k final = (st', w', True)"
    using assms by (auto simp: anthropic_step_def x split: prod.splits if_splits)
  consider (thinking) "as_active st" "as_mode st = ANTH_STREAM_THINKING"
    | (answer) "as_active st" "as_mode st = ANTH_STREAM_TEXT"
    | (stopped) "\<not> as_active st \<or> as_mode st = ANTH_STREAM_SUPPRESS"
    by (cases "as_mode st") auto
  then show ?thesis
  proof cases
    case stopped
    with run have "st' = st" "w' = w"
      by (auto simp: anthropic_sse_stream_update_def anthropic_text_update_def split: if_splits)
    with stopped show ?thesis by (auto simp: x split_step_def anthropic_view_def)
  next
    case answer
    with run have "anthropic_text_update has_tools st w raw k final = (st', w', True)"
      by (simp add: anthropic_sse_stream_update_def)
    note t = anth_text_True [OF answer this]
    have "sp_mode (anthropic_view (st, w)) = Answer" using answer by (simp add: anthropic_view_def)
    with t [of ANTH_BLOCK_TEXT] t [of ANTH_BLOCK_THINKING] show ?thesis by (auto simp: x split_step_def)
  next
    case thinking
    then have view: "sp_mode (anthropic_view (st, w)) = Thinking" by (simp add: anthropic_view_def)
    show ?thesis
    proof (cases "\<not> as_checked_think_prefix st \<and> undecided_prefix raw k final")
      case True
      with run thinking have "st' = st" "w' = w" by (simp_all add: anthropic_sse_stream_update_def)
      with True view show ?thesis by (auto simp: x split_step_def anthropic_view_def)
    next
      case False
      define st0 where "st0 = anthropic_check_prefix st raw k"
      define pos where "pos = as_emit_pos st0"
      define limit where "limit = thinking_limit raw pos k final"
      define close_at where "close_at = strstr (drop pos raw) THINK_CLOSE"
      obtain st1 w1 ok where sh: "anthropic_show st0 w ANTH_BLOCK_THINKING raw limit = (st1, w1, ok)" by (metis surj_pair)
      have cont: "(if ok then
          (if close_at \<noteq> None \<or> final then
             (case anthropic_sse_close_block_live st1 w1 of
                (st2, w2, False) \<Rightarrow> (st2, w2, False)
              | (st2, w2, True) \<Rightarrow>
                  (case close_at of
                     Some i \<Rightarrow> anthropic_text_update has_tools
                         (st2\<lparr>as_emit_pos := pos + i + length THINK_CLOSE, as_mode := ANTH_STREAM_TEXT\<rparr>) w2 raw k final
                   | None \<Rightarrow> (st2\<lparr>as_mode := ANTH_STREAM_SUPPRESS\<rparr>, w2, True)))
           else (st1, w1, True)) else (st1, w1, False)) = (st', w', True)"
        using run thinking False sh unfolding anthropic_sse_stream_update_def Let_def st0_def [symmetric] pos_def [symmetric]
          limit_def [symmetric] close_at_def [symmetric]
        by (cases ok) (simp_all del: not_None_eq)
      then have ok: ok by (auto split: if_splits)
      note s1 = anth_show_True [OF sh [unfolded eqTrueI [OF ok]]]
      have st0: "as_active st0" "as_checked_think_prefix st0" "as_mode st0 = ANTH_STREAM_THINKING" "as_emit_pos st0 = pos"
        "pos = (if as_checked_think_prefix st then as_emit_pos st
                else if has_think_prefix raw k then length THINK_OPEN else as_emit_pos st)"
        using thinking by (auto simp: st0_def anthropic_check_prefix_def pos_def)
      have step: "split_step has_tools raw k final (anthropic_view (st, w)) =
          (case close_at of
             Some i \<Rightarrow> (case split_answer has_tools raw k final
                          \<lparr>sp_mode = Answer, sp_pos = pos + i + length THINK_CLOSE, sp_checked = True\<rparr> of
                        (sp', c) \<Rightarrow> (sp', piece raw pos limit, c))
           | None \<Rightarrow> (\<lparr>sp_mode = (if final then Stopped else Thinking), sp_pos = max pos limit, sp_checked = True\<rparr>,
                     piece raw pos limit, []))"
        using thinking False st0(5)
        by (auto simp: split_step_def anthropic_view_def Let_def limit_def close_at_def split: if_splits option.splits)
      show ?thesis
      proof (cases "close_at \<noteq> None \<or> final")
        case False
        with cont ok s1 st0 step show ?thesis by (auto simp: x anthropic_view_def)
      next
        case True
        with cont ok obtain st2 w2 where cl: "anthropic_sse_close_block_live st1 w1 = (st2, w2, True)"
          and tail: "(case close_at of
                     Some i \<Rightarrow> anthropic_text_update has_tools
                         (st2\<lparr>as_emit_pos := pos + i + length THINK_CLOSE, as_mode := ANTH_STREAM_TEXT\<rparr>) w2 raw k final
                   | None \<Rightarrow> (st2\<lparr>as_mode := ANTH_STREAM_SUPPRESS\<rparr>, w2, True)) = (st', w', True)"
          by (auto split: prod.splits bool.splits)
        note s2 = anth_close_True [OF cl]
        show ?thesis
        proof (cases close_at)
          case None
          with tail True s1 s2 st0 step show ?thesis by (auto simp: x anthropic_view_def)
        next
          case (Some i)
          define st3 where "st3 = st2\<lparr>as_emit_pos := pos + i + length THINK_CLOSE, as_mode := ANTH_STREAM_TEXT\<rparr>"
          have st3: "as_active st3" "as_mode st3 = ANTH_STREAM_TEXT"
            "anthropic_view (st3, w2) = \<lparr>sp_mode = Answer, sp_pos = pos + i + length THINK_CLOSE, sp_checked = True\<rparr>"
            using s1 s2 st0 by (auto simp: st3_def anthropic_view_def)
          have "anthropic_text_update has_tools st3 w2 raw k final = (st', w', True)" using tail Some by (simp add: st3_def)
          note t = anth_text_True [OF st3(1,2) this]
          show ?thesis
            using t [of ANTH_BLOCK_TEXT] t [of ANTH_BLOCK_THINKING] step Some st3(3) s1(1) s2(1) st0(4) by (auto simp: x)
        qed
      qed
    qed
  qed
qed

definition anthropic_shown :: "anthropic_block_type \<Rightarrow> anthropic_stream \<times> net \<Rightarrow> string" where
  "anthropic_shown t x = block_text t (sent (snd x))"

interpretation anthropic_splitter: text_splitter "anthropic_step has_tools" anthropic_view
  "anthropic_shown ANTH_BLOCK_THINKING" "anthropic_shown ANTH_BLOCK_TEXT" has_tools
  for has_tools
  by unfold_locales (auto simp: anthropic_shown_def dest: anthropic_step_shows)

section \<open>The deltas add up\<close>

fun anthropic_feed ::
  "bool \<Rightarrow> (string \<times> nat) list \<Rightarrow> anthropic_stream \<times> net \<Rightarrow> (anthropic_stream \<times> net) option" where
  "anthropic_feed has_tools [] x = Some x"
| "anthropic_feed has_tools ((raw, k) # chunks) x =
     Option.bind (anthropic_step has_tools raw k False x) (anthropic_feed has_tools chunks)"

lemma anthropic_feed_run: "anthropic_feed has_tools chunks x = text_splitter.run (anthropic_step has_tools) chunks x"
proof (induction chunks arbitrary: x)
  case (Cons c chunks)
  then have "anthropic_feed has_tools chunks = text_splitter.run (anthropic_step has_tools) chunks" by (intro ext)
  then show ?case by (cases c) simp
qed simp

definition message_begun :: "net \<Rightarrow> bool" where
  \<comment> \<open>only the headers were sent: the message starts next\<close>
  "message_begun w \<longleftrightarrow> sent w = [Headers]"


definition anthropic_net :: net where
  "anthropic_net = \<lparr>sent = [Headers], writes_left = 100, rnd_pos = 0\<rparr>"


section \<open>The block discipline of a whole message\<close>

definition stream_inv :: "anthropic_stream \<Rightarrow> net \<Rightarrow> bool" where
  "stream_inv st w \<longleftrightarrow> disciplined st w \<and>
     as_open_block st \<in>
       (case as_mode st of
          ANTH_STREAM_THINKING \<Rightarrow> {ANTH_BLOCK_NONE, ANTH_BLOCK_THINKING}
        | ANTH_STREAM_TEXT \<Rightarrow> {ANTH_BLOCK_NONE, ANTH_BLOCK_TEXT}
        | ANTH_STREAM_SUPPRESS \<Rightarrow> {ANTH_BLOCK_NONE})"

lemma disciplined_update [simp]:
  "disciplined (st\<lparr>as_emit_pos := p\<rparr>) w = disciplined st w" "disciplined (st\<lparr>as_mode := m\<rparr>) w = disciplined st w"
  "disciplined (st\<lparr>as_checked_think_prefix := b\<rparr>) w = disciplined st w"
  by (simp_all add: disciplined_def block_state_def)

lemma text_update_inv:
  assumes run: "anthropic_text_update has_tools st w raw k final = (st', w', True)"
    and inv: "stream_inv st w" and mode: "as_mode st = ANTH_STREAM_TEXT"
  shows "stream_inv st' w' \<and> (final \<longrightarrow> as_mode st' = ANTH_STREAM_SUPPRESS)"
proof -
  obtain st1 w1 ok where
    sh: "anthropic_show st w ANTH_BLOCK_TEXT raw (text_stream_safe_limit raw (as_emit_pos st) k has_tools final) = (st1, w1, ok)"
    by (metis surj_pair)
  with run mode have ok: ok by (auto simp: anthropic_text_update_def Let_def split: bool.splits)
  have "disciplined st1 w1 \<and> as_open_block st1 \<in> {ANTH_BLOCK_NONE, ANTH_BLOCK_TEXT}"
    by (rule show_disciplined [OF sh [unfolded eqTrueI [OF ok]]]) (use inv mode in \<open>auto simp: stream_inv_def\<close>)
  moreover have "as_mode st1 = ANTH_STREAM_TEXT" using anth_show_True(3) sh ok mode by auto
  ultimately show ?thesis
    using run sh ok mode
    by (auto simp: anthropic_text_update_def Let_def stream_inv_def
        split: if_splits prod.splits bool.splits dest!: close_block_disciplined)
qed

lemma stream_update_inv:
  assumes run: "anthropic_sse_stream_update has_tools st w raw k final = (st', w', True)"
    and inv: "stream_inv st w" and active: "as_active st"
  shows "stream_inv st' w' \<and> (final \<longrightarrow> as_mode st' = ANTH_STREAM_SUPPRESS)"
proof (cases "as_mode st")
  case ANTH_STREAM_SUPPRESS
  with run active inv show ?thesis by (simp add: anthropic_sse_stream_update_def anthropic_text_update_def)
next
  case ANTH_STREAM_TEXT
  with run active inv text_update_inv show ?thesis by (simp add: anthropic_sse_stream_update_def)
next
  case thinking: ANTH_STREAM_THINKING
  show ?thesis
  proof (cases "\<not> as_checked_think_prefix st \<and> undecided_prefix raw k final")
    case True
    with run thinking active inv show ?thesis
      by (auto simp: anthropic_sse_stream_update_def undecided_prefix_def)
  next
    case False
    define st0 where "st0 = anthropic_check_prefix st raw k"
    have st0: "disciplined st0 w" "as_open_block st0 \<in> {ANTH_BLOCK_NONE, ANTH_BLOCK_THINKING}"
      using inv thinking by (auto simp: st0_def anthropic_check_prefix_def stream_inv_def)
    obtain st1 w1 ok where sh: "anthropic_show st0 w ANTH_BLOCK_THINKING raw
        (thinking_limit raw (as_emit_pos st0) k final) = (st1, w1, ok)"
      by (metis surj_pair)
    with run thinking active False have ok: ok
      by (cases ok) (auto simp: anthropic_sse_stream_update_def Let_def st0_def)
    have mode1: "as_mode st1 = ANTH_STREAM_THINKING"
      using anth_show_True(3) [of st0 w _ _ _ st1 w1] sh ok thinking by (auto simp: st0_def anthropic_check_prefix_def)
    have d1: "disciplined st1 w1 \<and> as_open_block st1 \<in> {ANTH_BLOCK_NONE, ANTH_BLOCK_THINKING}"
      by (rule show_disciplined [OF sh [unfolded eqTrueI [OF ok]]]) (use st0 in auto)
    show ?thesis
    proof (cases "strstr (drop (as_emit_pos st0) raw) THINK_CLOSE \<noteq> None \<or> final")
      case no: False
      with run thinking active False sh ok have "st' = st1" "w' = w1"
        by (auto simp: anthropic_sse_stream_update_def Let_def st0_def)
      with d1 mode1 no show ?thesis by (simp add: stream_inv_def)
    next
      case True
      obtain st2 w2 ok2 where cl: "anthropic_sse_close_block_live st1 w1 = (st2, w2, ok2)" by (metis surj_pair)
      with run thinking active False sh ok True have tail: "(if ok2 then
          (case strstr (drop (as_emit_pos st0) raw) THINK_CLOSE of
             Some i \<Rightarrow> anthropic_text_update has_tools
               (st2\<lparr>as_emit_pos := as_emit_pos st0 + i + length THINK_CLOSE, as_mode := ANTH_STREAM_TEXT\<rparr>) w2 raw k final
           | None \<Rightarrow> (st2\<lparr>as_mode := ANTH_STREAM_SUPPRESS\<rparr>, w2, True)) else (st2, w2, False)) = (st', w', True)"
        unfolding anthropic_sse_stream_update_def Let_def st0_def [symmetric] by (cases ok2) (simp_all del: not_None_eq)
      then have ok2: ok2 by (auto split: if_splits)
      have d2: "disciplined st2 w2 \<and> as_open_block st2 = ANTH_BLOCK_NONE"
        by (rule close_block_disciplined [OF cl [unfolded eqTrueI [OF ok2]]]) (use d1 in simp)
      show ?thesis
      proof (cases "strstr (drop (as_emit_pos st0) raw) THINK_CLOSE")
        case None
        with tail ok2 d2 show ?thesis by (auto simp: stream_inv_def)
      next
        case (Some i)
        with tail ok2 have "anthropic_text_update has_tools
            (st2\<lparr>as_emit_pos := as_emit_pos st0 + i + length THINK_CLOSE, as_mode := ANTH_STREAM_TEXT\<rparr>) w2 raw k final = (st', w', True)"
          by simp
        from text_update_inv [OF this] d2 show ?thesis by (simp add: stream_inv_def)
      qed
    qed
  qed
qed

lemma tool_blocks_disciplined:
  "anthropic_sse_tool_blocks_live ident st w i cs = (st', w', True) \<Longrightarrow> disciplined st w \<Longrightarrow>
    as_open_block st = ANTH_BLOCK_NONE \<Longrightarrow>
    disciplined st' w' \<and> as_open_block st' = ANTH_BLOCK_NONE \<and> as_next_index st' = as_next_index st + length cs"
proof (induction cs arbitrary: st w i)
  case (Cons tc cs)
  define k where "k = as_next_index st"
  obtain w1 w2 w3 where ws:
    "send_all w [Tool_block_start k (if or_empty (tc_id tc) \<noteq> [] then or_empty (tc_id tc)
                     else ''toolu_'' @ ident @ ''_'' @ dec_nat i) (or_empty (tc_name tc))] = (w1, True)"
    "send_all w1 [Tool_block_json k (tc_arguments tc)] = (w2, True)" "send_all w2 [Block_stop k] = (w3, True)"
    and rest: "anthropic_sse_tool_blocks_live ident (st\<lparr>as_next_index := k + 1\<rparr>) w3 (i + 1) cs = (st', w', True)"
    using Cons.prems(1) by (auto simp: Let_def k_def split: prod.splits bool.splits)
  have "disciplined (st\<lparr>as_next_index := k + 1\<rparr>) w3"
    using Cons.prems(2,3) ws by (auto simp: disciplined_def block_state_def k_def send_True)
  from Cons.IH [OF rest this] Cons.prems(3) show ?case by (simp add: k_def)
qed simp

lemma feed_inv:
  "anthropic_feed has_tools chunks (st, w) = Some (st', w') \<Longrightarrow> stream_inv st w \<Longrightarrow> as_active st \<Longrightarrow>
    stream_inv st' w' \<and> as_active st'"
proof (induction chunks arbitrary: st w)
  case (Cons c chunks)
  obtain raw k where c: "c = (raw, k)" by (cases c)
  with Cons.prems(1) obtain st1 w1 where s: "anthropic_step has_tools raw k False (st, w) = Some (st1, w1)"
    "anthropic_feed has_tools chunks (st1, w1) = Some (st', w')" by (auto split: bind_splits)
  have u: "anthropic_sse_stream_update has_tools st w raw k False = (st1, w1, True)"
    using s(1) by (auto simp: anthropic_step_def split: prod.splits if_splits)
  have "as_active st1" using u Cons.prems(3)
    by (auto simp: anthropic_sse_stream_update_def anthropic_text_update_def anthropic_check_prefix_def Let_def
          split: if_splits prod.splits bool.splits option.splits dest!: anth_show_True(4) anth_close_True(4))
  with Cons.IH [OF s(2)] stream_update_inv [OF u Cons.prems(2,3)] show ?case by simp
qed simp

text \<open>
  C17. Every message the Anthropic stream finishes has well-formed content blocks: they are numbered
  from 0 without gaps, opened one at a time, filled only while open and with deltas of their own kind,
  closed before the next one opens, and all closed before the stop reason is sent.
\<close>

theorem anthropic_blocks_disciplined:
  assumes "message_begun w" and "anthropic_sse_start_live w r prompt_tokens = (st0, w0, True)"
    and "anthropic_feed has_tools chunks (st0, w0) = Some (st, w1)"
    and "anthropic_sse_finish_live has_tools ident st w1 raw cs fin n = (st', w', True)"
  shows "\<exists>fs k. sent w' = fs @ [Message_delta fin n, Message_stop] \<and> length cs \<le> k \<and>
    blocks_after fs (No_block, 0) = Some (No_block, k)"
proof -
  have "stream_inv st0 w0 \<and> as_active st0"
    using assms(1,2)
    by (auto simp: anthropic_sse_start_live_def stream_inv_def disciplined_def block_state_def message_begun_def send_True
        split: prod.splits)
  then have i1: "stream_inv st w1" "as_active st" using feed_inv [OF assms(3)] by auto
  obtain st1 w2 ok where up: "anthropic_sse_stream_update has_tools st w1 raw (length raw) True = (st1, w2, ok)" by (metis surj_pair)
  with assms(4) have ok: ok by (auto simp: anthropic_sse_finish_live_def split: bool.splits)
  have i2: "disciplined st1 w2" "as_open_block st1 = ANTH_BLOCK_NONE"
    using stream_update_inv [OF up [unfolded eqTrueI [OF ok]] i1] by (auto simp: stream_inv_def)
  obtain st3 w3 ok3 where mid: "(if as_sent_thinking st1 \<and> \<not> as_sent_text st1 \<and> cs = [] then
                   (case anthropic_sse_open_block st1 w2 ANTH_BLOCK_TEXT of
                      (st2, w2, False) \<Rightarrow> (st2, w2, False)
                    | (st2, w2, True) \<Rightarrow> anthropic_sse_close_block_live st2 w2)
                 else (st1, w2, True)) = (st3, w3, ok3)" by (rule prod_cases3)
  with assms(4) up ok have ok3: ok3 by (cases ok3) (simp_all add: anthropic_sse_finish_live_def)
  have i3: "disciplined st3 w3 \<and> as_open_block st3 = ANTH_BLOCK_NONE"
    using mid ok3 i2
    by (auto split: if_splits prod.splits bool.splits dest!: close_block_disciplined open_block_disciplined)
  obtain w4 where tools: "anthropic_sse_tool_blocks_live ident st3 w3 0 cs = (st', w4, True)"
    and stop: "anthropic_sse_stop_live w4 fin n = (w', True)"
    using assms(4) up ok mid ok3 by (auto simp: anthropic_sse_finish_live_def split: prod.splits bool.splits)
  from tool_blocks_disciplined [OF tools] i3 have
    "disciplined st' w4" "as_open_block st' = ANTH_BLOCK_NONE" "length cs \<le> as_next_index st'" by auto
  moreover from stop have "sent w' = sent w4 @ [Message_delta fin n, Message_stop]"
    by (auto simp: anthropic_sse_stop_live_def send_True split: prod.splits bool.splits)
  ultimately show ?thesis by (auto simp: disciplined_def block_state_def)
qed

definition sample_call :: tool_call where
  "sample_call = \<lparr>tc_id = None, tc_name = Some ''ls'', tc_arguments = Some ''{}''\<rparr>"

definition anthropic_run :: "nat \<Rightarrow> (anthropic_stream \<times> net \<times> bool) option" where
  \<comment> \<open>a short message with a tool call, on a connection that takes a number of writes\<close>
  "anthropic_run writes =
     (case anthropic_sse_start_live (anthropic_net\<lparr>writes_left := writes\<rparr>) (request_init REQ_CHAT 5) 7 of (st0, w0, ok) \<Rightarrow>
        map_option (\<lambda>x. anthropic_sse_finish_live True ''msg'' (fst x) (snd x) sample_answer [sample_call] ''tool_calls'' 9)
          (anthropic_feed True sample_chunks (st0, w0)))"

theorem anthropic_blocks_disciplined_witness:
  "\<exists>st' w' fs k. anthropic_run 100 = Some (st', w', True) \<and>
     sent w' = fs @ [Message_delta ''tool_calls'' 9, Message_stop] \<and>
     blocks_after fs (No_block, 0) = Some (No_block, k) \<and> 1 \<le> k"
proof -
  let ?w = "anthropic_net\<lparr>writes_left := 100\<rparr>" and ?r = "request_init REQ_CHAT 5"
  obtain st0 w0 ok where start: "anthropic_sse_start_live ?w ?r 7 = (st0, w0, ok)" by (metis surj_pair)
  have ok: "ok" using start by (auto simp: anthropic_sse_start_live_def send_all_def)
  have "case anthropic_run 100 of None \<Rightarrow> False | Some (st, w, ok) \<Rightarrow> ok" by code_simp
  then obtain st' w' where run: "anthropic_run 100 = Some (st', w', True)" by (auto split: option.splits)
  with start obtain st w1 where feed: "anthropic_feed True sample_chunks (st0, w0) = Some (st, w1)"
    and fin: "anthropic_sse_finish_live True ''msg'' st w1 sample_answer [sample_call] ''tool_calls'' 9 = (st', w', True)"
    by (auto simp: anthropic_run_def)
  have begun: "message_begun ?w" by (simp add: message_begun_def anthropic_net_def)
  from anthropic_blocks_disciplined [OF begun start [unfolded eqTrueI [OF ok]] feed fin] run show ?thesis by auto
qed

end
