(* ===== verification/ToolStreamFacts.thy ===== *)
theory ToolStreamFacts
  imports AnthropicFacts ToolReplayFacts
begin

text \<open>
  The incremental parser of tool calls (\<open>openai_tool_stream_update\<close>): its loop ends on every text.
\<close>

section \<open>Ids\<close>

definition stream_id_free :: "'a server_scheme \<Rightarrow> openai_tool_stream \<Rightarrow> nat \<Rightarrow> cstr \<Rightarrow> bool" where
  "stream_id_free s ts i ident \<longleftrightarrow> \<not> openai_tool_stream_has_id ts ident i \<and> \<not> tool_memory_has_id s (Some ident)"

lemma stream_id_returns:
  "stream_id_free s ts i (random_tool_id (rnd (k + n)) API_OPENAI) \<Longrightarrow> \<exists>x. stream_id_loop s ts i rnd k = Some x"
proof (induction n arbitrary: k)
  case 0
  then show ?case by (subst stream_id_loop.simps) (simp add: stream_id_free_def Let_def)
next
  case (Suc n)
  from Suc.IH [of "k + 1"] Suc.prems show ?case
    by (subst stream_id_loop.simps) (auto simp: Let_def)
qed

lemma has_id_remembered:
  assumes "mem_rel (tool_mem s) l" "tool_memory_has_id s (Some ident)"
  shows "ident \<in> fst ` set l"
  using taken_ids [OF assms(1), of "\<lparr>calls_v = [], raw_dsml = None\<rparr>" 0] assms(2)
  by (auto simp: id_free_def)

lemma stream_id_exists:
  assumes rel: "mem_rel (tool_mem s) l" and rnd: "random_source rnd (n + length l)" and i: "i \<le> n"
  shows "\<exists>x. stream_id_loop s ts i rnd k = Some x"
proof -
  let ?T = "the ` set (take i (ts_ids ts)) \<union> fst ` set l"
  have "card ?T \<le> card (the ` set (take i (ts_ids ts))) + card (fst ` set l)" by (rule card_Un_le)
  also have "\<dots> \<le> length (take i (ts_ids ts)) + length l"
    by (intro add_mono order.trans [OF card_image_le card_length]) auto
  finally have "card ?T \<le> n + length l" using i by simp
  then obtain m where m: "random_tool_id (rnd (k + m)) API_OPENAI \<notin> ?T"
    using random_source_fresh [OF rnd, of ?T] by blast
  have "stream_id_free s ts i (random_tool_id (rnd (k + m)) API_OPENAI)"
    using m has_id_remembered [OF rel] by (force simp: stream_id_free_def openai_tool_stream_has_id_def)
  then show ?thesis by (rule stream_id_returns)
qed

lemma stream_id_ok:
  assumes "mem_rel (tool_mem s) l" "random_source rnd (n + length l)" "ts_index ts \<le> n"
  shows "\<exists>ident ids j. openai_tool_stream_id s rnd ts (ts_index ts) w = Some (ident, ts\<lparr>ts_ids := ids\<rparr>, w\<lparr>rnd_pos := j\<rparr>)"
proof -
  define ids where "ids = ids_reserve (ts_ids ts) (ts_index ts)"
  show ?thesis
  proof (cases "ids ! ts_index ts")
    case None
    obtain x j where "stream_id_loop s (ts\<lparr>ts_ids := ids\<rparr>) (ts_index ts) rnd (rnd_pos w) = Some (x, j)"
      using stream_id_exists [OF assms] by fastforce
    with None show ?thesis by (auto simp: openai_tool_stream_id_def Let_def ids_def)
  next
    case (Some x)
    then have "openai_tool_stream_id s rnd ts (ts_index ts) w = Some (x, ts\<lparr>ts_ids := ids\<rparr>, w\<lparr>rnd_pos := rnd_pos w\<rparr>)"
      by (simp add: openai_tool_stream_id_def Let_def ids_def)
    then show ?thesis by blast
  qed
qed

section \<open>The loop makes progress\<close>

definition stream_style :: "dsml_style \<Rightarrow> bool" where
  "stream_style sty \<longleftrightarrow> sty = style_dsml \<or> sty = style_short \<or> sty = style_xml"

lemma stream_style_ne:
  "stream_style sty \<Longrightarrow> invoke_end sty \<noteq> [] \<and> param_end sty \<noteq> [] \<and> invoke_start sty \<noteq> [] \<and> param_start sty \<noteq> []
     \<and> tool_calls_end sty \<noteq> []"
  by (auto simp: stream_style_def style_dsml_def style_short_def style_xml_def dsml_tag_defs dsml_short_tag_defs)

lemma add_length_gt: "xs \<noteq> [] \<Longrightarrow> a \<le> p \<Longrightarrow> Suc a \<le> p + length xs"
  by (cases xs) auto

definition stream_sane :: "openai_tool_stream \<Rightarrow> bool" where
  "stream_sane ts \<longleftrightarrow> stream_style (ts_style ts) \<and> ts_index ts \<le> ts_parse_pos ts"

lemma stream_init_sane: "openai_tool_stream_init raw k p = (ts, True) \<Longrightarrow> stream_sane ts"
  by (auto simp: openai_tool_stream_init_def Let_def stream_sane_def stream_style_def openai_tool_stream_zero_def
      split: if_splits)

lemma find_tag_end_ge: "find_tag_end raw k p = Some e \<Longrightarrow> p \<le> e"
  by (auto simp: find_tag_end_def)

lemma skip_ws_ge: "p \<le> skip_ws_pos raw k p"
  by (simp add: skip_ws_pos_def)

lemma start_invoke_progress:
  assumes "openai_tool_start_invoke s rnd ts w raw k = Some (ts', w', ok)"
  shows "ts_style ts' = ts_style ts \<and> ts_index ts' = ts_index ts \<and> ts_parse_pos ts \<le> ts_parse_pos ts' \<and>
    (ok \<longrightarrow> ts_parse_pos ts < ts_parse_pos ts' \<or> \<not> ts_active ts' \<or> ts_parse_pos ts' = ts_parse_pos ts \<and> ts_state ts' = ts_state ts)"
  using assms
  by (auto simp: openai_tool_start_invoke_def openai_tool_stream_fail_def openai_tool_stream_id_def Let_def
        split: option.splits prod.splits bool.splits dest!: find_tag_end_ge)

lemma start_param_progress:
  assumes "openai_tool_start_param ts w raw k = (ts', w', ok)"
  shows "ts_style ts' = ts_style ts \<and> ts_index ts' = ts_index ts \<and> ts_parse_pos ts \<le> ts_parse_pos ts' \<and>
    (ok \<longrightarrow> ts_parse_pos ts < ts_parse_pos ts' \<or> \<not> ts_active ts' \<or> ts_parse_pos ts' = ts_parse_pos ts \<and> ts_state ts' = ts_state ts)"
  using assms
  by (auto simp: openai_tool_start_param_def openai_tool_stream_fail_def openai_tool_emit_param_prefix_def Let_def
        split: option.splits prod.splits if_splits dest!: find_tag_end_ge)

lemma start_invoke_returns:
  assumes "mem_rel (tool_mem s) l" "random_source rnd (n + length l)" "ts_index ts \<le> n"
  shows "\<exists>x. openai_tool_start_invoke s rnd ts w raw k = Some x"
proof -
  obtain x where "openai_tool_stream_id s rnd ts (ts_index ts) w = Some x" using stream_id_ok [OF assms] by blast
  then show ?thesis by (auto simp: openai_tool_start_invoke_def split: option.splits prod.splits bool.splits)
qed

lemma step_progress:
  assumes rel: "mem_rel (tool_mem s) l" and rnd: "random_source rnd (k + length l)"
    and sane: "stream_sane ts" and pos: "ts_parse_pos ts < k"
  shows "\<exists>e ts' w'. openai_tool_step s rnd ts w raw k = Some (e, ts', w') \<and>
    (e = Continue \<longrightarrow> stream_sane ts' \<and> (\<not> ts_active ts' \<or> ts_parse_pos ts < ts_parse_pos ts'))"
proof (cases "ts_state ts")
  case OPENAI_TOOL_BETWEEN_INVOKES
  define ts1 where "ts1 = ts\<lparr>ts_parse_pos := skip_ws_pos raw k (ts_parse_pos ts)\<rparr>"
  have sane1: "stream_sane ts1" and ge: "ts_parse_pos ts \<le> ts_parse_pos ts1"
    using sane skip_ws_ge [of "ts_parse_pos ts" raw k] by (auto simp: stream_sane_def ts1_def)
  show ?thesis
  proof (cases "openai_tool_start_invoke s rnd ts1 w raw k")
    case None
    have "ts_index ts1 \<le> k" using sane pos by (simp add: stream_sane_def ts1_def)
    from start_invoke_returns [OF rel rnd this, of w raw k] None show ?thesis by simp
  next
    case (Some x)
    obtain ts2 w2 ok where x: "x = (ts2, w2, ok)" by (cases x)
    from start_invoke_progress [OF Some [unfolded x]] sane1 ge OPENAI_TOOL_BETWEEN_INVOKES Some x show ?thesis
      by (cases ok) (auto simp: openai_tool_step_def openai_tool_between_invokes_def ts1_def [symmetric] Let_def stream_sane_def)
  qed
next
  case OPENAI_TOOL_BETWEEN_PARAMS
  define ts1 where "ts1 = ts\<lparr>ts_parse_pos := skip_ws_pos raw k (ts_parse_pos ts)\<rparr>"
  have sane1: "stream_sane ts1" and ge: "ts_parse_pos ts \<le> ts_parse_pos ts1" and st: "ts_state ts1 = ts_state ts"
    using sane skip_ws_ge [of "ts_parse_pos ts" raw k] by (auto simp: stream_sane_def ts1_def)
  obtain ts2 w2 ok where x: "openai_tool_start_param ts1 w raw k = (ts2, w2, ok)" by (metis surj_pair)
  obtain e ts' w' where b: "openai_tool_between_params ts w raw k = (e, ts', w')" by (metis surj_pair)
  have "e = Continue \<longrightarrow> stream_sane ts' \<and> (\<not> ts_active ts' \<or> ts_parse_pos ts < ts_parse_pos ts')"
    using b start_param_progress [OF x] sane1 ge stream_style_ne [of "ts_style ts1"] st x
    by (cases ok) (auto simp: openai_tool_between_params_def ts1_def [symmetric] Let_def stream_sane_def
        intro!: add_length_gt intro: less_le_trans [OF _ add_length_gt] split: if_splits prod.splits bool.splits)
  then show ?thesis using b OPENAI_TOOL_BETWEEN_PARAMS by (simp add: openai_tool_step_def)
next
  case OPENAI_TOOL_PARAM_VALUE
  obtain e ts' w' where b: "openai_tool_param_value ts w raw k = (e, ts', w')" by (metis surj_pair)
  have "e = Continue \<longrightarrow> stream_sane ts' \<and> (\<not> ts_active ts' \<or> ts_parse_pos ts < ts_parse_pos ts')"
    using b sane stream_style_ne [of "ts_style ts"]
    by (auto simp: openai_tool_param_value_def openai_tool_finish_param_def Let_def stream_sane_def
        split: option.splits if_splits prod.splits bool.splits)
  then show ?thesis using b OPENAI_TOOL_PARAM_VALUE by (simp add: openai_tool_step_def)
qed (auto simp: openai_tool_step_def)

text \<open>
  C37. The loop of \<open>openai_tool_stream_update\<close> ends on every text, whatever was parsed before and
  whichever writes fail, as long as the random source keeps producing more different ids than the
  text has bytes and the memory entries; every round that does not return has consumed input.
\<close>

theorem openai_tool_stream_returns:
  assumes "mem_rel (tool_mem s) l" and "random_source rnd (k + length l)" and "stream_sane ts"
  shows "\<exists>x. openai_tool_stream_update s rnd ts w raw k = Some x"
  using assms(3)
proof (induction "(if ts_active ts then Suc (k - ts_parse_pos ts) else 0)" arbitrary: ts w rule: less_induct)
  case less
  show ?case
  proof (cases "ts_active ts \<and> ts_parse_pos ts < k")
    case False
    then show ?thesis by (subst openai_tool_stream_update.simps) auto
  next
    case True
    with step_progress [OF assms(1,2) less.prems, of w raw] obtain e ts1 w1 where
      st: "openai_tool_step s rnd ts w raw k = Some (e, ts1, w1)" and
      pr: "e = Continue \<Longrightarrow> stream_sane ts1 \<and> (\<not> ts_active ts1 \<or> ts_parse_pos ts < ts_parse_pos ts1)" by blast
    show ?thesis
    proof (cases e)
      case (Return b)
      with st True show ?thesis by (subst openai_tool_stream_update.simps) simp
    next
      case Continue
      have "\<exists>x. openai_tool_stream_update s rnd ts1 w1 raw k = Some x"
        by (rule less.hyps) (use pr [OF Continue] True in auto)
      with st Continue pr [OF Continue] True show ?thesis by (subst openai_tool_stream_update.simps) auto
    qed
  qed
qed

lemma sample_rnd_source: "n < 256 \<Longrightarrow> random_source sample_rnd n"
proof -
  assume n: "n < 256"
  have "inj_on sample_rnd {k..<k + 256}" for k
  proof (rule inj_onI)
    fix a b assume ab: "a \<in> {k..<k + 256}" "b \<in> {k..<k + 256}" "sample_rnd a = sample_rnd b"
    then have "(word_of_nat a :: u8) = word_of_nat b" by (simp add: sample_rnd_def)
    then have "a mod 256 = b mod 256" by (simp add: word_of_nat_eq_iff take_bit_eq_mod)
    then have "(int a - int b) mod 256 = 0" by (metis mod_eq_dvd_iff mod_0_imp_dvd dvd_imp_mod_0 of_nat_mod of_nat_numeral)
    moreover have "\<bar>int a - int b\<bar> < 256" using ab by auto
    ultimately show "a = b" using dvd_imp_le_int [of "int a - int b" 256] by (auto simp: mod_eq_0_iff_dvd)
  qed
  then have "card (sample_rnd ` {k..<k + 256}) = 256" for k by (simp add: card_image)
  with n show ?thesis unfolding random_source_def by (intro conjI allI exI [of _ 256]) (simp_all add: sample_rnd_def)
qed

definition tool_text :: string where
  "tool_text = ''<tool_calls><invoke name=\"ls\"><parameter name=\"p\" string=\"true\">a&lt;b</parameter></invoke></tool_calls>''"

theorem openai_tool_stream_returns_witness:
  "\<exists>x. openai_tool_stream_update plain_server sample_rnd (fst (openai_tool_stream_init tool_text (length tool_text) 0))
     sample_net tool_text (length tool_text) = Some x"
proof -
  have "length tool_text < 256" by (simp add: tool_text_def)
  then have "random_source sample_rnd (length tool_text + length ([] :: mem_item list))"
    using sample_rnd_source by simp
  moreover have "mem_rel (tool_mem plain_server) []" using zero_empty by (simp add: plain_server_def)
  moreover have "snd (openai_tool_stream_init tool_text (length tool_text) 0)" by code_simp
  then have "stream_sane (fst (openai_tool_stream_init tool_text (length tool_text) 0))"
    by (cases "openai_tool_stream_init tool_text (length tool_text) 0") (auto dest: stream_init_sane)
  ultimately show ?thesis by (intro openai_tool_stream_returns)
qed

end
