(* ===== verification/StrTable.thy ===== *)
theory StrTable
  imports Prelude
begin

text \<open>
  The hash table of ds4.c from strings to integers (open addressing, linear probing, FNV-1a hash).
  The loop over the slots is a \<open>partial_function\<close>: None means that it never ends, which happens in a
  full table. The invariant \<open>table_ok\<close> excludes it, and under it the table refines a finite map.
\<close>

section \<open>The code\<close>

definition hash_bytes :: "string \<Rightarrow> u64" where
  "hash_bytes s = foldl (\<lambda>h c. (h XOR word_of_nat (byte_of c)) * 1099511628211) 1469598103934665603 s"

record str_i32_entry =
  se_key :: string
  se_value :: int
  se_used :: bool

record str_i32_table =
  st_entry :: "str_i32_entry list"
  st_cap :: u64
  st_used :: u64

partial_function (option) next_pow2_loop :: "u64 \<Rightarrow> u64 \<Rightarrow> u64 option" where
  "next_pow2_loop n p = (if p < n then next_pow2_loop n (push_bit 1 p) else Some p)"

definition next_pow2 :: "u64 \<Rightarrow> u64 option" where
  "next_pow2 n = next_pow2_loop n 1"

definition table_init :: "u64 \<Rightarrow> str_i32_table option" where
  "table_init expected =
     map_option (\<lambda>c. \<lparr>st_entry = replicate (unat c) \<lparr>se_key = [], se_value = 0, se_used = False\<rparr>,
                      st_cap = c, st_used = 0\<rparr>)
       (next_pow2 (expected * 2 + 16))"

text \<open>The loop \<open>while (t->entry[i].used)\<close> of \<open>table_put\<close> and \<open>table_get\<close>: the slot at which it is left.\<close>

partial_function (option) table_probe :: "str_i32_table \<Rightarrow> string \<Rightarrow> u64 \<Rightarrow> u64 option" where
  "table_probe t key i =
     (let e = st_entry t ! unat i in
      if se_used e \<and> se_key e \<noteq> key then table_probe t key ((i + 1) AND (st_cap t - 1)) else Some i)"

definition table_home :: "str_i32_table \<Rightarrow> string \<Rightarrow> u64" where
  "table_home t key = hash_bytes key AND (st_cap t - 1)"

definition table_put :: "str_i32_table \<Rightarrow> string \<Rightarrow> int \<Rightarrow> str_i32_table option" where
  "table_put t key v =
     map_option (\<lambda>i. let e = st_entry t ! unat i in
        if se_used e then t\<lparr>st_entry := (st_entry t)[unat i := e\<lparr>se_value := v\<rparr>]\<rparr>
        else t\<lparr>st_entry := (st_entry t)[unat i := \<lparr>se_key = key, se_value = v, se_used = True\<rparr>],
               st_used := st_used t + 1\<rparr>)
       (table_probe t key (table_home t key))"

definition table_get :: "str_i32_table \<Rightarrow> string \<Rightarrow> int option option" where
  \<comment> \<open>None: the loop never ends; Some None: the result false\<close>
  "table_get t key =
     (if st_cap t = 0 then Some None
      else map_option (\<lambda>i. let e = st_entry t ! unat i in if se_used e then Some (se_value e) else None)
             (table_probe t key (table_home t key)))"

section \<open>The capacity\<close>

lemma unat_pow2 [simp]: "m < 64 \<Longrightarrow> unat (2 ^ m :: u64) = 2 ^ m"
proof -
  assume m: "m < 64"
  have "unat (word_of_nat (2 ^ m) :: u64) = 2 ^ m"
    using m by (simp add: unsigned_of_nat take_bit_nat_eq_self del: of_nat_power)
  then show ?thesis by simp
qed

lemma next_pow2_loop_ok:
  "unat n \<le> 2 ^ m \<Longrightarrow> k \<le> m \<Longrightarrow> m < 64 \<Longrightarrow> (k = 0 \<or> 2 ^ (k - 1) < unat n) \<Longrightarrow>
    \<exists>j \<le> m. next_pow2_loop n (2 ^ k) = Some (2 ^ j) \<and> unat n \<le> 2 ^ j \<and> (j = 0 \<or> 2 ^ (j - 1) < unat n)"
proof (induction "m - k" arbitrary: k)
  case 0
  then have k: "m = k" "unat (2 ^ k :: u64) = 2 ^ k" by simp_all
  with 0 have "\<not> (2 ^ k :: u64) < n" by (simp only: word_less_nat_alt not_less)
  with 0 k(1) show ?case by (subst next_pow2_loop.simps) (auto intro!: exI [of _ k])
next
  case (Suc d)
  have up: "unat (2 ^ k :: u64) = 2 ^ k" using Suc.prems by simp
  show ?case
  proof (cases "(2 ^ k :: u64) < n")
    case False
    then show ?thesis using Suc.prems up
      by (subst next_pow2_loop.simps) (auto simp: word_less_nat_alt intro!: exI [of _ k])
  next
    case True
    then have "\<exists>j \<le> m. next_pow2_loop n (2 ^ Suc k) = Some (2 ^ j) \<and> unat n \<le> 2 ^ j \<and> (j = 0 \<or> 2 ^ (j - 1) < unat n)"
      using Suc up by (intro Suc.hyps(1)) (auto simp: word_less_nat_alt)
    with True show ?thesis by (subst next_pow2_loop.simps) (simp add: push_bit_eq_mult mult.commute)
  qed
qed

lemma next_pow2_ok:
  assumes "unat n \<le> 2 ^ 63"
  shows "\<exists>j < 64. next_pow2 n = Some (2 ^ j) \<and> unat n \<le> 2 ^ j"
proof -
  have "\<exists>j \<le> 63. next_pow2_loop n (2 ^ 0) = Some (2 ^ j) \<and> unat n \<le> 2 ^ j \<and> (j = 0 \<or> 2 ^ (j - 1) < unat n)"
    by (rule next_pow2_loop_ok) (use assms in auto)
  then obtain j where "j \<le> 63" "next_pow2 n = Some (2 ^ j)" "unat n \<le> 2 ^ j" by (auto simp: next_pow2_def)
  then show ?thesis by (intro exI [of _ j]) auto
qed

section \<open>The invariant\<close>

definition stops_at :: "str_i32_table \<Rightarrow> string \<Rightarrow> nat \<Rightarrow> bool" where
  "stops_at t x j \<longleftrightarrow> \<not> se_used (st_entry t ! j) \<or> se_key (st_entry t ! j) = x"

text \<open>\<open>reaches t x j\<close>: the probe for \<open>x\<close> passes over occupied slots of other keys and arrives at \<open>j\<close>.\<close>

definition reaches :: "str_i32_table \<Rightarrow> string \<Rightarrow> nat \<Rightarrow> bool" where
  "reaches t x j \<longleftrightarrow> (\<exists>d. j = (unat (table_home t x) + d) mod unat (st_cap t) \<and>
     (\<forall>e < d. \<not> stops_at t x ((unat (table_home t x) + e) mod unat (st_cap t))))"

definition used_slots :: "str_i32_table \<Rightarrow> nat set" where
  "used_slots t = {j. j < length (st_entry t) \<and> se_used (st_entry t ! j)}"

definition table_map :: "str_i32_table \<Rightarrow> string \<Rightarrow> int option" where
  "table_map t = map_of (map (\<lambda>e. (se_key e, se_value e)) (filter se_used (st_entry t)))"

text \<open>A well-formed table with room for \<open>n\<close> more keys.\<close>

definition table_ok :: "str_i32_table \<Rightarrow> nat \<Rightarrow> bool" where
  "table_ok t n \<longleftrightarrow> (\<exists>k < 64. st_cap t = 2 ^ k) \<and> length (st_entry t) = unat (st_cap t) \<and>
     card (used_slots t) + n < unat (st_cap t) \<and>
     (\<forall>j \<in> used_slots t. reaches t (se_key (st_entry t ! j)) j)"

lemma word_index: "j < unat (c :: u64) \<Longrightarrow> unat (word_of_nat j :: u64) = j"
proof -
  assume "j < unat c"
  moreover have "unat c < 2 ^ LENGTH(64)" by (rule unsigned_less)
  ultimately have "j < 2 ^ LENGTH(64)" by (rule less_trans)
  then show ?thesis by (rule of_nat_inverse [OF refl])
qed

lemma mask_index: "k < 64 \<Longrightarrow> unat (x AND (2 ^ k - 1) :: u64) = unat x mod 2 ^ k"
proof -
  have "x AND (2 ^ k - 1) = take_bit k x" by (simp only: take_bit_eq_mask mask_eq_exp_minus_1)
  then show ?thesis by (simp only: unsigned_take_bit_eq take_bit_eq_mod [where ?'a = nat])
qed

lemma next_index:
  assumes "k < 64"
  shows "unat ((i + 1) AND (2 ^ k - 1) :: u64) = (unat i + 1) mod 2 ^ k"
proof -
  have "(unat i + 1) mod 2 ^ 64 mod 2 ^ k = (unat i + 1) mod (2 ^ k :: nat)"
    using assms by (intro mod_mod_cancel le_imp_power_dvd) simp
  then show ?thesis by (simp add: mask_index [OF assms] unat_word_ariths)
qed

lemma probe_steps:
  "st_cap t = 2 ^ k \<Longrightarrow> k < 64 \<Longrightarrow> unat i < 2 ^ k \<Longrightarrow> stops_at t x ((unat i + d) mod 2 ^ k) \<Longrightarrow>
   (\<forall>e < d. \<not> stops_at t x ((unat i + e) mod 2 ^ k)) \<Longrightarrow>
   table_probe t x i = Some (word_of_nat ((unat i + d) mod 2 ^ k))"
proof (induction d arbitrary: i)
  case 0
  then show ?case by (subst table_probe.simps) (auto simp: stops_at_def Let_def)
next
  case (Suc d)
  have i: "\<not> stops_at t x (unat i)" using Suc.prems(3,5) by force
  let ?i = "(i + 1) AND (2 ^ k - 1) :: u64"
  have u: "unat ?i = (unat i + 1) mod 2 ^ k" by (rule next_index [OF Suc.prems(2)])
  have shift: "(unat ?i + e) mod 2 ^ k = (unat i + Suc e) mod 2 ^ k" for e
    by (simp add: u mod_simps)
  have "table_probe t x ?i = Some (word_of_nat ((unat ?i + d) mod 2 ^ k))"
  proof (rule Suc.IH [OF Suc.prems(1,2)])
    show "unat ?i < 2 ^ k" by (simp add: u)
    show "stops_at t x ((unat ?i + d) mod 2 ^ k)" using Suc.prems(4) by (simp only: shift)
    show "\<forall>e < d. \<not> stops_at t x ((unat ?i + e) mod 2 ^ k)" using Suc.prems(5) by (simp only: shift) auto
  qed
  with i Suc.prems(1) show ?case
    by (subst table_probe.simps) (simp add: shift stops_at_def Let_def)
qed

lemma home_less: "table_ok t n \<Longrightarrow> unat (table_home t x) < unat (st_cap t)"
  by (auto simp: table_ok_def table_home_def mask_index)

text \<open>In a table with a free slot every probe ends.\<close>

lemma probe_ends:
  assumes ok: "table_ok t n"
  shows "\<exists>j < unat (st_cap t). table_probe t x (table_home t x) = Some (word_of_nat j) \<and> reaches t x j \<and> stops_at t x j"
proof -
  from ok obtain k where k: "k < 64" "st_cap t = 2 ^ k" and len: "length (st_entry t) = 2 ^ k"
    by (auto simp: table_ok_def)
  have h: "unat (table_home t x) < 2 ^ k" using home_less [OF ok, of x] k by simp
  have "used_slots t \<noteq> {..<2 ^ k}" using ok k by (auto simp: table_ok_def)
  moreover have "used_slots t \<subseteq> {..<2 ^ k}" using len by (auto simp: used_slots_def)
  ultimately obtain f where f: "f < 2 ^ k" "f \<notin> used_slots t" by blast
  then have stop: "stops_at t x f" using len by (simp add: used_slots_def stops_at_def)
  define d0 where "d0 = (if unat (table_home t x) \<le> f then f - unat (table_home t x) else f + 2 ^ k - unat (table_home t x))"
  have "(unat (table_home t x) + d0) mod 2 ^ k = f" using f h by (auto simp: d0_def)
  with stop have ex: "stops_at t x ((unat (table_home t x) + d0) mod 2 ^ k)" by simp
  then obtain d where d: "stops_at t x ((unat (table_home t x) + d) mod 2 ^ k)"
    and less: "\<forall>e < d. \<not> stops_at t x ((unat (table_home t x) + e) mod 2 ^ k)"
    using exists_least_iff [of "\<lambda>d. stops_at t x ((unat (table_home t x) + d) mod 2 ^ k)"] by auto
  from probe_steps [OF k(2,1) h d less] d less k show ?thesis
    by (intro exI [of _ "(unat (table_home t x) + d) mod 2 ^ k"]) (auto simp: reaches_def)
qed

text \<open>A key has at most one slot, so the table is the map of its occupied slots.\<close>

lemma reaches_unique:
  assumes "reaches t x i" "reaches t x j" "stops_at t x i" "stops_at t x j"
  shows "i = j"
proof -
  from assms(1) obtain d where d: "i = (unat (table_home t x) + d) mod unat (st_cap t)"
    "\<forall>e < d. \<not> stops_at t x ((unat (table_home t x) + e) mod unat (st_cap t))" by (auto simp: reaches_def)
  from assms(2) obtain d' where d': "j = (unat (table_home t x) + d') mod unat (st_cap t)"
    "\<forall>e < d'. \<not> stops_at t x ((unat (table_home t x) + e) mod unat (st_cap t))" by (auto simp: reaches_def)
  have "d = d'" using d d' assms(3,4) by (metis linorder_neqE_nat)
  with d d' show ?thesis by simp
qed

lemma finite_used [simp]: "finite (used_slots t)"
  by (simp add: used_slots_def)

lemma slot_key:
  assumes "table_ok t n" "i \<in> used_slots t" "j \<in> used_slots t" "se_key (st_entry t ! i) = se_key (st_entry t ! j)"
  shows "i = j"
  using assms by (intro reaches_unique [of t "se_key (st_entry t ! i)"]) (auto simp: table_ok_def stops_at_def)

lemma table_map_Some:
  assumes ok: "table_ok t n"
  shows "table_map t x = Some v \<longleftrightarrow> (\<exists>j \<in> used_slots t. se_key (st_entry t ! j) = x \<and> se_value (st_entry t ! j) = v)"
    (is "?l \<longleftrightarrow> ?r")
proof
  assume ?l
  then show ?r
    by (auto simp: table_map_def used_slots_def in_set_conv_nth dest!: map_of_SomeD)
next
  assume ?r
  then obtain j where j: "j \<in> used_slots t" "se_key (st_entry t ! j) = x" "se_value (st_entry t ! j) = v" by blast
  then have "st_entry t ! j \<in> set (filter se_used (st_entry t))" by (auto simp: used_slots_def)
  then have "(x, v) \<in> set (map (\<lambda>e. (se_key e, se_value e)) (filter se_used (st_entry t)))" using j by force
  then obtain w where w: "table_map t x = Some w" unfolding table_map_def by (metis (no_types, lifting) weak_map_of_SomeI)
  then obtain i where i: "i \<in> used_slots t" "se_key (st_entry t ! i) = x" "se_value (st_entry t ! i) = w"
    by (auto simp: table_map_def used_slots_def in_set_conv_nth dest!: map_of_SomeD)
  with slot_key [OF ok i(1) j(1)] j w show ?l by simp
qed

lemma table_map_None:
  "table_ok t n \<Longrightarrow> table_map t x = None \<longleftrightarrow> (\<forall>j \<in> used_slots t. se_key (st_entry t ! j) \<noteq> x)"
  using table_map_Some [of t n x] by (metis not_None_eq)

section \<open>Lookup and insertion\<close>

lemma table_get_map:
  assumes ok: "table_ok t n"
  shows "table_get t x = Some (table_map t x)"
proof -
  obtain j where j: "j < unat (st_cap t)" "table_probe t x (table_home t x) = Some (word_of_nat j)"
    "reaches t x j" "stops_at t x j" using probe_ends [OF ok] by blast
  have cap: "st_cap t \<noteq> 0" "unat (word_of_nat j :: u64) = j" "length (st_entry t) = unat (st_cap t)"
    using ok j(1) word_index by (auto simp: table_ok_def)
  show ?thesis
  proof (cases "se_used (st_entry t ! j)")
    case True
    then have "j \<in> used_slots t" "se_key (st_entry t ! j) = x" using j cap by (auto simp: used_slots_def stops_at_def)
    then have "table_map t x = Some (se_value (st_entry t ! j))" using table_map_Some [OF ok] by blast
    with True j(2) cap show ?thesis by (simp add: table_get_def Let_def)
  next
    case False
    have "table_map t x = None"
    proof (rule ccontr)
      assume "table_map t x \<noteq> None"
      then obtain i where i: "i \<in> used_slots t" "se_key (st_entry t ! i) = x"
        by (auto simp: table_map_None [OF ok])
      have "reaches t x i" using ok i by (auto simp: table_ok_def)
      moreover have "stops_at t x i" using i(2) by (simp add: stops_at_def)
      ultimately have "i = j" using reaches_unique j(3,4) by blast
      with i False show False by (simp add: used_slots_def)
    qed
    with False j(2) cap show ?thesis by (simp add: table_get_def Let_def)
  qed
qed

lemma table_put_map:
  assumes ok: "table_ok t (Suc n)"
  shows "\<exists>t'. table_put t x v = Some t' \<and> table_ok t' n \<and> table_map t' = (table_map t)(x \<mapsto> v)"
proof -
  obtain j where j: "j < unat (st_cap t)" "table_probe t x (table_home t x) = Some (word_of_nat j)"
    "reaches t x j" "stops_at t x j" using probe_ends [OF ok] by blast
  have len: "unat (word_of_nat j :: u64) = j" "length (st_entry t) = unat (st_cap t)"
    using ok word_index [OF j(1)] by (auto simp: table_ok_def)
  define e where "e = st_entry t ! j"
  define e' where "e' = (if se_used e then e\<lparr>se_value := v\<rparr> else \<lparr>se_key = x, se_value = v, se_used = True\<rparr>)"
  define t' where "t' = (if se_used e then t\<lparr>st_entry := (st_entry t)[j := e']\<rparr>
    else t\<lparr>st_entry := (st_entry t)[j := e'], st_used := st_used t + 1\<rparr>)"
  have put: "table_put t x v = Some t'" using j(2) len by (auto simp: table_put_def t'_def e'_def e_def Let_def)
  have e': "se_used e'" "se_key e' = x" "se_value e' = v"
    using j(4) by (auto simp: e'_def e_def stops_at_def)
  have t': "st_cap t' = st_cap t" "st_entry t' = (st_entry t)[j := e']" by (simp_all add: t'_def)
  have nth: "st_entry t' ! i = (if i = j then e' else st_entry t ! i)" for i
    using j(1) len by (cases "i = j") (auto simp: t' nth_list_update)
  have used: "used_slots t' = insert j (used_slots t)"
    using j(1) len e'(1) by (auto simp: used_slots_def t'(2) nth_list_update split: if_splits)
  have home: "table_home t' y = table_home t y" for y by (simp add: table_home_def t')
  have stops: "\<not> stops_at t' y i" if "\<not> stops_at t y i" "i \<noteq> j \<or> y \<noteq> x" for y i
    using that j(4) e' by (auto simp: stops_at_def nth)
  have reach: "reaches t' y i" if "reaches t y i" "i \<in> used_slots t" "se_key (st_entry t ! i) = y" for y i
  proof -
    from that(1) obtain d where d: "i = (unat (table_home t y) + d) mod unat (st_cap t)"
      "\<forall>f < d. \<not> stops_at t y ((unat (table_home t y) + f) mod unat (st_cap t))" by (auto simp: reaches_def)
    have "\<not> stops_at t' y ((unat (table_home t y) + f) mod unat (st_cap t))" if "f < d" for f
      using d(2) that j(4) e' by (auto simp: stops_at_def nth split: if_splits)
    with d(1) show ?thesis unfolding reaches_def by (auto simp: home t')
  qed
  have "reaches t' x j"
  proof -
    from j(3) obtain d where d: "j = (unat (table_home t x) + d) mod unat (st_cap t)"
      "\<forall>f < d. \<not> stops_at t x ((unat (table_home t x) + f) mod unat (st_cap t))" by (auto simp: reaches_def)
    have "\<not> stops_at t' x ((unat (table_home t x) + f) mod unat (st_cap t))" if "f < d" for f
      using d(2) that j(4) by (intro stops) auto
    with d(1) show ?thesis unfolding reaches_def by (auto simp: home t')
  qed
  then have "\<forall>i \<in> used_slots t'. reaches t' (se_key (st_entry t' ! i)) i"
    using reach ok e'(2) by (auto simp: used nth table_ok_def)
  moreover have "card (used_slots t') \<le> Suc (card (used_slots t))"
    by (cases "j \<in> used_slots t") (auto simp: used insert_absorb card_insert_if [OF finite_used])
  ultimately have ok': "table_ok t' n" using ok by (auto simp: table_ok_def t')
  have "table_map t' y = ((table_map t)(x \<mapsto> v)) y" for y
  proof (cases "y = x")
    case True
    have "j \<in> used_slots t'" by (simp add: used)
    then show ?thesis using True e' table_map_Some [OF ok', of x v] by (auto simp: nth)
  next
    case False
    have other: "i \<noteq> j" if "i \<in> used_slots t" "se_key (st_entry t ! i) = y" for i
      using that False j(4) by (auto simp: used_slots_def stops_at_def)
    have "table_map t' y = Some w \<longleftrightarrow> table_map t y = Some w" for w
      using False e'(2) other by (force simp: table_map_Some [OF ok'] table_map_Some [OF ok] used nth)
    then have "table_map t' y = table_map t y" by (metis not_None_eq)
    with False show ?thesis by simp
  qed
  with put ok' show ?thesis by (intro exI [of _ t']) (auto simp: fun_eq_iff)
qed

lemma table_init_ok:
  assumes "unat e < 2 ^ 62 - 16"
  shows "\<exists>t. table_init e = Some t \<and> table_ok t (2 * unat e + 15) \<and> table_map t = Map.empty"
proof -
  have u: "unat (e * 2 + 16) = unat e * 2 + 16" using assms by (simp add: unat_word_ariths)
  from next_pow2_ok [of "e * 2 + 16"] assms u obtain j where
    j: "j < 64" "next_pow2 (e * 2 + 16) = Some (2 ^ j)" "unat e * 2 + 16 \<le> 2 ^ j" by auto
  define t where "t = \<lparr>st_entry = replicate (2 ^ j) \<lparr>se_key = [], se_value = 0, se_used = False\<rparr>,
                       st_cap = 2 ^ j, st_used = 0\<rparr>"
  have "table_init e = Some t" using j by (simp add: table_init_def t_def)
  moreover have "used_slots t = {}" by (auto simp: used_slots_def t_def)
  then have "table_ok t (2 * unat e + 15)" using j by (auto simp: table_ok_def t_def)
  moreover have "table_map t = Map.empty" by (simp add: table_map_def t_def)
  ultimately show ?thesis by blast
qed

section \<open>The interface\<close>

text \<open>What the tokenizer relies on: a lookup ends and answers as a finite map, an insertion into a table
  with room ends and updates it. \<open>ok t n\<close>: \<open>t\<close> has room for \<open>n\<close> more keys.\<close>

locale string_map =
  fixes get :: "'t \<Rightarrow> string \<Rightarrow> int option option"
    and put :: "'t \<Rightarrow> string \<Rightarrow> int \<Rightarrow> 't option"
    and entries :: "'t \<Rightarrow> string \<Rightarrow> int option"
    and ok :: "'t \<Rightarrow> nat \<Rightarrow> bool"
  assumes get_entries: "ok t n \<Longrightarrow> get t x = Some (entries t x)"
    and put_entries: "ok t (Suc n) \<Longrightarrow> \<exists>t'. put t x v = Some t' \<and> ok t' n \<and> entries t' = (entries t)(x \<mapsto> v)"
begin

fun put_all :: "(string \<times> int) list \<Rightarrow> 't \<Rightarrow> 't option" where
  "put_all [] t = Some t"
| "put_all ((x, v) # xs) t = Option.bind (put t x v) (put_all xs)"

lemma put_all_entries:
  "ok t (length xs + n) \<Longrightarrow> \<exists>t'. put_all xs t = Some t' \<and> ok t' n \<and> entries t' = entries t ++ map_of (rev xs)"
proof (induction xs arbitrary: t)
  case (Cons a xs)
  obtain x v where a: "a = (x, v)" by (cases a)
  from Cons.prems have "ok t (Suc (length xs + n))" by simp
  from put_entries [OF this] obtain t1 where
    t1: "put t x v = Some t1" "ok t1 (length xs + n)" "entries t1 = (entries t)(x \<mapsto> v)" by blast
  from Cons.IH [OF t1(2)] obtain t' where
    "put_all xs t1 = Some t'" "ok t' n" "entries t' = entries t1 ++ map_of (rev xs)" by blast
  then show ?case using t1(1,3) by (intro exI [of _ t']) (simp add: a)
qed simp

lemma get_put_all:
  assumes "ok t (length xs + n)" "put_all xs t = Some t'"
  shows "get t' x = Some (case map_of (rev xs) x of None \<Rightarrow> entries t x | Some v \<Rightarrow> Some v)"
  using put_all_entries [OF assms(1)] assms(2) get_entries by (force simp: map_add_def split: option.splits)

end

interpretation str_table: string_map table_get table_put table_map table_ok
  by unfold_locales (rule table_get_map table_put_map; assumption)+

text \<open>
  C21. The table is a finite map: inserting into a table with room ends, it changes what is found under
  the inserted key and under no other, whatever collides with what, and it uses up room for at most one
  key.
\<close>

theorem table_put_get:
  assumes "table_ok t (Suc n)"
  shows "\<exists>t'. table_put t x v = Some t' \<and> table_ok t' n \<and>
    (\<forall>y. table_get t' y = (if y = x then Some (Some v) else table_get t y) \<and> table_get t y \<noteq> None)"
proof -
  from str_table.put_entries [OF assms] obtain t' where
    t': "table_put t x v = Some t'" "table_ok t' n" "table_map t' = (table_map t)(x \<mapsto> v)" by blast
  show ?thesis using t' str_table.get_entries [OF assms] str_table.get_entries [OF t'(2)] by (intro exI [of _ t']) simp
qed

lemma table_put_get_witness: "\<exists>t t'. table_init 1 = Some t \<and> table_put t ''a'' 5 = Some t' \<and> table_get t' ''a'' = Some (Some 5)"
proof -
  from table_init_ok [of 1] obtain t where t: "table_init 1 = Some t" "table_ok t 17" by auto
  from table_put_get [of t 16 "''a''" 5] t show ?thesis by (auto simp: numeral_eq_Suc)
qed

end
