(* ===== verification/Tokenizer.thy ===== *)
theory Tokenizer
  imports StrTable Render
begin

text \<open>
  The tokenizer of ds4.c: byte-level BPE with the JoyAI pre-tokenizer, the chat specials, and the text
  of a token. A text position is the suffix that starts there. Functions that look up the hash
  tables return None when a lookup never ends (see \<open>StrTable\<close>).
\<close>

section \<open>Bytes and code points\<close>

definition as_byte :: "char \<Rightarrow> u8" where
  "as_byte c = word_of_nat (byte_of c)"

definition gpt2_direct :: "nat \<Rightarrow> bool" where
  \<comment> \<open>the bytes that stand for themselves\<close>
  "gpt2_direct x \<longleftrightarrow> (33 \<le> x \<and> x \<le> 126) \<or> (161 \<le> x \<and> x \<le> 172) \<or> 174 \<le> x"

fun gpt2_code_loop :: "nat \<Rightarrow> nat list \<Rightarrow> nat \<Rightarrow> nat option" where
  "gpt2_code_loop b [] n = None"
| "gpt2_code_loop b (x # xs) n =
     (if gpt2_direct x then gpt2_code_loop b xs n
      else if x = b then Some (256 + n) else gpt2_code_loop b xs (n + 1))"

definition gpt2_byte_to_codepoint :: "char \<Rightarrow> u32" where
  "gpt2_byte_to_codepoint c =
     (if gpt2_direct (byte_of c) then word_of_nat (byte_of c)
      else case gpt2_code_loop (byte_of c) [0..<256] 0 of
             Some cp \<Rightarrow> word_of_nat cp | None \<Rightarrow> word_of_nat (byte_of c))"

fun gpt2_byte_loop :: "u32 \<Rightarrow> nat list \<Rightarrow> nat \<Rightarrow> nat option" where
  "gpt2_byte_loop cp [] n = None"
| "gpt2_byte_loop cp (b # bs) n =
     (if gpt2_direct b then gpt2_byte_loop cp bs n
      else if cp = word_of_nat (256 + n) then Some b else gpt2_byte_loop cp bs (n + 1))"

definition gpt2_codepoint_to_byte :: "u32 \<Rightarrow> char option" where
  \<comment> \<open>None: the result -1\<close>
  "gpt2_codepoint_to_byte cp =
     (if gpt2_direct (unat cp) \<and> unat cp \<le> 255 then Some (char_of (unat cp))
      else map_option char_of (gpt2_byte_loop cp [0..<256] 0))"

definition byte_encode :: "string \<Rightarrow> string" where
  "byte_encode s = foldl (\<lambda>b c. utf8_put b (gpt2_byte_to_codepoint c)) [] s"

definition utf8_len_from_first_byte :: "char \<Rightarrow> nat" where
  "utf8_len_from_first_byte c =
     (if as_byte c < 0x80 then 1
      else if as_byte c AND 0xe0 = 0xc0 then 2
      else if as_byte c AND 0xf0 = 0xe0 then 3
      else if as_byte c AND 0xf8 = 0xf0 then 4
      else 1)"

definition next_utf8_len :: "string \<Rightarrow> nat" where
  "next_utf8_len s = (let n = utf8_len_from_first_byte (hd s) in if n > length s then 1 else n)"

lemma next_utf8_len_pos: "0 < next_utf8_len s"
  by (simp add: next_utf8_len_def utf8_len_from_first_byte_def Let_def)

section \<open>The vocabulary\<close>

record ds4_vocab =
  vb_token :: "string list"
  vb_bos_id :: int
  vb_eos_id :: int
  vb_user_id :: int
  vb_assistant_id :: int
  vb_think_start_id :: int
  vb_think_end_id :: int
  vb_dsml_id :: int
  vb_token_to_id :: str_i32_table
  vb_merge_rank :: str_i32_table

definition token_vec_push :: "int list \<Rightarrow> int \<Rightarrow> int list" where
  "token_vec_push tv token = tv @ [token]"

definition ds4_tokens_push :: "int list \<Rightarrow> int \<Rightarrow> int list" where
  "ds4_tokens_push tv token = token_vec_push tv token"

definition ds4_tokens_copy :: "int list \<Rightarrow> int list" where
  \<comment> \<open>what becomes of the destination: emptied, then filled one by one\<close>
  "ds4_tokens_copy src = foldl token_vec_push [] src"

definition ds4_tokens_starts_with :: "int list \<Rightarrow> int list \<Rightarrow> bool" where
  "ds4_tokens_starts_with tokens pre \<longleftrightarrow>
     length pre \<le> length tokens \<and> (\<forall>i < length pre. tokens ! i = pre ! i)"

section \<open>Byte pair encoding\<close>

definition bpe_rank :: "ds4_vocab \<Rightarrow> string \<Rightarrow> string \<Rightarrow> int option" where
  "bpe_rank vocab a b =
     map_option (\<lambda>r. case r of None \<Rightarrow> - 1 | Some rank \<Rightarrow> rank)
       (table_get (vb_merge_rank vocab) (a @ '' '' @ b))"

function split_symbols :: "string \<Rightarrow> string list" where
  "split_symbols s =
     (if s = [] then [] else take (next_utf8_len s) s # split_symbols (drop (next_utf8_len s) s))"
  by pat_completeness auto
termination
  by (relation "measure length") (auto simp: next_utf8_len_pos)

declare split_symbols.simps [simp del]

text \<open>The inner loop: the leftmost pair of least rank, with \<open>best_i\<close> (None for -1) and \<open>best_rank\<close>.\<close>

fun bpe_best_loop :: "ds4_vocab \<Rightarrow> nat \<Rightarrow> string list \<Rightarrow> nat option \<Rightarrow> int \<Rightarrow> nat option option" where
  "bpe_best_loop vocab i (a # b # syms) best_i best_rank =
     (case bpe_rank vocab a b of
        None \<Rightarrow> None
      | Some rank \<Rightarrow>
          if 0 \<le> rank \<and> rank < best_rank then bpe_best_loop vocab (i + 1) (b # syms) (Some i) rank
          else bpe_best_loop vocab (i + 1) (b # syms) best_i best_rank)"
| "bpe_best_loop vocab i _ best_i best_rank = Some best_i"

definition bpe_merge_at :: "string list \<Rightarrow> nat \<Rightarrow> string list" where
  "bpe_merge_at syms i = take i syms @ (syms ! i @ syms ! (i + 1)) # drop (i + 2) syms"

partial_function (option) bpe_merge_loop :: "ds4_vocab \<Rightarrow> string list \<Rightarrow> string list option" where
  "bpe_merge_loop vocab syms =
     (case bpe_best_loop vocab 0 syms None 2147483647 of
        None \<Rightarrow> None
      | Some None \<Rightarrow> Some syms
      | Some (Some i) \<Rightarrow> bpe_merge_loop vocab (bpe_merge_at syms i))"

fun emit_bytes :: "ds4_vocab \<Rightarrow> string \<Rightarrow> int list \<Rightarrow> int list option" where
  "emit_bytes vocab [] toks = Some toks"
| "emit_bytes vocab (c # s) toks =
     (case table_get (vb_token_to_id vocab) [c] of
        None \<Rightarrow> None
      | Some None \<Rightarrow> emit_bytes vocab s toks
      | Some (Some token) \<Rightarrow> emit_bytes vocab s (token_vec_push toks token))"

fun emit_symbols :: "ds4_vocab \<Rightarrow> string list \<Rightarrow> int list \<Rightarrow> int list option" where
  "emit_symbols vocab [] toks = Some toks"
| "emit_symbols vocab (s # syms) toks =
     (case table_get (vb_token_to_id vocab) s of
        None \<Rightarrow> None
      | Some (Some token) \<Rightarrow> emit_symbols vocab syms (token_vec_push toks token)
      | Some None \<Rightarrow> (case emit_bytes vocab s toks of None \<Rightarrow> None | Some toks1 \<Rightarrow> emit_symbols vocab syms toks1))"

definition bpe_emit_piece :: "ds4_vocab \<Rightarrow> string \<Rightarrow> int list \<Rightarrow> int list option" where
  "bpe_emit_piece vocab raw_piece toks =
     Option.bind (bpe_merge_loop vocab (split_symbols (byte_encode raw_piece))) (\<lambda>syms. emit_symbols vocab syms toks)"

section \<open>The pre-tokenizer\<close>

definition ascii_alpha :: "char \<Rightarrow> bool" where
  "ascii_alpha c \<longleftrightarrow> (65 \<le> byte_of c \<and> byte_of c \<le> 90) \<or> (97 \<le> byte_of c \<and> byte_of c \<le> 122)"

definition ascii_digit :: "char \<Rightarrow> bool" where
  "ascii_digit c \<longleftrightarrow> 48 \<le> byte_of c \<and> byte_of c \<le> 57"

definition ascii_space :: "char \<Rightarrow> bool" where
  "ascii_space c \<longleftrightarrow> byte_of c \<in> {32, 9, 10, 13, 11, 12}"

definition ascii_newline :: "char \<Rightarrow> bool" where
  "ascii_newline c \<longleftrightarrow> byte_of c = 10 \<or> byte_of c = 13"

definition joyai_ascii_punct_symbol :: "char \<Rightarrow> bool" where
  "joyai_ascii_punct_symbol c \<longleftrightarrow>
     (33 \<le> byte_of c \<and> byte_of c \<le> 47) \<or> (58 \<le> byte_of c \<and> byte_of c \<le> 64) \<or>
     (91 \<le> byte_of c \<and> byte_of c \<le> 96) \<or> (123 \<le> byte_of c \<and> byte_of c \<le> 126)"

definition utf8_is_cjk_hira_kata :: "u32 \<Rightarrow> bool" where
  "utf8_is_cjk_hira_kata cp \<longleftrightarrow>
     (0x4e00 \<le> cp \<and> cp \<le> 0x9fa5) \<or> (0x3040 \<le> cp \<and> cp \<le> 0x309f) \<or> (0x30a0 \<le> cp \<and> cp \<le> 0x30ff)"

definition low_bits :: "char \<Rightarrow> u8 \<Rightarrow> u32" where
  "low_bits c m = ucast (as_byte c AND m)"

definition utf8_peek_one :: "string \<Rightarrow> u32" where
  \<comment> \<open>the second result, the next position, is \<open>next_utf8_len\<close>\<close>
  "utf8_peek_one s =
     (let n = next_utf8_len s in
      if n = 1 then ucast (as_byte (hd s))
      else if n = 2 then push_bit 6 (low_bits (s ! 0) 0x1f) OR low_bits (s ! 1) 0x3f
      else if n = 3 then push_bit 12 (low_bits (s ! 0) 0x0f) OR push_bit 6 (low_bits (s ! 1) 0x3f) OR low_bits (s ! 2) 0x3f
      else push_bit 18 (low_bits (s ! 0) 0x07) OR push_bit 12 (low_bits (s ! 1) 0x3f) OR
           push_bit 6 (low_bits (s ! 2) 0x3f) OR low_bits (s ! 3) 0x3f)"

definition joyai_letter_like :: "char \<Rightarrow> bool" where
  "joyai_letter_like c \<longleftrightarrow> (if byte_of c < 128 then ascii_alpha c else True)"

function joyai_consume_letters :: "string \<Rightarrow> nat" where
  "joyai_consume_letters s =
     (if s \<noteq> [] \<and> joyai_letter_like (hd s)
      then next_utf8_len s + joyai_consume_letters (drop (next_utf8_len s) s) else 0)"
  by pat_completeness auto
termination
  by (relation "measure length") (auto simp: next_utf8_len_pos)

declare joyai_consume_letters.simps [simp del]

definition joyai_cjk_at :: "string \<Rightarrow> bool" where
  "joyai_cjk_at s \<longleftrightarrow> (if byte_of (hd s) < 128 then False else utf8_is_cjk_hira_kata (utf8_peek_one s))"

function joyai_consume_cjk :: "string \<Rightarrow> nat" where
  \<comment> \<open>the \<open>do\<close> loop, entered at a character it takes\<close>
  "joyai_consume_cjk s =
     (if s \<noteq> [] \<and> joyai_cjk_at s
      then next_utf8_len s + joyai_consume_cjk (drop (next_utf8_len s) s) else 0)"
  by pat_completeness auto
termination
  by (relation "measure length") (auto simp: next_utf8_len_pos)

declare joyai_consume_cjk.simps [simp del]

abbreviation run_length :: "(char \<Rightarrow> bool) \<Rightarrow> string \<Rightarrow> nat" where
  \<comment> \<open>\<open>while (pos < len && p(text[pos])) pos++\<close>\<close>
  "run_length p s \<equiv> length (takeWhile p s)"

definition punct_run :: "string \<Rightarrow> nat" where
  "punct_run s = (let n = run_length joyai_ascii_punct_symbol s in n + run_length ascii_newline (drop n s))"

fun last_newline_end :: "string \<Rightarrow> nat \<Rightarrow> nat \<Rightarrow> nat" where
  "last_newline_end [] p last_end = last_end"
| "last_newline_end (c # s) p last_end =
     last_newline_end s (p + 1) (if ascii_newline c then p + 1 else last_end)"

definition space_run :: "string \<Rightarrow> nat" where
  "space_run s =
     (let p = run_length ascii_space s; nl = last_newline_end (take p s) 0 0 in
      if nl \<noteq> 0 then nl
      else if p < length s \<and> p > 1 \<and> (joyai_letter_like (s ! p) \<or> joyai_ascii_punct_symbol (s ! p)) then p - 1
      else p)"

text \<open>The length of the piece at the beginning of a non-empty text.\<close>

definition piece_len :: "string \<Rightarrow> nat" where
  "piece_len s =
     (let c = hd s in
      if ascii_digit c then run_length ascii_digit (take 3 s)
      else if joyai_cjk_at s then joyai_consume_cjk s
      else if joyai_ascii_punct_symbol c \<and> 1 < length s \<and> ascii_alpha (s ! 1) then 1 + run_length ascii_alpha (tl s)
      else if joyai_letter_like c then joyai_consume_letters s
      else if \<not> ascii_newline c \<and> \<not> joyai_ascii_punct_symbol c \<and> 1 < length s \<and> joyai_letter_like (s ! 1)
      then 1 + joyai_consume_letters (tl s)
      else if c = CHR '' '' \<and> 1 < length s \<and> joyai_ascii_punct_symbol (s ! 1) then 1 + punct_run (tl s)
      else if joyai_ascii_punct_symbol c then punct_run s
      else if ascii_space c then space_run s
      else next_utf8_len s)"

definition piece_step :: "string \<Rightarrow> nat" where
  \<comment> \<open>with \<open>if (pos == start)\<close>\<close>
  "piece_step s = (if piece_len s = 0 then next_utf8_len s else piece_len s)"

lemma piece_step_pos: "0 < piece_step s"
  by (simp add: piece_step_def next_utf8_len_pos)

function bpe_tokenize_text :: "ds4_vocab \<Rightarrow> string \<Rightarrow> int list \<Rightarrow> int list option" where
  "bpe_tokenize_text vocab s toks =
     (if s = [] then Some toks
      else case bpe_emit_piece vocab (take (piece_step s) s) toks of
             None \<Rightarrow> None
           | Some toks1 \<Rightarrow> bpe_tokenize_text vocab (drop (piece_step s) s) toks1)"
  by pat_completeness auto
termination
  by (relation "measure (\<lambda>(vocab, s, toks). length s)") (auto simp: piece_step_pos)

declare bpe_tokenize_text.simps [simp del]

section \<open>Chats\<close>

definition encode_chat_prompt :: "ds4_vocab \<Rightarrow> cstr option \<Rightarrow> cstr \<Rightarrow> think_mode \<Rightarrow> int list \<Rightarrow> int list option" where
  "encode_chat_prompt vocab system prompt mode toks =
     (let toks0 = token_vec_push toks (vb_bos_id vocab) in
      Option.bind (if mode = THINK_MAX then bpe_tokenize_text vocab ds4_think_max_prefix toks0 else Some toks0) (\<lambda>toks1.
      Option.bind (if or_empty system \<noteq> [] then bpe_tokenize_text vocab (or_empty system) toks1 else Some toks1) (\<lambda>toks2.
      Option.bind (bpe_tokenize_text vocab prompt (token_vec_push toks2 (vb_user_id vocab))) (\<lambda>toks3.
      Some (token_vec_push (token_vec_push toks3 (vb_assistant_id vocab))
        (if ds4_think_mode_enabled mode then vb_think_start_id vocab else vb_think_end_id vocab))))))"

definition ds4_encode_chat_prompt :: "ds4_vocab \<Rightarrow> cstr option \<Rightarrow> cstr option \<Rightarrow> think_mode \<Rightarrow> int list \<Rightarrow> int list option" where
  "ds4_encode_chat_prompt vocab system prompt mode toks = encode_chat_prompt vocab system (or_empty prompt) mode toks"

definition ds4_chat_begin :: "ds4_vocab \<Rightarrow> int list \<Rightarrow> int list" where
  "ds4_chat_begin vocab tokens = token_vec_push tokens (vb_bos_id vocab)"

definition ds4_chat_append_max_effort_prefix :: "ds4_vocab \<Rightarrow> int list \<Rightarrow> int list option" where
  "ds4_chat_append_max_effort_prefix vocab tokens = bpe_tokenize_text vocab ds4_think_max_prefix tokens"

definition ds4_tokenize_text :: "ds4_vocab \<Rightarrow> cstr option \<Rightarrow> int list \<Rightarrow> int list option" where
  "ds4_tokenize_text vocab txt toks = bpe_tokenize_text vocab (or_empty txt) toks"

definition specials :: "ds4_vocab \<Rightarrow> (string \<times> int) list" where
  "specials vocab =
     [(BOS, vb_bos_id vocab), (EOS, vb_eos_id vocab), (USER_TAG, vb_user_id vocab),
      (ASSISTANT_TAG, vb_assistant_id vocab), (''<think>'', vb_think_start_id vocab),
      (''</think>'', vb_think_end_id vocab), (DS4_DSML, vb_dsml_id vocab)]"

definition special_token_at :: "ds4_vocab \<Rightarrow> string \<Rightarrow> (int \<times> nat) option" where
  "special_token_at vocab p =
     map_option (\<lambda>(txt, token). (token, length txt)) (find (\<lambda>(txt, token). prefix txt p) (specials vocab))"

definition tokenize_span :: "ds4_vocab \<Rightarrow> string \<Rightarrow> int list \<Rightarrow> int list option" where
  "tokenize_span vocab s toks = (if s = [] then Some toks else bpe_tokenize_text vocab s toks)"

text \<open>The loop over the text: \<open>spn\<close> is the text since the last special token.\<close>

lemma special_token_pos: "special_token_at vocab p = Some (token, n) \<Longrightarrow> 0 < n"
  by (auto simp: special_token_at_def specials_def find_Some_iff BOS_def EOS_def USER_TAG_def ASSISTANT_TAG_def
      DS4_DSML_def BAR_def nth_Cons' split: if_splits)

function tokenize_chat_loop :: "ds4_vocab \<Rightarrow> string \<Rightarrow> string \<Rightarrow> int list \<Rightarrow> int list option" where
  "tokenize_chat_loop vocab spn p toks =
     (case p of
        [] \<Rightarrow> tokenize_span vocab spn toks
      | c # p1 \<Rightarrow>
          (case special_token_at vocab p of
             Some (token, n) \<Rightarrow>
               (case tokenize_span vocab spn toks of
                  None \<Rightarrow> None
                | Some toks1 \<Rightarrow> tokenize_chat_loop vocab [] (drop n p) (token_vec_push toks1 token))
           | None \<Rightarrow> tokenize_chat_loop vocab (spn @ [c]) p1 toks))"
  by pat_completeness auto
termination
  by (relation "measure (\<lambda>(vocab, spn, p, toks). length p)") (auto dest: special_token_pos)

declare tokenize_chat_loop.simps [simp del]

definition tokenize_rendered_chat_vocab :: "ds4_vocab \<Rightarrow> cstr option \<Rightarrow> int list \<Rightarrow> int list option" where
  "tokenize_rendered_chat_vocab vocab txt toks = tokenize_chat_loop vocab [] (or_empty txt) toks"

definition ds4_tokenize_rendered_chat :: "ds4_vocab \<Rightarrow> cstr option \<Rightarrow> int list \<Rightarrow> int list option" where
  "ds4_tokenize_rendered_chat vocab txt toks = tokenize_rendered_chat_vocab vocab txt toks"

definition ds4_chat_append_message :: "ds4_vocab \<Rightarrow> int list \<Rightarrow> cstr option \<Rightarrow> cstr option \<Rightarrow> int list option" where
  "ds4_chat_append_message vocab tokens role0 content0 =
     (let rl = (case role0 of None \<Rightarrow> ''user'' | Some r \<Rightarrow> r); txt = or_empty content0 in
      if rl = ''system'' \<or> rl = ''developer'' then bpe_tokenize_text vocab txt tokens
      else if rl = ''assistant'' then
        (let t1 = token_vec_push tokens (vb_assistant_id vocab);
             t2 = (if \<not> prefix ''<think>'' txt \<and> \<not> prefix ''</think>'' txt
                   then token_vec_push t1 (vb_think_end_id vocab) else t1)
         in bpe_tokenize_text vocab txt t2)
      else
        (let t1 = token_vec_push tokens (vb_user_id vocab) in
         Option.bind (if rl = ''tool'' \<or> rl = ''function'' then bpe_tokenize_text vocab ''Tool: '' t1 else Some t1)
           (bpe_tokenize_text vocab txt)))"

definition ds4_chat_append_assistant_prefix :: "ds4_vocab \<Rightarrow> int list \<Rightarrow> think_mode \<Rightarrow> int list" where
  "ds4_chat_append_assistant_prefix vocab tokens mode =
     token_vec_push (token_vec_push tokens (vb_assistant_id vocab))
       (if ds4_think_mode_enabled mode then vb_think_start_id vocab else vb_think_end_id vocab)"

section \<open>The text of a token\<close>

definition ds4_token_eos :: "ds4_vocab \<Rightarrow> int" where
  "ds4_token_eos vocab = vb_eos_id vocab"

definition utf8_decode_one :: "string \<Rightarrow> u32 \<times> nat" where
  \<comment> \<open>the code point and by how much the position advances\<close>
  "utf8_decode_one s =
     (let c = as_byte (hd s) in
      if c < 0x80 \<or> length s \<le> 1 then (ucast c, 1)
      else if c AND 0xe0 = 0xc0 then (push_bit 6 (low_bits (s ! 0) 0x1f) OR low_bits (s ! 1) 0x3f, 2)
      else if c AND 0xf0 = 0xe0 \<and> 2 < length s then
        (push_bit 12 (low_bits (s ! 0) 0x0f) OR push_bit 6 (low_bits (s ! 1) 0x3f) OR low_bits (s ! 2) 0x3f, 3)
      else if c AND 0xf8 = 0xf0 \<and> 3 < length s then
        (push_bit 18 (low_bits (s ! 0) 0x07) OR push_bit 12 (low_bits (s ! 1) 0x3f) OR
         push_bit 6 (low_bits (s ! 2) 0x3f) OR low_bits (s ! 3) 0x3f, 4)
      else (ucast c, 1))"

definition vocab_token_is_literal_special :: "string \<Rightarrow> bool" where
  "vocab_token_is_literal_special s \<longleftrightarrow> (\<exists>i \<in> set [0..<length s + 1 - 3]. take 3 (drop i s) = BAR)"

function token_text_loop :: "string \<Rightarrow> string" where
  "token_text_loop s =
     (if s = [] then []
      else (case gpt2_codepoint_to_byte (fst (utf8_decode_one s)) of None \<Rightarrow> [] | Some b \<Rightarrow> [b]) @
           token_text_loop (drop (snd (utf8_decode_one s)) s))"
  by pat_completeness auto
termination
  by (relation "measure length") (auto simp: utf8_decode_one_def Let_def)

declare token_text_loop.simps [simp del]

definition ds4_token_text :: "ds4_vocab \<Rightarrow> int \<Rightarrow> string" where
  "ds4_token_text vocab token =
     (if token < 0 \<or> int (length (vb_token vocab)) \<le> token then []
      else let s = vb_token vocab ! nat token in
           if vocab_token_is_literal_special s then s else token_text_loop s)"

end
