(* ===== verification/ByteCodec.thy ===== *)
theory ByteCodec
  imports Tokenizer
begin

text \<open>
  The byte encoding of the tokenizer is invertible: the symbols of an encoded text are the encodings
  of its bytes, and the text of a token undoes them.
\<close>

section \<open>The byte encoding\<close>

definition enc :: "char \<Rightarrow> string" where
  "enc c = utf8_put [] (gpt2_byte_to_codepoint c)"

lemma code_loop_direct: "\<forall>x \<in> set xs. gpt2_direct x \<Longrightarrow> gpt2_code_loop b (xs @ ys) n = gpt2_code_loop b ys n"
  by (induction xs) auto

lemma code_loop_miss:
  "\<forall>x \<in> set xs. \<not> gpt2_direct x \<and> x \<noteq> b \<Longrightarrow> gpt2_code_loop b (xs @ ys) n = gpt2_code_loop b ys (n + length xs)"
  by (induction xs arbitrary: n) auto

lemma upt_split: "a \<le> b \<Longrightarrow> b \<le> c \<Longrightarrow> [a..<c] = [a..<b] @ [b..<c]" for a b c :: nat
  using upt_add_eq_append [of a b "c - b"] by simp

lemma bytes_split:
  "[0..<256] = [0..<33] @ [33..<127] @ [127..<161] @ [161..<173] @ [173..<174] @ [174..<256::nat]"
  using upt_split [of 0 33 256] upt_split [of 33 127 256] upt_split [of 127 161 256] upt_split [of 161 173 256]
    upt_split [of 173 174 256] by simp

lemma code_loop_hit:
  assumes "a \<le> b" "b < m" "\<forall>x \<in> {a..<m}. \<not> gpt2_direct x"
  shows "gpt2_code_loop b ([a..<m] @ ys) n = Some (256 + n + (b - a))"
proof -
  have "[a..<m] = [a..<b] @ b # [Suc b..<m]" using assms(1,2) upt_split [of a b m] upt_conv_Cons [of b m] by simp
  then have "gpt2_code_loop b ([a..<m] @ ys) n = gpt2_code_loop b ([a..<b] @ b # [Suc b..<m] @ ys) n" by simp
  also have "\<dots> = gpt2_code_loop b (b # [Suc b..<m] @ ys) (n + (b - a))"
    using code_loop_miss [of "[a..<b]" b "b # [Suc b..<m] @ ys" n] assms by auto
  finally show ?thesis using assms by simp
qed

definition gpt2_cp :: "nat \<Rightarrow> nat" where
  "gpt2_cp b = (if gpt2_direct b then b else if b \<le> 32 then 256 + b else if b \<le> 160 then b + 162 else 323)"

lemma code_loop_cp:
  assumes "\<not> gpt2_direct b" "b < 256"
  shows "gpt2_code_loop b [0..<256] 0 = Some (gpt2_cp b)"
proof -
  have "b \<le> 32 \<or> 127 \<le> b \<and> b \<le> 160 \<or> b = 173" using assms by (auto simp: gpt2_direct_def)
  then show ?thesis
  proof (elim disjE)
    assume "b \<le> 32"
    then show ?thesis unfolding bytes_split
      by (subst code_loop_hit) (auto simp: gpt2_cp_def gpt2_direct_def)
  next
    assume b: "127 \<le> b \<and> b \<le> 160"
    then show ?thesis unfolding bytes_split
      by (subst code_loop_miss, force simp: gpt2_direct_def, subst code_loop_direct, force simp: gpt2_direct_def,
          subst code_loop_hit) (auto simp: gpt2_cp_def gpt2_direct_def)
  next
    assume b: "b = 173"
    then show ?thesis unfolding bytes_split
      by (subst code_loop_miss, force simp: gpt2_direct_def, subst code_loop_direct, force simp: gpt2_direct_def,
          subst code_loop_miss, force simp: gpt2_direct_def, subst code_loop_direct, force simp: gpt2_direct_def,
          subst code_loop_hit) (auto simp: gpt2_cp_def gpt2_direct_def)
  qed
qed

lemma byte_to_codepoint: "gpt2_byte_to_codepoint c = word_of_nat (gpt2_cp (byte_of c))"
proof (cases "gpt2_direct (byte_of c)")
  case True
  then show ?thesis by (simp add: gpt2_byte_to_codepoint_def gpt2_cp_def)
next
  case False
  with code_loop_cp [OF False byte_of_less] show ?thesis by (simp add: gpt2_byte_to_codepoint_def)
qed

lemma unat_small: "n < 2 ^ 32 \<Longrightarrow> unat (word_of_nat n :: u32) = n"
  by (rule of_nat_inverse [OF refl]) simp

lemma or_tag2: "k < 32 \<Longrightarrow> 192 OR k = 192 + (k :: nat)"
proof -
  have "list_all (\<lambda>k. 192 OR k = 192 + (k :: nat)) [0..<32]" by code_simp
  then show "k < 32 \<Longrightarrow> ?thesis" by (simp add: list_all_iff)
qed

lemma or_tag: "k < 64 \<Longrightarrow> 128 OR k = 128 + (k :: nat)"
proof -
  have "list_all (\<lambda>k. 128 OR k = 128 + (k :: nat)) [0..<64]" by code_simp
  then show "k < 64 \<Longrightarrow> ?thesis" by (simp add: list_all_iff)
qed

lemma and_63: "n AND 63 = n mod (64 :: nat)"
  using take_bit_eq_mask [of 6 n] by (simp add: mask_eq_exp_minus_1 take_bit_eq_mod)

lemma utf8_put_nat:
  assumes "n < 2048"
  shows "utf8_put [] (word_of_nat n) =
    (if n < 128 then [char_of n] else [char_of (192 + n div 64), char_of (128 + n mod 64)])"
proof -
  have u: "unat (word_of_nat n :: u32) = n" using assms by (intro unat_small) simp
  have "unat (0xc0 OR drop_bit 6 (word_of_nat n :: u32)) = 192 + n div 64"
    using assms by (simp add: unsigned_or_eq unsigned_drop_bit_eq u drop_bit_eq_div unat_div or_tag2)
  moreover have "unat (0x80 OR (word_of_nat n AND 0x3f :: u32)) = 128 + n mod 64"
    by (simp add: unsigned_or_eq unsigned_and_eq u and_63 or_tag)
  ultimately show ?thesis
    using assms by (simp add: utf8_put_def word_le_nat_alt u cast_char_def)
qed

lemma lead_byte:
  assumes "2 \<le> k" "k < 6"
  shows "\<not> as_byte (char_of (192 + k)) < 0x80 \<and> as_byte (char_of (192 + k)) AND 0xe0 = 0xc0 \<and>
    low_bits (char_of (192 + k)) 0x1f = word_of_nat k"
proof -
  have "list_all (\<lambda>k. \<not> as_byte (char_of (192 + k)) < 0x80 \<and> as_byte (char_of (192 + k)) AND 0xe0 = 0xc0 \<and>
    low_bits (char_of (192 + k)) 0x1f = word_of_nat k) [2, 3, 4, 5]" by code_simp
  moreover have "k \<in> set [2, 3, 4, 5]" using assms by auto
  ultimately show ?thesis unfolding list_all_iff by blast
qed

lemma unat_as_byte [simp]: "unat (as_byte c) = byte_of c"
  unfolding as_byte_def by (rule of_nat_inverse [OF refl]) simp

lemma low_6_bits: "low_bits c 0x3f = word_of_nat (byte_of c mod 64)"
proof -
  have "unat (as_byte c AND 0x3f) = byte_of c AND 63" by (simp only: unsigned_and_eq unat_as_byte unat_numeral) simp
  then have "unat (as_byte c AND 0x3f) = byte_of c mod 64" by (simp only: and_63)
  then have "word_of_nat (byte_of c mod 64) = (word_of_nat (unat (as_byte c AND 0x3f)) :: u32)" by (simp only:)
  then show ?thesis unfolding low_bits_def by simp
qed

lemma cont_byte: "k < 64 \<Longrightarrow> low_bits (char_of (128 + k)) 0x3f = word_of_nat k"
proof -
  assume k: "k < 64"
  have "128 + k = k + 2 * 64" by simp
  then have "(128 + k) mod 64 = k" using k by (simp only: mod_mult_self1) simp
  moreover have "(128 + k) mod 256 = 128 + k" using k by simp
  ultimately have "(128 + k) mod 256 mod 64 = k" by (simp only:)
  then show ?thesis by (simp only: low_6_bits byte_of_char_of)
qed

lemma join_bits:
  assumes "b < 64"
  shows "push_bit 6 (word_of_nat a) OR word_of_nat b = (word_of_nat (a * 64 + b) :: u32)"
proof -
  have t: "take_bit 6 (word_of_nat b :: u32) = word_of_nat b"
    using assms by (simp add: take_bit_of_nat take_bit_nat_eq_self)
  have "push_bit 6 (word_of_nat a :: u32) + take_bit 6 (word_of_nat b) = push_bit 6 (word_of_nat a) OR take_bit 6 (word_of_nat b)"
    by (rule disjunctive_add) (auto simp: bit_simps)
  then show ?thesis by (simp add: t push_bit_eq_mult)
qed

lemma code_loop_range: "gpt2_code_loop b xs n = Some cp \<Longrightarrow> 256 + n \<le> cp \<and> cp < 256 + n + length xs"
  by (induction xs arbitrary: n) (fastforce split: if_splits)+

lemma word_nat_eq: "m < 2 ^ 32 \<Longrightarrow> n < 2 ^ 32 \<Longrightarrow> (word_of_nat m :: u32) = word_of_nat n \<longleftrightarrow> m = n"
  using unat_small by metis

lemma byte_loop_inverse:
  "gpt2_code_loop b xs n = Some cp \<Longrightarrow> 256 + n + length xs < 2 ^ 32 \<Longrightarrow> gpt2_byte_loop (word_of_nat cp) xs n = Some b"
proof (induction xs arbitrary: n)
  case (Cons x xs)
  show ?case
  proof (cases "gpt2_direct x \<or> x = b")
    case True
    with Cons show ?thesis by auto
  next
    case False
    with Cons.prems have l: "gpt2_code_loop b xs (n + 1) = Some cp" by simp
    from code_loop_range [OF this] Cons.prems(2) have "(word_of_nat cp :: u32) \<noteq> word_of_nat (256 + n)"
      by (subst word_nat_eq) auto
    with Cons.IH [OF l] Cons.prems(2) False show ?thesis by simp
  qed
qed simp

lemma gpt2_cp_bounds: "b < 256 \<Longrightarrow> gpt2_cp b < 324"
  by (auto simp: gpt2_cp_def)

lemma byte_inverse: "gpt2_codepoint_to_byte (gpt2_byte_to_codepoint c) = Some c"
proof (cases "gpt2_direct (byte_of c)")
  case True
  have "byte_of c < 2 ^ 32" by (rule less_trans [OF byte_of_less]) simp
  then have "unat (gpt2_byte_to_codepoint c) = byte_of c" using True by (simp only: gpt2_byte_to_codepoint_def if_True unat_small)
  moreover have "byte_of c \<le> 255" using byte_of_less [of c] by linarith
  ultimately show ?thesis using True by (simp add: gpt2_codepoint_to_byte_def)
next
  case False
  have cp: "gpt2_byte_to_codepoint c = word_of_nat (gpt2_cp (byte_of c))" by (rule byte_to_codepoint)
  have gt: "255 < gpt2_cp (byte_of c)" "gpt2_cp (byte_of c) < 2 ^ 32"
    using False gpt2_cp_bounds [of "byte_of c"] by (auto simp: gpt2_cp_def gpt2_direct_def)
  then have u: "unat (gpt2_byte_to_codepoint c) = gpt2_cp (byte_of c)" unfolding cp by (intro unat_small)
  have "gpt2_code_loop (byte_of c) [0..<256] 0 = Some (gpt2_cp (byte_of c))"
    by (rule code_loop_cp [OF False byte_of_less])
  from byte_loop_inverse [OF this] have "gpt2_byte_loop (gpt2_byte_to_codepoint c) [0..<256] 0 = Some (byte_of c)"
    by (simp add: cp)
  with gt u show ?thesis by (simp add: gpt2_codepoint_to_byte_def)
qed

text \<open>The encoding of a byte is one or two bytes, which decode to its code point.\<close>

lemma enc_cases:
  obtains (one) n where "n < 128" "enc c = [char_of n]" "gpt2_byte_to_codepoint c = word_of_nat n"
    | (two) a b where "2 \<le> a" "a < 6" "b < 64" "enc c = [char_of (192 + a), char_of (128 + b)]"
        "gpt2_byte_to_codepoint c = word_of_nat (a * 64 + b)"
proof -
  define n where "n = gpt2_cp (byte_of c)"
  have n: "n < 324" using gpt2_cp_bounds by (simp add: n_def)
  have cp: "gpt2_byte_to_codepoint c = word_of_nat n" by (simp add: n_def byte_to_codepoint)
  show thesis
  proof (cases "n < 128")
    case True
    then show thesis using one [of n] cp utf8_put_nat [of n] by (simp add: enc_def)
  next
    case False
    have "2 \<le> n div 64" "n div 64 < 6" "n mod 64 < 64" "n div 64 * 64 + n mod 64 = n" using n False by auto
    then show thesis using two [of "n div 64" "n mod 64"] cp utf8_put_nat [of n] n False by (simp add: enc_def)
  qed
qed

lemma ascii_byte:
  assumes "n < 128"
  shows "as_byte (char_of n) < 0x80" "ucast (as_byte (char_of n)) = (word_of_nat n :: u32)"
proof -
  have b: "byte_of (char_of n) = n" using assms by (simp only: byte_of_char_of) simp
  then have "unat (as_byte (char_of n)) < unat (0x80 :: u8)" using assms by (simp only: unat_as_byte) simp
  then show "as_byte (char_of n) < 0x80" by (simp only: word_less_nat_alt)
  have "word_of_nat (unat (as_byte (char_of n))) = (ucast (as_byte (char_of n)) :: u32)" by (rule of_nat_unat)
  then show "ucast (as_byte (char_of n)) = (word_of_nat n :: u32)" by (simp only: unat_as_byte b)
qed

lemma enc_first: "enc c \<noteq> []" "utf8_len_from_first_byte (hd (enc c)) = length (enc c)"
proof -
  show "enc c \<noteq> []" by (cases c rule: enc_cases) auto
  show "utf8_len_from_first_byte (hd (enc c)) = length (enc c)"
  proof (cases c rule: enc_cases)
    case (one n)
    with ascii_byte [of n] show ?thesis by (simp add: utf8_len_from_first_byte_def)
  next
    case (two a b)
    with lead_byte [of a] show ?thesis by (simp add: utf8_len_from_first_byte_def)
  qed
qed

lemma enc_decode: "utf8_decode_one (enc c @ s) = (gpt2_byte_to_codepoint c, length (enc c))"
proof (cases c rule: enc_cases)
  case (one n)
  then show ?thesis using ascii_byte [of n] by (simp add: utf8_decode_one_def)
next
  case (two a b)
  then show ?thesis using lead_byte [of a] cont_byte [of b] join_bits [of b a] by (simp add: utf8_decode_one_def Let_def)
qed

lemma enc_no_bar: "CHR 0xEF \<notin> set (enc c)"
proof -
  have EF: "byte_of (CHR 0xEF) = 239" by (simp add: byte_of_def)
  have other: "CHR 0xEF \<noteq> char_of n" if "n < 239" for n :: nat
  proof
    assume "CHR 0xEF = (char_of n :: char)"
    then have "239 = n mod 256" using EF byte_of_char_of [of n] by (simp only:)
    moreover have "n mod 256 = n" using that by simp
    ultimately show False using that by simp
  qed
  show ?thesis
  proof (cases c rule: enc_cases)
    case (one n)
    then show ?thesis using other [of n] by (simp del: char_of_mod_256)
  next
    case (two a b)
    then show ?thesis using other [of "192 + a"] other [of "128 + b"] by simp
  qed
qed

section \<open>Encoded texts\<close>

lemma utf8_put_append: "utf8_put b cp = b @ utf8_put [] cp"
  by (simp add: utf8_put_def)

lemma byte_encode_simps [simp]: "byte_encode [] = []" "byte_encode (c # s) = enc c @ byte_encode s"
proof -
  have put: "utf8_put b (gpt2_byte_to_codepoint c) = b @ enc c" for b c
    unfolding enc_def by (rule utf8_put_append)
  have "foldl (\<lambda>b c. utf8_put b (gpt2_byte_to_codepoint c)) b s = b @ concat (map enc s)" for b s
    by (induction s arbitrary: b) (simp_all add: put)
  then have "byte_encode s = concat (map enc s)" for s by (simp add: byte_encode_def)
  then show "byte_encode [] = []" "byte_encode (c # s) = enc c @ byte_encode s" by simp_all
qed

lemma byte_encode_append [simp]: "byte_encode (s @ t) = byte_encode s @ byte_encode t"
  by (induction s) simp_all

lemma next_utf8_enc: "next_utf8_len (enc c @ s) = length (enc c)"
  using enc_first [of c] by (simp add: next_utf8_len_def Let_def)

lemma split_encoded: "split_symbols (byte_encode s) = map (\<lambda>c. byte_encode [c]) s"
proof (induction s)
  case (Cons c s)
  have "split_symbols (enc c @ byte_encode s) = enc c # split_symbols (byte_encode s)"
    using enc_first(1) [of c] by (subst split_symbols.simps) (simp add: next_utf8_enc)
  with Cons show ?case by simp
qed (simp add: split_symbols.simps)

lemma text_loop_encoded: "token_text_loop (byte_encode s) = s"
proof (induction s)
  case (Cons c s)
  have "token_text_loop (enc c @ byte_encode s) = [c] @ token_text_loop (byte_encode s)"
    using enc_first(1) [of c] by (subst token_text_loop.simps) (simp add: enc_decode byte_inverse)
  with Cons show ?case by simp
qed (simp add: token_text_loop.simps)

lemma encoded_not_special: "\<not> vocab_token_is_literal_special (byte_encode s)"
proof
  assume "vocab_token_is_literal_special (byte_encode s)"
  then obtain i where "take 3 (drop i (byte_encode s)) = BAR" by (auto simp: vocab_token_is_literal_special_def)
  then have "CHR 0xEF \<in> set (byte_encode s)" unfolding BAR_def by (metis in_set_dropD in_set_takeD list.set_intros(1))
  moreover have "CHR 0xEF \<notin> set (byte_encode s)" by (induction s) (auto simp: enc_no_bar)
  ultimately show False by simp
qed

end
