(* ===== verification/TokenizerFacts.thy ===== *)
theory TokenizerFacts
  imports ByteCodec
begin

text \<open>
  Tokenizing loses nothing: with a vocabulary that has every byte and is closed under its merges, the
  texts of the tokens of a chat add up to the chat. Pieces partition the text, merging keeps the
  bytes of a piece, and every symbol that is left is a token.
\<close>

section \<open>The vocabulary\<close>

definition token_id :: "ds4_vocab \<Rightarrow> string \<Rightarrow> int option" where
  "token_id v = table_map (vb_token_to_id v)"

definition merge_rank_of :: "ds4_vocab \<Rightarrow> string \<Rightarrow> string \<Rightarrow> int option" where
  "merge_rank_of v a b = table_map (vb_merge_rank v) (a @ '' '' @ b)"

text \<open>A byte-level BPE vocabulary: the tables are well formed, the ids are indices of the token list, every
  byte is a token, what a merge makes is a token, and the special tokens are there.\<close>

definition vocab_ok :: "ds4_vocab \<Rightarrow> bool" where
  "vocab_ok v \<longleftrightarrow> (\<exists>n. table_ok (vb_token_to_id v) n) \<and> (\<exists>n. table_ok (vb_merge_rank v) n) \<and>
     (\<forall>x i. token_id v x = Some i \<longrightarrow> 0 \<le> i \<and> nat i < length (vb_token v) \<and> vb_token v ! nat i = x) \<and>
     (\<forall>c. token_id v (byte_encode [c]) \<noteq> None) \<and>
     (\<forall>a b. merge_rank_of v (byte_encode a) (byte_encode b) \<noteq> None \<longrightarrow> token_id v (byte_encode (a @ b)) \<noteq> None) \<and>
     (\<forall>(txt, i) \<in> set (specials v). token_id v txt = Some i)"

lemma lookup_token: "vocab_ok v \<Longrightarrow> table_get (vb_token_to_id v) x = Some (token_id v x)"
  unfolding vocab_ok_def token_id_def by (blast intro: str_table.get_entries)

lemma lookup_rank:
  "vocab_ok v \<Longrightarrow> bpe_rank v a b = Some (case merge_rank_of v a b of None \<Rightarrow> - 1 | Some r \<Rightarrow> r)"
  unfolding vocab_ok_def bpe_rank_def merge_rank_of_def by (auto dest: str_table.get_entries)

lemma token_text_encoded:
  assumes ok: "vocab_ok v" and i: "token_id v (byte_encode s) = Some i"
  shows "ds4_token_text v i = s"
proof -
  have "0 \<le> i" "nat i < length (vb_token v)" "vb_token v ! nat i = byte_encode s"
    using ok i unfolding vocab_ok_def by blast+
  then show ?thesis by (auto simp: ds4_token_text_def Let_def encoded_not_special text_loop_encoded)
qed

section \<open>Merging\<close>

text \<open>What the inner loop finds is a pair of adjacent symbols with a rank.\<close>

definition pair_rank :: "ds4_vocab \<Rightarrow> string list \<Rightarrow> nat \<Rightarrow> int option" where
  "pair_rank v syms j =
     (case merge_rank_of v (syms ! j) (syms ! (j + 1)) of
        None \<Rightarrow> None | Some r \<Rightarrow> if 0 \<le> r \<and> r < 2147483647 then Some r else None)"

definition best_so_far :: "ds4_vocab \<Rightarrow> string list \<Rightarrow> nat \<Rightarrow> nat option \<Rightarrow> int \<Rightarrow> bool" where
  \<comment> \<open>among the first \<open>n\<close> pairs\<close>
  "best_so_far v syms n best_i best_rank \<longleftrightarrow>
     (case best_i of
        None \<Rightarrow> best_rank = 2147483647 \<and> (\<forall>j < n. pair_rank v syms j = None)
      | Some i \<Rightarrow> i < n \<and> pair_rank v syms i = Some best_rank \<and>
          (\<forall>j < n. case pair_rank v syms j of None \<Rightarrow> True | Some r \<Rightarrow> best_rank < r \<or> best_rank = r \<and> i \<le> j))"

lemma pair_rank_Some: "pair_rank v syms j = Some r \<Longrightarrow> 0 \<le> r \<and> r < 2147483647"
  by (auto simp: pair_rank_def split: option.splits if_splits)

lemma best_step:
  assumes best: "best_so_far v syms n best_i best_rank"
    and rank: "rank = (case merge_rank_of v (syms ! n) (syms ! (n + 1)) of None \<Rightarrow> - 1 | Some r \<Rightarrow> r)"
  shows "if 0 \<le> rank \<and> rank < best_rank then best_so_far v syms (Suc n) (Some n) rank
    else best_so_far v syms (Suc n) best_i best_rank"
proof (cases best_i)
  case None
  with best rank show ?thesis
    by (auto simp: best_so_far_def pair_rank_def less_Suc_eq split: option.splits)
next
  case (Some i)
  have r: "pair_rank v syms i = Some best_rank" "i < n" using best Some by (auto simp: best_so_far_def)
  show ?thesis
  proof (cases "0 \<le> rank \<and> rank < best_rank")
    case True
    then have n: "pair_rank v syms n = Some rank"
      using pair_rank_Some [OF r(1)] rank by (auto simp: pair_rank_def split: option.splits)
    have "case pair_rank v syms j of None \<Rightarrow> True | Some q \<Rightarrow> rank < q \<or> rank = q \<and> n \<le> j" if "j < Suc n" for j
    proof (cases "j = n")
      case False
      with that best Some have "case pair_rank v syms j of None \<Rightarrow> True | Some q \<Rightarrow> best_rank < q \<or> best_rank = q \<and> i \<le> j"
        by (auto simp: best_so_far_def)
      with True show ?thesis by (auto split: option.splits)
    qed (simp add: n)
    with True n show ?thesis by (simp add: best_so_far_def)
  next
    case False
    then have "case pair_rank v syms n of None \<Rightarrow> True | Some q \<Rightarrow> best_rank < q \<or> best_rank = q \<and> i \<le> n"
      using rank r(2) by (auto simp: pair_rank_def split: option.splits)
    with best Some False show ?thesis by (auto simp: best_so_far_def less_Suc_eq)
  qed
qed

lemma best_loop_short: "length syms < 2 \<Longrightarrow> bpe_best_loop v n syms best_i best_rank = Some best_i"
  by (cases syms rule: remdups_adj.cases) auto

lemma best_loop:
  "vocab_ok v \<Longrightarrow> best_so_far v syms n best_i best_rank \<Longrightarrow>
   \<exists>r. bpe_best_loop v n (drop n syms) best_i best_rank = Some r \<and>
     (\<exists>q. best_so_far v syms (max n (length syms - 1)) r q)"
proof (induction "length syms - n" arbitrary: n best_i best_rank rule: less_induct)
  case less
  show ?case
  proof (cases "n + 1 < length syms")
    case False
    then have "max n (length syms - 1) = n" by simp
    moreover have "bpe_best_loop v n (drop n syms) best_i best_rank = Some best_i"
      using False by (intro best_loop_short) simp
    ultimately show ?thesis using less.prems by auto
  next
    case True
    define rank where "rank = (case merge_rank_of v (syms ! n) (syms ! (n + 1)) of None \<Rightarrow> - 1 | Some r \<Rightarrow> r)"
    have lr: "bpe_rank v (syms ! n) (syms ! (n + 1)) = Some rank" by (simp only: lookup_rank [OF less.prems(1)] rank_def)
    have d: "drop n syms = syms ! n # syms ! (n + 1) # drop (n + 2) syms" "drop (Suc n) syms = syms ! (n + 1) # drop (n + 2) syms"
      using True by (simp_all add: Cons_nth_drop_Suc)
    have m: "max (Suc n) (length syms - 1) = max n (length syms - 1)" using True by simp
    note step = best_step [OF less.prems(2) rank_def]
    show ?thesis
    proof (cases "0 \<le> rank \<and> rank < best_rank")
      case t: True
      with step have "best_so_far v syms (Suc n) (Some n) rank" by simp
      from less.hyps [OF _ less.prems(1) this] True t lr show ?thesis
        unfolding m by (simp add: d)
    next
      case f: False
      with step have "best_so_far v syms (Suc n) best_i best_rank" by simp
      from less.hyps [OF _ less.prems(1) this] True f lr show ?thesis
        unfolding m by (auto simp: d)
    qed
  qed
qed

lemma best_pair:
  assumes "vocab_ok v"
  shows "\<exists>r q. bpe_best_loop v 0 syms None 2147483647 = Some r \<and> best_so_far v syms (length syms - 1) r q"
proof -
  have "best_so_far v syms 0 None 2147483647" by (simp add: best_so_far_def)
  from best_loop [OF assms this] show ?thesis by auto
qed

text \<open>The symbols of a piece are the encodings of consecutive parts of it, and all of them tokens.\<close>

definition symbols_of :: "ds4_vocab \<Rightarrow> string \<Rightarrow> string list \<Rightarrow> bool" where
  "symbols_of v s syms \<longleftrightarrow> (\<exists>ps. concat ps = s \<and> syms = map byte_encode ps) \<and> (\<forall>x \<in> set syms. token_id v x \<noteq> None)"

text \<open>No two adjacent symbols can be merged any more.\<close>

definition fully_merged :: "ds4_vocab \<Rightarrow> string list \<Rightarrow> bool" where
  "fully_merged v syms \<longleftrightarrow> (\<forall>j. j + 1 < length syms \<longrightarrow> pair_rank v syms j = None)"

lemma symbols_start: "vocab_ok v \<Longrightarrow> symbols_of v s (split_symbols (byte_encode s))"
  unfolding symbols_of_def split_encoded
  by (intro conjI exI [of _ "map (\<lambda>c. [c]) s"]) (auto simp: vocab_ok_def comp_def)

lemma symbols_merge:
  assumes ok: "vocab_ok v" and syms: "symbols_of v s syms" and i: "pair_rank v syms i \<noteq> None" "i + 1 < length syms"
  shows "symbols_of v s (bpe_merge_at syms i)"
proof -
  from syms obtain ps where ps: "concat ps = s" "syms = map byte_encode ps" and tok: "\<forall>x \<in> set syms. token_id v x \<noteq> None"
    by (auto simp: symbols_of_def)
  define a b where "a = ps ! i" and "b = ps ! (i + 1)"
  have split: "ps = take i ps @ a # b # drop (i + 2) ps"
    using i(2) ps(2) unfolding a_def b_def by (simp add: Cons_nth_drop_Suc)
  define qs where "qs = take i ps @ (a @ b) # drop (i + 2) ps"
  have "concat qs = concat (take i ps @ a # b # drop (i + 2) ps)" by (simp add: qs_def)
  also have "\<dots> = concat ps" by (rule arg_cong [OF split [symmetric]])
  finally have cq: "concat qs = s" using ps(1) by simp
  have mq: "bpe_merge_at syms i = map byte_encode qs"
    using i(2) ps(2) by (simp add: bpe_merge_at_def qs_def a_def b_def take_map drop_map)
  have "merge_rank_of v (byte_encode a) (byte_encode b) \<noteq> None"
    using i ps(2) by (auto simp: pair_rank_def a_def b_def split: option.splits)
  then have "token_id v (byte_encode (a @ b)) \<noteq> None" using ok unfolding vocab_ok_def by blast
  moreover have "\<forall>x \<in> set (take i syms) \<union> set (drop (i + 2) syms). token_id v x \<noteq> None"
    using tok by (auto dest: in_set_takeD in_set_dropD)
  ultimately have "\<forall>x \<in> set (bpe_merge_at syms i). token_id v x \<noteq> None"
    unfolding mq unfolding qs_def ps(2) by (auto simp: take_map drop_map)
  with cq mq show ?thesis unfolding symbols_of_def by blast
qed

lemma merge_shorter: "i + 1 < length syms \<Longrightarrow> length (bpe_merge_at syms i) < length syms"
  by (simp add: bpe_merge_at_def)

lemma merge_loop:
  assumes ok: "vocab_ok v"
  shows "symbols_of v s syms \<Longrightarrow> \<exists>syms'. bpe_merge_loop v syms = Some syms' \<and> symbols_of v s syms' \<and> fully_merged v syms'"
proof (induction "length syms" arbitrary: syms rule: less_induct)
  case less
  from best_pair [OF ok, of syms] obtain r q where
    r: "bpe_best_loop v 0 syms None 2147483647 = Some r" "best_so_far v syms (length syms - 1) r q" by blast
  show ?case
  proof (cases r)
    case None
    then have "fully_merged v syms" using r(2) by (auto simp: best_so_far_def fully_merged_def)
    with less.prems r(1) None show ?thesis by (subst bpe_merge_loop.simps) simp
  next
    case (Some i)
    then have i: "pair_rank v syms i \<noteq> None" "i + 1 < length syms" using r(2) by (auto simp: best_so_far_def)
    from less.hyps [OF merge_shorter [OF i(2)] symbols_merge [OF ok less.prems i]] r(1) Some show ?thesis
      by (subst bpe_merge_loop.simps) simp
  qed
qed

text \<open>The merging that BPE prescribes: always the leftmost of the pairs of least rank.\<close>

inductive bpe_step :: "ds4_vocab \<Rightarrow> string list \<Rightarrow> string list \<Rightarrow> bool" for v where
  "i + 1 < length syms \<Longrightarrow> pair_rank v syms i = Some r \<Longrightarrow>
   (\<And>j q. j + 1 < length syms \<Longrightarrow> pair_rank v syms j = Some q \<Longrightarrow> r < q \<or> r = q \<and> i \<le> j) \<Longrightarrow>
   bpe_step v syms (bpe_merge_at syms i)"

inductive_cases bpe_stepE: "bpe_step v syms syms'"

lemma best_is_step:
  assumes "best_so_far v syms (length syms - 1) (Some i) q"
  shows "bpe_step v syms (bpe_merge_at syms i)"
  by (rule bpe_step.intros [where r = q]) (use assms in \<open>auto simp: best_so_far_def split: option.splits\<close>)

lemma merged_no_step: "fully_merged v syms \<Longrightarrow> \<not> bpe_step v syms syms'"
  by (auto simp: fully_merged_def elim: bpe_stepE)

text \<open>
  C20. Merging the symbols of a piece ends, follows the prescribed merges one by one (the leftmost pair
  of least rank), and stops only when no adjacent symbols can be merged.
\<close>

theorem bpe_merges_by_rank:
  assumes "vocab_ok v"
  shows "\<exists>syms'. bpe_merge_loop v syms = Some syms' \<and> (bpe_step v)\<^sup>*\<^sup>* syms syms' \<and> (\<nexists>x. bpe_step v syms' x)"
proof (induction "length syms" arbitrary: syms rule: less_induct)
  case less
  from best_pair [OF assms, of syms] obtain r q where
    r: "bpe_best_loop v 0 syms None 2147483647 = Some r" "best_so_far v syms (length syms - 1) r q" by blast
  show ?case
  proof (cases r)
    case None
    then have "fully_merged v syms" using r(2) by (auto simp: best_so_far_def fully_merged_def)
    with r(1) None merged_no_step show ?thesis by (subst bpe_merge_loop.simps) auto
  next
    case (Some i)
    then have i: "i + 1 < length syms" using r(2) by (auto simp: best_so_far_def)
    have "bpe_step v syms (bpe_merge_at syms i)" using best_is_step r(2) Some by simp
    with less.hyps [OF merge_shorter [OF i]] r(1) Some show ?thesis
      by (subst bpe_merge_loop.simps) (auto intro: converse_rtranclp_into_rtranclp)
  qed
qed

section \<open>The tokens of a text\<close>

definition texts :: "ds4_vocab \<Rightarrow> int list \<Rightarrow> string" where
  "texts v ts = concat (map (ds4_token_text v) ts)"

lemma texts_simps [simp]: "texts v [] = []" "texts v (ts @ us) = texts v ts @ texts v us" "texts v [t] = ds4_token_text v t"
  by (simp_all add: texts_def)

lemma emit_tokens:
  "vocab_ok v \<Longrightarrow> \<forall>p \<in> set ps. token_id v (byte_encode p) \<noteq> None \<Longrightarrow>
    \<exists>ts. emit_symbols v (map byte_encode ps) toks = Some (toks @ ts) \<and> texts v ts = concat ps"
proof (induction ps arbitrary: toks)
  case (Cons p ps)
  then obtain i where i: "token_id v (byte_encode p) = Some i" by auto
  from Cons.IH [OF Cons.prems(1), of "toks @ [i]"] Cons.prems(2) obtain ts where
    "emit_symbols v (map byte_encode ps) (toks @ [i]) = Some ((toks @ [i]) @ ts)" "texts v ts = concat ps" by auto
  with i token_text_encoded [OF Cons.prems(1) i] show ?case
    by (intro exI [of _ "i # ts"]) (simp add: lookup_token [OF Cons.prems(1)] token_vec_push_def texts_def)
qed simp

lemma emit_piece:
  assumes ok: "vocab_ok v"
  shows "\<exists>ts. bpe_emit_piece v s toks = Some (toks @ ts) \<and> texts v ts = s"
proof -
  from merge_loop [OF ok symbols_start [OF ok, of s]] obtain syms where
    m: "bpe_merge_loop v (split_symbols (byte_encode s)) = Some syms" "symbols_of v s syms" by blast
  from m(2) obtain ps where ps: "concat ps = s" "syms = map byte_encode ps" "\<forall>p \<in> set ps. token_id v (byte_encode p) \<noteq> None"
    by (auto simp: symbols_of_def)
  from emit_tokens [OF ok ps(3), of toks] show ?thesis using m(1) ps by (auto simp: bpe_emit_piece_def)
qed

lemma tokenize_text:
  "vocab_ok v \<Longrightarrow> \<exists>ts. bpe_tokenize_text v s toks = Some (toks @ ts) \<and> texts v ts = s"
proof (induction "length s" arbitrary: s toks rule: less_induct)
  case less
  show ?case
  proof (cases "s = []")
    case True
    then show ?thesis by (subst bpe_tokenize_text.simps) simp
  next
    case False
    define n where "n = piece_step s"
    from emit_piece [OF less.prems, of "take n s" toks] obtain ts where
      ts: "bpe_emit_piece v (take n s) toks = Some (toks @ ts)" "texts v ts = take n s" by blast
    have "length (drop n s) < length s" using False piece_step_pos [of s] by (simp add: n_def)
    from less.hyps [OF this less.prems, of "toks @ ts"] obtain us where
      us: "bpe_tokenize_text v (drop n s) (toks @ ts) = Some ((toks @ ts) @ us)" "texts v us = drop n s" by blast
    have "texts v (ts @ us) = s" by (simp add: ts us)
    with ts(1) us(1) False show ?thesis
      by (subst bpe_tokenize_text.simps) (auto simp: n_def [symmetric] intro!: exI [of _ "ts @ us"])
  qed
qed

lemma tokenize_spn: "vocab_ok v \<Longrightarrow> \<exists>ts. tokenize_span v s toks = Some (toks @ ts) \<and> texts v ts = s"
  using tokenize_text [of v s toks] by (auto simp: tokenize_span_def)

section \<open>Special tokens\<close>

lemma special_text:
  assumes ok: "vocab_ok v" and sp: "(txt, i) \<in> set (specials v)"
  shows "ds4_token_text v i = txt"
proof -
  have "token_id v txt = Some i" using ok sp unfolding vocab_ok_def by blast
  then have t: "0 \<le> i" "nat i < length (vb_token v)" "vb_token v ! nat i = txt"
    using ok unfolding vocab_ok_def by blast+
  have "vocab_token_is_literal_special txt \<or> token_text_loop txt = txt"
  proof -
    have "list_all (\<lambda>t. vocab_token_is_literal_special t \<or> token_text_loop t = t)
        [BOS, EOS, USER_TAG, ASSISTANT_TAG, ''<think>'', ''</think>'', DS4_DSML]" by code_simp
    moreover have "txt \<in> set [BOS, EOS, USER_TAG, ASSISTANT_TAG, ''<think>'', ''</think>'', DS4_DSML]"
      using sp by (auto simp: specials_def)
    ultimately show ?thesis unfolding list_all_iff by blast
  qed
  with t show ?thesis by (auto simp: ds4_token_text_def Let_def)
qed

lemma special_at:
  assumes "special_token_at v p = Some (i, n)"
  shows "(take n p, i) \<in> set (specials v)"
  using assms by (auto simp: special_token_at_def find_Some_iff prefix_iff_take in_set_conv_nth)

lemma chat_loop:
  "vocab_ok v \<Longrightarrow> \<exists>ts. tokenize_chat_loop v spn p toks = Some (toks @ ts) \<and> texts v ts = spn @ p"
proof (induction "length p" arbitrary: p spn toks rule: less_induct)
  case less
  show ?case
  proof (cases p)
    case Nil
    with tokenize_spn [OF less.prems, of spn toks] show ?thesis by (subst tokenize_chat_loop.simps) simp
  next
    case (Cons c p1)
    show ?thesis
    proof (cases "special_token_at v p")
      case None
      from less.hyps [OF _ less.prems, of p1 "spn @ [c]" toks] Cons None show ?thesis
        by (subst tokenize_chat_loop.simps) simp
    next
      case (Some x)
      obtain i n where x: "x = (i, n)" by (cases x)
      from tokenize_spn [OF less.prems, of spn toks] obtain ts where
        ts: "tokenize_span v spn toks = Some (toks @ ts)" "texts v ts = spn" by blast
      have n: "0 < n" using special_token_pos Some x by blast
      from less.hyps [OF _ less.prems, of "drop n p" "[]" "(toks @ ts) @ [i]"] n Cons obtain us where
        us: "tokenize_chat_loop v [] (drop n p) ((toks @ ts) @ [i]) = Some (((toks @ ts) @ [i]) @ us)" "texts v us = drop n p"
        by auto
      have "ds4_token_text v i = take n p" using special_text [OF less.prems special_at] Some x by simp
      then have "texts v (ts @ i # us) = spn @ take n p @ drop n p" using ts us by (simp add: texts_def)
      then have "texts v (ts @ i # us) = spn @ p" by simp
      with ts(1) us(1) Cons Some x show ?thesis
        by (subst tokenize_chat_loop.simps) (auto simp: token_vec_push_def intro!: exI [of _ "ts @ i # us"])
    qed
  qed
qed

text \<open>
  C7. Tokenizing a rendered chat loses nothing and always ends: the texts of its tokens, special tokens
  included, add up to the chat byte for byte.
\<close>

theorem tokenize_roundtrip:
  assumes "vocab_ok v"
  shows "\<exists>ts. tokenize_rendered_chat_vocab v (Some s) toks = Some (toks @ ts) \<and> concat (map (ds4_token_text v) ts) = s"
  using chat_loop [OF assms, of "[]" s toks] by (simp add: tokenize_rendered_chat_vocab_def or_empty_def texts_def)

section \<open>A vocabulary\<close>

text \<open>The table of a list of strings: each is mapped to its last index.\<close>

lemma index_table:
  assumes "length ws + 16 < 2 ^ 62"
  shows "\<exists>t0 t. table_init (word_of_nat (length ws)) = Some t0 \<and>
    str_table.put_all (zip ws (map int [0..<length ws])) t0 = Some t \<and> table_ok t 0 \<and>
    (\<forall>x i. table_map t x = Some i \<longrightarrow> 0 \<le> i \<and> nat i < length ws \<and> ws ! nat i = x) \<and>
    (\<forall>x \<in> set ws. table_map t x \<noteq> None)"
proof -
  let ?xs = "zip ws (map int [0..<length ws])"
  have "length ws < 2 ^ 64" by (rule less_trans [of _ "2 ^ 62"]) (use assms in auto)
  then have u: "unat (word_of_nat (length ws) :: u64) = length ws" by (intro of_nat_inverse [OF refl]) simp
  have "unat (word_of_nat (length ws) :: u64) < 2 ^ 62 - 16" unfolding u using assms by linarith
  from table_init_ok [OF this] obtain t0 where
    t0: "table_init (word_of_nat (length ws)) = Some t0" "table_ok t0 (2 * length ws + 15)" "table_map t0 = Map.empty"
    by (auto simp: u)
  have "table_ok t0 (length ?xs + 0)" using t0(2) by (auto simp: table_ok_def)
  from str_table.put_all_entries [OF this] obtain t where
    t: "str_table.put_all ?xs t0 = Some t" "table_ok t 0" "table_map t = map_of (rev ?xs)"
    using t0(3) by auto
  have "0 \<le> i \<and> nat i < length ws \<and> ws ! nat i = x" if "table_map t x = Some i" for x i
    using that unfolding t(3) by (auto dest!: map_of_SomeD simp: set_zip)
  moreover have "table_map t x \<noteq> None" if "x \<in> set ws" for x
  proof -
    have "x \<in> fst ` set (rev ?xs)" using that by (force simp: set_zip in_set_conv_nth image_iff)
    then show ?thesis unfolding t(3) by (simp add: map_of_eq_None_iff)
  qed
  ultimately show ?thesis using t0(1) t(1,2) by blast
qed

definition sample_tokens :: "string list" where
  "sample_tokens = map (\<lambda>n. byte_encode [char_of n]) [0..<256] @
     [BOS, EOS, USER_TAG, ASSISTANT_TAG, ''<think>'', ''</think>'', DS4_DSML, byte_encode ''hi'']"

lemma sample_bytes: "byte_encode [c] \<in> set sample_tokens"
proof -
  have "byte_encode [c] = byte_encode [char_of (byte_of c)]" by simp
  then show ?thesis unfolding sample_tokens_def
    by (auto simp del: char_of_byte_of byte_encode_simps intro!: image_eqI [of _ _ "byte_of c"])
qed

lemma sample_merge: "byte_encode a @ '' '' @ byte_encode b = ''h i'' \<Longrightarrow> byte_encode (a @ b) \<in> set sample_tokens"
proof -
  assume "byte_encode a @ '' '' @ byte_encode b = ''h i''"
  then have "byte_encode a = ''h''" "byte_encode b = ''i''" by (auto simp: append_eq_Cons_conv)
  moreover have "byte_encode ''hi'' = ''hi''" by code_simp
  ultimately have "byte_encode (a @ b) = byte_encode ''hi''" by simp
  then show ?thesis by (simp add: sample_tokens_def del: byte_encode_simps byte_encode_append)
qed

lemma sample_vocab: "\<exists>v. vocab_ok v \<and> vb_token v = sample_tokens \<and> merge_rank_of v ''h'' ''i'' = Some 0"
proof -
  obtain t where t: "table_ok t 0" "\<forall>x i. table_map t x = Some i \<longrightarrow> 0 \<le> i \<and> nat i < length sample_tokens \<and> sample_tokens ! nat i = x"
    "\<forall>x \<in> set sample_tokens. table_map t x \<noteq> None"
    using index_table [of sample_tokens] by (auto simp: sample_tokens_def)
  obtain m where m: "table_ok m 0" "\<forall>x i. table_map m x = Some i \<longrightarrow> 0 \<le> i \<and> nat i < length [''h i''] \<and> [''h i''] ! nat i = x"
    "\<forall>x \<in> set [''h i'']. table_map m x \<noteq> None"
    using index_table [of "[''h i'']"] by force
  have m2: "i = 0 \<and> x = ''h i''" if "table_map m x = Some i" for x i
  proof -
    from m(2) that have *: "0 \<le> i \<and> nat i < length [''h i''] \<and> [''h i''] ! nat i = x" by blast
    then have "i = 0" by simp
    with * show ?thesis by simp
  qed
  define v where "v = \<lparr>vb_token = sample_tokens, vb_bos_id = the (table_map t BOS), vb_eos_id = the (table_map t EOS),
    vb_user_id = the (table_map t USER_TAG), vb_assistant_id = the (table_map t ASSISTANT_TAG),
    vb_think_start_id = the (table_map t ''<think>''), vb_think_end_id = the (table_map t ''</think>''),
    vb_dsml_id = the (table_map t DS4_DSML), vb_token_to_id = t, vb_merge_rank = m\<rparr>"
  have tokens: "token_id v x = table_map t x" "merge_rank_of v a b = table_map m (a @ '' '' @ b)" for x a b
    by (simp_all add: token_id_def merge_rank_of_def v_def)
  have bytes: "token_id v (byte_encode [c]) \<noteq> None" for c
    using t(3) sample_bytes [of c] unfolding tokens by blast
  have closed: "token_id v (byte_encode (a @ b)) \<noteq> None"
    if "merge_rank_of v (byte_encode a) (byte_encode b) \<noteq> None" for a b
  proof -
    have "byte_encode a @ '' '' @ byte_encode b = ''h i''" using that m2 by (auto simp: tokens)
    with t(3) sample_merge show ?thesis unfolding tokens by blast
  qed
  have sp: "\<forall>(txt, i) \<in> set (specials v). token_id v txt = Some i"
  proof -
    have "fst ` set (specials v) \<subseteq> set sample_tokens" by (simp add: specials_def sample_tokens_def)
    moreover have "\<forall>(txt, i) \<in> set (specials v). i = the (table_map t txt)" by (simp add: specials_def v_def)
    ultimately show ?thesis using t(3) unfolding tokens by fastforce
  qed
  have "table_map m ''h i'' \<noteq> None" using m(3) by simp
  then have "table_map m ''h i'' = Some 0" by (auto dest: m2)
  then have "merge_rank_of v ''h'' ''i'' = Some 0" by (simp add: tokens)
  moreover have "vocab_ok v" unfolding vocab_ok_def
  proof (intro conjI)
    show "\<exists>n. table_ok (vb_token_to_id v) n" "\<exists>n. table_ok (vb_merge_rank v) n" using t(1) m(1) by (auto simp: v_def)
    show "\<forall>x i. token_id v x = Some i \<longrightarrow> 0 \<le> i \<and> nat i < length (vb_token v) \<and> vb_token v ! nat i = x"
      using t(2) by (simp add: tokens(1)) (simp add: v_def)
  qed (use bytes closed sp in \<open>blast+\<close>)
  ultimately show ?thesis by (intro exI [of _ v]) (simp add: v_def)
qed

theorem tokenize_roundtrip_witness:
  "\<exists>v ts. tokenize_rendered_chat_vocab v (Some ''<think>hi'') [] = Some ts \<and> concat (map (ds4_token_text v) ts) = ''<think>hi''"
proof -
  obtain v where "vocab_ok v" using sample_vocab by blast
  from tokenize_roundtrip [OF this, of "''<think>hi''" "[]"] show ?thesis by auto
qed

theorem bpe_merges_by_rank_witness:
  "\<exists>v syms. bpe_merge_loop v [''h'', ''i''] = Some syms \<and> (\<nexists>x. bpe_step v syms x) \<and> length syms = 1"
proof -
  obtain v where v: "vocab_ok v" "merge_rank_of v ''h'' ''i'' = Some 0" using sample_vocab by blast
  from bpe_merges_by_rank [OF v(1), of "[''h'', ''i'']"] obtain syms where
    s: "bpe_merge_loop v [''h'', ''i''] = Some syms" "\<nexists>x. bpe_step v syms x" by blast
  have "bpe_merge_loop v [''h'', ''i''] = Some [''hi'']"
    using v by (simp add: bpe_merge_loop.simps lookup_rank bpe_merge_at_def)
  with s have "\<nexists>x. bpe_step v [''hi''] x" by simp
  with \<open>bpe_merge_loop v [''h'', ''i''] = Some [''hi'']\<close> show ?thesis
    by (intro exI [of _ v] exI [of _ "[''hi'']"]) simp
qed

end
