(* ===== verification/Gguf.thy ===== *)
theory Gguf
  imports Prelude
begin

text \<open>
  The GGUF reader of ds4.c: the cursor over the mapped file, metadata values, the tensor directory,
  and the lookups by key. The mapped file is the string of its bytes; a fatal error (\<open>ds4_die\<close>) and a
  false result after \<open>cursor_error\<close> are the value \<open>Inl\<close> with the reason. Sizes and offsets are 64-bit
  words, as in the code.
\<close>

section \<open>The cursor\<close>

datatype gguf_error =
    Truncated_file u64
  | Nesting_too_deep u64
  | Array_too_large u64
  | Unknown_metadata_type u64
  | File_too_small
  | Not_gguf
  | Not_version_3
  | Bad_dimensions
  | Element_overflow
  | Offset_overflow
  | Outside_file

record ds4_cursor =
  cu_base :: string
  cu_size :: u64
  cu_pos :: u64

type_synonym 'a cursor_read = "ds4_cursor \<Rightarrow> gguf_error + 'a \<times> ds4_cursor"

text \<open>Going on after a call that must not fail.\<close>

definition and_then :: "'e + 'a \<Rightarrow> ('a \<Rightarrow> 'e + 'b) \<Rightarrow> 'e + 'b" where
  "and_then x f = (case x of Inl e \<Rightarrow> Inl e | Inr a \<Rightarrow> f a)"

lemma and_then_simps [simp]: "and_then (Inl e) f = Inl e" "and_then (Inr a) f = f a"
  by (simp_all add: and_then_def)

lemma and_then_Inr: "and_then x f = Inr b \<longleftrightarrow> (\<exists>a. x = Inr a \<and> f a = Inr b)"
  by (cases x) auto

definition cursor_has :: "ds4_cursor \<Rightarrow> u64 \<Rightarrow> bool" where
  "cursor_has c n \<longleftrightarrow> \<not> (n > cu_size c \<or> cu_pos c > cu_size c - n)"

definition cursor_read :: "u64 \<Rightarrow> string cursor_read" where
  "cursor_read n c =
     (if \<not> cursor_has c n then Inl (Truncated_file (cu_pos c))
      else Inr (take (unat n) (drop (unat (cu_pos c)) (cu_base c)), c\<lparr>cu_pos := cu_pos c + n\<rparr>))"

definition cursor_skip :: "u64 \<Rightarrow> unit cursor_read" where
  "cursor_skip n c =
     (if \<not> cursor_has c n then Inl (Truncated_file (cu_pos c)) else Inr ((), c\<lparr>cu_pos := cu_pos c + n\<rparr>))"

text \<open>Numbers are little-endian.\<close>

fun le_value :: "string \<Rightarrow> nat" where
  "le_value [] = 0"
| "le_value (c # s) = byte_of c + 256 * le_value s"

definition cursor_u32 :: "u32 cursor_read" where
  "cursor_u32 c = and_then (cursor_read 4 c) (\<lambda>(b, c1). Inr (word_of_nat (le_value b), c1))"

definition cursor_u64 :: "u64 cursor_read" where
  "cursor_u64 c = and_then (cursor_read 8 c) (\<lambda>(b, c1). Inr (word_of_nat (le_value b), c1))"

definition cursor_string :: "string cursor_read" where
  "cursor_string c = and_then (cursor_u64 c) (\<lambda>(len, c1). cursor_read len c1)"

definition align_up :: "u64 \<Rightarrow> u64 \<Rightarrow> u64" where
  "align_up v alignment = (let rem = v mod alignment in if rem = 0 then v else v + alignment - rem)"

section \<open>Metadata values\<close>

definition scalar_value_size :: "u32 \<Rightarrow> u64" where
  "scalar_value_size type =
     (if type \<in> {0, 1, 7} then 1 else if type \<in> {2, 3} then 2 else if type \<in> {4, 5, 6} then 4
      else if type \<in> {10, 11, 12} then 8 else 0)"

abbreviation GGUF_VALUE_UINT32 :: u32 where "GGUF_VALUE_UINT32 \<equiv> 4"
abbreviation GGUF_VALUE_BOOL :: u32 where "GGUF_VALUE_BOOL \<equiv> 7"
abbreviation GGUF_VALUE_STRING :: u32 where "GGUF_VALUE_STRING \<equiv> 8"
abbreviation GGUF_VALUE_ARRAY :: u32 where "GGUF_VALUE_ARRAY \<equiv> 9"
abbreviation GGUF_VALUE_UINT64 :: u32 where "GGUF_VALUE_UINT64 \<equiv> 10"

primrec loop_times :: "('s \<Rightarrow> 'e + 's) \<Rightarrow> nat \<Rightarrow> 's \<Rightarrow> 'e + 's" where
  "loop_times f 0 s = Inr s"
| "loop_times f (Suc n) s = and_then (f s) (loop_times f n)"

text \<open>\<open>levels\<close> is how much deeper arrays may nest, \<open>9 - depth\<close>.\<close>

primrec skip_levels :: "nat \<Rightarrow> u32 \<Rightarrow> ds4_cursor \<Rightarrow> gguf_error + ds4_cursor" where
  "skip_levels 0 type c = Inl (Nesting_too_deep (cu_pos c))"
| "skip_levels (Suc levels) type c =
     (let scalar = scalar_value_size type in
      if scalar \<noteq> 0 then and_then (cursor_skip scalar c) (\<lambda>(_, c1). Inr c1)
      else if type = GGUF_VALUE_STRING then and_then (cursor_string c) (\<lambda>(_, c1). Inr c1)
      else if type = GGUF_VALUE_ARRAY then
        and_then (cursor_u32 c) (\<lambda>(item_type, c1).
        and_then (cursor_u64 c1) (\<lambda>(len, c2).
          let item_size = scalar_value_size item_type in
          if item_size \<noteq> 0 then
            (if len > 0xffffffffffffffff div item_size then Inl (Array_too_large (cu_pos c2))
             else and_then (cursor_skip (len * item_size) c2) (\<lambda>(_, c3). Inr c3))
          else loop_times (skip_levels levels item_type) (unat len) c2))
      else Inl (Unknown_metadata_type (cu_pos c)))"

definition skip_value :: "ds4_cursor \<Rightarrow> u32 \<Rightarrow> nat \<Rightarrow> gguf_error + ds4_cursor" where
  "skip_value c type depth = skip_levels (9 - depth) type c"

record ds4_kv =
  kv_key :: string
  kv_type :: u32
  kv_value_pos :: u64

record ds4_tensor =
  tn_name :: string
  tn_ndim :: u32
  tn_dim :: "u64 list"
  tn_type :: u32
  tn_rel_offset :: u64
  tn_abs_offset :: u64
  tn_elements :: u64
  tn_bytes :: u64

record ds4_model =
  md_map :: string
  md_size :: u64
  md_version :: u32
  md_n_kv :: u64
  md_n_tensors :: u64
  md_alignment :: u64
  md_tensor_data_pos :: u64
  md_kv :: "ds4_kv list"
  md_tensors :: "ds4_tensor list"

definition cursor_at :: "'a ds4_model_scheme \<Rightarrow> u64 \<Rightarrow> ds4_cursor" where
  "cursor_at m pos = \<lparr>cu_base = md_map m, cu_size = md_size m, cu_pos = pos\<rparr>"

definition record_kv :: "ds4_model \<Rightarrow> string \<Rightarrow> u32 \<Rightarrow> u64 \<Rightarrow> ds4_model" where
  \<comment> \<open>a key with its type and the position of its value; the alignment is read ahead\<close>
  "record_kv m key type pos =
     (let m1 = m\<lparr>md_kv := md_kv m @ [\<lparr>kv_key = key, kv_type = type, kv_value_pos = pos\<rparr>]\<rparr> in
      if key = ''general.alignment'' \<and> type = GGUF_VALUE_UINT32 then
        (case cursor_u32 (cursor_at m pos) of
           Inr (alignment, _) \<Rightarrow> if alignment \<noteq> 0 then m1\<lparr>md_alignment := ucast alignment\<rparr> else m1
         | Inl _ \<Rightarrow> m1)
      else m1)"

text \<open>One round of the loop of \<open>parse_metadata\<close>.\<close>

definition metadata_entry :: "ds4_model \<times> ds4_cursor \<Rightarrow> gguf_error + ds4_model \<times> ds4_cursor" where
  "metadata_entry x =
     (case x of (m, c) \<Rightarrow>
        and_then (cursor_string c) (\<lambda>(key, c1).
        and_then (cursor_u32 c1) (\<lambda>(type, c2).
        and_then (skip_value c2 type 0) (\<lambda>c3. Inr (record_kv m key type (cu_pos c2), c3)))))"

definition parse_metadata :: "ds4_model \<Rightarrow> ds4_cursor \<Rightarrow> gguf_error + ds4_model \<times> ds4_cursor" where
  "parse_metadata m c = loop_times metadata_entry (unat (md_n_kv m)) (m\<lparr>md_kv := [], md_alignment := 32\<rparr>, c)"

section \<open>Tensors\<close>

text \<open>The block sizes of \<open>gguf_types\<close>: elements and bytes, None for the gaps in the table.\<close>

definition gguf_types :: "(nat \<times> nat) option list" where
  "gguf_types =
     [Some (1, 4), Some (1, 2), Some (32, 18), Some (32, 20), None, None, Some (32, 22), Some (32, 24),
      Some (32, 34), Some (32, 40), Some (256, 84), Some (256, 110), Some (256, 144), Some (256, 176),
      Some (256, 210), Some (256, 292), Some (256, 66), Some (256, 74), Some (256, 98), Some (256, 110),
      Some (256, 50), Some (256, 110), Some (256, 82), Some (256, 136), Some (1, 1), Some (1, 2),
      Some (1, 4), Some (1, 8), Some (1, 8), Some (256, 56), Some (1, 2)]"

definition tensor_type :: "u32 \<Rightarrow> (nat \<times> nat) option" where
  "tensor_type type = (if unat type < length gguf_types then gguf_types ! unat type else None)"

definition tensor_nbytes :: "u32 \<Rightarrow> u64 \<Rightarrow> u64 option" where
  "tensor_nbytes type elements =
     (case tensor_type type of
        None \<Rightarrow> None
      | Some (block_elems, block_bytes) \<Rightarrow>
          let blocks = (elements + word_of_nat block_elems - 1) div word_of_nat block_elems in
          if blocks > 0xffffffffffffffff div word_of_nat block_bytes then None
          else Some (blocks * word_of_nat block_bytes))"

definition dim_step :: "u64 list \<times> u64 \<times> ds4_cursor \<Rightarrow> gguf_error + u64 list \<times> u64 \<times> ds4_cursor" where
  "dim_step x =
     (case x of (dims, elements, c) \<Rightarrow>
        and_then (cursor_u64 c) (\<lambda>(d, c1).
          if d \<noteq> 0 \<and> elements > 0xffffffffffffffff div d then Inl Element_overflow
          else Inr (dims @ [d], elements * d, c1)))"

definition tensor_entry :: "ds4_tensor list \<times> ds4_cursor \<Rightarrow> gguf_error + ds4_tensor list \<times> ds4_cursor" where
  "tensor_entry x =
     (case x of (ts, c) \<Rightarrow>
        and_then (cursor_string c) (\<lambda>(name, c1).
        and_then (cursor_u32 c1) (\<lambda>(ndim, c2).
          if ndim = 0 \<or> ndim > 8 then Inl Bad_dimensions
          else
            and_then (loop_times dim_step (unat ndim) ([], 1, c2)) (\<lambda>(dims, elements, c3).
            and_then (cursor_u32 c3) (\<lambda>(type, c4).
            and_then (cursor_u64 c4) (\<lambda>(rel_offset, c5).
              Inr (ts @ [\<lparr>tn_name = name, tn_ndim = ndim, tn_dim = dims, tn_type = type, tn_rel_offset = rel_offset,
                          tn_abs_offset = 0, tn_elements = elements,
                          tn_bytes = (case tensor_nbytes type elements of None \<Rightarrow> 0 | Some b \<Rightarrow> b)\<rparr>], c5)))))))"

text \<open>The second loop: the offset of a tensor in the file.\<close>

definition place_tensor :: "u64 \<Rightarrow> u64 \<Rightarrow> ds4_tensor \<Rightarrow> gguf_error + ds4_tensor" where
  "place_tensor data_pos sz t =
     (if tn_rel_offset t > 0xffffffffffffffff - data_pos then Inl Offset_overflow
      else
        let abs_off = data_pos + tn_rel_offset t in
        if tn_bytes t \<noteq> 0 \<and> (abs_off > sz \<or> tn_bytes t > sz - abs_off) then Inl Outside_file
        else Inr (t\<lparr>tn_abs_offset := abs_off\<rparr>))"

fun place_tensors :: "u64 \<Rightarrow> u64 \<Rightarrow> ds4_tensor list \<Rightarrow> gguf_error + ds4_tensor list" where
  "place_tensors data_pos sz [] = Inr []"
| "place_tensors data_pos sz (t # ts) =
     and_then (place_tensor data_pos sz t) (\<lambda>t1.
     and_then (place_tensors data_pos sz ts) (\<lambda>ts1. Inr (t1 # ts1)))"

definition parse_tensors :: "ds4_model \<Rightarrow> ds4_cursor \<Rightarrow> gguf_error + ds4_model" where
  "parse_tensors m c =
     and_then (loop_times tensor_entry (unat (md_n_tensors m)) ([], c)) (\<lambda>(ts, c1).
       let data_pos = align_up (cu_pos c1) (md_alignment m) in
       and_then (place_tensors data_pos (md_size m) ts) (\<lambda>ts1.
         Inr (m\<lparr>md_tensor_data_pos := data_pos, md_tensors := ts1\<rparr>)))"

text \<open>\<open>model_open\<close> on the bytes of the file.\<close>

definition model_zero :: "string \<Rightarrow> ds4_model" where
  "model_zero file =
     \<lparr>md_map = file, md_size = word_of_nat (length file), md_version = 0, md_n_kv = 0, md_n_tensors = 0,
      md_alignment = 0, md_tensor_data_pos = 0, md_kv = [], md_tensors = []\<rparr>"

definition model_open :: "string \<Rightarrow> gguf_error + ds4_model" where
  "model_open file =
     (if length file < 32 then Inl File_too_small
      else
        let m = model_zero file in
        and_then (cursor_u32 (cursor_at m 0)) (\<lambda>(magic, c1).
          if magic \<noteq> 0x46554747 then Inl Not_gguf
          else
            and_then (cursor_u32 c1) (\<lambda>(version, c2).
            and_then (cursor_u64 c2) (\<lambda>(n_tensors, c3).
            and_then (cursor_u64 c3) (\<lambda>(n_kv, c4).
              if version \<noteq> 3 then Inl Not_version_3
              else
                and_then (parse_metadata (m\<lparr>md_version := version, md_n_tensors := n_tensors, md_n_kv := n_kv\<rparr>) c4)
                  (\<lambda>(m1, c5). parse_tensors m1 c5))))))"

section \<open>Lookups\<close>

definition model_find_kv :: "ds4_model \<Rightarrow> string \<Rightarrow> ds4_kv option" where
  "model_find_kv m key = find (\<lambda>kv. kv_key kv = key) (md_kv m)"

definition get_value :: "ds4_model \<Rightarrow> string \<Rightarrow> u32 \<Rightarrow> 'a cursor_read \<Rightarrow> 'a option" where
  \<comment> \<open>what the four getters of scalars and strings share\<close>
  "get_value m key type read =
     (case model_find_kv m key of
        None \<Rightarrow> None
      | Some kv \<Rightarrow>
          if kv_type kv \<noteq> type then None
          else (case read (cursor_at m (kv_value_pos kv)) of Inl _ \<Rightarrow> None | Inr (v, _) \<Rightarrow> Some v))"

definition model_get_string :: "ds4_model \<Rightarrow> string \<Rightarrow> string option" where
  "model_get_string m key = get_value m key GGUF_VALUE_STRING cursor_string"

definition model_get_u32 :: "ds4_model \<Rightarrow> string \<Rightarrow> u32 option" where
  "model_get_u32 m key = get_value m key GGUF_VALUE_UINT32 cursor_u32"

definition model_get_u64 :: "ds4_model \<Rightarrow> string \<Rightarrow> u64 option" where
  "model_get_u64 m key = get_value m key GGUF_VALUE_UINT64 cursor_u64"

definition model_get_bool :: "ds4_model \<Rightarrow> string \<Rightarrow> bool option" where
  "model_get_bool m key = map_option (\<lambda>b. le_value b \<noteq> 0) (get_value m key GGUF_VALUE_BOOL (cursor_read 1))"

record ds4_array_ref =
  ar_type :: u32
  ar_len :: u64
  ar_data_pos :: u64

definition model_get_array :: "ds4_model \<Rightarrow> string \<Rightarrow> ds4_array_ref option" where
  "model_get_array m key =
     get_value m key GGUF_VALUE_ARRAY (\<lambda>c.
       and_then (cursor_u32 c) (\<lambda>(type, c1).
       and_then (cursor_u64 c1) (\<lambda>(len, c2). Inr (\<lparr>ar_type = type, ar_len = len, ar_data_pos = cu_pos c2\<rparr>, c2))))"

definition model_find_tensor :: "ds4_model \<Rightarrow> string \<Rightarrow> ds4_tensor option" where
  "model_find_tensor m name = find (\<lambda>t. tn_name t = name) (md_tensors m)"

end
