(* ===== verification/GgufFacts.thy ===== *)
theory GgufFacts
  imports Gguf
begin

text \<open>
  What the GGUF reader guarantees of a model it accepts: everything it points to lies in the file.
\<close>

section \<open>The cursor stays in the file\<close>

named_theorems advances \<open>reads move the cursor forward, inside the file\<close>

definition cursor_ok :: "ds4_cursor \<Rightarrow> bool" where
  "cursor_ok c \<longleftrightarrow> unat (cu_size c) = length (cu_base c) \<and> unat (cu_pos c) \<le> length (cu_base c)"

definition moves_to :: "ds4_cursor \<Rightarrow> ds4_cursor \<Rightarrow> bool" where
  "moves_to c c' \<longleftrightarrow> cursor_ok c' \<and> cu_base c' = cu_base c \<and> cu_size c' = cu_size c \<and> cu_pos c \<le> cu_pos c'"

lemma cursor_refl: "cursor_ok c \<Longrightarrow> moves_to c c"
  by (simp add: moves_to_def)

lemma cursor_trans: "moves_to a b \<Longrightarrow> moves_to b c \<Longrightarrow> moves_to a c"
  by (auto simp: moves_to_def)

lemma cursor_moved: "moves_to a b \<Longrightarrow> cursor_ok b"
  by (simp add: moves_to_def)

lemma cursor_has_iff:
  assumes "cursor_ok c"
  shows "cursor_has c n \<longleftrightarrow> unat (cu_pos c) + unat n \<le> length (cu_base c)"
proof (cases "n \<le> cu_size c")
  case True
  then have "unat (cu_size c - n) = unat (cu_size c) - unat n" by (rule unat_sub)
  with True assms show ?thesis by (auto simp: cursor_has_def cursor_ok_def word_le_nat_alt word_less_nat_alt)
next
  case False
  with assms show ?thesis by (simp add: cursor_has_def cursor_ok_def not_le word_less_nat_alt)
qed

lemma pos_add:
  assumes "cursor_ok c" "unat (cu_pos c) + unat n \<le> length (cu_base c)"
  shows "unat (cu_pos c + n) = unat (cu_pos c) + unat n"
proof -
  have "unat (cu_size c) < 2 ^ LENGTH(64)" by (rule unsigned_less)
  with assms have "unat (cu_pos c) + unat n < 2 ^ 64" by (simp add: cursor_ok_def)
  then show ?thesis by (simp add: unat_word_ariths)
qed

lemma cursor_read_moves [advances]:
  assumes "cursor_read n c = Inr (b, c')" "cursor_ok c"
  shows "moves_to c c' \<and> unat (cu_pos c') = unat (cu_pos c) + unat n \<and> length b = unat n \<and>
    b = take (unat n) (drop (unat (cu_pos c)) (cu_base c))"
proof -
  have le: "unat (cu_pos c) + unat n \<le> length (cu_base c)"
    using assms cursor_has_iff [OF assms(2)] by (auto simp: cursor_read_def split: if_splits)
  with assms pos_add [OF assms(2) le] show ?thesis
    by (auto simp: cursor_read_def moves_to_def cursor_ok_def word_le_nat_alt split: if_splits)
qed

lemma cursor_skip_moves [advances]:
  assumes "cursor_skip n c = Inr (b, c')" "cursor_ok c"
  shows "moves_to c c'"
proof -
  have "cursor_read n c = Inr (take (unat n) (drop (unat (cu_pos c)) (cu_base c)), c')"
    using assms(1) by (auto simp: cursor_skip_def cursor_read_def split: if_splits)
  from cursor_read_moves [OF this assms(2)] show ?thesis by blast
qed

lemma cursor_u32_moves [advances]:
  "cursor_u32 c = Inr (v, c') \<Longrightarrow> cursor_ok c \<Longrightarrow> moves_to c c' \<and> unat (cu_pos c') = unat (cu_pos c) + 4"
  by (auto simp: cursor_u32_def and_then_Inr dest: cursor_read_moves)

lemma cursor_u64_moves [advances]:
  "cursor_u64 c = Inr (v, c') \<Longrightarrow> cursor_ok c \<Longrightarrow> moves_to c c' \<and> unat (cu_pos c') = unat (cu_pos c) + 8"
  by (auto simp: cursor_u64_def and_then_Inr dest: cursor_read_moves)

lemma cursor_string_moves [advances]:
  assumes "cursor_string c = Inr (s, c')" "cursor_ok c"
  shows "moves_to c c' \<and> unat (cu_pos c') = unat (cu_pos c) + 8 + length s \<and>
    s = take (length s) (drop (unat (cu_pos c) + 8) (cu_base c))"
proof -
  from assms(1) obtain len c1 where l: "cursor_u64 c = Inr (len, c1)" "cursor_read len c1 = Inr (s, c')"
    by (auto simp: cursor_string_def and_then_Inr)
  from cursor_u64_moves [OF l(1) assms(2)] have 1: "moves_to c c1" "unat (cu_pos c1) = unat (cu_pos c) + 8" by auto
  from cursor_read_moves [OF l(2) cursor_moved [OF 1(1)]] have
    2: "moves_to c1 c'" "unat (cu_pos c') = unat (cu_pos c1) + unat len" "length s = unat len"
    "s = take (unat len) (drop (unat (cu_pos c1)) (cu_base c1))" by auto
  have "cu_base c1 = cu_base c" using 1(1) by (simp add: moves_to_def)
  then show ?thesis using cursor_trans [OF 1(1) 2(1)] 1(2) 2(2-) by simp
qed

lemma loop_times_inv:
  assumes step: "\<And>k s s'. k < n \<Longrightarrow> I k s \<Longrightarrow> f s = Inr s' \<Longrightarrow> I (Suc k) s'"
  shows "loop_times f n s = Inr s' \<Longrightarrow> I 0 s \<Longrightarrow> I n s'"
proof -
  have "loop_times f m s = Inr s' \<Longrightarrow> I k s \<Longrightarrow> m + k = n \<Longrightarrow> I n s'" for m k s
  proof (induction m arbitrary: k s)
    case (Suc m)
    then obtain s1 where s1: "f s = Inr s1" "loop_times f m s1 = Inr s'" by (auto simp: and_then_Inr)
    have "I (Suc k) s1" using step [OF _ Suc.prems(2) s1(1)] Suc.prems(3) by simp
    with Suc.IH [OF s1(2)] Suc.prems(3) show ?case by simp
  qed simp
  then show "loop_times f n s = Inr s' \<Longrightarrow> I 0 s \<Longrightarrow> I n s'" by simp
qed

lemma skip_levels_moves [advances]: "skip_levels l type c = Inr c' \<Longrightarrow> cursor_ok c \<Longrightarrow> moves_to c c'"
proof (induction l arbitrary: type c c')
  case (Suc l)
  consider (scalar) "scalar_value_size type \<noteq> 0" | (str) "scalar_value_size type = 0" "type = GGUF_VALUE_STRING"
    | (arr) "scalar_value_size type = 0" "type = GGUF_VALUE_ARRAY"
    using Suc.prems(1) by (auto simp: Let_def split: if_splits)
  then show ?case
  proof cases
    case scalar
    with Suc.prems show ?thesis by (auto simp: and_then_Inr Let_def dest: cursor_skip_moves)
  next
    case str
    with Suc.prems show ?thesis by (auto simp: and_then_Inr Let_def dest: cursor_string_moves)
  next
    case arr
    with Suc.prems(1) obtain it c1 len c2 where
      c: "cursor_u32 c = Inr (it, c1)" "cursor_u64 c1 = Inr (len, c2)" and
      rest: "(if scalar_value_size it \<noteq> 0 then
                (if len > 0xffffffffffffffff div scalar_value_size it then Inl (Array_too_large (cu_pos c2))
                 else and_then (cursor_skip (len * scalar_value_size it) c2) (\<lambda>(_, c3). Inr c3))
              else loop_times (skip_levels l it) (unat len) c2) = Inr c'"
      by (auto simp: and_then_Inr Let_def)
    have m: "moves_to c c1" "moves_to c1 c2"
      using cursor_u32_moves [OF c(1) Suc.prems(2)] cursor_u64_moves [OF c(2)] by (auto dest: cursor_moved)
    have "moves_to c2 c'"
    proof (cases "scalar_value_size it \<noteq> 0")
      case True
      with rest cursor_moved [OF m(2)] show ?thesis
        by (auto simp: and_then_Inr split: if_splits dest: cursor_skip_moves)
    next
      case False
      with rest have "loop_times (skip_levels l it) (unat len) c2 = Inr c'" by simp
      then show ?thesis
        by (rule loop_times_inv [where I = "\<lambda>_. moves_to c2", rotated])
          (auto simp: cursor_refl [OF cursor_moved [OF m(2)]] intro: cursor_trans Suc.IH cursor_moved)
    qed
    with m show ?thesis by (blast intro: cursor_trans)
  qed
qed simp

lemma skip_value_moves [advances]: "skip_value c type d = Inr c' \<Longrightarrow> cursor_ok c \<Longrightarrow> moves_to c c'"
  unfolding skip_value_def by (rule skip_levels_moves)

section \<open>Metadata\<close>

text \<open>A key entry lies in the file: its key, its type, and where its value begins.\<close>

definition kv_in_file :: "string \<Rightarrow> ds4_kv \<Rightarrow> bool" where
  "kv_in_file file kv \<longleftrightarrow> unat (kv_value_pos kv) \<le> length file \<and> length (kv_key kv) + 12 \<le> unat (kv_value_pos kv) \<and>
     kv_key kv = take (length (kv_key kv)) (drop (unat (kv_value_pos kv) - 4 - length (kv_key kv)) file)"

definition metadata_inv :: "ds4_model \<Rightarrow> nat \<Rightarrow> ds4_model \<times> ds4_cursor \<Rightarrow> bool" where
  "metadata_inv m0 k x \<longleftrightarrow> (case x of (m, c) \<Rightarrow>
     cursor_ok c \<and> cu_base c = md_map m0 \<and> length (md_kv m) = k \<and> (\<forall>kv \<in> set (md_kv m). kv_in_file (md_map m0) kv) \<and>
     md_alignment m \<noteq> 0 \<and> unat (md_alignment m) < 2 ^ 32 \<and>
     (\<exists>kvs al. m = m0\<lparr>md_kv := kvs, md_alignment := al\<rparr>))"

lemma ucast_alignment: "a \<noteq> (0 :: u32) \<Longrightarrow> (ucast a :: u64) \<noteq> 0 \<and> unat (ucast a :: u64) < 2 ^ 32"
proof -
  assume a: "a \<noteq> 0"
  have lt: "unat a < 2 ^ 32" using unsigned_less [of a] by simp
  then have "unat (ucast a :: u64) = unat a"
    by (simp add: unsigned_ucast_eq take_bit_nat_eq_self)
  moreover have "unat a \<noteq> 0" using a by (simp add: unat_eq_zero)
  ultimately show ?thesis using lt by (metis unsigned_0)
qed

lemma record_kv_alignment:
  "\<exists>al. record_kv m key type pos =
       m\<lparr>md_kv := md_kv m @ [\<lparr>kv_key = key, kv_type = type, kv_value_pos = pos\<rparr>], md_alignment := al\<rparr> \<and>
     (md_alignment m \<noteq> 0 \<and> unat (md_alignment m) < 2 ^ 32 \<longrightarrow> al \<noteq> 0 \<and> unat al < 2 ^ 32)"
proof (cases "\<exists>a c. key = ''general.alignment'' \<and> type = GGUF_VALUE_UINT32 \<and> cursor_u32 (cursor_at m pos) = Inr (a, c) \<and> a \<noteq> 0")
  case True
  then obtain a c where a: "key = ''general.alignment''" "type = GGUF_VALUE_UINT32" "cursor_u32 (cursor_at m pos) = Inr (a, c)" "a \<noteq> 0"
    by blast
  then have "record_kv m key type pos =
      m\<lparr>md_kv := md_kv m @ [\<lparr>kv_key = key, kv_type = type, kv_value_pos = pos\<rparr>], md_alignment := ucast a\<rparr>"
    by (simp add: record_kv_def)
  with ucast_alignment [OF a(4)] show ?thesis by blast
next
  case False
  then have "record_kv m key type pos =
      m\<lparr>md_kv := md_kv m @ [\<lparr>kv_key = key, kv_type = type, kv_value_pos = pos\<rparr>], md_alignment := md_alignment m\<rparr>"
    by (cases m) (auto simp: record_kv_def Let_def split: sum.splits)
  then show ?thesis by blast
qed

lemma metadata_step:
  assumes inv: "metadata_inv m0 k x" and run: "metadata_entry x = Inr y"
  shows "metadata_inv m0 (Suc k) y"
proof -
  obtain m c where x: "x = (m, c)" by (cases x)
  from run x obtain key c1 type c2 c3 where
    r: "cursor_string c = Inr (key, c1)" "cursor_u32 c1 = Inr (type, c2)" "skip_value c2 type 0 = Inr c3" and
    y: "y = (record_kv m key type (cu_pos c2), c3)"
    by (auto simp: metadata_entry_def and_then_Inr)
  have ok: "cursor_ok c" "cu_base c = md_map m0" using inv by (auto simp: metadata_inv_def x)
  note s1 = cursor_string_moves [OF r(1) ok(1)]
  have ok1: "cursor_ok c1" using s1 cursor_moved by blast
  note s2 = cursor_u32_moves [OF r(2) ok1]
  have ok2: "cursor_ok c2" using s2 cursor_moved by blast
  have ok3: "moves_to c2 c3" by (rule skip_value_moves [OF r(3) ok2])
  have base: "cu_base c2 = md_map m0" "cu_base c3 = md_map m0" using s1 s2 ok3 ok(2) by (auto simp: moves_to_def)
  have "unat (cu_pos c2) \<le> length (md_map m0)" using ok2 base by (simp add: cursor_ok_def)
  then have kv: "kv_in_file (md_map m0) \<lparr>kv_key = key, kv_type = type, kv_value_pos = cu_pos c2\<rparr>"
    using s1 s2 ok(2) by (simp add: kv_in_file_def add.commute)
  obtain kvs al where m: "m = m0\<lparr>md_kv := kvs, md_alignment := al\<rparr>" and al: "al \<noteq> 0" "unat al < 2 ^ 32"
    and kvs: "length kvs = k" "\<forall>kv \<in> set kvs. kv_in_file (md_map m0) kv"
    using inv by (auto simp: metadata_inv_def x)
  obtain al' where al': "record_kv m key type (cu_pos c2) =
      m0\<lparr>md_kv := kvs @ [\<lparr>kv_key = key, kv_type = type, kv_value_pos = cu_pos c2\<rparr>], md_alignment := al'\<rparr>"
      "al' \<noteq> 0" "unat al' < 2 ^ 32"
    using record_kv_alignment [of m key type "cu_pos c2"] al by (auto simp: m)
  have "metadata_inv m0 (Suc k) (m0\<lparr>md_kv := kvs @ [\<lparr>kv_key = key, kv_type = type, kv_value_pos = cu_pos c2\<rparr>],
      md_alignment := al'\<rparr>, c3)"
    using kv kvs ok3 base al'(2,3) by (auto simp: metadata_inv_def moves_to_def)
  then show ?thesis unfolding y al'(1) .
qed

lemma parse_metadata_inv:
  assumes "parse_metadata m0 c = Inr (m, c')" "cursor_ok c" "cu_base c = md_map m0"
  shows "metadata_inv m0 (unat (md_n_kv m0)) (m, c')"
  using assms unfolding parse_metadata_def
  by (intro loop_times_inv [where I = "metadata_inv m0", OF metadata_step assms(1) [unfolded parse_metadata_def]])
    (auto simp: metadata_inv_def)

section \<open>Tensors\<close>

definition prod_nat :: "u64 list \<Rightarrow> nat" where
  "prod_nat ds = prod_list (map unat ds)"

definition dims_inv :: "ds4_cursor \<Rightarrow> nat \<Rightarrow> u64 list \<times> u64 \<times> ds4_cursor \<Rightarrow> bool" where
  "dims_inv c0 k x \<longleftrightarrow> (case x of (dims, elements, c) \<Rightarrow>
     moves_to c0 c \<and> length dims = k \<and> unat elements = prod_nat dims)"

lemma mult_exact:
  assumes "\<not> (d \<noteq> 0 \<and> e > 0xffffffffffffffff div d)"
  shows "unat (e * d :: u64) = unat e * unat d"
proof (cases "d = 0")
  case False
  with assms have "unat e \<le> unat (0xffffffffffffffff :: u64) div unat d"
    by (simp add: not_less word_le_nat_alt unat_div)
  moreover have "unat d \<noteq> 0" using False by (simp add: unat_eq_zero)
  ultimately have "unat e * unat d \<le> 0xffffffffffffffff" by (simp add: less_eq_div_iff_mult_less_eq)
  then show ?thesis by (simp add: unat_word_ariths)
qed simp

lemma dim_step_inv:
  assumes "dims_inv c0 k x" "dim_step x = Inr y"
  shows "dims_inv c0 (Suc k) y"
proof -
  obtain dims e c where x: "x = (dims, e, c)" by (cases x)
  from assms(2) x obtain d c1 where
    r: "cursor_u64 c = Inr (d, c1)" "\<not> (d \<noteq> 0 \<and> e > 0xffffffffffffffff div d)" "y = (dims @ [d], e * d, c1)"
    by (auto simp: dim_step_def and_then_Inr split: if_splits)
  from assms(1) x have i: "moves_to c0 c" "length dims = k" "unat e = prod_nat dims" by (auto simp: dims_inv_def)
  from cursor_u64_moves [OF r(1) cursor_moved [OF i(1)]] have "moves_to c0 c1" using i(1) by (blast intro: cursor_trans)
  with i r(3) mult_exact [OF r(2)] show ?thesis by (simp add: dims_inv_def prod_nat_def)
qed

text \<open>A tensor of the directory: between one and eight dimensions, whose product, computed without
  wrap-around, is the number of its elements.\<close>

definition tensor_wf :: "ds4_tensor \<Rightarrow> bool" where
  "tensor_wf t \<longleftrightarrow> 1 \<le> unat (tn_ndim t) \<and> unat (tn_ndim t) \<le> 8 \<and> length (tn_dim t) = unat (tn_ndim t) \<and>
     unat (tn_elements t) = prod_nat (tn_dim t) \<and>
     tn_bytes t = (case tensor_nbytes (tn_type t) (tn_elements t) of None \<Rightarrow> 0 | Some b \<Rightarrow> b)"

definition tensors_inv :: "ds4_cursor \<Rightarrow> nat \<Rightarrow> ds4_tensor list \<times> ds4_cursor \<Rightarrow> bool" where
  "tensors_inv c0 k x \<longleftrightarrow> (case x of (ts, c) \<Rightarrow> moves_to c0 c \<and> length ts = k \<and> (\<forall>t \<in> set ts. tensor_wf t))"

lemma tensor_step:
  assumes inv: "tensors_inv c0 k x" and run: "tensor_entry x = Inr y"
  shows "tensors_inv c0 (Suc k) y"
proof -
  obtain ts c where x: "x = (ts, c)" by (cases x)
  from run x obtain name c1 ndim c2 dims elements c3 type c4 rel c5 where
    r: "cursor_string c = Inr (name, c1)" "cursor_u32 c1 = Inr (ndim, c2)" "\<not> (ndim = 0 \<or> ndim > 8)"
      "loop_times dim_step (unat ndim) ([], 1, c2) = Inr (dims, elements, c3)"
      "cursor_u32 c3 = Inr (type, c4)" "cursor_u64 c4 = Inr (rel, c5)" and
    y: "y = (ts @ [\<lparr>tn_name = name, tn_ndim = ndim, tn_dim = dims, tn_type = type, tn_rel_offset = rel,
                    tn_abs_offset = 0, tn_elements = elements,
                    tn_bytes = (case tensor_nbytes type elements of None \<Rightarrow> 0 | Some b \<Rightarrow> b)\<rparr>], c5)"
    by (auto simp: tensor_entry_def and_then_Inr split: if_splits)
  from inv x have i: "moves_to c0 c" "length ts = k" "\<forall>t \<in> set ts. tensor_wf t" by (auto simp: tensors_inv_def)
  have m1: "moves_to c0 c1" using cursor_string_moves [OF r(1) cursor_moved [OF i(1)]] i(1) by (blast intro: cursor_trans)
  have m2: "moves_to c0 c2" using cursor_u32_moves [OF r(2) cursor_moved [OF m1]] m1 by (blast intro: cursor_trans)
  have "dims_inv c2 (unat ndim) (dims, elements, c3)"
    by (rule loop_times_inv [where I = "dims_inv c2", OF dim_step_inv r(4)])
      (auto simp: dims_inv_def cursor_refl cursor_moved [OF m2] prod_nat_def)
  then have d: "moves_to c2 c3" "length dims = unat ndim" "unat elements = prod_nat dims" by (auto simp: dims_inv_def)
  have m3: "moves_to c0 c3" using m2 d(1) by (rule cursor_trans)
  have m4: "moves_to c0 c4" using cursor_u32_moves [OF r(5) cursor_moved [OF m3]] m3 by (blast intro: cursor_trans)
  have m5: "moves_to c0 c5" using cursor_u64_moves [OF r(6) cursor_moved [OF m4]] m4 by (blast intro: cursor_trans)
  have n: "1 \<le> unat ndim \<and> unat ndim \<le> 8"
    using r(3) by (auto simp: word_less_nat_alt unat_eq_zero Suc_le_eq unat_gt_0)
  show ?thesis using i m5 n d by (simp add: y tensors_inv_def tensor_wf_def)
qed

lemma place_tensor_ok:
  assumes "place_tensor data_pos sz t = Inr t'"
  shows "t' = t\<lparr>tn_abs_offset := tn_abs_offset t'\<rparr> \<and> unat (tn_abs_offset t') = unat data_pos + unat (tn_rel_offset t) \<and>
    (tn_bytes t \<noteq> 0 \<longrightarrow> unat (tn_abs_offset t') + unat (tn_bytes t) \<le> unat sz)"
proof -
  have rel: "\<not> tn_rel_offset t > 0xffffffffffffffff - data_pos" using assms by (auto simp: place_tensor_def split: if_splits)
  have t': "t' = t\<lparr>tn_abs_offset := data_pos + tn_rel_offset t\<rparr>"
    and inside: "tn_bytes t \<noteq> 0 \<Longrightarrow> data_pos + tn_rel_offset t \<le> sz \<and> tn_bytes t \<le> sz - (data_pos + tn_rel_offset t)"
    using assms rel by (auto simp: place_tensor_def Let_def not_less split: if_splits)
  have lt: "unat data_pos < 2 ^ LENGTH(64)" by (rule unsigned_less)
  then have "data_pos \<le> 0xffffffffffffffff" by (simp add: word_le_nat_alt)
  then have "unat (0xffffffffffffffff - data_pos) = 0xffffffffffffffff - unat data_pos" by (simp add: unat_sub)
  then have "unat data_pos + unat (tn_rel_offset t) < 2 ^ 64"
    using rel lt by (simp add: not_less word_le_nat_alt)
  then have abs: "unat (data_pos + tn_rel_offset t) = unat data_pos + unat (tn_rel_offset t)" by (simp add: unat_word_ariths)
  have "unat (data_pos + tn_rel_offset t) + unat (tn_bytes t) \<le> unat sz" if "tn_bytes t \<noteq> 0"
  proof -
    have "unat (sz - (data_pos + tn_rel_offset t)) = unat sz - unat (data_pos + tn_rel_offset t)"
      by (rule unat_sub) (use inside [OF that] in blast)
    with inside [OF that] show ?thesis by (auto simp: word_le_nat_alt)
  qed
  with t' abs show ?thesis by simp
qed

lemma place_tensors_ok:
  "place_tensors data_pos sz ts = Inr ts' \<Longrightarrow> list_all2 (\<lambda>t t'. place_tensor data_pos sz t = Inr t') ts ts'"
  by (induction ts arbitrary: ts') (auto simp: and_then_Inr)

lemma align_up_ok:
  assumes "a \<noteq> 0" "unat p + unat a < 2 ^ 64"
  shows "unat (align_up p a) mod unat a = 0 \<and> unat p \<le> unat (align_up p a) \<and> unat (align_up p a) < unat p + unat a"
proof (cases "p mod a = 0")
  case True
  then have "unat p mod unat a = 0" by (metis unat_mod unsigned_0)
  moreover have "unat a > 0" using assms(1) by (simp add: unat_gt_0)
  ultimately show ?thesis using True by (simp add: align_up_def)
next
  case False
  have a: "unat a > 0" using assms(1) by (simp add: unat_gt_0)
  have s: "unat (p + a) = unat p + unat a" using assms(2) by (simp add: unat_word_ariths)
  have lt: "unat p mod unat a < unat a" using a by simp
  have "unat (p + a - p mod a) = unat p + unat a - unat p mod unat a"
    using lt by (subst unat_sub) (auto simp: word_le_nat_alt s unat_mod)
  note eq = this
  have mult: "unat p + unat a - unat p mod unat a = (unat p div unat a + 1) * unat a"
  proof -
    have "unat p div unat a * unat a + unat p mod unat a = unat p" by (rule div_mult_mod_eq)
    then have "unat p + unat a - unat p mod unat a = unat p div unat a * unat a + unat a" by linarith
    then show ?thesis by simp
  qed
  have nz: "unat p mod unat a \<noteq> 0" using False by (metis unat_mod unat_eq_zero)
  have "align_up p a = p + a - p mod a" using False by (simp add: align_up_def Let_def)
  then have up: "unat (align_up p a) = unat p + unat a - unat p mod unat a" using eq by simp
  have "unat (align_up p a) mod unat a = 0" unfolding up mult by simp
  with up nz lt show ?thesis by linarith
qed


end
