(* ===== verification/GgufFile.thy ===== *)
theory GgufFile
  imports GgufFacts
begin

text \<open>
  GGUF files as the format describes them, and that the reader reads them: the metadata written in a
  file is what the lookups return. With files at hand the theory also shows where the size of a
  tensor wraps around.
\<close>

section \<open>Writing\<close>

text \<open>\<open>le_bytes n v\<close>: the number \<open>v\<close> in \<open>n\<close> bytes.\<close>

fun le_bytes :: "nat \<Rightarrow> nat \<Rightarrow> string" where
  "le_bytes 0 v = []"
| "le_bytes (Suc n) v = char_of (v mod 256) # le_bytes n (v div 256)"

definition gguf_str :: "string \<Rightarrow> string" where
  "gguf_str s = le_bytes 8 (length s) @ s"

text \<open>A metadata value: the bytes of a scalar of a type, a string, or an array of values of a type.\<close>

datatype gguf_value = Scalar u32 string | Str string | Arr u32 "gguf_value list"

fun value_type :: "gguf_value \<Rightarrow> u32" where
  "value_type (Scalar t b) = t"
| "value_type (Str s) = GGUF_VALUE_STRING"
| "value_type (Arr t vs) = GGUF_VALUE_ARRAY"

fun value_bytes :: "gguf_value \<Rightarrow> string" where
  "value_bytes (Scalar t b) = b"
| "value_bytes (Str s) = gguf_str s"
| "value_bytes (Arr t vs) = le_bytes 4 (unat t) @ le_bytes 8 (length vs) @ concat (map value_bytes vs)"

text \<open>Well-formed values, with arrays nested less than \<open>levels\<close> deep.\<close>

fun value_wf :: "nat \<Rightarrow> gguf_value \<Rightarrow> bool" where
  "value_wf l (Scalar t b) \<longleftrightarrow> 0 < l \<and> scalar_value_size t \<noteq> 0 \<and> length b = unat (scalar_value_size t)"
| "value_wf l (Str s) \<longleftrightarrow> 0 < l"
| "value_wf l (Arr t vs) \<longleftrightarrow> 0 < l \<and> (\<forall>v \<in> set vs. value_type v = t \<and> value_wf (l - 1) v)"

definition kv_bytes :: "string \<times> gguf_value \<Rightarrow> string" where
  "kv_bytes kv = gguf_str (fst kv) @ le_bytes 4 (unat (value_type (snd kv))) @ value_bytes (snd kv)"

definition gguf_head :: "nat \<Rightarrow> nat \<Rightarrow> string" where
  "gguf_head n_tensors n_kv = ''GGUF'' @ le_bytes 4 3 @ le_bytes 8 n_tensors @ le_bytes 8 n_kv"

definition gguf_file :: "nat \<Rightarrow> (string \<times> gguf_value) list \<Rightarrow> string \<Rightarrow> string" where
  \<comment> \<open>a header, the metadata, and what follows: the tensor directory and the data\<close>
  "gguf_file n_tensors kvs rest = gguf_head n_tensors (length kvs) @ concat (map kv_bytes kvs) @ rest"

section \<open>Reading\<close>

text \<open>The cursor between the bytes \<open>pre\<close> it has read and the bytes \<open>rest\<close> that follow.\<close>

definition cur :: "string \<Rightarrow> string \<Rightarrow> ds4_cursor" where
  "cur pre rest = \<lparr>cu_base = pre @ rest, cu_size = word_of_nat (length (pre @ rest)), cu_pos = word_of_nat (length pre)\<rparr>"

abbreviation fits :: "string \<Rightarrow> string \<Rightarrow> bool" where
  "fits pre rest \<equiv> length pre + length rest < 2 ^ 64"

declare le_bytes.simps [simp del]

lemma length_le_bytes [simp]: "length (le_bytes n v) = n"
  by (induction n arbitrary: v) (auto simp: le_bytes.simps)

lemma le_value_bytes: "le_value (le_bytes n v) = v mod 256 ^ n"
proof (induction n arbitrary: v)
  case (Suc n)
  have "v mod 256 ^ Suc n = 256 * (v div 256 mod 256 ^ n) + v mod 256"
    by (simp add: mod_mult2_eq)
  then show ?case using Suc by (simp add: le_bytes.simps)
qed (simp add: le_bytes.simps)

lemma word_index64: "n < 2 ^ 64 \<Longrightarrow> unat (word_of_nat n :: u64) = n"
  by (rule of_nat_inverse [OF refl]) simp

lemma cur_ok: "fits pre rest \<Longrightarrow> cursor_ok (cur pre rest)"
  using word_index64 [of "length (pre @ rest)"] by (simp add: cursor_ok_def cur_def word_index64 del: of_nat_add)

lemma read_cur:
  assumes "fits pre (b @ rest)" "unat n = length b"
  shows "cursor_read n (cur pre (b @ rest)) = Inr (b, cur (pre @ b) rest)"
proof -
  have n: "n = word_of_nat (length b)" by (simp flip: assms(2))
  have p: "unat (cu_pos (cur pre (b @ rest))) = length pre" using assms(1) by (simp add: cur_def word_index64)
  have "cursor_has (cur pre (b @ rest)) n"
    using cursor_has_iff [OF cur_ok [OF assms(1)]] p assms(2) by (simp add: cur_def)
  then show ?thesis using p assms(2) by (simp add: cursor_read_def) (simp add: cur_def n)
qed

lemma u32_cur:
  assumes "fits pre (le_bytes 4 v @ rest)"
  shows "cursor_u32 (cur pre (le_bytes 4 v @ rest)) = Inr (word_of_nat v, cur (pre @ le_bytes 4 v) rest)"
proof -
  have "(word_of_nat (v mod 4294967296) :: u32) = word_of_nat v" by (simp add: word_of_nat_eq_iff take_bit_eq_mod)
  then show ?thesis using read_cur [OF assms, of 4] by (simp add: cursor_u32_def le_value_bytes)
qed

lemma u64_cur:
  assumes "fits pre (le_bytes 8 v @ rest)"
  shows "cursor_u64 (cur pre (le_bytes 8 v @ rest)) = Inr (word_of_nat v, cur (pre @ le_bytes 8 v) rest)"
proof -
  have "(word_of_nat (v mod 18446744073709551616) :: u64) = word_of_nat v"
    by (simp add: word_of_nat_eq_iff take_bit_eq_mod)
  then show ?thesis using read_cur [OF assms, of 8] by (simp add: cursor_u64_def le_value_bytes)
qed

lemma string_cur:
  assumes "fits pre (gguf_str s @ rest)"
  shows "cursor_string (cur pre (gguf_str s @ rest)) = Inr (s, cur (pre @ gguf_str s) rest)"
proof -
  have "length s < 2 ^ 64" using assms by (simp add: gguf_str_def)
  then have "cursor_read (word_of_nat (length s)) (cur (pre @ le_bytes 8 (length s)) (s @ rest)) =
      Inr (s, cur ((pre @ le_bytes 8 (length s)) @ s) rest)"
    using assms by (intro read_cur) (simp_all add: gguf_str_def word_index64)
  then show ?thesis using assms u64_cur [of pre "length s" "s @ rest"] by (simp add: cursor_string_def gguf_str_def)
qed

lemma skip_cur:
  assumes "fits pre (b @ rest)" "unat n = length b"
  shows "cursor_skip n (cur pre (b @ rest)) = Inr ((), cur (pre @ b) rest)"
  using read_cur [OF assms] by (auto simp: cursor_skip_def cursor_read_def split: if_splits)

lemma scalar_sizes: "scalar_value_size GGUF_VALUE_STRING = 0" "scalar_value_size GGUF_VALUE_ARRAY = 0"
  by (simp_all add: scalar_value_size_def)

text \<open>Items of a scalar type are skipped at once, all others one by one.\<close>

lemma scalar_items:
  assumes "\<forall>v \<in> set vs. value_type v = t \<and> value_wf l v" "scalar_value_size t \<noteq> 0"
  shows "length (concat (map value_bytes vs)) = length vs * unat (scalar_value_size t)"
  using assms
proof (induction vs)
  case (Cons v vs)
  then show ?case by (cases v) (auto simp: scalar_sizes)
qed simp

lemma value_bytes_ne: "value_wf l v \<Longrightarrow> 1 \<le> length (value_bytes v)"
  by (cases v) (auto simp: gguf_str_def Suc_le_eq unat_gt_0)

lemma items_length: "\<forall>v \<in> set vs. value_type v = t \<and> value_wf l v \<Longrightarrow> length vs \<le> length (concat (map value_bytes vs))"
proof (induction vs)
  case (Cons v vs)
  then show ?case using value_bytes_ne [of l v] by simp
qed simp

lemma mult_fits: "a < 2 ^ 64 \<Longrightarrow> a * unat n < 2 ^ 64 \<Longrightarrow> n \<noteq> 0 \<Longrightarrow>
    \<not> word_of_nat a > (0xffffffffffffffff :: u64) div n \<and> unat (word_of_nat a * n) = a * unat n"
proof -
  assume a: "a < 2 ^ 64" "a * unat n < 2 ^ 64" "n \<noteq> 0"
  have "a \<le> 0xffffffffffffffff div unat n" using a by (simp add: less_eq_div_iff_mult_less_eq unat_gt_0)
  then have "\<not> word_of_nat a > (0xffffffffffffffff :: u64) div n"
    using a(1) by (simp add: not_less word_le_nat_alt unat_div word_index64)
  moreover have "unat (word_of_nat a * n) = a * unat n" using a by (simp add: unat_word_ariths word_index64)
  ultimately show ?thesis by blast
qed

lemma skip_items_cur:
  "\<forall>v \<in> set vs. \<forall>pre rest. fits pre (value_bytes v @ rest) \<longrightarrow>
     skip_levels l t (cur pre (value_bytes v @ rest)) = Inr (cur (pre @ value_bytes v) rest) \<Longrightarrow>
   fits pre (concat (map value_bytes vs) @ rest) \<Longrightarrow>
   loop_times (skip_levels l t) (length vs) (cur pre (concat (map value_bytes vs) @ rest)) =
     Inr (cur (pre @ concat (map value_bytes vs)) rest)"
proof (induction vs arbitrary: pre)
  case (Cons v vs)
  have "skip_levels l t (cur pre (value_bytes v @ concat (map value_bytes vs) @ rest)) =
      Inr (cur (pre @ value_bytes v) (concat (map value_bytes vs) @ rest))"
    using Cons.prems by auto
  moreover have "loop_times (skip_levels l t) (length vs) (cur (pre @ value_bytes v) (concat (map value_bytes vs) @ rest)) =
      Inr (cur ((pre @ value_bytes v) @ concat (map value_bytes vs)) rest)"
    by (rule Cons.IH) (use Cons.prems in auto)
  ultimately show ?case by simp
qed simp

lemma skip_value_cur:
  "value_wf l v \<Longrightarrow> fits pre (value_bytes v @ rest) \<Longrightarrow>
    skip_levels l (value_type v) (cur pre (value_bytes v @ rest)) = Inr (cur (pre @ value_bytes v) rest)"
proof (induction v arbitrary: l pre rest)
  case (Scalar t b)
  then show ?case by (cases l) (simp_all add: Let_def skip_cur)
next
  case (Str s)
  then show ?case by (cases l) (simp_all add: Let_def scalar_sizes string_cur)
next
  case (Arr t vs)
  then obtain l' where l: "l = Suc l'" by (cases l) auto
  have items: "\<forall>v \<in> set vs. value_type v = t \<and> value_wf l' v" using Arr.prems(1) l by simp
  define head where "head = le_bytes 4 (unat t) @ le_bytes 8 (length vs)"
  define body where "body = concat (map value_bytes vs)"
  have f: "fits pre (le_bytes 4 (unat t) @ le_bytes 8 (length vs) @ body @ rest)" using Arr.prems(2) by (simp add: body_def)
  have h: "cursor_u32 (cur pre (value_bytes (Arr t vs) @ rest)) = Inr (t, cur (pre @ le_bytes 4 (unat t)) (le_bytes 8 (length vs) @ body @ rest))"
    "cursor_u64 (cur (pre @ le_bytes 4 (unat t)) (le_bytes 8 (length vs) @ body @ rest)) =
       Inr (word_of_nat (length vs), cur (pre @ head) (body @ rest))"
    using u32_cur [OF f] f u64_cur [of "pre @ le_bytes 4 (unat t)" "length vs" "body @ rest"]
    by (simp_all add: body_def head_def)
  have len: "length vs < 2 ^ 64" using items_length [OF items] f by (simp add: body_def)
  show ?case
  proof (cases "scalar_value_size t = 0")
    case False
    have size: "length body = length vs * unat (scalar_value_size t)" using scalar_items [OF items False] by (simp add: body_def)
    then have "length vs * unat (scalar_value_size t) < 2 ^ 64" using f by simp
    note m = mult_fits [OF len this False]
    have "cursor_skip (word_of_nat (length vs) * scalar_value_size t) (cur (pre @ head) (body @ rest)) =
        Inr ((), cur ((pre @ head) @ body) rest)"
      by (rule skip_cur) (use f m size in \<open>auto simp: head_def\<close>)
    with h m False show ?thesis
      by (simp add: l Let_def scalar_sizes del: value_bytes.simps) (simp add: head_def body_def)
  next
    case True
    have "loop_times (skip_levels l' t) (length vs) (cur (pre @ head) (body @ rest)) = Inr (cur ((pre @ head) @ body) rest)"
      unfolding body_def
    proof (rule skip_items_cur)
      show "\<forall>v \<in> set vs. \<forall>pre rest. fits pre (value_bytes v @ rest) \<longrightarrow>
          skip_levels l' t (cur pre (value_bytes v @ rest)) = Inr (cur (pre @ value_bytes v) rest)"
        using Arr.IH items by auto
      show "fits (pre @ head) (concat (map value_bytes vs) @ rest)" using f by (simp add: head_def body_def)
    qed
    with h True len show ?thesis
      by (simp add: l Let_def scalar_sizes word_index64 del: value_bytes.simps) (simp add: head_def body_def)
  qed
qed

section \<open>The metadata of a file\<close>

fun kv_records :: "nat \<Rightarrow> (string \<times> gguf_value) list \<Rightarrow> ds4_kv list" where
  "kv_records pos [] = []"
| "kv_records pos (kv # kvs) =
     \<lparr>kv_key = fst kv, kv_type = value_type (snd kv), kv_value_pos = word_of_nat (pos + 12 + length (fst kv))\<rparr> #
     kv_records (pos + length (kv_bytes kv)) kvs"

lemma cursor_at_cur:
  "md_map m = pre @ rest \<Longrightarrow> md_size m = word_of_nat (length (md_map m)) \<Longrightarrow> p = word_of_nat (length pre) \<Longrightarrow>
    cursor_at m p = cur pre rest"
  by (simp add: cursor_at_def cur_def)

lemma record_kv_keeps: "key \<noteq> ''general.alignment'' \<Longrightarrow> record_kv m key type pos =
    m\<lparr>md_kv := md_kv m @ [\<lparr>kv_key = key, kv_type = type, kv_value_pos = pos\<rparr>], md_alignment := md_alignment m\<rparr>"
  by (cases m) (simp add: record_kv_def)

lemma metadata_entry_cur:
  assumes wf: "value_wf 9 (snd kv)" and f: "fits pre (kv_bytes kv @ rest)"
  shows "\<exists>al. metadata_entry (m, cur pre (kv_bytes kv @ rest)) =
    Inr (m\<lparr>md_kv := md_kv m @ kv_records (length pre) [kv], md_alignment := al\<rparr>, cur (pre @ kv_bytes kv) rest) \<and>
    (fst kv \<noteq> ''general.alignment'' \<longrightarrow> al = md_alignment m)"
proof -
  obtain k v where kv: "kv = (k, v)" by (cases kv)
  define p2 where "p2 = pre @ gguf_str k @ le_bytes 4 (unat (value_type v))"
  have f': "fits pre (gguf_str k @ le_bytes 4 (unat (value_type v)) @ value_bytes v @ rest)" using f by (simp add: kv kv_bytes_def)
  have r: "cursor_string (cur pre (kv_bytes kv @ rest)) =
        Inr (k, cur (pre @ gguf_str k) (le_bytes 4 (unat (value_type v)) @ value_bytes v @ rest))"
      "cursor_u32 (cur (pre @ gguf_str k) (le_bytes 4 (unat (value_type v)) @ value_bytes v @ rest)) =
        Inr (value_type v, cur p2 (value_bytes v @ rest))"
      "skip_value (cur p2 (value_bytes v @ rest)) (value_type v) 0 = Inr (cur (p2 @ value_bytes v) rest)"
    using string_cur [OF f'] u32_cur [of "pre @ gguf_str k"] skip_value_cur [of 9 v p2 rest] f' wf
    by (simp_all add: kv kv_bytes_def p2_def skip_value_def)
  have pos: "cu_pos (cur p2 (value_bytes v @ rest)) = word_of_nat (length pre + 12 + length k)"
    by (simp add: cur_def p2_def gguf_str_def)
  have p2: "p2 @ value_bytes v = pre @ kv_bytes kv" by (simp add: p2_def kv kv_bytes_def)
  let ?pos = "word_of_nat (length pre + 12 + length k)"
  have "\<exists>al. record_kv m k (value_type v) ?pos = m\<lparr>md_kv := md_kv m @ kv_records (length pre) [kv], md_alignment := al\<rparr> \<and>
      (k \<noteq> ''general.alignment'' \<longrightarrow> al = md_alignment m)"
  proof (cases "k = ''general.alignment''")
    case True
    then show ?thesis using record_kv_alignment [of m k "value_type v" ?pos] by (auto simp: kv simp del: of_nat_add)
  next
    case False
    then show ?thesis using record_kv_keeps [OF False, of m "value_type v" ?pos] by (auto simp: kv simp del: of_nat_add)
  qed
  moreover have "metadata_entry (m, cur pre (kv_bytes kv @ rest)) = Inr (record_kv m k (value_type v) ?pos, cur (pre @ kv_bytes kv) rest)"
    by (simp add: metadata_entry_def r pos p2 del: of_nat_add)
  ultimately show ?thesis by (auto simp: kv)
qed

lemma metadata_loop_cur:
  "\<forall>kv \<in> set kvs. value_wf 9 (snd kv) \<Longrightarrow> fits pre (concat (map kv_bytes kvs) @ rest) \<Longrightarrow>
   \<exists>al. loop_times metadata_entry (length kvs) (m, cur pre (concat (map kv_bytes kvs) @ rest)) =
     Inr (m\<lparr>md_kv := md_kv m @ kv_records (length pre) kvs, md_alignment := al\<rparr>,
          cur (pre @ concat (map kv_bytes kvs)) rest) \<and>
     (''general.alignment'' \<notin> fst ` set kvs \<longrightarrow> al = md_alignment m)"
proof (induction kvs arbitrary: m pre)
  case Nil
  show ?case by (intro exI [of _ "md_alignment m"]) simp
next
  case (Cons kv kvs)
  let ?r = "concat (map kv_bytes kvs) @ rest"
  from metadata_entry_cur [of kv pre ?r m] Cons.prems obtain al where
    1: "metadata_entry (m, cur pre (kv_bytes kv @ ?r)) =
      Inr (m\<lparr>md_kv := md_kv m @ kv_records (length pre) [kv], md_alignment := al\<rparr>, cur (pre @ kv_bytes kv) ?r)"
      "fst kv \<noteq> ''general.alignment'' \<longrightarrow> al = md_alignment m"
    by auto
  from Cons.IH [of "pre @ kv_bytes kv" "m\<lparr>md_kv := md_kv m @ kv_records (length pre) [kv], md_alignment := al\<rparr>"] Cons.prems
  obtain al2 where
    2: "loop_times metadata_entry (length kvs)
       (m\<lparr>md_kv := md_kv m @ kv_records (length pre) [kv], md_alignment := al\<rparr>, cur (pre @ kv_bytes kv) ?r) =
     Inr (m\<lparr>md_kv := (md_kv m @ kv_records (length pre) [kv]) @ kv_records (length (pre @ kv_bytes kv)) kvs,
            md_alignment := al2\<rparr>, cur ((pre @ kv_bytes kv) @ concat (map kv_bytes kvs)) rest)"
     "''general.alignment'' \<notin> fst ` set kvs \<longrightarrow> al2 = al"
    by auto
  show ?case using 1 2 by (intro exI [of _ al2]) (auto simp: image_iff)
qed

lemma find_record:
  "map_of kvs k = Some v \<Longrightarrow>
   \<exists>pre' rest'. pre @ concat (map kv_bytes kvs) @ rest = pre' @ value_bytes v @ rest' \<and>
     find (\<lambda>kv. kv_key kv = k) (kv_records (length pre) kvs) =
       Some \<lparr>kv_key = k, kv_type = value_type v, kv_value_pos = word_of_nat (length pre')\<rparr>"
proof (induction kvs arbitrary: pre)
  case (Cons kv kvs)
  show ?case
  proof (cases "fst kv = k")
    case True
    with Cons.prems have v: "kv = (k, v)" by (cases kv) auto
    have kb: "kv_bytes (k, v) = gguf_str k @ le_bytes 4 (unat (value_type v)) @ value_bytes v" by (simp add: kv_bytes_def)
    have len: "length (gguf_str k) = 8 + length k" by (simp add: gguf_str_def)
    show ?thesis
      by (rule exI [of _ "pre @ gguf_str k @ le_bytes 4 (unat (value_type v))"], rule exI [of _ "concat (map kv_bytes kvs) @ rest"])
        (simp add: kb len v add.assoc del: of_nat_add)
  next
    case False
    with Cons.prems have "map_of kvs k = Some v" by (cases kv) auto
    from Cons.IH [OF this, of "pre @ kv_bytes kv"] False show ?thesis by simp
  qed
qed simp

lemma kv_bytes_many: "length kvs \<le> length (concat (map kv_bytes kvs))"
  by (induction kvs) (auto simp: kv_bytes_def gguf_str_def)

lemma magic_bytes: "''GGUF'' = le_bytes 4 0x46554747"
proof -
  have "le_bytes (Suc (Suc (Suc (Suc 0)))) 0x46554747 = [char_of (71 :: nat), char_of (71 :: nat), char_of (85 :: nat), char_of (70 :: nat)]"
    by (simp add: le_bytes.simps)
  moreover have "[char_of (71 :: nat), char_of (71 :: nat), char_of (85 :: nat), char_of (70 :: nat)] = ''GGUF''"
    by code_simp
  moreover have "(4 :: nat) = Suc (Suc (Suc (Suc 0)))" by simp
  ultimately show ?thesis by metis
qed

text \<open>The reads of the header.\<close>

lemma header_reads:
  assumes small: "length (gguf_file n kvs rest) < 2 ^ 64"
  defines "body \<equiv> concat (map kv_bytes kvs) @ rest"
    and "m0 \<equiv> le_bytes 4 0x46554747" and "m1 \<equiv> le_bytes 4 3" and "m2 \<equiv> le_bytes 8 n" and "m3 \<equiv> le_bytes 8 (length kvs)"
  shows "cursor_at (model_zero (gguf_file n kvs rest)) 0 = cur [] (m0 @ m1 @ m2 @ m3 @ body)"
    and "cursor_u32 (cur [] (m0 @ m1 @ m2 @ m3 @ body)) = Inr (0x46554747, cur m0 (m1 @ m2 @ m3 @ body))"
    and "cursor_u32 (cur m0 (m1 @ m2 @ m3 @ body)) = Inr (3, cur (m0 @ m1) (m2 @ m3 @ body))"
    and "cursor_u64 (cur (m0 @ m1) (m2 @ m3 @ body)) = Inr (word_of_nat n, cur (m0 @ m1 @ m2) (m3 @ body))"
    and "cursor_u64 (cur (m0 @ m1 @ m2) (m3 @ body)) = Inr (word_of_nat (length kvs), cur (m0 @ m1 @ m2 @ m3) body)"
    and "length (m0 @ m1 @ m2 @ m3) = 24" and "fits (m0 @ m1 @ m2 @ m3) body"
proof -
  have l: "length m0 = 4" "length m1 = 4" "length m2 = 8" "length m3 = 8"
    unfolding m0_def m1_def m2_def m3_def by (rule length_le_bytes)+
  have fileq: "gguf_file n kvs rest = m0 @ m1 @ m2 @ m3 @ body"
    unfolding gguf_file_def gguf_head_def magic_bytes m0_def m1_def m2_def m3_def body_def append_assoc ..
  have f: "24 + length body < 2 ^ 64" using small unfolding fileq by (simp add: l)
  show "cursor_at (model_zero (gguf_file n kvs rest)) 0 = cur [] (m0 @ m1 @ m2 @ m3 @ body)"
    unfolding fileq by (rule cursor_at_cur) (simp_all add: model_zero_def)
  show "cursor_u32 (cur [] (m0 @ m1 @ m2 @ m3 @ body)) = Inr (0x46554747, cur m0 (m1 @ m2 @ m3 @ body))"
    using u32_cur [of "[]" "0x46554747" "m1 @ m2 @ m3 @ body", folded m0_def] f l by simp
  show "cursor_u32 (cur m0 (m1 @ m2 @ m3 @ body)) = Inr (3, cur (m0 @ m1) (m2 @ m3 @ body))"
    using u32_cur [of m0 3 "m2 @ m3 @ body", folded m1_def] f l by simp
  show "cursor_u64 (cur (m0 @ m1) (m2 @ m3 @ body)) = Inr (word_of_nat n, cur (m0 @ m1 @ m2) (m3 @ body))"
    using u64_cur [of "m0 @ m1" n "m3 @ body", folded m2_def] f l by simp
  show "cursor_u64 (cur (m0 @ m1 @ m2) (m3 @ body)) = Inr (word_of_nat (length kvs), cur (m0 @ m1 @ m2 @ m3) body)"
    using u64_cur [of "m0 @ m1 @ m2" "length kvs" body, folded m3_def] f l by simp
  show "length (m0 @ m1 @ m2 @ m3) = 24" "fits (m0 @ m1 @ m2 @ m3) body" using l f by simp_all
qed

text \<open>Opening a file comes down to reading its tensors, with the metadata recorded.\<close>

lemma model_open_file:
  assumes wf: "\<forall>kv \<in> set kvs. value_wf 9 (snd kv)" and small: "length (gguf_file n kvs rest) < 2 ^ 64"
    and big: "8 \<le> length (concat (map kv_bytes kvs) @ rest)"
  obtains al pre where "model_open (gguf_file n kvs rest) =
      parse_tensors ((model_zero (gguf_file n kvs rest))\<lparr>md_version := 3, md_n_tensors := word_of_nat n,
        md_n_kv := word_of_nat (length kvs), md_kv := kv_records 24 kvs, md_alignment := al\<rparr>) (cur pre rest)"
    "gguf_file n kvs rest = pre @ rest" "''general.alignment'' \<notin> fst ` set kvs \<longrightarrow> al = 32"
proof -
  define body where "body = concat (map kv_bytes kvs) @ rest"
  define h where "h = le_bytes 4 0x46554747 @ le_bytes 4 3 @ le_bytes 8 n @ le_bytes 8 (length kvs)"
  note r = header_reads [OF small, folded body_def, folded h_def]
  have fileq: "gguf_file n kvs rest = h @ body"
    unfolding gguf_file_def gguf_head_def magic_bytes h_def body_def append_assoc ..
  have kvs_small: "unat (word_of_nat (length kvs) :: u64) = length kvs"
    using kv_bytes_many [of kvs] small by (intro word_index64) (simp add: gguf_file_def)
  let ?m1 = "(model_zero (gguf_file n kvs rest))\<lparr>md_version := 3, md_n_tensors := word_of_nat n, md_n_kv := word_of_nat (length kvs)\<rparr>"
  from metadata_loop_cur [OF wf r(7) [unfolded body_def], of "?m1\<lparr>md_kv := [], md_alignment := 32\<rparr>"] r(6) obtain al where
    md: "parse_metadata ?m1 (cur h body) =
      Inr (?m1\<lparr>md_kv := kv_records 24 kvs, md_alignment := al\<rparr>, cur (h @ concat (map kv_bytes kvs)) rest)"
      "''general.alignment'' \<notin> fst ` set kvs \<longrightarrow> al = 32"
    by (auto simp: parse_metadata_def kvs_small body_def)
  show ?thesis
  proof (rule that)
    have "\<not> length (gguf_file n kvs rest) < 32" using big r(6) unfolding fileq body_def by simp
    then show "model_open (gguf_file n kvs rest) = parse_tensors (?m1\<lparr>md_kv := kv_records 24 kvs, md_alignment := al\<rparr>)
        (cur (h @ concat (map kv_bytes kvs)) rest)"
      unfolding model_open_def Let_def r(1) r(2) by (simp add: r(3-5) md(1))
    show "gguf_file n kvs rest = (h @ concat (map kv_bytes kvs)) @ rest" by (simp add: fileq body_def)
    show "''general.alignment'' \<notin> fst ` set kvs \<longrightarrow> al = 32" by (rule md(2))
  qed
qed

lemma parse_tensors_extends:
  "parse_tensors m c = Inr m' \<Longrightarrow> \<exists>dp ts. m' = m\<lparr>md_tensor_data_pos := dp, md_tensors := ts\<rparr>"
  by (auto simp: parse_tensors_def and_then_Inr Let_def)

lemma gguf_file_metadata:
  assumes wf: "\<forall>kv \<in> set kvs. value_wf 9 (snd kv)" and small: "length (gguf_file n kvs rest) < 2 ^ 64"
    and run: "model_open (gguf_file n kvs rest) = Inr m"
  shows "md_map m = gguf_file n kvs rest \<and> md_size m = word_of_nat (length (md_map m)) \<and>
    md_kv m = kv_records 24 kvs"
proof -
  have "\<not> length (gguf_file n kvs rest) < 32" using run by (auto simp: model_open_def)
  then have "8 \<le> length (concat (map kv_bytes kvs) @ rest)"
    by (simp add: gguf_file_def gguf_head_def)
  from model_open_file [OF wf small this] obtain al pre where
    "model_open (gguf_file n kvs rest) =
      parse_tensors ((model_zero (gguf_file n kvs rest))\<lparr>md_version := 3, md_n_tensors := word_of_nat n,
        md_n_kv := word_of_nat (length kvs), md_kv := kv_records 24 kvs, md_alignment := al\<rparr>) (cur pre rest)"
    by blast
  then obtain dp ts where "m = (model_zero (gguf_file n kvs rest))\<lparr>md_version := 3, md_n_tensors := word_of_nat n,
        md_n_kv := word_of_nat (length kvs), md_kv := kv_records 24 kvs, md_alignment := al,
        md_tensor_data_pos := dp, md_tensors := ts\<rparr>"
    using run parse_tensors_extends by metis
  then show ?thesis by (simp add: model_zero_def)
qed

lemma get_value_at:
  assumes "model_find_kv m k = Some \<lparr>kv_key = k, kv_type = t, kv_value_pos = p\<rparr>" "cursor_at m p = c" "read c = Inr (x, c')"
  shows "get_value m k t read = Some x"
  using assms by (simp add: get_value_def)

section \<open>A file with a tensor\<close>

definition tensor_bytes :: "string \<Rightarrow> nat \<Rightarrow> nat \<Rightarrow> string" where
  \<comment> \<open>the directory entry of a tensor of one dimension at the start of the data\<close>
  "tensor_bytes nm d ty = gguf_str nm @ le_bytes 4 1 @ le_bytes 8 d @ le_bytes 4 ty @ le_bytes 8 0"

definition tensor_of :: "string \<Rightarrow> u64 \<Rightarrow> u32 \<Rightarrow> ds4_tensor" where
  "tensor_of nm d ty =
     \<lparr>tn_name = nm, tn_ndim = 1, tn_dim = [d], tn_type = ty, tn_rel_offset = 0, tn_abs_offset = 0, tn_elements = d,
      tn_bytes = (case tensor_nbytes ty d of None \<Rightarrow> 0 | Some b \<Rightarrow> b)\<rparr>"

lemma length_tensor_bytes [simp]: "length (tensor_bytes nm d ty) = 32 + length nm"
  by (simp add: tensor_bytes_def gguf_str_def)

lemma tensor_entry_cur:
  assumes "fits pre (tensor_bytes nm d ty @ rest)" and "0 < d" "d < 2 ^ 64"
  shows "tensor_entry ([], cur pre (tensor_bytes nm d ty @ rest)) =
    Inr ([tensor_of nm (word_of_nat d) (word_of_nat ty)], cur (pre @ tensor_bytes nm d ty) rest)"
proof -
  define p1 where "p1 = pre @ gguf_str nm"
  define r4 where "r4 = le_bytes 8 0 @ rest"
  define r3 where "r3 = le_bytes 4 ty @ r4"
  define r2 where "r2 = le_bytes 8 d @ r3"
  have f: "fits pre (gguf_str nm @ le_bytes 4 1 @ r2)" using assms(1) by (simp add: tensor_bytes_def r2_def r3_def r4_def)
  have c: "cur pre (tensor_bytes nm d ty @ rest) = cur pre (gguf_str nm @ le_bytes 4 1 @ r2)"
    by (simp add: tensor_bytes_def r2_def r3_def r4_def)
  have r: "cursor_string (cur pre (gguf_str nm @ le_bytes 4 1 @ r2)) = Inr (nm, cur p1 (le_bytes 4 1 @ r2))"
    "cursor_u32 (cur p1 (le_bytes 4 1 @ r2)) = Inr (1, cur (p1 @ le_bytes 4 1) r2)"
    "cursor_u64 (cur (p1 @ le_bytes 4 1) r2) = Inr (word_of_nat d, cur (p1 @ le_bytes 4 1 @ le_bytes 8 d) r3)"
    "cursor_u32 (cur (p1 @ le_bytes 4 1 @ le_bytes 8 d) r3) =
       Inr (word_of_nat ty, cur (p1 @ le_bytes 4 1 @ le_bytes 8 d @ le_bytes 4 ty) r4)"
    "cursor_u64 (cur (p1 @ le_bytes 4 1 @ le_bytes 8 d @ le_bytes 4 ty) r4) =
       Inr (0, cur (p1 @ le_bytes 4 1 @ le_bytes 8 d @ le_bytes 4 ty @ le_bytes 8 0) rest)"
    using string_cur [OF f] u32_cur [of p1 1 r2] u64_cur [of "p1 @ le_bytes 4 1" d r3] f
      u32_cur [of "p1 @ le_bytes 4 1 @ le_bytes 8 d" ty r4] u64_cur [of "p1 @ le_bytes 4 1 @ le_bytes 8 d @ le_bytes 4 ty" 0 rest]
    by (simp_all add: p1_def r2_def r3_def r4_def)
  have d: "(word_of_nat d :: u64) \<noteq> 0" using assms(2,3) word_index64 [OF assms(3)] by (metis less_numeral_extra(3) unsigned_0)
  have "0xffffffffffffffff div word_of_nat d \<noteq> (0 :: u64)"
  proof -
    have "(0xffffffffffffffff :: nat) div d \<noteq> 0" using assms(2,3) by (simp add: div_eq_0_iff)
    then have "unat (0xffffffffffffffff div word_of_nat d :: u64) \<noteq> 0" by (simp add: unat_div word_index64 [OF assms(3)])
    then show ?thesis by (metis unsigned_0)
  qed
  then have step: "dim_step ([], 1, cur (p1 @ le_bytes 4 1) r2) =
      Inr ([word_of_nat d], word_of_nat d, cur (p1 @ le_bytes 4 1 @ le_bytes 8 d) r3)"
    by (simp add: dim_step_def r not_less del: One_nat_def)
  have "loop_times dim_step (Suc 0) x = dim_step x" for x
    by (cases "dim_step x") simp_all
  then have one: "loop_times dim_step (unat (1 :: u32)) x = dim_step x" "loop_times dim_step 1 x = dim_step x" for x
    by simp_all
  show ?thesis unfolding c by (simp add: tensor_entry_def r one step tensor_of_def del: One_nat_def) (simp add: p1_def tensor_bytes_def)
qed

lemma model_open_tensor:
  assumes wf: "\<forall>kv \<in> set kvs. value_wf 9 (snd kv)" and al: "''general.alignment'' \<notin> fst ` set kvs"
    and small: "length (gguf_file 1 kvs (tensor_bytes nm d ty @ rest)) < 2 ^ 64" and d: "0 < d" "d < 2 ^ 64"
    and dp: "dp = align_up (word_of_nat (length (gguf_file 1 kvs (tensor_bytes nm d ty)))) 32"
    and placed: "place_tensor dp (word_of_nat (length (gguf_file 1 kvs (tensor_bytes nm d ty @ rest))))
      (tensor_of nm (word_of_nat d) (word_of_nat ty)) = Inr t"
  shows "\<exists>m. model_open (gguf_file 1 kvs (tensor_bytes nm d ty @ rest)) = Inr m \<and> md_tensors m = [t]"
proof -
  let ?file = "gguf_file 1 kvs (tensor_bytes nm d ty @ rest)"
  have big: "8 \<le> length (concat (map kv_bytes kvs) @ tensor_bytes nm d ty @ rest)" by simp
  obtain al' pre where
    run: "model_open ?file = parse_tensors ((model_zero ?file)\<lparr>md_version := 3, md_n_tensors := word_of_nat 1,
        md_n_kv := word_of_nat (length kvs), md_kv := kv_records 24 kvs, md_alignment := al'\<rparr>)
        (cur pre (tensor_bytes nm d ty @ rest))" and
    fileq: "?file = pre @ tensor_bytes nm d ty @ rest" and al': "''general.alignment'' \<notin> fst ` set kvs \<longrightarrow> al' = 32"
    by (rule model_open_file [OF wf small big])
  have al': "al' = 32" using al' al by blast
  have f: "fits pre (tensor_bytes nm d ty @ rest)" using small unfolding fileq by simp
  have "loop_times tensor_entry (Suc 0) x = tensor_entry x" for x
    by (cases "tensor_entry x") simp_all
  then have one: "loop_times tensor_entry (unat (1 :: u64)) x = tensor_entry x" "loop_times tensor_entry 1 x = tensor_entry x" for x
    by simp_all
  have pos: "cu_pos (cur (pre @ tensor_bytes nm d ty) rest) = word_of_nat (length (gguf_file 1 kvs (tensor_bytes nm d ty)))"
  proof -
    have "length (pre @ tensor_bytes nm d ty) = length (gguf_file 1 kvs (tensor_bytes nm d ty))"
      using arg_cong [OF fileq, of length] by (simp add: gguf_file_def)
    then show ?thesis by (simp only: cur_def ds4_cursor.select_convs)
  qed
  show ?thesis unfolding run
    using placed by (simp add: parse_tensors_def one tensor_entry_cur [OF f d] pos Let_def al' model_zero_def flip: dp del: One_nat_def)
qed

lemma sample_file: "\<exists>m. model_open (gguf_file 1 [(''general.name'', Str ''ds4'')] (tensor_bytes ''t'' 1 0 @ replicate 33 NUL)) = Inr m \<and>
    md_tensors m = [(tensor_of ''t'' 1 0)\<lparr>tn_abs_offset := 96\<rparr>]"
proof -
  have len: "length (gguf_file 1 [(''general.name'', Str ''ds4'')] (tensor_bytes ''t'' 1 0)) = 92"
    "length (gguf_file 1 [(''general.name'', Str ''ds4'')] (tensor_bytes ''t'' 1 0 @ replicate 33 NUL)) = 125"
    by (simp_all add: gguf_file_def gguf_head_def kv_bytes_def gguf_str_def)
  have bytes: "tensor_nbytes 0 1 = Some 4" by code_simp
  have al: "align_up 92 32 = 96" by code_simp
  have "place_tensor 96 125 (tensor_of ''t'' 1 0) = Inr ((tensor_of ''t'' 1 0)\<lparr>tn_abs_offset := 96\<rparr>)"
    by (simp add: place_tensor_def tensor_of_def bytes)
  then show ?thesis
    using model_open_tensor [of "[(''general.name'', Str ''ds4'')]" "''t''" 1 0 "replicate 33 NUL" 96] by (simp add: len al del: One_nat_def)
qed


text \<open>
  The size of a tensor wraps around: a file of 57 bytes is accepted whose tensor declares 2^64 - 1
  elements of the type q8_0. Rounding up to whole blocks overflows before the guard, so the tensor counts
  as empty and the check that its data lies in the file is skipped.
\<close>

theorem model_open_size_wraps:
  "length (gguf_file 1 [] (tensor_bytes ''t'' 0xffffffffffffffff 8)) = 57 \<and>
   (\<exists>m t. model_open (gguf_file 1 [] (tensor_bytes ''t'' 0xffffffffffffffff 8)) = Inr m \<and> md_tensors m = [t] \<and>
     tn_type t = 8 \<and> tn_elements t = 0xffffffffffffffff \<and> tn_bytes t = 0)"
proof -
  have len: "length (gguf_file 1 [] (tensor_bytes ''t'' 0xffffffffffffffff 8)) = 57"
    by (simp add: gguf_file_def gguf_head_def)
  have bytes: "tensor_nbytes 8 0xffffffffffffffff = Some 0" by code_simp
  have al: "align_up 57 32 = 64" by code_simp
  have "place_tensor 64 57 (tensor_of ''t'' 0xffffffffffffffff 8) =
      Inr ((tensor_of ''t'' 0xffffffffffffffff 8)\<lparr>tn_abs_offset := 64\<rparr>)"
    by (simp add: place_tensor_def tensor_of_def bytes)
  then have "\<exists>m. model_open (gguf_file 1 [] (tensor_bytes ''t'' 0xffffffffffffffff 8 @ [])) = Inr m \<and>
      md_tensors m = [(tensor_of ''t'' 0xffffffffffffffff 8)\<lparr>tn_abs_offset := 64\<rparr>]"
    by (intro model_open_tensor) (simp_all add: len al del: One_nat_def)
  with len show ?thesis by (auto simp: tensor_of_def bytes)
qed

lemma value_found:
  assumes "\<forall>kv \<in> set kvs. value_wf 9 (snd kv)" and "length (gguf_file n kvs rest) < 2 ^ 64"
    and "model_open (gguf_file n kvs rest) = Inr m" and "map_of kvs k = Some v"
  obtains pre rest' where "gguf_file n kvs rest = pre @ value_bytes v @ rest'"
    "model_find_kv m k = Some \<lparr>kv_key = k, kv_type = value_type v, kv_value_pos = word_of_nat (length pre)\<rparr>"
    "cursor_at m (word_of_nat (length pre)) = cur pre (value_bytes v @ rest')" "fits pre (value_bytes v @ rest')"
proof -
  note m = gguf_file_metadata [OF assms(1,2,3)]
  from find_record [OF assms(4), of "gguf_head n (length kvs)" rest] obtain pre rest' where
    fileq: "gguf_file n kvs rest = pre @ value_bytes v @ rest'" and
    fnd: "model_find_kv m k = Some \<lparr>kv_key = k, kv_type = value_type v, kv_value_pos = word_of_nat (length pre)\<rparr>"
    using m by (auto simp: gguf_file_def model_find_kv_def gguf_head_def)
  show ?thesis
  proof (rule that [OF fileq fnd])
    show "cursor_at m (word_of_nat (length pre)) = cur pre (value_bytes v @ rest')"
      using m fileq by (intro cursor_at_cur) auto
    show "fits pre (value_bytes v @ rest')" using assms(2) fileq by simp
  qed
qed

lemma array_found:
  assumes "\<forall>kv \<in> set kvs. value_wf 9 (snd kv)" and "length (gguf_file n kvs rest) < 2 ^ 64"
    and "model_open (gguf_file n kvs rest) = Inr m" and "map_of kvs k = Some (Arr t vs)"
  shows "\<exists>pre rest'. gguf_file n kvs rest = pre @ concat (map value_bytes vs) @ rest' \<and>
    model_get_array m k = Some \<lparr>ar_type = t, ar_len = word_of_nat (length vs), ar_data_pos = word_of_nat (length pre)\<rparr>"
proof -
  from value_found [OF assms] obtain pre rest' where
    fileq: "gguf_file n kvs rest = pre @ value_bytes (Arr t vs) @ rest'" and
    fnd: "model_find_kv m k = Some \<lparr>kv_key = k, kv_type = value_type (Arr t vs), kv_value_pos = word_of_nat (length pre)\<rparr>" and
    c: "cursor_at m (word_of_nat (length pre)) = cur pre (value_bytes (Arr t vs) @ rest')" and
    f: "fits pre (value_bytes (Arr t vs) @ rest')" by metis
  define p2 where "p2 = pre @ le_bytes 4 (unat t) @ le_bytes 8 (length vs)"
  define body where "body = concat (map value_bytes vs) @ rest'"
  have vb: "value_bytes (Arr t vs) @ rest' = le_bytes 4 (unat t) @ le_bytes 8 (length vs) @ body" by (simp add: body_def)
  have "cursor_u32 (cur pre (value_bytes (Arr t vs) @ rest')) = Inr (t, cur (pre @ le_bytes 4 (unat t)) (le_bytes 8 (length vs) @ body))"
    "cursor_u64 (cur (pre @ le_bytes 4 (unat t)) (le_bytes 8 (length vs) @ body)) = Inr (word_of_nat (length vs), cur p2 body)"
    using u32_cur [of pre "unat t" "le_bytes 8 (length vs) @ body"] f u64_cur [of "pre @ le_bytes 4 (unat t)" "length vs" body]
    unfolding vb by (simp_all add: p2_def)
  then have "model_get_array m k = Some \<lparr>ar_type = t, ar_len = word_of_nat (length vs), ar_data_pos = word_of_nat (length p2)\<rparr>"
    unfolding model_get_array_def using fnd c by (simp add: get_value_def del: value_bytes.simps) (simp add: cur_def)
  moreover have "gguf_file n kvs rest = p2 @ concat (map value_bytes vs) @ rest'"
    unfolding fileq vb by (simp add: p2_def body_def)
  ultimately show ?thesis by blast
qed

text \<open>
  C23. The metadata of a file is what was written in it: in every file that \<open>model_open\<close> accepts, whatever
  tensors follow, the lookups of strings, numbers, booleans and arrays return the first value written
  under a key.
\<close>

theorem gguf_lookups:
  assumes "\<forall>kv \<in> set kvs. value_wf 9 (snd kv)" and "length (gguf_file n kvs rest) < 2 ^ 64"
    and "model_open (gguf_file n kvs rest) = Inr m" and "map_of kvs k = Some v"
  shows "case v of
      Str s \<Rightarrow> model_get_string m k = Some s
    | Scalar t b \<Rightarrow>
        (\<forall>i. t = GGUF_VALUE_UINT32 \<and> b = le_bytes 4 i \<longrightarrow> model_get_u32 m k = Some (word_of_nat i)) \<and>
        (\<forall>i. t = GGUF_VALUE_UINT64 \<and> b = le_bytes 8 i \<longrightarrow> model_get_u64 m k = Some (word_of_nat i)) \<and>
        (\<forall>x. t = GGUF_VALUE_BOOL \<and> b = [x] \<longrightarrow> model_get_bool m k = Some (x \<noteq> NUL))
    | Arr t vs \<Rightarrow> (\<exists>pre rest'. gguf_file n kvs rest = pre @ concat (map value_bytes vs) @ rest' \<and>
        model_get_array m k = Some \<lparr>ar_type = t, ar_len = word_of_nat (length vs), ar_data_pos = word_of_nat (length pre)\<rparr>)"
proof -
  from value_found [OF assms] obtain pre rest' where
    fnd: "model_find_kv m k = Some \<lparr>kv_key = k, kv_type = value_type v, kv_value_pos = word_of_nat (length pre)\<rparr>" and
    c: "cursor_at m (word_of_nat (length pre)) = cur pre (value_bytes v @ rest')" and
    f: "fits pre (value_bytes v @ rest')" by metis
  note get = get_value_at [OF fnd c]
  show ?thesis
  proof (cases v)
    case (Str s)
    have "model_get_string m k = Some s"
      using get [of cursor_string s] string_cur [of pre s rest'] f by (simp add: Str model_get_string_def)
    then show ?thesis by (simp add: Str)
  next
    case (Scalar t b)
    have "model_get_u32 m k = Some (word_of_nat i)" if "t = GGUF_VALUE_UINT32" "b = le_bytes 4 i" for i
      using get [of cursor_u32] u32_cur [of pre i rest'] f that by (simp add: Scalar model_get_u32_def)
    moreover have "model_get_u64 m k = Some (word_of_nat i)" if "t = GGUF_VALUE_UINT64" "b = le_bytes 8 i" for i
      using get [of cursor_u64] u64_cur [of pre i rest'] f that by (simp add: Scalar model_get_u64_def)
    moreover have "model_get_bool m k = Some (x \<noteq> NUL)" if "t = GGUF_VALUE_BOOL" "b = [x]" for x
    proof -
      have "(byte_of x \<noteq> 0) = (x \<noteq> NUL)" using of_char_eq_iff [of x NUL, where ?'a = nat] by (simp add: byte_of_def)
      then show ?thesis
        using get [of "cursor_read 1" "[x]"] read_cur [of pre "[x]" rest' 1] f that by (simp add: Scalar model_get_bool_def)
    qed
    ultimately show ?thesis by (simp add: Scalar)
  next
    case (Arr t vs)
    with array_found [OF assms(1-3), of k t vs] assms(4) show ?thesis by simp
  qed
qed

lemma gguf_lookups_witness: "\<exists>m. model_get_string m ''general.name'' = Some ''ds4''"
proof -
  obtain m where m: "model_open (gguf_file 1 [(''general.name'', Str ''ds4'')] (tensor_bytes ''t'' 1 0 @ replicate 33 NUL)) = Inr m"
    using sample_file by blast
  have len: "length (gguf_file 1 [(''general.name'', Str ''ds4'')] (tensor_bytes ''t'' 1 0 @ replicate 33 NUL)) = 125"
    by (simp add: gguf_file_def gguf_head_def kv_bytes_def gguf_str_def)
  show ?thesis
    using gguf_lookups [OF _ _ m, of "''general.name''" "Str ''ds4''"] by (intro exI [of _ m]) (simp add: len del: One_nat_def)
qed

end
