(* ===== verification/Vocab.thy ===== *)
theory Vocab
  imports Tokenizer Gguf
begin

text \<open>
  Loading the vocabulary of ds4.c from the metadata of a GGUF file: the token strings, the table of
  their ids, the table of merge ranks and the ids of the special tokens. None is a hash table
  operation that does not end; \<open>Inl\<close> is the reason of a fatal error.
\<close>

datatype vocab_error = Token_table_invalid | Merge_table_invalid | Bad_file gguf_error | Missing_token string

definition vocab_lookup :: "ds4_vocab \<Rightarrow> string \<Rightarrow> (vocab_error + int) option" where
  "vocab_lookup vocab txt =
     map_option (\<lambda>r. case r of None \<Rightarrow> Inl (Missing_token txt) | Some token \<Rightarrow> Inr token)
       (table_get (vb_token_to_id vocab) txt)"

text \<open>The loops over the two arrays: \<open>n\<close> strings are still to be read, the next one gets the number \<open>i\<close>,
  which the code converts to a 32-bit int.\<close>

definition as_int :: "nat \<Rightarrow> int" where
  "as_int i = sint (word_of_nat i :: 32 word)"

fun load_strings :: "nat \<Rightarrow> nat \<Rightarrow> ds4_cursor \<Rightarrow> string list \<Rightarrow> str_i32_table \<Rightarrow> (vocab_error + string list \<times> str_i32_table) option" where
  "load_strings 0 i c acc t = Some (Inr (acc, t))"
| "load_strings (Suc n) i c acc t =
     (case cursor_string c of
        Inl e \<Rightarrow> Some (Inl (Bad_file e))
      | Inr (s, c1) \<Rightarrow>
          (case table_put t s (as_int i) of
             None \<Rightarrow> None
           | Some t1 \<Rightarrow> load_strings n (i + 1) c1 (acc @ [s]) t1))"

text \<open>Going on in both kinds of result.\<close>

definition and_load :: "('e + 'a) option \<Rightarrow> ('a \<Rightarrow> ('e + 'b) option) \<Rightarrow> ('e + 'b) option" where
  "and_load x f = (case x of None \<Rightarrow> None | Some (Inl e) \<Rightarrow> Some (Inl e) | Some (Inr a) \<Rightarrow> f a)"

lemma and_load_simps [simp]:
  "and_load None f = None" "and_load (Some (Inl e)) f = Some (Inl e)" "and_load (Some (Inr a)) f = f a"
  by (simp_all add: and_load_def)

definition load_array :: "ds4_model \<Rightarrow> ds4_array_ref \<Rightarrow> (vocab_error + string list \<times> str_i32_table) option" where
  "load_array model a =
     (case table_init (ar_len a) of
        None \<Rightarrow> None
      | Some t \<Rightarrow> load_strings (unat (ar_len a)) 0 (cursor_at model (ar_data_pos a)) [] t)"

definition vocab_specials :: "ds4_vocab \<Rightarrow> (vocab_error + ds4_vocab) option" where
  "vocab_specials v =
     and_load (vocab_lookup v BOS) (\<lambda>bos.
     and_load (vocab_lookup v EOS) (\<lambda>eos.
     and_load (vocab_lookup v USER_TAG) (\<lambda>user.
     and_load (vocab_lookup v ASSISTANT_TAG) (\<lambda>assistant.
     and_load (vocab_lookup v ''<think>'') (\<lambda>think_start.
     and_load (vocab_lookup v ''</think>'') (\<lambda>think_end.
     and_load (vocab_lookup v DS4_DSML) (\<lambda>dsml.
       Some (Inr (v\<lparr>vb_bos_id := bos, vb_eos_id := eos, vb_user_id := user, vb_assistant_id := assistant,
                    vb_think_start_id := think_start, vb_think_end_id := think_end, vb_dsml_id := dsml\<rparr>)))))))))"

definition vocab_load :: "ds4_model \<Rightarrow> (vocab_error + ds4_vocab) option" where
  "vocab_load model =
     (case model_get_array model ''tokenizer.ggml.tokens'' of
        None \<Rightarrow> Some (Inl Token_table_invalid)
      | Some tokens \<Rightarrow>
          if ar_type tokens \<noteq> GGUF_VALUE_STRING \<or> ar_len tokens > 2147483647 then Some (Inl Token_table_invalid)
          else
            (case model_get_array model ''tokenizer.ggml.merges'' of
               None \<Rightarrow> Some (Inl Merge_table_invalid)
             | Some merges \<Rightarrow>
                 if ar_type merges \<noteq> GGUF_VALUE_STRING then Some (Inl Merge_table_invalid)
                 else
                   and_load (load_array model tokens) (\<lambda>(token, token_to_id).
                   and_load (load_array model merges) (\<lambda>(_, merge_rank).
                     vocab_specials
                       \<lparr>vb_token = token, vb_bos_id = 0, vb_eos_id = 0, vb_user_id = 0, vb_assistant_id = 0,
                        vb_think_start_id = 0, vb_think_end_id = 0, vb_dsml_id = 0,
                        vb_token_to_id = token_to_id, vb_merge_rank = merge_rank\<rparr>))))"

end
