(* ===== verification/VocabFacts.thy ===== *)
theory VocabFacts
  imports TokenizerFacts GgufFile Vocab
begin

text \<open>
  A vocabulary that was loaded from a file: it has the token strings of the file in their order, its two
  tables answer with the index of a string, and it is fit for the tokenizer if the token list has every
  byte and what each merge makes.
\<close>

definition indexes :: "str_i32_table \<Rightarrow> string list \<Rightarrow> bool" where
  \<comment> \<open>the table finds the strings of the list, and only them, with an index of the string\<close>
  "indexes t ws \<longleftrightarrow> table_ok t 0 \<and>
     (\<forall>x i. table_map t x = Some i \<longrightarrow> 0 \<le> i \<and> nat i < length ws \<and> ws ! nat i = x) \<and>
     (\<forall>x \<in> set ws. table_map t x \<noteq> None)"

lemma as_int_small: "i < 2 ^ 31 \<Longrightarrow> as_int i = int i"
  by (simp add: as_int_def sint_uint signed_take_bit_int_eq_self uint_nat of_nat_inverse)

lemma load_strings_cur:
  "fits pre (concat (map gguf_str ss) @ rest) \<Longrightarrow> i + length ss \<le> 2 ^ 31 \<Longrightarrow>
   str_table.put_all (zip ss (map int [i..<i + length ss])) t = Some t' \<Longrightarrow>
   load_strings (length ss) i (cur pre (concat (map gguf_str ss) @ rest)) acc t = Some (Inr (acc @ ss, t'))"
proof (induction ss arbitrary: pre i acc t)
  case (Cons s ss)
  have up: "[i..<i + length (s # ss)] = i # [i + 1..<i + 1 + length ss]" by (simp add: upt_rec)
  obtain t1 where t1: "table_put t s (int i) = Some t1"
    "str_table.put_all (zip ss (map int [i + 1..<i + 1 + length ss])) t1 = Some t'"
    using Cons.prems(3) unfolding up by (auto simp: bind_eq_Some_conv simp del: upt_Suc)
  have 1: "cursor_string (cur pre (gguf_str s @ concat (map gguf_str ss) @ rest)) =
      Inr (s, cur (pre @ gguf_str s) (concat (map gguf_str ss) @ rest))"
    by (rule string_cur) (use Cons.prems(1) in simp)
  have "load_strings (length ss) (i + 1) (cur (pre @ gguf_str s) (concat (map gguf_str ss) @ rest)) (acc @ [s]) t1 =
      Some (Inr ((acc @ [s]) @ ss, t'))"
    by (rule Cons.IH [OF _ _ t1(2)]) (use Cons.prems in auto)
  then show ?case using 1 t1(1) Cons.prems(2) by (simp add: as_int_small)
qed simp

lemma load_array_file:
  assumes m: "md_map m = pre @ concat (map gguf_str ss) @ rest" "md_size m = word_of_nat (length (md_map m))"
    and f: "length (md_map m) < 2 ^ 64" and n: "length ss < 2 ^ 31"
  shows "\<exists>t. load_array m \<lparr>ar_type = ty, ar_len = word_of_nat (length ss), ar_data_pos = word_of_nat (length pre)\<rparr> =
      Some (Inr (ss, t)) \<and> indexes t ss"
proof -
  have "length ss + 16 < 2 ^ 62" using n by simp
  from index_table [OF this] obtain t0 t where
    t: "table_init (word_of_nat (length ss)) = Some t0"
      "str_table.put_all (zip ss (map int [0..<length ss])) t0 = Some t" and ok: "indexes t ss"
    unfolding indexes_def by blast
  have u: "unat (word_of_nat (length ss) :: u64) = length ss" using n by (intro word_index64) simp
  have c: "cursor_at m (word_of_nat (length pre)) = cur pre (concat (map gguf_str ss) @ rest)"
    using m by (intro cursor_at_cur) auto
  have "load_strings (length ss) 0 (cur pre (concat (map gguf_str ss) @ rest)) [] t0 = Some (Inr ([] @ ss, t))"
    by (rule load_strings_cur) (use f m n t(2) in auto)
  with ok show ?thesis by (intro exI [of _ t]) (simp add: load_array_def t(1) u c)
qed

lemma indexes_lookup:
  assumes "indexes (vb_token_to_id v) ws" "x \<in> set ws"
  shows "vocab_lookup v x = Some (Inr (the (table_map (vb_token_to_id v) x))) \<and>
    table_map (vb_token_to_id v) x = Some (the (table_map (vb_token_to_id v) x))"
proof -
  have "table_ok (vb_token_to_id v) 0" "table_map (vb_token_to_id v) x \<noteq> None" using assms by (auto simp: indexes_def)
  then show ?thesis by (auto simp: vocab_lookup_def str_table.get_entries)
qed

definition special_tokens :: "string list" where
  "special_tokens = [BOS, EOS, USER_TAG, ASSISTANT_TAG, ''<think>'', ''</think>'', DS4_DSML]"

lemma vocab_specials_ok:
  assumes t: "indexes (vb_token_to_id v) ws" "set special_tokens \<subseteq> set ws"
  shows "\<exists>v'. vocab_specials v = Some (Inr v') \<and> vb_token v' = vb_token v \<and> vb_token_to_id v' = vb_token_to_id v \<and>
    vb_merge_rank v' = vb_merge_rank v \<and> (\<forall>(txt, i) \<in> set (specials v'). table_map (vb_token_to_id v) txt = Some i)"
proof -
  have l: "vocab_lookup v x = Some (Inr (the (table_map (vb_token_to_id v) x)))"
    "table_map (vb_token_to_id v) x = Some (the (table_map (vb_token_to_id v) x))" if "x \<in> set special_tokens" for x
    using indexes_lookup [OF t(1), of x] t(2) that by blast+
  have m: "BOS \<in> set special_tokens" "EOS \<in> set special_tokens" "USER_TAG \<in> set special_tokens"
    "ASSISTANT_TAG \<in> set special_tokens" "''<think>'' \<in> set special_tokens" "''</think>'' \<in> set special_tokens"
    "DS4_DSML \<in> set special_tokens"
    unfolding special_tokens_def by simp_all
  show ?thesis unfolding vocab_specials_def using m [THEN l(2)] by (simp add: m [THEN l(1)] specials_def)
qed

text \<open>A token list with every byte and every merge result.\<close>

definition byte_level :: "string list \<Rightarrow> string list \<Rightarrow> bool" where
  "byte_level toks merges \<longleftrightarrow> (\<forall>c. byte_encode [c] \<in> set toks) \<and>
     (\<forall>a b. byte_encode a @ '' '' @ byte_encode b \<in> set merges \<longrightarrow> byte_encode (a @ b) \<in> set toks)"

text \<open>
  C19. Loading the vocabulary from a file that lists the special tokens succeeds: the token strings are
  those of the file, in order; an id is an index of its string and a rank an index of its merge, for
  exactly the listed strings; and if the tokens include every byte and every merge result then
  the vocabulary is one with which tokenizing loses nothing.
\<close>

theorem vocab_load_ok:
  assumes "\<forall>kv \<in> set kvs. value_wf 9 (snd kv)" and "length (gguf_file n kvs rest) < 2 ^ 64"
    and "model_open (gguf_file n kvs rest) = Inr m"
    and toks: "map_of kvs ''tokenizer.ggml.tokens'' = Some (Arr GGUF_VALUE_STRING (map Str toks))" "length toks < 2 ^ 31"
    and merges: "map_of kvs ''tokenizer.ggml.merges'' = Some (Arr GGUF_VALUE_STRING (map Str merges))" "length merges < 2 ^ 31"
    and sp: "set special_tokens \<subseteq> set toks"
  shows "\<exists>v. vocab_load m = Some (Inr v) \<and> vb_token v = toks \<and> indexes (vb_token_to_id v) toks \<and>
    indexes (vb_merge_rank v) merges \<and> (byte_level toks merges \<longrightarrow> vocab_ok v)"
proof -
  note m = gguf_file_metadata [OF assms(1-3)]
  have small: "length (md_map m) < 2 ^ 64" "md_size m = word_of_nat (length (md_map m))" using m assms(2) by auto
  have strs: "concat (map value_bytes (map Str ss)) = concat (map gguf_str ss)" for ss by (simp add: comp_def)
  from array_found [OF assms(1-3) toks(1)] obtain pre1 rest1 where
    1: "md_map m = pre1 @ concat (map gguf_str toks) @ rest1"
      "model_get_array m ''tokenizer.ggml.tokens'' =
        Some \<lparr>ar_type = GGUF_VALUE_STRING, ar_len = word_of_nat (length toks), ar_data_pos = word_of_nat (length pre1)\<rparr>"
    using m unfolding strs by auto
  from array_found [OF assms(1-3) merges(1)] obtain pre2 rest2 where
    2: "md_map m = pre2 @ concat (map gguf_str merges) @ rest2"
      "model_get_array m ''tokenizer.ggml.merges'' =
        Some \<lparr>ar_type = GGUF_VALUE_STRING, ar_len = word_of_nat (length merges), ar_data_pos = word_of_nat (length pre2)\<rparr>"
    using m unfolding strs by auto
  from load_array_file [OF 1(1) small(2,1) toks(2), of GGUF_VALUE_STRING] obtain t where
    t: "load_array m \<lparr>ar_type = GGUF_VALUE_STRING, ar_len = word_of_nat (length toks), ar_data_pos = word_of_nat (length pre1)\<rparr> =
      Some (Inr (toks, t))" "indexes t toks" by blast
  from load_array_file [OF 2(1) small(2,1) merges(2), of GGUF_VALUE_STRING] obtain r where
    r: "load_array m \<lparr>ar_type = GGUF_VALUE_STRING, ar_len = word_of_nat (length merges), ar_data_pos = word_of_nat (length pre2)\<rparr> =
      Some (Inr (merges, r))" "indexes r merges" by blast
  define v0 where "v0 = \<lparr>vb_token = toks, vb_bos_id = 0, vb_eos_id = 0, vb_user_id = 0, vb_assistant_id = 0,
    vb_think_start_id = 0, vb_think_end_id = 0, vb_dsml_id = 0, vb_token_to_id = t, vb_merge_rank = r\<rparr>"
  have v0: "vb_token_to_id v0 = t" "vb_token v0 = toks" "vb_merge_rank v0 = r" by (simp_all add: v0_def)
  from vocab_specials_ok [of v0 toks] t(2) sp obtain v where
    v: "vocab_specials v0 = Some (Inr v)" "vb_token v = toks" "vb_token_to_id v = t" "vb_merge_rank v = r"
      "\<forall>(txt, i) \<in> set (specials v). table_map t txt = Some i"
    unfolding v0 by blast
  have len: "\<not> (word_of_nat (length toks) > (2147483647 :: u64))"
    using toks(2) by (simp add: not_less word_le_nat_alt word_index64)
  have "vocab_load m = Some (Inr v)"
    by (simp add: vocab_load_def 1(2) 2(2) len t(1) r(1) v(1) flip: v0_def)
  moreover have "vocab_ok v" if bl: "byte_level toks merges"
  proof -
    have ids: "token_id v x = table_map t x" "merge_rank_of v a b = table_map r (a @ '' '' @ b)" for x a b
      by (simp_all add: token_id_def merge_rank_of_def v)
    have in_merges: "x \<in> set merges" if "table_map r x \<noteq> None" for x
      using that r(2) unfolding indexes_def by (metis nth_mem option.exhaust)
    have known: "table_map t x \<noteq> None" if "x \<in> set toks" for x
      using that t(2) unfolding indexes_def by blast
    show ?thesis unfolding vocab_ok_def ids v(2-4)
    proof (intro conjI)
      show "\<exists>n. table_ok t n" "\<exists>n. table_ok r n" using t(2) r(2) by (auto simp: indexes_def)
      show "\<forall>x i. table_map t x = Some i \<longrightarrow> 0 \<le> i \<and> nat i < length toks \<and> toks ! nat i = x"
        using t(2) by (simp add: indexes_def)
      show "\<forall>c. table_map t (byte_encode [c]) \<noteq> None" using bl known unfolding byte_level_def by blast
      show "\<forall>a b. table_map r (byte_encode a @ '' '' @ byte_encode b) \<noteq> None \<longrightarrow> table_map t (byte_encode (a @ b)) \<noteq> None"
        using bl known in_merges unfolding byte_level_def by blast
    qed (rule v(5))
  qed
  ultimately show ?thesis using v t(2) r(2) by (intro exI [of _ v]) simp
qed

lemma sample_tokens_size: "length (concat (map gguf_str sample_tokens)) \<le> 3000"
proof -
  have enc2: "length (enc c) \<le> 2" for c by (cases c rule: enc_cases) simp_all
  have "length (gguf_str (byte_encode [c])) \<le> 10" for c using enc2 [of c] by (simp add: gguf_str_def)
  note ten = this
  have "length (concat (map gguf_str (map (\<lambda>n. byte_encode [char_of n]) ns))) \<le> 10 * length ns" for ns :: "nat list"
  proof (induction ns)
    case (Cons n ns)
    then show ?case using ten [of "char_of n"] by (simp del: byte_encode_simps)
  qed simp
  from this [of "[0..<256]"] have "length (concat (map gguf_str (map (\<lambda>n. byte_encode [char_of n]) [0..<256]))) \<le> 2560" by simp
  moreover have "length (concat (map gguf_str [BOS, EOS, USER_TAG, ASSISTANT_TAG, ''<think>'', ''</think>'', DS4_DSML, byte_encode ''hi''])) \<le> 400"
    using enc2 [of "CHR ''h''"] enc2 [of "CHR ''i''"]
    by (simp add: gguf_str_def BOS_def EOS_def USER_TAG_def ASSISTANT_TAG_def DS4_DSML_def BAR_def)
  ultimately show ?thesis unfolding sample_tokens_def by (simp del: byte_encode_simps)
qed

lemma vocab_load_ok_witness:
  "\<exists>m v. vocab_load m = Some (Inr v) \<and> vb_token v = sample_tokens \<and> vocab_ok v"
proof -
  let ?kvs = "[(''tokenizer.ggml.tokens'', Arr GGUF_VALUE_STRING (map Str sample_tokens)),
    (''tokenizer.ggml.merges'', Arr GGUF_VALUE_STRING (map Str [''h i'']))]"
  let ?file = "gguf_file 1 ?kvs (tensor_bytes ''t'' 1 4)"
  have "length (concat (map value_bytes (map Str sample_tokens))) \<le> 3000"
    using sample_tokens_size by (simp add: comp_def)
  then have small: "length ?file \<le> 4000"
    by (simp add: gguf_file_def gguf_head_def kv_bytes_def gguf_str_def del: map_map)
  then have len: "length ?file < 2 ^ 64" by (rule le_less_trans) simp
  have wf: "\<forall>kv \<in> set ?kvs. value_wf 9 (snd kv)" by simp
  let ?dp = "align_up (word_of_nat (length ?file)) 32"
  have "tensor_nbytes 4 1 = None" by code_simp
  then have "place_tensor ?dp (word_of_nat (length ?file)) (tensor_of ''t'' 1 4) = Inr ((tensor_of ''t'' 1 4)\<lparr>tn_abs_offset := ?dp\<rparr>)"
    by (simp add: place_tensor_def tensor_of_def)
  then obtain m where m: "model_open ?file = Inr m"
    using model_open_tensor [OF wf, of "''t''" 1 4 "[]" ?dp] len by (auto simp del: One_nat_def)
  have n: "length sample_tokens < 2 ^ 31" "length [''h i''] < 2 ^ 31" by (simp_all add: sample_tokens_def)
  have sp: "set special_tokens \<subseteq> set sample_tokens" by (simp add: special_tokens_def sample_tokens_def)
  have "byte_level sample_tokens [''h i'']"
    unfolding byte_level_def using sample_bytes sample_merge by (metis empty_iff empty_set set_ConsD)
  with vocab_load_ok [OF wf len m _ n(1) _ n(2) sp] show ?thesis by (intro exI [of _ m]) auto
qed

end
