(* ===== verification/Http.thy ===== *)
theory Http
  imports Sse
begin

text \<open>
  The HTTP side of ds4_server.c: reading a request from a socket, the model list, and the routing of
  a request to its parser. A socket is the list of what \<open>recv\<close> will deliver: pieces of data, of which a
  call takes at most as many bytes as its buffer has, interruptions (EINTR) and failures; at the end
  of the list, and on empty data, the peer has closed the connection.
\<close>

section \<open>Receiving\<close>

datatype recv_event = Data string | Interrupted | Failed

datatype recv_result = Got string | Again | Closed

fun recv :: "nat \<Rightarrow> recv_event list \<Rightarrow> recv_result \<times> recv_event list" where
  "recv n [] = (Closed, [])"
| "recv n (Interrupted # sock) = (Again, sock)"
| "recv n (Failed # sock) = (Closed, sock)"
| "recv n (Data s # sock) =
     (if s = [] then (Closed, sock)
      else if length s \<le> n then (Got s, sock)
      else (Got (take n s), Data (drop n s) # sock))"

definition CR :: char where "CR = CHR 0x0D"
definition CRLF :: string where "CRLF = [CR, NL]"

definition header_end :: "string \<Rightarrow> nat option" where
  \<comment> \<open>both loops look for the first place\<close>
  "header_end p =
     (case strstr p (CRLF @ CRLF) of
        Some i \<Rightarrow> Some (i + 4)
      | None \<Rightarrow> map_option (\<lambda>i. i + 2) (strstr p [NL, NL]))"

text \<open>\<open>strtol\<close> with base 10, as far as its result goes: leading blanks, a sign, digits, clamped to a long.\<close>

fun digits_value :: "string \<Rightarrow> nat \<Rightarrow> nat" where
  "digits_value [] n = n"
| "digits_value (c # s) n =
     (if 48 \<le> byte_of c \<and> byte_of c \<le> 57 then digits_value s (n * 10 + (byte_of c - 48)) else n)"

definition strtol10 :: "string \<Rightarrow> int" where
  "strtol10 s =
     (let p = dropWhile isspace s;
          neg = (peek p = CHR ''-'');
          ds = (if neg \<or> peek p = CHR ''+'' then tl p else p);
          v = (if neg then - int (digits_value ds 0) else int (digits_value ds 0))
      in max (- (2 ^ 63)) (min (2 ^ 63 - 1) v))"

definition tolower :: "char \<Rightarrow> char" where
  "tolower c = (if 65 \<le> byte_of c \<and> byte_of c \<le> 90 then char_of (byte_of c + 32) else c)"

definition strncasecmp_eq :: "string \<Rightarrow> string \<Rightarrow> nat \<Rightarrow> bool" where
  \<comment> \<open>\<open>strncasecmp (a, b, n) == 0\<close> where both are at least \<open>n\<close> bytes long and have no NUL\<close>
  "strncasecmp_eq a b n \<longleftrightarrow> map tolower (take n a) = map tolower (take n b)"

text \<open>The loop over the lines: \<open>p\<close> is the rest of the buffer, the first \<open>n\<close> bytes of which are header.
  The number is read from the buffer, wherever the line ends.\<close>

function content_length :: "string \<Rightarrow> nat \<Rightarrow> int" where
  "content_length p n =
     (if n = 0 \<or> p = [] then 0
      else
        let line = takeWhile (\<lambda>c. c \<noteq> NL) (take n p);
            len = (if line \<noteq> [] \<and> last line = CR then length line - 1 else length line)
        in if len \<ge> 15 \<and> strncasecmp_eq line ''Content-Length:'' 15
           then strtol10 (drop (15 + length (takeWhile isspace (drop 15 (take len line)))) p)
           else content_length (drop (Suc (length line)) p) (n - Suc (length line)))"
  by pat_completeness auto
termination
  by (relation "measure snd") auto

declare content_length.simps [simp del]

definition max_header :: nat where "max_header = 64 * 1024"
definition max_body :: int where "max_body = 64 * 1024 * 1024"

fun sock_size :: "recv_event list \<Rightarrow> nat" where
  "sock_size [] = 0"
| "sock_size (Data s # sock) = Suc (length s) + sock_size sock"
| "sock_size (e # sock) = Suc (sock_size sock)"

lemma recv_smaller: "(r, sock') = recv n sock \<Longrightarrow> 0 < n \<Longrightarrow> r \<noteq> Closed \<Longrightarrow> sock_size sock' < sock_size sock"
  by (cases "(n, sock)" rule: recv.cases) (auto split: if_splits)

function read_header :: "string \<Rightarrow> recv_event list \<Rightarrow> (string \<times> nat \<times> recv_event list) option" where
  \<comment> \<open>\<open>while (hend < 0 && b.len < max_header)\<close>\<close>
  "read_header b sock =
     (if length b \<ge> max_header then None
      else case recv 4096 sock of
        (Again, sock1) \<Rightarrow> read_header b sock1
      | (Closed, sock1) \<Rightarrow> None
      | (Got s, sock1) \<Rightarrow>
          (case header_end (b @ s) of
             Some hend \<Rightarrow> Some (b @ s, hend, sock1)
           | None \<Rightarrow> read_header (b @ s) sock1))"
  by pat_completeness auto
termination
  by (relation "measure (\<lambda>(b, sock). sock_size sock)") (auto intro: recv_smaller)

declare read_header.simps [simp del]

function read_body :: "string \<Rightarrow> nat \<Rightarrow> recv_event list \<Rightarrow> (string \<times> recv_event list) option" where
  \<comment> \<open>\<open>while (b.len < hend + clen)\<close>\<close>
  "read_body b total_len sock =
     (if length b \<ge> total_len then Some (b, sock)
      else case recv 8192 sock of
        (Again, sock1) \<Rightarrow> read_body b total_len sock1
      | (Closed, sock1) \<Rightarrow> None
      | (Got s, sock1) \<Rightarrow> read_body (b @ s) total_len sock1)"
  by pat_completeness auto
termination
  by (relation "measure (\<lambda>(b, n, sock). sock_size sock)") (auto intro: recv_smaller)

declare read_body.simps [simp del]

record http_request =
  hr_method :: cstr
  hr_path :: cstr
  hr_body :: string

text \<open>\<open>sscanf (line, "%7s %255s", method, path)\<close>: None unless both are there.\<close>

definition scan_word :: "nat \<Rightarrow> string \<Rightarrow> (cstr \<times> string) option" where
  "scan_word n s =
     (let p = dropWhile isspace s; w = take n (takeWhile (\<lambda>c. \<not> isspace c) p)
      in if w = [] then None else Some (w, drop (length w) p))"

definition request_line :: "string \<Rightarrow> (cstr \<times> cstr) option" where
  "request_line b =
     (let line = c_str (take 511 (takeWhile (\<lambda>c. c \<noteq> NL) b)) in
      case scan_word 7 line of
        None \<Rightarrow> None
      | Some (method, r) \<Rightarrow> map_option (\<lambda>(path, _). (method, path)) (scan_word 255 r))"

definition read_http_request :: "recv_event list \<Rightarrow> (http_request \<times> recv_event list) option" where
  "read_http_request sock =
     (case read_header [] sock of
        None \<Rightarrow> None
      | Some (b, hend, sock1) \<Rightarrow>
          (case request_line b of
             None \<Rightarrow> None
           | Some (method, path) \<Rightarrow>
               let clen = content_length b hend in
               if clen < 0 \<or> clen > max_body then None
               else
                 map_option (\<lambda>(b1, sock2).
                     (\<lparr>hr_method = method, hr_path = takeWhile (\<lambda>c. c \<noteq> CHR ''?'') path,
                       hr_body = take (nat clen) (drop hend b1)\<rparr>, sock2))
                   (read_body b (hend + nat clen) sock1)))"

section \<open>The model list\<close>

definition append_model_json_values :: "string \<Rightarrow> int \<Rightarrow> int \<Rightarrow> string" where
  \<open>append_model_json_values b ctx default_tokens =
     (let max_completion = (if default_tokens < ctx then default_tokens else ctx) in
      b @ ''{"id":"deepseek-v4-flash","object":"model","created":1767225600,"owned_by":"ds4.c",'' @
      ''"name":"DeepSeek V4 Flash","context_length":'' @ dec_int ctx @
      '',"top_provider":{"context_length":'' @ dec_int ctx @
      '',"max_completion_tokens":'' @ dec_int max_completion @
      '',"is_moderated":false},"supported_parameters":["tools","tool_choice","max_tokens","temperature",'' @
      ''"top_p","top_k","min_p","stop","seed","stream","reasoning_effort"]}'')\<close>

definition send_model :: "net \<Rightarrow> int \<Rightarrow> int \<Rightarrow> net \<times> bool" where
  "send_model w ctx default_tokens =
     http_response w 200 ''application/json'' (append_model_json_values [] ctx default_tokens @ [NL])"

definition send_models :: "net \<Rightarrow> int \<Rightarrow> int \<Rightarrow> net \<times> bool" where
  \<open>send_models w ctx default_tokens =
     http_response w 200 ''application/json''
       (append_model_json_values ''{"object":"list","data":['' ctx default_tokens @ '']}'' @ [NL])\<close>

section \<open>Routing\<close>

text \<open>What becomes of a connection before the job queue: it is answered, or a job is to be queued, or
  the request parser frees a string twice.\<close>

datatype 's client_action = Answered net | Queue_job request 's net | Client_memory_error

definition client_request ::
  "(double \<Rightarrow> double) \<Rightarrow> kv_env \<Rightarrow> (cstr \<Rightarrow> int list) \<Rightarrow> int \<Rightarrow> int \<Rightarrow> ('ses, 'b) kv_server_scheme \<Rightarrow>
   http_request \<Rightarrow> ('ses, 'b) kv_server_scheme req_result option" where
  \<comment> \<open>None: no such endpoint\<close>
  "client_request narrow env tokenize default_tokens ctx_size s hr =
     (let body = c_str (hr_body hr) in
      if hr_method hr = ''POST'' \<and> hr_path hr = ''/v1/messages''
      then Some (parse_anthropic_request narrow env tokenize s body default_tokens ctx_size)
      else if hr_method hr = ''POST'' \<and> hr_path hr = ''/v1/chat/completions''
      then Some (parse_chat_request narrow env tokenize s body default_tokens ctx_size)
      else if hr_method hr = ''POST'' \<and> hr_path hr = ''/v1/completions''
      then Some (parse_completion_request narrow tokenize s body default_tokens ctx_size)
      else None)"

definition client_main ::
  "(double \<Rightarrow> double) \<Rightarrow> kv_env \<Rightarrow> (cstr \<Rightarrow> int list) \<Rightarrow> int \<Rightarrow> int \<Rightarrow> ('ses, 'b) kv_server_scheme \<Rightarrow>
   recv_event list \<Rightarrow> net \<Rightarrow> ('ses, 'b) kv_server_scheme client_action" where
  \<comment> \<open>up to the call of \<open>enqueue\<close>\<close>
  "client_main narrow env tokenize default_tokens ctx_size s sock w =
     (case read_http_request sock of
        None \<Rightarrow> Answered (fst (http_error w 400 ''bad HTTP request''))
      | Some (hr, _) \<Rightarrow>
          if hr_method hr = ''GET'' \<and> hr_path hr = ''/v1/models''
          then Answered (fst (send_models w ctx_size default_tokens))
          else if hr_method hr = ''GET'' \<and> hr_path hr = ''/v1/models/deepseek-v4-flash''
          then Answered (fst (send_model w ctx_size default_tokens))
          else
            (case client_request narrow env tokenize default_tokens ctx_size s hr of
               None \<Rightarrow> Answered (fst (http_error w 404 ''unknown endpoint''))
             | Some Memory_error \<Rightarrow> Client_memory_error
             | Some (Rejected err) \<Rightarrow> Answered (fst (http_error w 400 err))
             | Some (Accepted req s1) \<Rightarrow> Queue_job req s1 w))"

end
