(* ===== verification/HttpFacts.thy ===== *)
theory HttpFacts
  imports Http
begin

text \<open>
  Reading an HTTP request: a request with CRLF line ends is read back exactly, whatever pieces the
  socket delivers it in; a request with bare LF line ends may not be.
\<close>

section \<open>Requests as they are written\<close>

definition lines_text :: "string list \<Rightarrow> string" where
  "lines_text ls = concat (map (\<lambda>l. l @ CRLF) ls) @ CRLF"

definition header_line :: "cstr \<times> cstr \<Rightarrow> string" where
  "header_line h = fst h @ '': '' @ snd h"

definition http_head :: "cstr \<Rightarrow> cstr \<Rightarrow> (cstr \<times> cstr) list \<Rightarrow> string" where
  "http_head method path hs = lines_text ((method @ '' '' @ path @ '' HTTP/1.1'') # map header_line hs)"

definition word_ok :: "nat \<Rightarrow> string \<Rightarrow> bool" where
  \<comment> \<open>a method or a path\<close>
  "word_ok n w \<longleftrightarrow> w \<noteq> [] \<and> length w \<le> n \<and> (\<forall>c \<in> set w. \<not> isspace c \<and> c \<noteq> NUL)"

definition same_name :: "string \<Rightarrow> string \<Rightarrow> bool" where
  "same_name a b \<longleftrightarrow> map tolower a = map tolower b"

definition header_ok :: "cstr \<times> cstr \<Rightarrow> bool" where
  \<comment> \<open>no line ends inside, and a content length is written in decimal\<close>
  "header_ok h \<longleftrightarrow> CHR '':'' \<notin> set (fst h) \<and> set (header_line h) \<inter> {CR, NL} = {} \<and>
     (same_name (fst h) ''Content-Length'' \<longrightarrow> (\<exists>n. snd h = dec_nat n))"

definition announced :: "(cstr \<times> cstr) list \<Rightarrow> nat" where
  "announced hs =
     (case find (\<lambda>h. same_name (fst h) ''Content-Length'') hs of
        None \<Rightarrow> 0 | Some h \<Rightarrow> digits_value (snd h) 0)"

section \<open>Sockets\<close>

fun delivers :: "recv_event list \<Rightarrow> string \<Rightarrow> bool" where
  \<comment> \<open>the bytes arrive, in any pieces, with any interruptions\<close>
  "delivers [] s \<longleftrightarrow> s = []"
| "delivers (Interrupted # sock) s \<longleftrightarrow> delivers sock s"
| "delivers (Failed # sock) s \<longleftrightarrow> s = []"
| "delivers (Data d # sock) s \<longleftrightarrow> (if d = [] then s = [] else prefix d s \<and> delivers sock (drop (length d) s))"

lemma recv_delivers:
  assumes "delivers sock s" "s \<noteq> []" "0 < n"
  shows "(\<exists>k. recv n sock = (Again, k) \<and> delivers k s \<and> sock_size k < sock_size sock) \<or>
    (\<exists>d r k. recv n sock = (Got d, k) \<and> d \<noteq> [] \<and> s = d @ r \<and> delivers k r \<and> sock_size k < sock_size sock)"
proof (cases sock)
  case Nil
  with assms show ?thesis by simp
next
  case (Cons e k)
  show ?thesis
  proof (cases e)
    case (Data d)
    with Cons assms have d: "d \<noteq> []" "prefix d s" "delivers k (drop (length d) s)" by (auto split: if_splits)
    then obtain r where r: "s = d @ r" by (auto simp: prefix_def)
    show ?thesis
    proof (cases "length d \<le> n")
      case True
      then show ?thesis using Cons Data d r by auto
    next
      case False
      have "s = take n d @ drop n d @ r" by (simp add: r)
      moreover have "delivers (Data (drop n d) # k) (drop n d @ r)" using d False by (simp add: r)
      ultimately show ?thesis using False Cons Data d assms(3)
        by (intro disjI2 exI [of _ "take n d"] exI [of _ "drop n d @ r"] exI [of _ "Data (drop n d) # k"]) auto
    qed
  qed (use Cons assms in auto)
qed

text \<open>Reading up to the end of a header that is not ended early.\<close>

lemma read_header_delivers:
  assumes early: "\<And>k. k < length hdr \<Longrightarrow> header_end (take k hdr) = None"
    and here: "\<And>r. header_end (hdr @ r) = Some (length hdr)" and short: "length hdr \<le> max_header"
  shows "delivers sock r \<Longrightarrow> b @ r = hdr @ body \<Longrightarrow> length b < length hdr \<Longrightarrow>
    \<exists>b' r' sock'. read_header b sock = Some (b', length hdr, sock') \<and> b' @ r' = hdr @ body \<and>
      length hdr \<le> length b' \<and> delivers sock' r'"
proof (induction "sock_size sock" arbitrary: sock b r rule: less_induct)
  case less
  have "r \<noteq> []" using less.prems(2,3) by (metis append_Nil2 length_append le_add1 not_le)
  have loop: "\<not> length b \<ge> max_header" using less.prems(3) short by simp
  from recv_delivers [OF less.prems(1) \<open>r \<noteq> []\<close>, of 4096, simplified] show ?case
  proof (elim disjE exE conjE)
    fix k
    assume k: "recv 4096 sock = (Again, k)" "delivers k r" "sock_size k < sock_size sock"
    from less.hyps [OF k(3,2) less.prems(2,3)] show ?thesis using k(1) loop by (simp add: read_header.simps [of b sock])
  next
    fix d r1 k
    assume k: "recv 4096 sock = (Got d, k)" "d \<noteq> []" "r = d @ r1" "delivers k r1" "sock_size k < sock_size sock"
    have eq: "(b @ d) @ r1 = hdr @ body" using less.prems(2) k(3) by simp
    show ?thesis
    proof (cases "length (b @ d) < length hdr")
      case True
      have "b @ d = take (length (b @ d)) hdr"
        using arg_cong [OF eq, of "take (length (b @ d))"] True by simp
      with early [OF True] have "header_end (b @ d) = None" by simp
      with less.hyps [OF k(5,4) eq True] show ?thesis using k(1) loop by (simp add: read_header.simps [of b sock])
    next
      case False
      then obtain x where "b @ d = hdr @ x" using eq by (metis append_eq_append_conv_if append_eq_conv_conj not_less)
      then show ?thesis using k(1) loop here [of x] eq k(4) by (auto simp: read_header.simps [of b sock])
    qed
  qed
qed

lemma read_body_delivers:
  "delivers sock r \<Longrightarrow> b @ r = s \<Longrightarrow> n \<le> length s \<Longrightarrow>
    \<exists>b' sock'. read_body b n sock = Some (b', sock') \<and> prefix b' s \<and> n \<le> length b'"
proof (induction "sock_size sock" arbitrary: sock b r rule: less_induct)
  case less
  show ?case
  proof (cases "n \<le> length b")
    case True
    then show ?thesis using less.prems(2) by (auto simp: read_body.simps [of b n sock])
  next
    case False
    then have "r \<noteq> []" using less.prems by auto
    from recv_delivers [OF less.prems(1) this, of 8192, simplified] show ?thesis
    proof (elim disjE exE conjE)
      fix k
      assume k: "recv 8192 sock = (Again, k)" "delivers k r" "sock_size k < sock_size sock"
      from less.hyps [OF k(3,2) less.prems(2,3)] show ?thesis using k(1) False by (simp add: read_body.simps [of b n sock])
    next
      fix d r1 k
      assume k: "recv 8192 sock = (Got d, k)" "d \<noteq> []" "r = d @ r1" "delivers k r1" "sock_size k < sock_size sock"
      have "(b @ d) @ r1 = s" using less.prems(2) k(3) by simp
      from less.hyps [OF k(5,4) this less.prems(3)] show ?thesis using k(1) False by (simp add: read_body.simps [of b n sock])
    qed
  qed
qed

section \<open>Where a header ends\<close>

lemma occurs_nth: "occurs_at s w i \<longleftrightarrow> i + length w \<le> length s \<and> (\<forall>j < length w. s ! (i + j) = w ! j)"
proof
  assume "occurs_at s w i"
  then obtain r where r: "drop i s = w @ r" "i \<le> length s" by (auto simp: occurs_at_def prefix_def)
  have "length (drop i s) = length w + length r" unfolding r(1) by simp
  moreover have "s ! (i + j) = w ! j" if "j < length w" for j
    using arg_cong [OF r(1), of "\<lambda>x. x ! j"] that r(2) by (simp add: nth_append)
  ultimately show "i + length w \<le> length s \<and> (\<forall>j < length w. s ! (i + j) = w ! j)" using r(2) by simp
next
  assume a: "i + length w \<le> length s \<and> (\<forall>j < length w. s ! (i + j) = w ! j)"
  then have "take (length w) (drop i s) = w" by (intro nth_equalityI) auto
  with a show "occurs_at s w i" by (simp add: occurs_at_def prefix_iff_take)
qed

definition line_ok :: "string \<Rightarrow> bool" where
  "line_ok l \<longleftrightarrow> l \<noteq> [] \<and> CR \<notin> set l \<and> NL \<notin> set l"

lemma CR_NL [simp]: "CR \<noteq> NL" "NL \<noteq> CR" by (simp_all add: CR_def)

lemma lines_text_simps: "lines_text [] = CRLF" "lines_text (l # ls) = l @ CRLF @ lines_text ls"
  by (simp_all add: lines_text_def)

lemma occurs_at_later: "occurs_at (a @ s) w i \<Longrightarrow> length a \<le> i \<Longrightarrow> occurs_at s w (i - length a)"
  by (auto simp: occurs_at_def)

lemma lines_text_ends:
  "\<forall>l \<in> set ls. line_ok l \<Longrightarrow>
    (occurs_at (lines_text ls) (CRLF @ CRLF) i \<longrightarrow> i + 4 = length (lines_text ls)) \<and> \<not> occurs_at (lines_text ls) [NL, NL] i"
proof (induction ls arbitrary: i)
  case Nil
  then show ?case by (auto simp: lines_text_simps occurs_nth CRLF_def less_Suc_eq)
next
  case (Cons l ls)
  let ?t = "lines_text ls"
  have "line_ok l" using Cons.prems by simp
  then have l: "l \<noteq> []" "CR \<notin> set l" "NL \<notin> set l" by (simp_all add: line_ok_def)
  then have l: "l \<noteq> []" "\<forall>j < length l. l ! j \<noteq> CR \<and> l ! j \<noteq> NL" by (metis nth_mem)+
  have t: "?t \<noteq> [] \<and> (ls = [] \<longrightarrow> ?t = CRLF) \<and> (ls \<noteq> [] \<longrightarrow> hd ?t \<noteq> CR) \<and> hd ?t \<noteq> NL"
  proof (cases ls)
    case Nil
    then show ?thesis by (simp add: lines_text_simps CRLF_def)
  next
    fix l' ls'
    assume ls: "ls = l' # ls'"
    then have ok: "l' \<noteq> []" "CR \<notin> set l'" "NL \<notin> set l'" using Cons.prems by (simp_all add: line_ok_def)
    then have h: "hd (lines_text (l' # ls')) = hd l'" "hd l' \<in> set l'" by (simp_all add: lines_text_simps)
    from h(2) ok have "hd l' \<noteq> CR" "hd l' \<noteq> NL" by metis+
    with h(1) ok ls show ?thesis by (simp add: lines_text_simps)
  qed
  then have t: "?t \<noteq> []" "ls = [] \<longrightarrow> ?t = CRLF" "ls \<noteq> [] \<longrightarrow> hd ?t \<noteq> CR" "hd ?t \<noteq> NL" by blast+
  have at: "(l @ CRLF @ ?t) ! j = (if j < length l then l ! j else if j = length l then CR
      else if j = length l + 1 then NL else ?t ! (j - length l - 2))" for j
  proof (cases "length l + 2 \<le> j")
    case True
    then obtain m where "j = length l + (2 + m)" using le_Suc_ex by (metis add.assoc)
    then show ?thesis by (simp add: CRLF_def nth_append)
  next
    case False
    then consider "j < length l" | "j = length l" | "j = length l + 1" by linarith
    then show ?thesis by cases (simp_all add: CRLF_def nth_append)
  qed
  have hd: "?t ! 0 = hd ?t" using t(1) by (simp add: hd_conv_nth)
  consider "i < length l" | "i = length l" | "i = length l + 1" | "length l + 2 \<le> i" by linarith
  then show ?case
  proof cases
    case 1
    then have "(l @ CRLF @ ?t) ! (i + 0) \<noteq> CR" "(l @ CRLF @ ?t) ! (i + 0) \<noteq> NL" using l by (simp_all add: at)
    then show ?thesis by (auto simp: lines_text_simps occurs_nth CRLF_def)
  next
    case 2
    have h: "(l @ CRLF @ ?t) ! (i + 2) = hd ?t" "(l @ CRLF @ ?t) ! (i + 0) = CR" by (simp_all add: at 2 hd)
    have "ls = []" if "occurs_at (l @ CRLF @ ?t) (CRLF @ CRLF) i"
    proof -
      have "\<forall>j < 4. (l @ CRLF @ ?t) ! (i + j) = (CRLF @ CRLF) ! j" using that by (simp add: occurs_nth CRLF_def)
      from spec [OF this, of 2] have "(l @ CRLF @ ?t) ! (i + 2) = (CRLF @ CRLF) ! 2" by (rule mp) simp
      then have "hd ?t = CR" unfolding h(1) by (simp add: CRLF_def)
      with t(3) show ?thesis by blast
    qed
    moreover have "\<not> occurs_at (l @ CRLF @ ?t) [NL, NL] i"
    proof
      assume "occurs_at (l @ CRLF @ ?t) [NL, NL] i"
      then have "(l @ CRLF @ ?t) ! (i + 0) = [NL, NL] ! 0" unfolding occurs_nth by fastforce
      with h(2) show False by simp
    qed
    ultimately show ?thesis using t(2) 2 by (auto simp: lines_text_simps CRLF_def)
  next
    case 3
    have h: "(l @ CRLF @ ?t) ! (i + 1) = hd ?t" "(l @ CRLF @ ?t) ! (i + 0) = NL" by (simp_all add: at 3 hd)
    have "\<not> occurs_at (l @ CRLF @ ?t) (CRLF @ CRLF) i"
    proof
      assume "occurs_at (l @ CRLF @ ?t) (CRLF @ CRLF) i"
      then have "\<forall>j < 4. (l @ CRLF @ ?t) ! (i + j) = (CRLF @ CRLF) ! j" by (simp add: occurs_nth CRLF_def)
      from spec [OF this, of 0] have "(l @ CRLF @ ?t) ! (i + 0) = (CRLF @ CRLF) ! 0" by (rule mp) simp
      then show False unfolding h(2) by (simp add: CRLF_def)
    qed
    moreover have "\<not> occurs_at (l @ CRLF @ ?t) [NL, NL] i"
    proof
      assume "occurs_at (l @ CRLF @ ?t) [NL, NL] i"
      then have "\<forall>j < 2. (l @ CRLF @ ?t) ! (i + j) = [NL, NL] ! j" by (simp add: occurs_nth)
      from spec [OF this, of 1] have "(l @ CRLF @ ?t) ! (i + 1) = [NL, NL] ! 1" by (rule mp) simp
      then show False unfolding h(1) using t(4) by simp
    qed
    ultimately show ?thesis unfolding lines_text_simps by simp
  next
    case 4
    have e: "l @ CRLF @ ?t = (l @ CRLF) @ ?t" "length (l @ CRLF) = length l + 2" by (simp_all add: CRLF_def)
    have o: "occurs_at ?t w (i - (length l + 2))" if "occurs_at (l @ CRLF @ ?t) w i" for w
      using occurs_at_later [of "l @ CRLF" ?t w i] that 4 unfolding e by simp
    have len: "length (l @ CRLF @ ?t) = length l + 2 + length ?t" by (simp add: CRLF_def)
    have "\<forall>l \<in> set ls. line_ok l" using Cons.prems by simp
    note ih = Cons.IH [OF this, of "i - (length l + 2)"]
    show ?thesis unfolding lines_text_simps
    proof (intro conjI impI notI)
      assume "occurs_at (l @ CRLF @ ?t) (CRLF @ CRLF) i"
      from mp [OF conjunct1 [OF ih] o [OF this]] show "i + 4 = length (l @ CRLF @ ?t)" unfolding len using 4 by linarith
    next
      assume "occurs_at (l @ CRLF @ ?t) [NL, NL] i"
      from notE [OF conjunct2 [OF ih] o [OF this]] show False .
    qed
  qed
qed

lemma lines_text_split: "ls \<noteq> [] \<Longrightarrow> \<exists>a. lines_text ls = a @ CRLF @ CRLF"
  by (cases ls rule: rev_cases) (auto simp: lines_text_def)

lemma header_end_early:
  assumes "\<forall>l \<in> set ls. line_ok l" "k < length (lines_text ls)"
  shows "header_end (take k (lines_text ls)) = None"
proof -
  have occ: "occurs_at (lines_text ls) w i" "i + length w \<le> k" if "occurs_at (take k (lines_text ls)) w i" for w i
    using that by (auto simp: occurs_nth)
  have "strstr (take k (lines_text ls)) (CRLF @ CRLF) = None"
  proof (rule ccontr)
    assume "strstr (take k (lines_text ls)) (CRLF @ CRLF) \<noteq> None"
    then obtain i where "occurs_at (take k (lines_text ls)) (CRLF @ CRLF) i" using strstr_Some by blast
    from occ [OF this] lines_text_ends [OF assms(1), of i] assms(2) show False by (simp add: CRLF_def)
  qed
  moreover have "strstr (take k (lines_text ls)) [NL, NL] = None"
  proof (rule ccontr)
    assume "strstr (take k (lines_text ls)) [NL, NL] \<noteq> None"
    then obtain i where "occurs_at (take k (lines_text ls)) [NL, NL] i" using strstr_Some by blast
    from occ [OF this] lines_text_ends [OF assms(1), of i] show False by simp
  qed
  ultimately show ?thesis by (simp add: header_end_def)
qed

lemma header_end_here:
  assumes "\<forall>l \<in> set ls. line_ok l" "ls \<noteq> []"
  shows "header_end (lines_text ls @ r) = Some (length (lines_text ls))"
proof -
  obtain a where a: "lines_text ls = a @ CRLF @ CRLF" using lines_text_split [OF assms(2)] by blast
  have at: "occurs_at (lines_text ls @ r) (CRLF @ CRLF) (length a)" by (simp add: a occurs_at_def)
  then obtain i where i: "strstr (lines_text ls @ r) (CRLF @ CRLF) = Some i" by (cases "strstr (lines_text ls @ r) (CRLF @ CRLF)") (auto dest: strstr_None)
  have le: "i \<le> length a" by (rule strstr_first [OF i at])
  have len: "length (lines_text ls) = length a + 4" by (simp add: a CRLF_def)
  have "occurs_at (lines_text ls) (CRLF @ CRLF) i"
    by (rule occurs_at_append [OF strstr_Some [OF i]]) (use le len in \<open>simp add: CRLF_def\<close>)
  with lines_text_ends [OF assms(1), of i] i show ?thesis by (simp add: header_end_def)
qed

section \<open>What the header says\<close>

lemma isspace_chars [simp]: "isspace CR" "isspace NL" "isspace (CHR '' '')"
  by (simp_all add: isspace_def CR_def byte_of_def)

lemma takeWhile_stop: "\<forall>c \<in> set w. P c \<Longrightarrow> \<not> P x \<Longrightarrow> takeWhile P (w @ x # r) = w"
  by (induction w) auto

lemma scan_word_ok:
  assumes "word_ok n w" "isspace x"
  shows "scan_word n (w @ x # r) = Some (w, x # r)" "scan_word n ('' '' @ w @ x # r) = Some (w, x # r)"
proof -
  have w: "w \<noteq> []" "length w \<le> n" "\<forall>c \<in> set w. \<not> isspace c" using assms(1) by (auto simp: word_ok_def)
  then have n: "0 < n" by (cases w) auto
  from w have d: "dropWhile isspace (w @ x # r) = w @ x # r" by (cases w) auto
  have t: "takeWhile (\<lambda>c. \<not> isspace c) (w @ x # r) = w" using w(3) assms(2) by (intro takeWhile_stop) auto
  show "scan_word n (w @ x # r) = Some (w, x # r)" using w n by (simp add: scan_word_def d t Let_def)
  show "scan_word n ('' '' @ w @ x # r) = Some (w, x # r)" using w n by (simp add: scan_word_def d t Let_def)
qed

lemma word_chars: "word_ok n w \<Longrightarrow> length w \<le> n \<and> (\<forall>c \<in> set w. c \<noteq> NL \<and> c \<noteq> NUL)"
  by (metis isspace_chars(2) word_ok_def)

lemma request_line_ok:
  assumes "word_ok 7 method" "word_ok 255 path"
  shows "request_line (method @ '' '' @ path @ '' HTTP/1.1'' @ CR # NL # r) = Some (method, path)"
proof -
  let ?l = "method @ '' '' @ path @ '' HTTP/1.1'' @ [CR]"
  note m = word_chars [OF assms(1)]
  note p = word_chars [OF assms(2)]
  have "takeWhile (\<lambda>c. c \<noteq> NL) (?l @ NL # r) = ?l" using m p by (intro takeWhile_stop) auto
  moreover have "length ?l \<le> 511" using m p by simp
  then have "take 511 ?l = ?l" by (rule take_all)
  moreover have "c_str ?l = ?l" using m p by (intro c_str_id) (auto simp: cstring_def CR_def)
  ultimately have line: "c_str (take 511 (takeWhile (\<lambda>c. c \<noteq> NL) (?l @ NL # r))) = ?l" by simp
  have "scan_word 7 ?l = Some (method, '' '' @ path @ '' HTTP/1.1'' @ [CR])"
    using scan_word_ok(1) [OF assms(1), of "CHR '' ''" "path @ '' HTTP/1.1'' @ [CR]"] by simp
  moreover have "scan_word 255 ('' '' @ path @ '' HTTP/1.1'' @ [CR]) = Some (path, '' HTTP/1.1'' @ [CR])"
    using scan_word_ok(2) [OF assms(2), of "CHR '' ''" "''HTTP/1.1'' @ [CR]"] by simp
  ultimately show ?thesis using line unfolding request_line_def by (simp add: Let_def)
qed

lemma digit_char: "d < 10 \<Longrightarrow> byte_of (char_of (48 + d :: nat)) = 48 + d"
  by simp

lemma digits_value_dec: "\<not> (48 \<le> byte_of x \<and> byte_of x \<le> 57) \<Longrightarrow>
    digits_value (dec_nat n @ x # r) a = a * 10 ^ length (dec_nat n) + n"
proof -
  have step: "digits_value (dec_nat n @ s) a = digits_value s (a * 10 ^ length (dec_nat n) + n)" for s
  proof (induction n arbitrary: a s rule: dec_nat.induct)
    case (1 n)
    show ?case
    proof (cases "n < 10")
      case True
      then show ?thesis by (simp add: dec_nat.simps [of n] digit_char)
    next
      case False
      have d: "n mod 10 < 10" by simp
      note dg = digit_char [OF d]
      have dec: "dec_nat n = dec_nat (n div 10) @ [char_of (48 + n mod 10)]" using False by (subst dec_nat.simps) simp
      have "digits_value (dec_nat n @ s) a = digits_value (char_of (48 + n mod 10) # s) (a * 10 ^ length (dec_nat (n div 10)) + n div 10)"
        unfolding dec append.assoc 1 [OF False] append.simps by (rule refl)
      also have "\<dots> = digits_value s ((a * 10 ^ length (dec_nat (n div 10)) + n div 10) * 10 + n mod 10)"
      proof -
        have "n mod 10 \<le> 9" using d by linarith
        then show ?thesis unfolding digits_value.simps dg by simp
      qed
      also have "(a * 10 ^ length (dec_nat (n div 10)) + n div 10) * 10 + n mod 10 = a * 10 ^ length (dec_nat n) + n"
        unfolding dec by (simp add: algebra_simps)
      finally show ?thesis .
    qed
  qed
  assume "\<not> (48 \<le> byte_of x \<and> byte_of x \<le> 57)"
  then show ?thesis using step [of "x # r"] by (simp only: digits_value.simps if_False)
qed

lemma digits_value_dec_end: "digits_value (dec_nat n) 0 = n"
proof -
  have "digits_value (s @ [NUL]) a = digits_value s a" for s a
    by (induction s a rule: digits_value.induct) (simp_all add: byte_of_def)
  with digits_value_dec [of NUL n "[]" 0] show ?thesis by (simp add: byte_of_def)
qed

lemma dec_nat_digit: "\<exists>d s. d < 10 \<and> dec_nat n = char_of (48 + d :: nat) # s"
proof (induction n rule: dec_nat.induct)
  case (1 n)
  then show ?case by (cases "n < 10") (auto simp: dec_nat.simps [of n])
qed

lemma strtol10_dec:
  assumes "n < 2 ^ 63" "\<not> (48 \<le> byte_of x \<and> byte_of x \<le> 57)"
  shows "strtol10 (dec_nat n @ x # r) = int n"
proof -
  obtain d s where d: "d < 10" "dec_nat n = char_of (48 + d :: nat) # s" using dec_nat_digit by blast
  have b: "byte_of (char_of (48 + d :: nat)) = 48 + d" using d(1) by (rule digit_char)
  have "byte_of (CHR ''-'') = 45" "byte_of (CHR ''+'') = 43" "byte_of (CHR '' '') = 32" by (simp_all add: byte_of_def)
  then have c: "char_of (48 + d :: nat) \<noteq> CHR ''-''" "char_of (48 + d :: nat) \<noteq> CHR ''+''" "char_of (48 + d :: nat) \<noteq> CHR '' ''"
    using b by fastforce+
  have sp: "\<not> isspace (char_of (48 + d :: nat))" using b c by (simp add: isspace_def)
  have "dropWhile isspace (dec_nat n @ x # r) = dec_nat n @ x # r" "peek (dec_nat n @ x # r) = char_of (48 + d :: nat)"
    using sp d(2) by simp_all
  then show ?thesis using digits_value_dec [OF assms(2), of n r 0] assms(1) c by (simp add: strtol10_def Let_def)
qed


lemma content_length_step:
  assumes "line_ok l"
  shows "content_length (l @ CRLF @ s) (length l + 2 + m) =
    (if 15 \<le> length l \<and> strncasecmp_eq l ''Content-Length:'' 15
     then strtol10 (drop (15 + length (takeWhile isspace (drop 15 l))) (l @ CRLF @ s)) else content_length s m)"
proof -
  have l: "l \<noteq> []" "\<forall>c \<in> set l. c \<noteq> NL" using assms by (auto simp: line_ok_def)
  have split: "take (length l + 2 + m) (l @ CRLF @ s) = (l @ [CR]) @ NL # take m s" by (simp add: CRLF_def)
  have line: "takeWhile (\<lambda>c. c \<noteq> NL) (take (length l + 2 + m) (l @ CRLF @ s)) = l @ [CR]"
    unfolding split using l(2) by (intro takeWhile_stop) auto
  have cmp: "15 \<le> length l \<Longrightarrow> strncasecmp_eq (l @ [CR]) w 15 = strncasecmp_eq l w 15" for w
    by (simp add: strncasecmp_eq_def)
  have rest: "drop (Suc (length (l @ [CR]))) (l @ CRLF @ s) = s" "length l + 2 + m - Suc (length (l @ [CR])) = m"
    by (simp_all add: CRLF_def)
  have ne: "\<not> (length l + 2 + m = 0 \<or> l @ CRLF @ s = [])" using l(1) by simp
  have len: "(if l @ [CR] \<noteq> [] \<and> last (l @ [CR]) = CR then length (l @ [CR]) - 1 else length (l @ [CR])) = length l"
    "take (length l) (l @ [CR]) = l" by simp_all
  show ?thesis
    unfolding content_length.simps [of "l @ CRLF @ s" "length l + 2 + m"] if_not_P [OF ne] Let_def line len rest
    using cmp by auto
qed

lemma tolower_colon: "tolower c = CHR '':'' \<longleftrightarrow> c = CHR '':''"
proof -
  have b: "byte_of (CHR '':'') = 58" by (simp add: byte_of_def)
  have "tolower c \<noteq> CHR '':''" if "65 \<le> byte_of c \<and> byte_of c \<le> 90"
  proof
    assume "tolower c = CHR '':''"
    with that have "byte_of (char_of (byte_of c + 32)) = 58" using b by (simp add: tolower_def)
    then show False using that by simp
  qed
  then show ?thesis using b by (auto simp: tolower_def)
qed

lemma takeWhile_colon: "takeWhile (\<lambda>c. c \<noteq> CHR '':'') (map tolower s) = map tolower (takeWhile (\<lambda>c. c \<noteq> CHR '':'') s)"
  by (induction s) (auto simp: tolower_colon)

lemma content_length_name:
  assumes "CHR '':'' \<notin> set name"
  shows "15 \<le> length (name @ CHR '':'' # s) \<and> strncasecmp_eq (name @ CHR '':'' # s) ''Content-Length:'' 15 \<longleftrightarrow>
    same_name name ''Content-Length''"
proof
  assume a: "15 \<le> length (name @ CHR '':'' # s) \<and> strncasecmp_eq (name @ CHR '':'' # s) ''Content-Length:'' 15"
  have tw: "takeWhile (\<lambda>c. c \<noteq> CHR '':'') (take 15 (name @ CHR '':'' # s)) = take 15 name"
  proof (cases "length name < 15")
    case True
    have "take 15 (name @ CHR '':'' # s) = name @ CHR '':'' # take (14 - length name) s"
      using True by (simp add: take_Cons')
    moreover have "takeWhile (\<lambda>c. c \<noteq> CHR '':'') (name @ CHR '':'' # take (14 - length name) s) = name"
      using assms by (intro takeWhile_stop) auto
    ultimately show ?thesis using True by simp
  next
    case False
    have "\<forall>c \<in> set (take 15 name). c \<noteq> CHR '':''" using assms by (auto dest: in_set_takeD)
    then have "takeWhile (\<lambda>c. c \<noteq> CHR '':'') (take 15 name) = take 15 name" by (simp add: takeWhile_eq_all_conv)
    with False show ?thesis by simp
  qed
  have "map tolower (take 15 (name @ CHR '':'' # s)) = map tolower ''Content-Length:''"
    using a by (simp add: strncasecmp_eq_def)
  from arg_cong [OF this, of "takeWhile (\<lambda>c. c \<noteq> CHR '':'')"]
  have m: "map tolower (take 15 name) = map tolower ''Content-Length''" unfolding takeWhile_colon tw by simp
  from arg_cong [OF m, of length] have "take 15 name = name" by simp
  with m show "same_name name ''Content-Length''" by (simp add: same_name_def)
next
  assume a: "same_name name ''Content-Length''"
  then have m: "map tolower name = map tolower ''Content-Length''" by (simp add: same_name_def)
  from arg_cong [OF m, of length] have len: "length name = 14" by simp
  then have "take 15 (name @ CHR '':'' # s) = name @ '':''" by (simp add: take_Cons')
  with m len show "15 \<le> length (name @ CHR '':'' # s) \<and> strncasecmp_eq (name @ CHR '':'' # s) ''Content-Length:'' 15"
    by (simp add: strncasecmp_eq_def)
qed

lemma header_line_ok: "header_ok h \<Longrightarrow> line_ok (header_line h)"
  by (auto simp: header_ok_def line_ok_def header_line_def)

lemma content_length_line:
  assumes "header_ok h" "announced [h] \<le> nat max_body"
  shows "content_length (header_line h @ CRLF @ s) (length (header_line h) + 2 + m) =
    (if same_name (fst h) ''Content-Length'' then int (announced [h]) else content_length s m)"
proof -
  have ok: "CHR '':'' \<notin> set (fst h)" using assms(1) by (simp add: header_ok_def)
  have line: "header_line h = fst h @ CHR '':'' # CHR '' '' # snd h" by (simp add: header_line_def)
  have here: "15 \<le> length (header_line h) \<and> strncasecmp_eq (header_line h) ''Content-Length:'' 15 \<longleftrightarrow>
      same_name (fst h) ''Content-Length''"
    unfolding line by (rule content_length_name [OF ok])
  note step = content_length_step [OF header_line_ok [OF assms(1)], of s m, unfolded here]
  show ?thesis
  proof (cases "same_name (fst h) ''Content-Length''")
    case True
    then obtain n where n: "snd h = dec_nat n" using assms(1) by (auto simp: header_ok_def)
    have len: "length (fst h) = 14" using True arg_cong [of _ _ length] by (fastforce simp: same_name_def)
    have a: "announced [h] = n" using True by (simp add: announced_def n digits_value_dec_end)
    obtain d s' where d: "d < 10" "dec_nat n = char_of (48 + d :: nat) # s'" using dec_nat_digit by blast
    have b: "byte_of (char_of (48 + d :: nat)) = 48 + d" using d(1) by (rule digit_char)
    have "char_of (48 + d :: nat) \<noteq> CHR '' ''"
    proof
      assume "char_of (48 + d :: nat) = CHR '' ''"
      with b have "byte_of (CHR '' '') = 48 + d" by simp
      then show False by (simp add: byte_of_def)
    qed
    then have sp: "\<not> isspace (char_of (48 + d :: nat))" using b by (simp add: isspace_def del: byte_of_char_of)
    have "drop 15 (header_line h) = CHR '' '' # dec_nat n" using len by (simp add: line n)
    then have "length (takeWhile isspace (drop 15 (header_line h))) = 1" using sp d(2) by simp
    moreover have "drop 16 (header_line h @ CRLF @ s) = dec_nat n @ CR # NL # s" using len by (simp add: line n CRLF_def)
    moreover have "strtol10 (dec_nat n @ CR # NL # s) = int n"
      by (rule strtol10_dec) (use assms(2) a in \<open>simp_all add: max_body_def CR_def byte_of_def\<close>)
    ultimately show ?thesis unfolding step a using True by (simp del: drop_append One_nat_def)
  next
    case False
    then show ?thesis unfolding step by simp
  qed
qed

lemma announced_Cons: "announced (h # hs) = (if same_name (fst h) ''Content-Length'' then announced [h] else announced hs)"
  by (simp add: announced_def)

lemma content_length_headers:
  "\<forall>h \<in> set hs. header_ok h \<Longrightarrow> announced hs \<le> nat max_body \<Longrightarrow>
    content_length (lines_text (map header_line hs) @ r) (length (lines_text (map header_line hs))) = int (announced hs)"
proof (induction hs)
  case Nil
  have "takeWhile (\<lambda>c. c \<noteq> NL) (CR # NL # take 0 r) = [CR]" by simp
  then show ?case
    by (simp add: lines_text_simps CRLF_def content_length.simps [of "CR # NL # r"] content_length.simps [of _ 0] announced_def)
next
  case (Cons h hs)
  have ok: "header_ok h" using Cons.prems by simp
  have small: "announced [h] \<le> nat max_body"
  proof (cases "same_name (fst h) ''Content-Length''")
    case True
    then show ?thesis using Cons.prems(2) by (simp add: announced_Cons [of h hs])
  qed (simp add: announced_def)
  have len: "length (lines_text (map header_line (h # hs))) = length (header_line h) + 2 + length (lines_text (map header_line hs))"
    by (simp add: lines_text_simps CRLF_def)
  have eq: "lines_text (map header_line (h # hs)) @ r = header_line h @ CRLF @ lines_text (map header_line hs) @ r"
    by (simp add: lines_text_simps)
  show ?case
    unfolding eq len content_length_line [OF ok small]
    using Cons by (cases "same_name (fst h) ''Content-Length''") (simp_all add: announced_Cons [of h hs])
qed


section \<open>Whole requests\<close>

text \<open>
  C13. A request written with CRLF line ends and a Content-Length in decimal is read back exactly, method,
  path up to the query and body, whatever pieces the socket delivers it in, whatever interrupts the
  reads and whatever follows it.
\<close>

theorem http_request_roundtrip:
  assumes sock: "delivers sock (http_head method path hs @ body @ rest)"
    and words: "word_ok 7 method" "word_ok 255 path" and hs: "\<forall>h \<in> set hs. header_ok h"
    and short: "length (http_head method path hs) \<le> max_header"
    and len: "length body = announced hs" "announced hs \<le> nat max_body"
  shows "\<exists>sock'. read_http_request sock = Some (\<lparr>hr_method = method,
    hr_path = takeWhile (\<lambda>c. c \<noteq> CHR ''?'') path, hr_body = body\<rparr>, sock')"
proof -
  let ?first = "method @ '' '' @ path @ '' HTTP/1.1''"
  let ?ls = "?first # map header_line hs" and ?head = "http_head method path hs"
  have head: "?head = lines_text ?ls" by (simp add: http_head_def)
  have w: "\<forall>c \<in> set method \<union> set path. c \<noteq> CR \<and> c \<noteq> NL" using words isspace_chars by (auto simp: word_ok_def simp del: isspace_chars)
  have first: "line_ok ?first" using w by (auto simp: line_ok_def CR_def)
  then have ok: "\<forall>l \<in> set ?ls. line_ok l" using hs header_line_ok by simp
  have ends: "header_end (take k ?head) = None" if "k < length ?head" for k
    using header_end_early [OF ok] that unfolding head by blast
  have here: "header_end (?head @ r) = Some (length ?head)" for r
    using header_end_here [OF ok] unfolding head by simp
  have pos: "length ([] :: string) < length ?head" by (simp add: head lines_text_simps)
  from read_header_delivers [OF ends here short sock _ pos] obtain b r sock1 where
    b: "read_header [] sock = Some (b, length ?head, sock1)" "b @ r = ?head @ body @ rest" "length ?head \<le> length b"
      "delivers sock1 r" by auto
  obtain x where x: "b = ?head @ x" using b(2,3) by (metis append_eq_append_conv_if append_eq_conv_conj)
  have hd: "?head @ x = method @ '' '' @ path @ '' HTTP/1.1'' @ CR # NL # lines_text (map header_line hs) @ x"
    by (simp add: head lines_text_simps CRLF_def)
  have line: "request_line b = Some (method, path)" unfolding x hd by (rule request_line_ok [OF words])
  have "\<not> (15 \<le> length ?first \<and> strncasecmp_eq ?first ''Content-Length:'' 15)"
  proof
    assume "15 \<le> length ?first \<and> strncasecmp_eq ?first ''Content-Length:'' 15"
    then have m: "map tolower (take 15 ?first) = map tolower ''Content-Length:''" by (simp add: strncasecmp_eq_def)
    have l: "length method \<le> 7" using words(1) by (simp add: word_ok_def)
    then have "CHR '' '' \<in> set (take 15 ?first)" by (cases "15 - length method") auto
    then have "tolower (CHR '' '') \<in> set (map tolower (take 15 ?first))" by (metis image_eqI set_map)
    then have "tolower (CHR '' '') \<in> set (map tolower ''Content-Length:'')" unfolding m .
    then show False by code_simp
  qed
  then have "content_length (?first @ CRLF @ lines_text (map header_line hs) @ x) (length ?first + 2 + length (lines_text (map header_line hs))) =
      int (announced hs)"
    unfolding content_length_step [OF first] if_not_P content_length_headers [OF hs len(2)] by (simp only: if_False)
  moreover have "b = ?first @ CRLF @ lines_text (map header_line hs) @ x" by (simp add: x head lines_text_simps)
  moreover have "length ?head = length ?first + 2 + length (lines_text (map header_line hs))"
    by (simp add: head lines_text_simps CRLF_def)
  ultimately have clen: "content_length b (length ?head) = int (announced hs)" by (simp only:)
  from read_body_delivers [OF b(4,2), of "length ?head + announced hs"] len(1) obtain b' sock' where
    b': "read_body b (length ?head + announced hs) sock1 = Some (b', sock')" "prefix b' (?head @ body @ rest)"
      "length ?head + announced hs \<le> length b'" by auto
  have "take (announced hs) (drop (length ?head) b') = body"
  proof -
    obtain y where y: "?head @ body @ rest = b' @ y" using b'(2) by (auto simp: prefix_def)
    have "take (announced hs) (drop (length ?head) b') = take (announced hs) (drop (length ?head) (b' @ y))" using b'(3) by simp
    also have "\<dots> = body" unfolding y [symmetric] using len(1) by simp
    finally show ?thesis .
  qed
  then show ?thesis
    unfolding read_http_request_def using b(1) line clen b'(1) len(2) by (simp add: Let_def max_body_def)
qed

lemma read_header_once:
  "header_end s = Some n \<Longrightarrow> s \<noteq> [] \<Longrightarrow> length s \<le> 4096 \<Longrightarrow> read_header [] (Data s # sock) = Some (s, n, sock)"
  by (simp add: read_header.simps [of "[]"] max_header_def)

lemma http_request_roundtrip_witness:
  "\<exists>sock'. read_http_request
     [Data ''POST /v1/m'', Interrupted, Data (''essages?beta=1 HTTP/1.1'' @ CRLF @ ''content-length: 5'' @ [CR]),
      Data ([NL] @ CRLF @ ''{[1''), Interrupted, Data ''2]GET'', Failed] =
     Some (\<lparr>hr_method = ''POST'', hr_path = ''/v1/messages'', hr_body = ''{[12]''\<rparr>, sock')"
proof -
  let ?hs = "[(''content-length'', ''5'')]"
  have hs: "\<forall>h \<in> set ?hs. header_ok h"
  proof -
    have "dec_nat 5 = ''5''" by code_simp
    then have "\<exists>n. ''5'' = dec_nat n" by metis
    then show ?thesis by (simp add: header_ok_def header_line_def CR_def)
  qed
  have an: "announced ?hs = 5" by code_simp
  let ?sock = "[Data ''POST /v1/m'', Interrupted, Data (''essages?beta=1 HTTP/1.1'' @ CRLF @ ''content-length: 5'' @ [CR]),
      Data ([NL] @ CRLF @ ''{[1''), Interrupted, Data ''2]GET'', Failed]"
  have sock: "delivers ?sock (http_head ''POST'' ''/v1/messages?beta=1'' ?hs @ ''{[12]'' @ ''GET'')" by code_simp
  have words: "word_ok 7 ''POST''" "word_ok 255 ''/v1/messages?beta=1''" by code_simp+
  have len: "length (http_head ''POST'' ''/v1/messages?beta=1'' ?hs) \<le> max_header"
    by (simp add: http_head_def lines_text_def header_line_def CRLF_def max_header_def)
  have body: "length ''{[12]'' = announced ?hs" "announced ?hs \<le> nat max_body" by (simp_all add: an max_body_def)
  from http_request_roundtrip [OF sock words hs len body] show ?thesis by simp
qed

text \<open>
  The reader also takes bare LF line ends, but it looks for the CRLF ending first and in all that has
  arrived: the same bytes are a request or not depending on where the network cuts them.
\<close>

theorem http_reading_depends_on_chunks:
  "\<exists>head body. read_http_request [Data (head @ body)] = None \<and>
     map_option (\<lambda>(hr, _). hr_body hr) (read_http_request [Data head, Data body]) = Some body"
proof -
  let ?head = "''POST /v1/chat/completions HTTP/1.1'' @ [NL] @ ''Content-Length: 6'' @ [NL, NL]"
  let ?body = "''{'' @ CRLF @ CRLF @ ''}''"
  have ends: "header_end (?head @ ?body) = Some (length ?head + 5)" "header_end ?head = Some (length ?head)" by code_simp+
  have line: "request_line (?head @ r) = Some (''POST'', ''/v1/chat/completions'')" for r
  proof -
    have "takeWhile (\<lambda>c. c \<noteq> NL) (?head @ r) = ''POST /v1/chat/completions HTTP/1.1''" by simp
    moreover have "(case scan_word 7 (c_str (take 511 ''POST /v1/chat/completions HTTP/1.1'')) of None \<Rightarrow> None
      | Some (method, r) \<Rightarrow> map_option (\<lambda>(path, _). (method, path)) (scan_word 255 r)) =
        Some (''POST'', ''/v1/chat/completions'')" by code_simp
    ultimately show ?thesis unfolding request_line_def by (simp only: Let_def)
  qed
  have clen: "content_length (?head @ ?body) (length ?head + 5) = 6" "content_length ?head (length ?head) = 6" by code_simp+
  have "read_header [] [Data (?head @ ?body)] = Some (?head @ ?body, length ?head + 5, [])"
    by (rule read_header_once) (use ends(1) in \<open>simp_all add: CRLF_def\<close>)
  moreover have "read_body (?head @ ?body) (length ?head + 5 + 6) [] = None"
    by (simp add: read_body.simps [of _ _ "[]"] CRLF_def)
  ultimately have "read_http_request [Data (?head @ ?body)] = None"
    unfolding read_http_request_def using line [of ?body] clen(1) by (simp add: max_body_def Let_def)
  moreover have "read_header [] [Data ?head, Data ?body] = Some (?head, length ?head, [Data ?body])"
    by (rule read_header_once) (use ends(2) in simp_all)
  moreover have "read_body ?head (length ?head + 6) [Data ?body] = Some (?head @ ?body, [])"
    by (simp add: read_body.simps CRLF_def)
  ultimately show ?thesis
    using line [of "[]"] clen(2)
    by (intro exI [of _ ?head] exI [of _ ?body]) (simp add: read_http_request_def max_body_def Let_def CRLF_def)
qed

end
