(* ===== verification/JobQueue.thy ===== *)
theory JobQueue
  imports Prelude
begin

text \<open>
  The threads of ds4_server.c: the main thread accepts connections and starts one client thread for
  each; a client thread parses its request, queues a job and waits for it; one worker thread runs the
  jobs. A job lives in the frame of the client thread that owns it, and is linked into the queue by
  its address; the server struct lives in the frame of main. The memory is explicit: using a job whose
  owner has left, or the server after main has returned, is a \<open>Fault\<close>.

  A step is what one thread does under one lock, or between two locks: every schedule of the threads is
  a sequence of these steps. Waiting on a condition variable is a step that is \<open>Blocked\<close>.
\<close>

section \<open>Jobs and their queue\<close>

record job =
  job_done :: bool
  job_next :: "nat option"

record job_server =
  frames :: "nat \<rightharpoonup> job"  \<comment> \<open>the jobs that exist, by the client thread that owns them\<close>
  head :: "nat option"
  tail :: "nat option"
  stopping :: bool
  clients :: int

datatype 'a outcome = Fault | Blocked | Next 'a

definition set_next :: "job_server \<Rightarrow> nat \<Rightarrow> nat option \<Rightarrow> job_server option" where
  "set_next s a n = (case frames s a of None \<Rightarrow> None | Some j \<Rightarrow> Some (s\<lparr>frames := (frames s)(a \<mapsto> j\<lparr>job_next := n\<rparr>)\<rparr>))"

definition enqueue :: "job_server \<Rightarrow> nat \<Rightarrow> (job_server \<times> bool) option" where
  \<comment> \<open>None: the last job of the queue no longer exists\<close>
  "enqueue s a =
     (if stopping s then Some (s, False)
      else case tail s of
        None \<Rightarrow> Some (s\<lparr>head := Some a, tail := Some a\<rparr>, True)
      | Some t \<Rightarrow> map_option (\<lambda>s1. (s1\<lparr>tail := Some a\<rparr>, True)) (set_next s t (Some a)))"

definition dequeue :: "job_server \<Rightarrow> (job_server \<times> nat option) outcome" where
  \<comment> \<open>up to the unlock; clearing \<open>next\<close> comes after it. The job None is the end of the worker.\<close>
  "dequeue s =
     (case head s of
        None \<Rightarrow> if stopping s then Next (s, None) else Blocked
      | Some a \<Rightarrow>
          (case frames s a of
             None \<Rightarrow> Fault
           | Some j \<Rightarrow>
               let s1 = s\<lparr>head := job_next j\<rparr> in
               Next (if job_next j = None then s1\<lparr>tail := None\<rparr> else s1, Some a)))"

definition client_done :: "job_server \<Rightarrow> job_server" where
  "client_done s = (if clients s > 0 then s\<lparr>clients := clients s - 1\<rparr> else s)"

text \<open>The queue as a list of jobs.\<close>

fun links :: "(nat \<rightharpoonup> job) \<Rightarrow> nat list \<Rightarrow> bool" where
  "links m [] \<longleftrightarrow> True"
| "links m [a] \<longleftrightarrow> (case m a of None \<Rightarrow> False | Some j \<Rightarrow> job_next j = None)"
| "links m (a # b # q) \<longleftrightarrow> (case m a of None \<Rightarrow> False | Some j \<Rightarrow> job_next j = Some b) \<and> links m (b # q)"

definition holds_jobs :: "job_server \<Rightarrow> nat list \<Rightarrow> bool" where
  "holds_jobs s q \<longleftrightarrow> distinct q \<and> links (frames s) q \<and>
     head s = (if q = [] then None else Some (hd q)) \<and> tail s = (if q = [] then None else Some (last q))"

lemma links_other: "a \<notin> set q \<Longrightarrow> links (m(a := x)) q = links m q"
  by (induction m q rule: links.induct) auto

lemma links_live: "links m q \<Longrightarrow> a \<in> set q \<Longrightarrow> \<exists>j. m a = Some j"
  by (induction m q rule: links.induct) (auto split: option.splits)

lemma links_tl: "links m (a # q) \<Longrightarrow> links m q \<and> (\<exists>j. m a = Some j \<and> job_next j = (if q = [] then None else Some (hd q)))"
  by (cases q) (auto split: option.splits)

lemma links_snoc:
  "links m (q @ [t]) \<Longrightarrow> m t = Some j \<Longrightarrow> m a = Some \<lparr>job_done = d, job_next = None\<rparr> \<Longrightarrow> distinct (q @ [t, a]) \<Longrightarrow>
    links (m(t \<mapsto> j\<lparr>job_next := Some a\<rparr>)) (q @ [t, a])"
proof (induction q rule: induct_list012)
  case 1
  then show ?case by simp
next
  case (2 x)
  then show ?case by (auto split: option.splits)
next
  case (3 x y zs)
  have "links (m(t \<mapsto> j\<lparr>job_next := Some a\<rparr>)) ((y # zs) @ [t, a])"
    by (rule "3.IH"(2)) (use "3.prems" in simp_all)
  moreover have "x \<noteq> t" using "3.prems"(4) by auto
  ultimately show ?case using "3.prems"(1) by (simp add: fun_upd_other del: fun_upd_apply)
qed

text \<open>What the two ends of a queue of jobs promise.\<close>

locale fifo =
  fixes put :: "'s \<Rightarrow> 'a \<Rightarrow> 's option" and get :: "'s \<Rightarrow> ('s \<times> 'a) option"
    and contents :: "'s \<Rightarrow> 'a list \<Rightarrow> bool" and ready :: "'s \<Rightarrow> 'a \<Rightarrow> bool"
  assumes put: "contents s q \<Longrightarrow> ready s a \<Longrightarrow> a \<notin> set q \<Longrightarrow>
      \<exists>s'. put s a = Some s' \<and> contents s' (q @ [a]) \<and> (\<forall>b. ready s b \<longrightarrow> b \<notin> set q \<longrightarrow> ready s' b)"
    and get: "contents s (a # q) \<Longrightarrow> \<exists>s'. get s = Some (s', a) \<and> contents s' q"
begin

fun put_all :: "'s \<Rightarrow> 'a list \<Rightarrow> 's option" where
  "put_all s [] = Some s"
| "put_all s (a # as) = Option.bind (put s a) (\<lambda>s'. put_all s' as)"

fun get_all :: "nat \<Rightarrow> 's \<Rightarrow> ('s \<times> 'a list) option" where
  "get_all 0 s = Some (s, [])"
| "get_all (Suc n) s = Option.bind (get s) (\<lambda>(s', a). map_option (\<lambda>(s2, as). (s2, a # as)) (get_all n s'))"

lemma put_all_contents:
  "contents s q \<Longrightarrow> distinct (q @ as) \<Longrightarrow> \<forall>a \<in> set as. ready s a \<Longrightarrow>
    \<exists>s'. put_all s as = Some s' \<and> contents s' (q @ as)"
proof (induction as arbitrary: s q)
  case (Cons a as)
  have "ready s a" "a \<notin> set q" using Cons.prems by auto
  from put [OF Cons.prems(1) this] obtain s' where
    s': "put s a = Some s'" "contents s' (q @ [a])" "\<forall>b. ready s b \<longrightarrow> b \<notin> set q \<longrightarrow> ready s' b" by blast
  have "\<exists>s''. put_all s' as = Some s'' \<and> contents s'' ((q @ [a]) @ as)"
    by (rule Cons.IH [OF s'(2)]) (use Cons.prems s'(3) in auto)
  with s'(1) show ?case by simp
qed simp

lemma get_all_contents: "contents s (as @ q) \<Longrightarrow> \<exists>s'. get_all (length as) s = Some (s', as) \<and> contents s' q"
proof (induction as arbitrary: s)
  case (Cons a as)
  from get [of s a "as @ q"] Cons.prems obtain s1 where "get s = Some (s1, a)" "contents s1 (as @ q)" by auto
  with Cons.IH [OF this(2)] show ?case by auto
qed simp

lemma in_order:
  "contents s q \<Longrightarrow> distinct (q @ as) \<Longrightarrow> \<forall>a \<in> set as. ready s a \<Longrightarrow>
    \<exists>s1 s2. put_all s as = Some s1 \<and> get_all (length (q @ as)) s1 = Some (s2, q @ as)"
  using put_all_contents [of s q as] get_all_contents [of _ "q @ as" "[]"] by fastforce

end

definition fresh_job :: "job_server \<Rightarrow> nat \<Rightarrow> bool" where
  \<comment> \<open>a job as its owner sets it up\<close>
  "fresh_job s a \<longleftrightarrow> (\<exists>d. frames s a = Some \<lparr>job_done = d, job_next = None\<rparr>)"

lemma enqueue_holds:
  assumes "holds_jobs s q" "fresh_job s a" "a \<notin> set q" "\<not> stopping s"
  shows "\<exists>s'. enqueue s a = Some (s', True) \<and> holds_jobs s' (q @ [a]) \<and>
    (\<forall>b. b \<notin> set q \<longrightarrow> frames s' b = frames s b) \<and> (\<forall>b. map_option job_done (frames s' b) = map_option job_done (frames s b)) \<and>
    stopping s' = stopping s \<and> clients s' = clients s"
proof (cases q rule: rev_cases)
  case Nil
  with assms show ?thesis by (auto simp: enqueue_def holds_jobs_def fresh_job_def)
next
  case (snoc q' t)
  then have t: "tail s = Some t" "links (frames s) (q' @ [t])" "distinct (q' @ [t, a])" using assms by (auto simp: holds_jobs_def)
  then obtain j where j: "frames s t = Some j" using links_live [OF t(2)] by auto
  obtain d where d: "frames s a = Some \<lparr>job_done = d, job_next = None\<rparr>" using assms(2) by (auto simp: fresh_job_def)
  have "hd (q' @ [t]) = hd (q' @ [t, a])" by (cases q') simp_all
  with links_snoc [OF t(2) j d t(3)] show ?thesis using assms(1,4) t j snoc by (auto simp: enqueue_def holds_jobs_def set_next_def)
qed

lemma dequeue_holds:
  assumes "holds_jobs s (a # q)"
  shows "\<exists>s'. dequeue s = Next (s', Some a) \<and> holds_jobs s' q \<and> frames s' = frames s \<and>
    stopping s' = stopping s \<and> clients s' = clients s"
proof -
  from assms obtain j where "frames s a = Some j" "job_next j = (if q = [] then None else Some (hd q))" "links (frames s) q"
    using links_tl [of "frames s" a q] by (auto simp: holds_jobs_def)
  with assms show ?thesis by (auto simp: dequeue_def holds_jobs_def)
qed

lemma dequeue_empty: "holds_jobs s [] \<Longrightarrow> dequeue s = (if stopping s then Next (s, None) else Blocked)"
  by (simp add: dequeue_def holds_jobs_def)

interpretation jq: fifo
  "\<lambda>s a. case enqueue s a of Some (s', True) \<Rightarrow> Some s' | _ \<Rightarrow> None"
  "\<lambda>s. case dequeue s of Next (s', Some a) \<Rightarrow> Some (s', a) | _ \<Rightarrow> None"
  "\<lambda>s q. holds_jobs s q \<and> \<not> stopping s" fresh_job
proof (unfold_locales, goal_cases)
  case (1 s q a)
  then obtain s' where s': "enqueue s a = Some (s', True)" "holds_jobs s' (q @ [a])" "\<forall>b. b \<notin> set q \<longrightarrow> frames s' b = frames s b"
    "stopping s' = stopping s" using enqueue_holds [of s q a] by blast
  with 1 show ?case by (intro exI [of _ s']) (simp add: fresh_job_def)
next
  case (2 s a q)
  then obtain s' where "dequeue s = Next (s', Some a)" "holds_jobs s' q" "stopping s' = stopping s"
    using dequeue_holds [of s a q] by blast
  with 2 show ?case by simp
qed


section \<open>The threads\<close>

datatype client_phase =
    Parsing  \<comment> \<open>up to \<open>enqueue\<close>: reading, parsing, answering without a job\<close>
  | Waiting  \<comment> \<open>its job is queued\<close>
  | Leaving  \<comment> \<open>at the label \<open>done\<close>, its job is gone\<close>

datatype worker_phase =
    Idle  \<comment> \<open>at \<open>dequeue\<close>\<close>
  | Taken nat  \<comment> \<open>after the unlock of \<open>dequeue\<close>\<close>
  | Running nat
  | Exited

datatype main_phase =
    Accepting
  | Starting  \<comment> \<open>a client is counted, its thread not yet started\<close>
  | Joining  \<comment> \<open>\<open>stopping\<close> is set\<close>
  | Draining  \<comment> \<open>the worker is joined\<close>
  | Returned

record threads =
  srv :: job_server
  client :: "nat \<rightharpoonup> client_phase"
  worker :: worker_phase
  main_at :: main_phase
  accepted :: "nat list"  \<comment> \<open>the jobs queued so far, in order; not in the program\<close>
  served :: "nat list"  \<comment> \<open>the jobs done so far, in order; not in the program\<close>

datatype event =
    Accept | Start nat | Start_fails | Stop | Join | Return
  | Take | Unlink | Finish
  | Answer nat | Enqueue nat | Wake nat | Leave nat

definition start_threads :: threads where
  "start_threads = \<lparr>srv = \<lparr>frames = Map.empty, head = None, tail = None, stopping = False, clients = 0\<rparr>,
     client = Map.empty, worker = Idle, main_at = Accepting, accepted = [], served = []\<rparr>"

definition main_step :: "event \<Rightarrow> threads \<Rightarrow> threads outcome" where
  "main_step e t =
     (let s = srv t in
      case (main_at t, e) of
        (Accepting, Accept) \<Rightarrow> Next (t\<lparr>srv := s\<lparr>clients := clients s + 1\<rparr>, main_at := Starting\<rparr>)
      | (Starting, Start c) \<Rightarrow>
          if client t c = None then Next (t\<lparr>client := (client t)(c \<mapsto> Parsing), main_at := Accepting\<rparr>) else Blocked
      | (Starting, Start_fails) \<Rightarrow> Next (t\<lparr>srv := s\<lparr>clients := clients s - 1\<rparr>, main_at := Accepting\<rparr>)
      | (Accepting, Stop) \<Rightarrow> Next (t\<lparr>srv := s\<lparr>stopping := True\<rparr>, main_at := Joining\<rparr>)
      | (Joining, Join) \<Rightarrow> if worker t = Exited then Next (t\<lparr>main_at := Draining\<rparr>) else Blocked
      | (Draining, Return) \<Rightarrow> if clients s > 0 then Blocked else Next (t\<lparr>main_at := Returned\<rparr>)
      | _ \<Rightarrow> Blocked)"

definition worker_step :: "event \<Rightarrow> threads \<Rightarrow> threads outcome" where
  \<comment> \<open>\<open>worker_main\<close>; the run of the job itself is between Unlink and Finish\<close>
  "worker_step e t =
     (if main_at t = Returned then (if worker t = Exited then Blocked else Fault)
      else
        let s = srv t in
        case (worker t, e) of
          (Idle, Take) \<Rightarrow>
            (case dequeue s of
               Fault \<Rightarrow> Fault
             | Blocked \<Rightarrow> Blocked
             | Next (s1, None) \<Rightarrow> Next (t\<lparr>srv := s1, worker := Exited\<rparr>)
             | Next (s1, Some a) \<Rightarrow> Next (t\<lparr>srv := s1, worker := Taken a\<rparr>))
        | (Taken a, Unlink) \<Rightarrow>
            (case set_next s a None of None \<Rightarrow> Fault | Some s1 \<Rightarrow> Next (t\<lparr>srv := s1, worker := Running a\<rparr>))
        | (Running a, Finish) \<Rightarrow>
            (case frames s a of
               None \<Rightarrow> Fault
             | Some j \<Rightarrow> Next (t\<lparr>srv := s\<lparr>frames := (frames s)(a \<mapsto> j\<lparr>job_done := True\<rparr>)\<rparr>, worker := Idle,
                                 served := served t @ [a]\<rparr>))
        | _ \<Rightarrow> Blocked)"

definition client_step :: "event \<Rightarrow> nat \<Rightarrow> threads \<Rightarrow> threads outcome" where
  \<comment> \<open>\<open>client_main\<close>\<close>
  "client_step e c t =
     (case client t c of
        None \<Rightarrow> Blocked
      | Some ph \<Rightarrow>
          if main_at t = Returned then Fault
          else
            let s = srv t in
            case (ph, e) of
              (Parsing, Answer _) \<Rightarrow> Next (t\<lparr>client := (client t)(c \<mapsto> Leaving)\<rparr>)
            | (Parsing, Enqueue _) \<Rightarrow>
                (let s0 = s\<lparr>frames := (frames s)(c \<mapsto> \<lparr>job_done = False, job_next = None\<rparr>)\<rparr> in
                 case enqueue s0 c of
                   None \<Rightarrow> Fault
                 | Some (s1, True) \<Rightarrow>
                     Next (t\<lparr>srv := s1, client := (client t)(c \<mapsto> Waiting), accepted := accepted t @ [c]\<rparr>)
                 | Some (s1, False) \<Rightarrow>
                     Next (t\<lparr>srv := s1\<lparr>frames := (frames s1)(c := None)\<rparr>, client := (client t)(c \<mapsto> Leaving)\<rparr>))
            | (Waiting, Wake _) \<Rightarrow>
                (case frames s c of
                   None \<Rightarrow> Fault
                 | Some j \<Rightarrow>
                     if job_done j
                     then Next (t\<lparr>srv := s\<lparr>frames := (frames s)(c := None)\<rparr>, client := (client t)(c \<mapsto> Leaving)\<rparr>)
                     else Blocked)
            | (Leaving, Leave _) \<Rightarrow> Next (t\<lparr>srv := client_done s, client := (client t)(c := None)\<rparr>)
            | _ \<Rightarrow> Blocked)"

fun step :: "event \<Rightarrow> threads \<Rightarrow> threads outcome" where
  "step (Answer c) t = client_step (Answer c) c t"
| "step (Enqueue c) t = client_step (Enqueue c) c t"
| "step (Wake c) t = client_step (Wake c) c t"
| "step (Leave c) t = client_step (Leave c) c t"
| "step Take t = worker_step Take t"
| "step Unlink t = worker_step Unlink t"
| "step Finish t = worker_step Finish t"
| "step e t = main_step e t"

inductive reachable :: "threads \<Rightarrow> bool" where
  start: "reachable start_threads"
| step: "reachable t \<Longrightarrow> step e t = Next t' \<Longrightarrow> reachable t'"

end
