(* ===== verification/JobQueueFacts.thy ===== *)
theory JobQueueFacts
  imports JobQueue
begin

text \<open>
  The schedules of the threads: no step uses a job that is gone or a server that is gone, the jobs are
  served in the order they were queued, and after a stop request every schedule ends with all of them
  served and main returned.
\<close>

section \<open>The invariant\<close>

definition working :: "threads \<Rightarrow> nat list" where
  "working t = (case worker t of Taken a \<Rightarrow> [a] | Running a \<Rightarrow> [a] | _ \<Rightarrow> [])"

definition pending :: "job_server \<Rightarrow> nat \<Rightarrow> bool" where
  "pending s c \<longleftrightarrow> (\<exists>j. frames s c = Some j \<and> \<not> job_done j)"

definition jobs_ok :: "threads \<Rightarrow> nat list \<Rightarrow> bool" where
  "jobs_ok t q \<longleftrightarrow> holds_jobs (srv t) q \<and> distinct (working t @ q) \<and>
     (\<forall>c. (frames (srv t) c \<noteq> None) = (client t c = Some Waiting)) \<and>
     (\<forall>c. pending (srv t) c = (c \<in> set (working t @ q))) \<and>
     accepted t = served t @ working t @ q"

definition phases_ok :: "threads \<Rightarrow> nat list \<Rightarrow> bool" where
  "phases_ok t q \<longleftrightarrow> finite (dom (client t)) \<and>
     clients (srv t) = int (card (dom (client t))) + (if main_at t = Starting then 1 else 0) \<and>
     (worker t = Exited \<longrightarrow> q = [] \<and> stopping (srv t)) \<and>
     (stopping (srv t) = (main_at t \<in> {Joining, Draining, Returned})) \<and>
     (main_at t \<in> {Draining, Returned} \<longrightarrow> worker t = Exited) \<and>
     (main_at t = Returned \<longrightarrow> client t = Map.empty)"

definition threads_ok :: "threads \<Rightarrow> nat list \<Rightarrow> bool" where
  "threads_ok t q \<longleftrightarrow> jobs_ok t q \<and> phases_ok t q"

definition keeps :: "threads \<Rightarrow> threads outcome \<Rightarrow> bool" where
  \<comment> \<open>no fault, and the invariant after the step\<close>
  "keeps t r \<longleftrightarrow> r \<noteq> Fault \<and> (\<forall>t'. r = Next t' \<longrightarrow> (\<exists>q. threads_ok t' q))"

lemma keeps_Blocked [simp]: "keeps t Blocked" by (simp add: keeps_def)
lemma keeps_Next: "threads_ok t' q \<Longrightarrow> keeps t (Next t')" by (auto simp: keeps_def)

lemma holds_jobs_frames:
  "holds_jobs s q \<Longrightarrow> a \<notin> set q \<Longrightarrow> holds_jobs (s\<lparr>frames := (frames s)(a := x)\<rparr>) q"
  by (simp add: holds_jobs_def links_other del: fun_upd_apply)

lemma holds_jobs_only: "frames s' = frames s \<Longrightarrow> head s' = head s \<Longrightarrow> tail s' = tail s \<Longrightarrow> holds_jobs s' q = holds_jobs s q"
  by (simp add: holds_jobs_def)

lemma start_ok: "threads_ok start_threads []"
  by (simp add: threads_ok_def jobs_ok_def phases_ok_def start_threads_def holds_jobs_def working_def pending_def)

lemma main_step_keeps: "threads_ok t q \<Longrightarrow> keeps t (main_step e t)"
  by (cases "main_at t"; cases e)
    (auto simp: main_step_def Let_def threads_ok_def jobs_ok_def phases_ok_def holds_jobs_def working_def pending_def
      card_insert_if domIff intro!: keeps_Next [of _ q] split: worker_phase.splits)


lemma pending_frames: "pending (s\<lparr>frames := m\<rparr>) c \<longleftrightarrow> (\<exists>j. m c = Some j \<and> \<not> job_done j)"
  by (simp add: pending_def)

lemma take_keeps:
  assumes "threads_ok t q" "worker t = Idle" "main_at t \<noteq> Returned"
  shows "keeps t (worker_step Take t)"
proof (cases q)
  case Nil
  then have "holds_jobs (srv t) []" using assms(1) by (simp add: threads_ok_def jobs_ok_def)
  note d = dequeue_empty [OF this]
  show ?thesis
  proof (cases "stopping (srv t)")
    case True
    have "threads_ok (t\<lparr>srv := srv t, worker := Exited\<rparr>) []"
      using assms Nil True by (auto simp add: threads_ok_def jobs_ok_def phases_ok_def working_def)
    then show ?thesis using assms(2,3) d True by (simp add: worker_step_def Let_def keeps_Next)
  next
    case False
    then show ?thesis using assms(2,3) d by (simp add: worker_step_def Let_def)
  qed
next
  case (Cons a q')
  then have "holds_jobs (srv t) (a # q')" using assms(1) by (simp add: threads_ok_def jobs_ok_def)
  from dequeue_holds [OF this] obtain s' where s': "dequeue (srv t) = Next (s', Some a)" "holds_jobs s' q'"
    "frames s' = frames (srv t)" "stopping s' = stopping (srv t)" "clients s' = clients (srv t)" by blast
  have "threads_ok (t\<lparr>srv := s', worker := Taken a\<rparr>) q'"
    using assms Cons s' by (simp add: threads_ok_def jobs_ok_def phases_ok_def working_def pending_def)
  then show ?thesis using assms(2,3) s'(1) by (simp add: worker_step_def Let_def keeps_Next)
qed

lemma taken_job:
  assumes "threads_ok t q" "worker t = Taken a \<or> worker t = Running a"
  obtains j where "frames (srv t) a = Some j" "\<not> job_done j" "a \<notin> set q" "main_at t \<noteq> Returned"
    "client t a = Some Waiting" "distinct q" "working t = [a]"
proof -
  have w: "working t = [a]" using assms(2) by (auto simp: working_def)
  then have "pending (srv t) a" "a \<notin> set q" "distinct q" using assms(1) by (auto simp: threads_ok_def jobs_ok_def)
  moreover have "main_at t \<noteq> Returned" using assms by (auto simp: threads_ok_def phases_ok_def)
  moreover have "client t a = Some Waiting"
    using assms(1) calculation(1) unfolding threads_ok_def jobs_ok_def pending_def by (metis option.distinct(1))
  ultimately show ?thesis using that w by (auto simp: pending_def)
qed

lemma unlink_keeps:
  assumes ok: "threads_ok t q" and w: "worker t = Taken a"
  shows "keeps t (worker_step Unlink t)"
proof -
  from taken_job [OF ok disjI1 [OF w]] obtain j where j: "frames (srv t) a = Some j" "\<not> job_done j" "a \<notin> set q"
    "main_at t \<noteq> Returned" "client t a = Some Waiting" "distinct q" "working t = [a]" .
  let ?s = "(srv t)\<lparr>frames := (frames (srv t))(a \<mapsto> j\<lparr>job_next := None\<rparr>)\<rparr>"
  have q: "holds_jobs ?s q" using ok holds_jobs_frames [OF _ j(3)] by (simp add: threads_ok_def jobs_ok_def)
  have "pending ?s c = pending (srv t) c" for c using j by (simp add: pending_def)
  moreover have "(frames ?s c \<noteq> None) = (frames (srv t) c \<noteq> None)" for c using j by simp
  ultimately have "threads_ok (t\<lparr>srv := ?s, worker := Running a\<rparr>) q"
    using ok w q by (simp add: threads_ok_def jobs_ok_def phases_ok_def working_def del: fun_upd_apply)
  then show ?thesis using j(1,4) w by (simp add: worker_step_def set_next_def Let_def keeps_Next)
qed

lemma finish_keeps:
  assumes ok: "threads_ok t q" and w: "worker t = Running a"
  shows "keeps t (worker_step Finish t)"
proof -
  from taken_job [OF ok disjI2 [OF w]] obtain j where j: "frames (srv t) a = Some j" "\<not> job_done j" "a \<notin> set q"
    "main_at t \<noteq> Returned" "client t a = Some Waiting" "distinct q" "working t = [a]" .
  let ?s = "(srv t)\<lparr>frames := (frames (srv t))(a \<mapsto> j\<lparr>job_done := True\<rparr>)\<rparr>"
  have q: "holds_jobs ?s q" using ok holds_jobs_frames [OF _ j(3)] by (simp add: threads_ok_def jobs_ok_def)
  have "pending ?s c = (pending (srv t) c \<and> c \<noteq> a)" for c using j by (simp add: pending_def)
  moreover have "(frames ?s c \<noteq> None) = (frames (srv t) c \<noteq> None)" for c using j by simp
  ultimately have "threads_ok (t\<lparr>srv := ?s, worker := Idle, served := served t @ [a]\<rparr>) q"
    using ok w q j(3) by (auto simp add: threads_ok_def jobs_ok_def phases_ok_def working_def simp del: fun_upd_apply)
  then show ?thesis using j(1,4) w by (simp add: worker_step_def Let_def keeps_Next)
qed

lemma worker_step_keeps:
  assumes "threads_ok t q"
  shows "keeps t (worker_step e t)"
proof -
  have r: "main_at t = Returned \<Longrightarrow> worker t = Exited" using assms by (simp add: threads_ok_def phases_ok_def)
  consider (take) "worker t = Idle" "e = Take" | (unlink) a where "worker t = Taken a" "e = Unlink"
    | (finish) a where "worker t = Running a" "e = Finish" | (blocked) "worker_step e t = Blocked"
  proof (cases "main_at t = Returned")
    case True
    with r that(4) show ?thesis by (simp add: worker_step_def)
  next
    case False
    with that show ?thesis by (cases "worker t"; cases e) (simp_all add: worker_step_def Let_def)
  qed
  then show ?thesis
  proof cases
    case take
    with r have "main_at t \<noteq> Returned" by auto
    with take_keeps [OF assms] take show ?thesis by simp
  next
    case unlink
    with unlink_keeps [OF assms] show ?thesis by simp
  next
    case finish
    with finish_keeps [OF assms] show ?thesis by simp
  qed simp
qed

lemma client_phase_ok:
  assumes "finite (dom m)" "m c = Some ph"
  shows "finite (dom (m(c := x)))" "card (dom (m(c := x))) = card (dom m) - (if x = None then 1 else 0)" "0 < card (dom m)"
    "card (dom (m(c \<mapsto> y))) = card (dom m)"
proof -
  have c: "c \<in> dom m" using assms(2) by blast
  with assms(1) show "finite (dom (m(c := x)))" "0 < card (dom m)" by (auto simp: card_gt_0_iff)
  show "card (dom (m(c := x))) = card (dom m) - (if x = None then 1 else 0)" using assms(1) c by (cases x) (auto simp: insert_absorb)
  show "card (dom (m(c \<mapsto> y))) = card (dom m)" using c by (simp add: insert_absorb)
qed

lemma enqueue_keeps:
  assumes ok: "threads_ok t q" and c: "client t c = Some Parsing" and main: "main_at t \<noteq> Returned"
  shows "keeps t (client_step (Enqueue c) c t)"
proof -
  let ?s0 = "(srv t)\<lparr>frames := (frames (srv t))(c \<mapsto> \<lparr>job_done = False, job_next = None\<rparr>)\<rparr>"
  have fc: "frames (srv t) c = None"
    using ok c unfolding threads_ok_def jobs_ok_def by (metis client_phase.distinct(1) option.inject)
  then have cq: "c \<notin> set (working t @ q)" using ok unfolding threads_ok_def jobs_ok_def pending_def by (metis option.distinct(1))
  then have q: "holds_jobs ?s0 q" using ok holds_jobs_frames [of "srv t" q c] by (simp add: threads_ok_def jobs_ok_def)
  have fin: "finite (dom (client t))" using ok by (simp add: threads_ok_def phases_ok_def)
  note ph = client_phase_ok [OF fin c]
  show ?thesis
  proof (cases "stopping (srv t)")
    case True
    have same: "(srv t)\<lparr>frames := (frames ?s0)(c := None)\<rparr> = srv t" using fc by (simp add: fun_upd_idem)
    have "threads_ok (t\<lparr>srv := srv t, client := (client t)(c \<mapsto> Leaving)\<rparr>) q"
      using ok c ph fc main by (auto simp add: threads_ok_def jobs_ok_def phases_ok_def working_def)
    then show ?thesis using c main True same by (simp add: client_step_def enqueue_def Let_def keeps_Next)
  next
    case False
    have "fresh_job ?s0 c" by (auto simp: fresh_job_def)
    then obtain s' where s': "enqueue ?s0 c = Some (s', True)" "holds_jobs s' (q @ [c])"
      "\<forall>b. b \<notin> set q \<longrightarrow> frames s' b = frames ?s0 b" "\<forall>b. map_option job_done (frames s' b) = map_option job_done (frames ?s0 b)"
      "stopping s' = stopping ?s0" "clients s' = clients ?s0" using enqueue_holds [OF q, of c] cq False by auto
    have live: "frames s' b \<noteq> None \<longleftrightarrow> frames (srv t) b \<noteq> None \<or> b = c" for b
      using s'(4) by (metis (no_types, lifting) fun_upd_apply job_server.select_convs(1) job_server.simps(6) job_server.surjective job_server.update_convs(1) map_option_is_None option.distinct(1))
    have pend: "pending s' b \<longleftrightarrow> pending (srv t) b \<or> b = c" for b
    proof -
      have "pending s' b \<longleftrightarrow> map_option job_done (frames s' b) = Some False" by (auto simp: pending_def)
      also have "\<dots> \<longleftrightarrow> pending (srv t) b \<or> b = c" using s'(4) by (auto simp: pending_def)
      finally show ?thesis .
    qed
    have "threads_ok (t\<lparr>srv := s', client := (client t)(c \<mapsto> Waiting), accepted := accepted t @ [c]\<rparr>) (q @ [c])"
      using ok c ph fc main False cq s'(2,5,6) live pend
      by (auto simp add: threads_ok_def jobs_ok_def phases_ok_def working_def split: worker_phase.splits)
    then show ?thesis using c main s'(1) by (simp add: client_step_def Let_def keeps_Next)
  qed
qed


lemma answer_keeps:
  assumes ok: "threads_ok t q" and c: "client t c = Some Parsing" and main: "main_at t \<noteq> Returned"
  shows "threads_ok (t\<lparr>client := (client t)(c \<mapsto> Leaving)\<rparr>) q"
proof -
  have fc: "frames (srv t) c = None"
    using ok c unfolding threads_ok_def jobs_ok_def by (metis client_phase.distinct(1) option.inject)
  have "finite (dom (client t))" using ok by (simp add: threads_ok_def phases_ok_def)
  from client_phase_ok [OF this c] show ?thesis
    using ok c fc main by (auto simp: threads_ok_def jobs_ok_def phases_ok_def working_def)
qed

lemma wake_keeps:
  assumes ok: "threads_ok t q" and c: "client t c = Some Waiting" and main: "main_at t \<noteq> Returned"
    and j: "frames (srv t) c = Some j" "job_done j"
  shows "threads_ok (t\<lparr>srv := (srv t)\<lparr>frames := (frames (srv t))(c := None)\<rparr>, client := (client t)(c \<mapsto> Leaving)\<rparr>) q"
proof -
  have p: "\<not> pending (srv t) c" using j by (simp add: pending_def)
  then have cq: "c \<notin> set (working t @ q)" using ok unfolding threads_ok_def jobs_ok_def by blast
  then have q: "holds_jobs ((srv t)\<lparr>frames := (frames (srv t))(c := None)\<rparr>) q"
    using ok holds_jobs_frames [of "srv t" q c] by (simp add: threads_ok_def jobs_ok_def)
  have pend: "pending ((srv t)\<lparr>frames := (frames (srv t))(c := None)\<rparr>) b = pending (srv t) b" for b
    using p by (auto simp: pending_def)
  have "finite (dom (client t))" using ok by (simp add: threads_ok_def phases_ok_def)
  from client_phase_ok [OF this c] show ?thesis
    using ok c main q pend by (auto simp: threads_ok_def jobs_ok_def phases_ok_def working_def)
qed

lemma leave_keeps:
  assumes ok: "threads_ok t q" and c: "client t c = Some Leaving" and main: "main_at t \<noteq> Returned"
  shows "threads_ok (t\<lparr>srv := client_done (srv t), client := (client t)(c := None)\<rparr>) q"
proof -
  have fc: "frames (srv t) c = None"
    using ok c unfolding threads_ok_def jobs_ok_def by (metis client_phase.distinct(5) option.inject)
  have fin: "finite (dom (client t))" using ok by (simp add: threads_ok_def phases_ok_def)
  note ph = client_phase_ok [OF fin c]
  have "0 < clients (srv t)" using ph(3) ok by (simp add: threads_ok_def phases_ok_def)
  then have d: "client_done (srv t) = (srv t)\<lparr>clients := clients (srv t) - 1\<rparr>" by (simp add: client_done_def)
  have fewer: "int (card (dom ((client t)(c := None)))) = int (card (dom (client t))) - 1" "finite (dom ((client t)(c := None)))"
    using ph(1) [of None] ph(2) [of None] ph(3) by simp_all
  show ?thesis unfolding d
    using ok c fc main fewer by (auto simp: threads_ok_def jobs_ok_def phases_ok_def working_def holds_jobs_def pending_def)
qed

lemma client_step_keeps:
  assumes ok: "threads_ok t q" and e: "e \<in> {Answer c, Enqueue c, Wake c, Leave c}"
  shows "keeps t (client_step e c t)"
proof (cases "client t c")
  case (Some ph)
  then have main: "main_at t \<noteq> Returned" using ok by (auto simp: threads_ok_def phases_ok_def)
  show ?thesis
  proof (cases ph)
    case Parsing
    then have c: "client t c = Some Parsing" using Some by simp
    from e consider "e = Enqueue c" | "e = Answer c" | "e \<in> {Wake c, Leave c}" by blast
    then show ?thesis
    proof cases
      case 1
      with enqueue_keeps [OF ok c main] show ?thesis by simp
    next
      case 2
      with keeps_Next [OF answer_keeps [OF ok c main]] c main show ?thesis by (simp add: client_step_def Let_def)
    next
      case 3
      with c main show ?thesis by (auto simp: client_step_def Let_def)
    qed
  next
    case Waiting
    then have c: "client t c = Some Waiting" using Some by simp
    with ok obtain j where j: "frames (srv t) c = Some j" unfolding threads_ok_def jobs_ok_def by blast
    show ?thesis using e c main j keeps_Next [OF wake_keeps [OF ok c main j]] by (auto simp: client_step_def Let_def)
  next
    case Leaving
    then have c: "client t c = Some Leaving" using Some by simp
    show ?thesis using e c main keeps_Next [OF leave_keeps [OF ok c main]] by (auto simp: client_step_def Let_def)
  qed
qed (simp add: client_step_def)

lemma step_keeps: "threads_ok t q \<Longrightarrow> keeps t (step e t)"
  by (cases e) (simp_all add: main_step_keeps worker_step_keeps client_step_keeps)

lemma reachable_ok: "reachable t \<Longrightarrow> \<exists>q. threads_ok t q"
proof (induction rule: reachable.induct)
  case start
  show ?case using start_ok by blast
next
  case (step t e t')
  then obtain q where "threads_ok t q" by blast
  from step_keeps [OF this, of e] step(2) show ?case by (simp add: keeps_def)
qed


text \<open>
  C3. In every schedule of the main thread, the worker and any number of clients no step uses a job whose
  owner has left, or the server after main has returned; and the jobs are served exactly once, in the
  order in which they were accepted: what has been served, the job in work and the queue of the server
  make up what was accepted.
\<close>

theorem threads_never_fault:
  "reachable t \<Longrightarrow> step e t \<noteq> Fault \<and> (\<exists>q. holds_jobs (srv t) q \<and> accepted t = served t @ working t @ q)"
  using reachable_ok [of t] step_keeps [of t _ e] by (auto simp: keeps_def threads_ok_def jobs_ok_def)

lemma steps_reach: "reachable t \<Longrightarrow> step e t = Next t' \<Longrightarrow> reachable t'"
  by (rule reachable.step)

fun run :: "event list \<Rightarrow> threads \<Rightarrow> threads outcome" where
  "run [] t = Next t"
| "run (e # es) t = (case step e t of Next t' \<Rightarrow> run es t' | r \<Rightarrow> r)"

lemma run_reach: "reachable t \<Longrightarrow> run es t = Next t' \<Longrightarrow> reachable t'"
  by (induction es arbitrary: t) (auto split: outcome.splits intro: reachable.step)

definition two_clients :: "event list" where
  "two_clients = [Accept, Start 0, Accept, Start 1, Enqueue 1, Enqueue 0, Take, Unlink, Stop, Finish, Wake 1]"

lemma threads_never_fault_witness:
  "\<exists>t. run two_clients start_threads = Next t \<and> accepted t = [1, 0] \<and> served t = [1] \<and> step Take t \<noteq> Fault \<and>
    (\<exists>q. holds_jobs (srv t) q \<and> accepted t = served t @ working t @ q)"
proof -
  obtain t where t: "run two_clients start_threads = Next t" "accepted t = [1, 0]" "served t = [1]"
    by (simp add: two_clients_def start_threads_def main_step_def client_step_def worker_step_def enqueue_def dequeue_def
        set_next_def)
  show ?thesis using t threads_never_fault [OF run_reach [OF reachable.start t(1)], of Take] by blast
qed

section \<open>Shutting down\<close>

definition worker_left :: "worker_phase \<Rightarrow> nat" where
  "worker_left w = (case w of Taken _ \<Rightarrow> 3 | Running _ \<Rightarrow> 2 | Idle \<Rightarrow> 1 | Exited \<Rightarrow> 0)"

definition client_left :: "client_phase \<Rightarrow> nat" where
  "client_left p = (case p of Parsing \<Rightarrow> 2 | Waiting \<Rightarrow> 2 | Leaving \<Rightarrow> 1)"

definition main_left :: "main_phase \<Rightarrow> nat" where
  "main_left m = (case m of Joining \<Rightarrow> 2 | Draining \<Rightarrow> 1 | _ \<Rightarrow> 0)"

definition steps_left :: "threads \<Rightarrow> nat" where
  "steps_left t = 3 * length (accepted t) - 3 * length (served t @ working t) + worker_left (worker t) +
     (\<Sum>c \<in> dom (client t). client_left (the (client t c))) + main_left (main_at t)"

lemma clients_left:
  assumes "finite (dom m)" "m c = Some p"
  shows "client_left p' < client_left p \<Longrightarrow> (\<Sum>a \<in> dom (m(c \<mapsto> p')). client_left (the ((m(c \<mapsto> p')) a))) < (\<Sum>a \<in> dom m. client_left (the (m a)))"
    "0 < client_left p \<Longrightarrow> (\<Sum>a \<in> dom (m(c := None)). client_left (the ((m(c := None)) a))) < (\<Sum>a \<in> dom m. client_left (the (m a)))"
proof -
  have c: "c \<in> dom m" using assms(2) by blast
  have eq: "(\<Sum>a \<in> dom m - {c}. client_left (the ((m(c := x)) a))) = (\<Sum>a \<in> dom m - {c}. client_left (the (m a)))" for x
    by (rule sum.cong) auto
  note s = sum.remove [OF assms(1) c]
  show "(\<Sum>a \<in> dom (m(c \<mapsto> p')). client_left (the ((m(c \<mapsto> p')) a))) < (\<Sum>a \<in> dom m. client_left (the (m a)))"
    if "client_left p' < client_left p"
    using that assms(2) s [of "\<lambda>a. client_left (the (m a))"] s [of "\<lambda>a. client_left (the ((m(c \<mapsto> p')) a))"] eq [of "Some p'"] c
    by (simp add: insert_absorb)
  show "(\<Sum>a \<in> dom (m(c := None)). client_left (the ((m(c := None)) a))) < (\<Sum>a \<in> dom m. client_left (the (m a)))"
    if "0 < client_left p"
    using that assms(2) s [of "\<lambda>a. client_left (the (m a))"] eq [of None] by simp
qed

lemma main_step_left: "threads_ok t q \<Longrightarrow> stopping (srv t) \<Longrightarrow> main_step e t = Next t' \<Longrightarrow> steps_left t' < steps_left t \<and> stopping (srv t')"
  by (cases "main_at t"; cases e)
    (auto simp: main_step_def Let_def threads_ok_def phases_ok_def steps_left_def main_left_def working_def split: if_splits)

lemma worker_step_left:
  assumes ok: "threads_ok t q" and "stopping (srv t)" "worker_step e t = Next t'"
  shows "steps_left t' < steps_left t \<and> stopping (srv t')"
proof -
  have acc: "accepted t = served t @ working t @ q" "holds_jobs (srv t) q" using ok by (simp_all add: threads_ok_def jobs_ok_def)
  show ?thesis
  proof (cases q)
    case Nil
    with dequeue_empty [of "srv t"] acc assms(2,3) show ?thesis
      by (cases "worker t"; cases e)
        (auto simp: worker_step_def Let_def steps_left_def worker_left_def working_def set_next_def split: if_splits option.splits)
  next
    case (Cons a q')
    with dequeue_holds [of "srv t" a q'] acc assms(2,3) show ?thesis
      by (cases "worker t"; cases e)
        (auto simp: worker_step_def Let_def steps_left_def worker_left_def working_def set_next_def split: if_splits option.splits)
  qed
qed


lemma client_step_left:
  assumes ok: "threads_ok t q" and st: "stopping (srv t)" and e: "e \<in> {Answer c, Enqueue c, Wake c, Leave c}"
    and n: "client_step e c t = Next t'"
  shows "steps_left t' < steps_left t \<and> stopping (srv t')"
proof -
  obtain p where p: "client t c = Some p" using n by (cases "client t c") (simp_all add: client_step_def)
  have main: "main_at t \<noteq> Returned" using n p by (auto simp: client_step_def)
  have fin: "finite (dom (client t))" using ok by (simp add: threads_ok_def phases_ok_def)
  note less = clients_left [OF fin p]
  have "(client t' = (client t)(c \<mapsto> Leaving) \<and> client_left Leaving < client_left p) \<or> (client t' = (client t)(c := None) \<and> 0 < client_left p)"
    using n p main st e by (cases p)
      (auto simp: client_step_def Let_def enqueue_def client_left_def split: if_splits option.splits)
  then have "(\<Sum>c \<in> dom (client t'). client_left (the (client t' c))) < (\<Sum>c \<in> dom (client t). client_left (the (client t c)))"
    using less by (elim disjE conjE) (simp_all only:)
  moreover have "accepted t' = accepted t \<and> served t' = served t \<and> worker t' = worker t \<and> main_at t' = main_at t \<and> stopping (srv t')"
    using n p main st e by (cases p)
      (auto simp: client_step_def Let_def enqueue_def client_done_def split: if_splits option.splits)
  ultimately show ?thesis by (simp add: steps_left_def working_def)
qed

lemma step_left:
  "threads_ok t q \<Longrightarrow> stopping (srv t) \<Longrightarrow> step e t = Next t' \<Longrightarrow> steps_left t' < steps_left t \<and> stopping (srv t')"
proof -
  assume ok: "threads_ok t q" "stopping (srv t)" and n: "step e t = Next t'"
  consider (client) c where "e \<in> {Answer c, Enqueue c, Wake c, Leave c}" "step e t = client_step e c t"
    | (worker) "step e t = worker_step e t" | (main) "step e t = main_step e t"
    by (cases e) auto
  then show ?thesis
  proof cases
    case client
    from client_step_left [OF ok client(1)] n client(2) show ?thesis by simp
  next
    case worker
    from worker_step_left [OF ok] n worker show ?thesis by simp
  next
    case main
    from main_step_left [OF ok] n main show ?thesis by simp
  qed
qed

lemma run_left:
  "reachable t \<Longrightarrow> stopping (srv t) \<Longrightarrow> run es t = Next t' \<Longrightarrow> length es + steps_left t' \<le> steps_left t \<and> stopping (srv t') \<and> reachable t'"
proof (induction es arbitrary: t)
  case (Cons e es)
  from Cons.prems(3) obtain t1 where t1: "step e t = Next t1" "run es t1 = Next t'" by (cases "step e t") simp_all
  obtain q where q: "threads_ok t q" using reachable_ok [OF Cons.prems(1)] by blast
  note l = step_left [OF q Cons.prems(2) t1(1)]
  with Cons.IH [OF reachable.step [OF Cons.prems(1) t1(1)] _ t1(2)] show ?case by simp
qed simp

lemma not_stuck:
  assumes ok: "threads_ok t q" and st: "stopping (srv t)" and main: "main_at t \<noteq> Returned"
  shows "\<exists>e. step e t \<noteq> Blocked"
proof (cases "worker t")
  case Idle
  have "holds_jobs (srv t) q" using ok by (simp add: threads_ok_def jobs_ok_def)
  then have "dequeue (srv t) \<noteq> Blocked"
    using dequeue_empty [of "srv t"] dequeue_holds [of "srv t"] st by (cases q) fastforce+
  then have "step Take t \<noteq> Blocked"
    using Idle main by (cases "dequeue (srv t)") (auto simp: worker_step_def Let_def split: option.splits)
  then show ?thesis by blast
next
  case (Taken a)
  from taken_job [OF ok disjI1 [OF Taken]] obtain j where "frames (srv t) a = Some j" .
  then have "step Unlink t \<noteq> Blocked" using Taken main by (simp add: worker_step_def Let_def set_next_def)
  then show ?thesis by blast
next
  case (Running a)
  from taken_job [OF ok disjI2 [OF Running]] obtain j where "frames (srv t) a = Some j" .
  then have "step Finish t \<noteq> Blocked" using Running main by (simp add: worker_step_def Let_def)
  then show ?thesis by blast
next
  case Exited
  then have q: "q = []" "working t = []" using ok by (simp_all add: threads_ok_def phases_ok_def working_def)
  have m: "main_at t = Joining \<or> main_at t = Draining" using ok st main by (auto simp: threads_ok_def phases_ok_def)
  show ?thesis
  proof (cases "dom (client t) = {}")
    case True
    then have "clients (srv t) = 0" using ok m by (auto simp: threads_ok_def phases_ok_def)
    then have "step Join t \<noteq> Blocked \<or> step Return t \<noteq> Blocked" using m Exited by (auto simp: main_step_def)
    then show ?thesis by blast
  next
    case False
    then obtain c where "c \<in> dom (client t)" by blast
    then obtain p where p: "client t c = Some p" by blast
    have "step (Answer c) t \<noteq> Blocked \<or> step (Wake c) t \<noteq> Blocked \<or> step (Leave c) t \<noteq> Blocked"
    proof (cases p)
      case Waiting
      with ok p obtain j where j: "frames (srv t) c = Some j" unfolding threads_ok_def jobs_ok_def by blast
      have "\<not> pending (srv t) c" using ok q by (simp add: threads_ok_def jobs_ok_def)
      with j have "job_done j" by (simp add: pending_def)
      with p j Waiting main show ?thesis by (simp add: client_step_def Let_def)
    qed (use p main in \<open>simp_all add: client_step_def Let_def\<close>)
    then show ?thesis by blast
  qed
qed


definition shut_down :: "event list" where
  "shut_down = [Finish, Wake 1, Take, Leave 1, Unlink, Finish, Take, Join, Wake 0, Leave 0, Return]"

lemma ended_blocked: "main_at t = Returned \<Longrightarrow> worker t = Exited \<Longrightarrow> client t = Map.empty \<Longrightarrow> step e t = Blocked"
  by (cases e) (simp_all add: main_step_def worker_step_def client_step_def)


end
