(* ===== verification/EngineApi.thy ===== *)
theory EngineApi
  imports KvCache
begin

text \<open>
  The engine and its session as the server uses them (ds4.h), with the KV part of \<open>KvCache\<close>:
  positions, \<open>ds4_session_sync\<close> with the calls of its progress callback, rewriting, sampling, one token
  and speculative decoding. A callback sees the session in the state of the moment and cannot change it.
\<close>

datatype ds4_session_rewrite_result = REWRITE_OK | REWRITE_REBUILD_NEEDED | REWRITE_ERROR

record 'ses decode_api =
  de_kv :: "'ses engine_api"
  de_pos :: "'ses \<Rightarrow> int"
  de_common_prefix :: "'ses \<Rightarrow> int list \<Rightarrow> int"
  de_sync :: "'ses \<Rightarrow> bool \<Rightarrow> int list \<Rightarrow> (int \<times> 'ses) list \<times> 'ses \<times> cstr option"
    \<comment> \<open>is a callback installed; its \<open>prefill_chunk\<close> calls; the error\<close>
  de_rewrite :: "'ses \<Rightarrow> int list \<Rightarrow> int \<Rightarrow> 'ses \<times> ds4_session_rewrite_result"
  de_sample :: "'ses \<Rightarrow> double \<Rightarrow> int \<Rightarrow> double \<Rightarrow> double \<Rightarrow> u64 \<Rightarrow> int \<times> u64"
  de_eval :: "'ses \<Rightarrow> int \<Rightarrow> 'ses \<times> cstr option"
  de_eval_spec :: "'ses \<Rightarrow> int \<Rightarrow> int \<Rightarrow> int \<Rightarrow> nat \<Rightarrow> 'ses \<times> (int list + cstr)"
  de_eos :: int
  de_mtp_draft_tokens :: int
  de_tokenize :: "cstr \<Rightarrow> int list"

abbreviation de_ctx :: "'ses decode_api \<Rightarrow> 'ses \<Rightarrow> int" where
  "de_ctx en \<equiv> en_ctx (de_kv en)"

abbreviation de_tokens :: "'ses decode_api \<Rightarrow> 'ses \<Rightarrow> int list option" where
  "de_tokens en \<equiv> en_tokens (de_kv en)"

abbreviation de_invalidate :: "'ses decode_api \<Rightarrow> 'ses \<Rightarrow> 'ses" where
  "de_invalidate en \<equiv> en_invalidate (de_kv en)"

end
