(* ===== verification/Generate.thy ===== *)
theory Generate
  imports EngineApi OpenaiStream AnthropicStream Requests DsmlParse Render
begin

text \<open>
  The worker's run of one job (ds4_server.c, \<open>generate_job\<close> and its helpers): the prompt is brought into
  the session (from the live session, from a file of the KV cache, or by prefilling), tokens are decoded
  one by one into a text that is streamed as it grows, and the answer is finished from the parsed text.

  None is a return that never comes (random ids that never get fresh) or an access to freed memory in
  the tool memory. Traces, logs and their timing are left out; what the logging branches do besides is not.
  Token texts are C strings here, as they are wherever the program searches the text.
\<close>

record gen_env =
  ge_kv :: kv_env
  ge_stop :: "nat \<Rightarrow> bool"  \<comment> \<open>the \<open>n\<close>-th look at \<open>g_stop_requested\<close>\<close>
  ge_spec_disabled :: bool  \<comment> \<open>is \<open>DS4_MTP_SPEC_DISABLE\<close> set\<close>
  ge_seed :: u64  \<comment> \<open>made of the time and of addresses\<close>
  ge_now :: int
  ge_rnd :: "nat \<Rightarrow> u8 list"

section \<open>The prompt\<close>

definition server_progress_cb ::
  "kv_env \<Rightarrow> 'ses decode_api \<Rightarrow> int \<Rightarrow> int \<Rightarrow> ('ses, 'b) kv_server_scheme \<Rightarrow> ('ses, 'b) kv_server_scheme option" where
  \<comment> \<open>both branches end with the same store\<close>
  "server_progress_cb kenv en cached_tokens current s =
     (if current > cached_tokens then kv_cache_maybe_store_continued kenv (de_kv en) s else Some s)"

fun run_progress ::
  "kv_env \<Rightarrow> 'ses decode_api \<Rightarrow> int \<Rightarrow> (int \<times> 'ses) list \<Rightarrow> ('ses, 'b) kv_server_scheme \<Rightarrow> ('ses, 'b) kv_server_scheme option" where
  "run_progress kenv en cached [] s = Some s"
| "run_progress kenv en cached ((current, ses) # cs) s =
     (case server_progress_cb kenv en cached current (s\<lparr>session := ses\<rparr>) of
        None \<Rightarrow> None
      | Some s1 \<Rightarrow> run_progress kenv en cached cs s1)"

definition sync_with_progress ::
  "kv_env \<Rightarrow> 'ses decode_api \<Rightarrow> int \<Rightarrow> ('ses, 'b) kv_server_scheme \<Rightarrow> int list \<Rightarrow>
   (('ses, 'b) kv_server_scheme \<times> cstr option) option" where
  "sync_with_progress kenv en cached s prompt =
     (case de_sync en (session s) True prompt of
        (cs, ses, err) \<Rightarrow> map_option (\<lambda>s1. (s1\<lparr>session := ses\<rparr>, err)) (run_progress kenv en cached cs s))"

definition prefill_cached ::
  "kv_env \<Rightarrow> 'ses decode_api \<Rightarrow> ('ses, 'b) kv_server_scheme \<Rightarrow> int list \<Rightarrow> (('ses, 'b) kv_server_scheme \<times> int) option" where
  \<comment> \<open>how many tokens of the prompt need no prefill\<close>
  "prefill_cached kenv en s prompt =
     (let old_pos = de_pos en (session s);
          common = de_common_prefix en (session s) prompt;
          cached = (if common = old_pos \<and> int (length prompt) \<ge> old_pos then common else 0);
          s1 = (if cached = 0 then s\<lparr>kv := (kv s)\<lparr>kc_continued_last_store_tokens := 0\<rparr>\<rparr> else s)
      in do {
           s2 \<leftarrow> (if kc_enabled (kv s1) \<and> cached = 0 \<and> old_pos \<ge> min_tokens (kc_opt (kv s1))
                 then kv_cache_store_current kenv (de_kv en) s1 ''evict'' else Some s1);
           if cached = 0 then
             do { (s3, disk_cached, _) \<leftarrow> kv_cache_try_load_tokens kenv (de_kv en) s2 prompt;
                  Some (s3, if disk_cached > 0 then disk_cached else 0) }
           else Some (s2, cached)
         })"

definition cold_store_len :: "kv_disk_cache \<Rightarrow> int \<Rightarrow> int \<Rightarrow> int" where
  "cold_store_len kc cached n =
     (if cached = 0 \<and> kc_enabled kc \<and> n \<ge> min_tokens (kc_opt kc) \<and> cold_max_tokens (kc_opt kc) > 0 \<and>
         n \<le> cold_max_tokens (kc_opt kc)
      then kv_cache_store_len kc n else 0)"

definition store_cold ::
  "kv_env \<Rightarrow> 'ses decode_api \<Rightarrow> ('ses, 'b) kv_server_scheme \<Rightarrow> int list \<Rightarrow> int \<Rightarrow> ('ses, 'b) kv_server_scheme option" where
  "store_cold kenv en s prompt n =
     map_option (\<lambda>(s1, ok). if ok then s1\<lparr>kv := kv_cache_note_store (kv s1) n\<rparr> else s1)
       (kv_cache_store_live_prefix kenv (de_kv en) s (Some prompt) n ''cold'')"

definition prefill_job ::
  "kv_env \<Rightarrow> 'ses decode_api \<Rightarrow> ('ses, 'b) kv_server_scheme \<Rightarrow> int list \<Rightarrow> (('ses, 'b) kv_server_scheme \<times> cstr option) option" where
  \<comment> \<open>the error, if the prompt cannot be prefilled\<close>
  "prefill_job kenv en s prompt =
     do {
       (s1, cached) \<leftarrow> prefill_cached kenv en s prompt;
       let n = int (length prompt);
       let cold = cold_store_len (kv s1) cached n;
       (s2, err) \<leftarrow>
         (if kc_enabled (kv s1) \<and> cold \<ge> min_tokens (kc_opt (kv s1)) \<and> cold < n then
            do { (s2, err) \<leftarrow> sync_with_progress kenv en cached s1 (tokens_copy_prefix prompt cold);
                 if err \<noteq> None then Some (s2, err)
                 else map_option (\<lambda>s3. (s3, None)) (store_cold kenv en s2 prompt cold) }
          else Some (s1, None));
       if err \<noteq> None then Some (s2, err)
       else
         do { (s3, err) \<leftarrow> sync_with_progress kenv en cached s2 prompt;
              if err \<noteq> None then Some (s3, err)
              else if cold = n then map_option (\<lambda>s4. (s4, None)) (store_cold kenv en s3 prompt cold)
              else Some (s3, None) }
     }"

section \<open>The local variables of the decode loop\<close>

record ('ses, 'b) decode =
  g_srv :: "('ses, 'b) kv_server_scheme"
  g_net :: net
  g_text :: string
  g_plain_pos :: nat
  g_scan_from :: nat
  g_finish :: cstr
  g_err :: cstr
  g_completion :: int
  g_marks :: marker_state
  g_tool_scan_from :: nat
  g_next_log :: int
  g_logged :: int
  g_anth :: anthropic_stream
  g_open :: openai_stream
  g_rng :: u64
  g_polls :: nat

definition chat_tools :: "request \<Rightarrow> bool" where
  "chat_tools req \<longleftrightarrow> r_kind req = REQ_CHAT \<and> r_has_tools req"

definition c_str_from :: "nat \<Rightarrow> string \<Rightarrow> string" where
  \<comment> \<open>the text as a search that starts at a position sees it\<close>
  "c_str_from n s = take n s @ c_str (drop n s)"

definition stop_scan :: "stop_list \<Rightarrow> string \<Rightarrow> nat \<Rightarrow> nat \<Rightarrow> nat option \<times> nat \<times> nat" where
  \<comment> \<open>where a stop sequence starts, how much may be shown, where to search next time\<close>
  "stop_scan stops text scan_from plain_pos =
     (let hit = map_option fst (stop_list_find_from stops (c_str_from scan_from text) scan_from);
          len1 = (case hit of Some pos \<Rightarrow> pos | None \<Rightarrow> stop_list_stream_safe_len stops (length text));
          len2 = (if len1 > length text then length text else len1);
          hold = max_len stops - 1
      in (hit, utf8_stream_safe_len text plain_pos len2 (hit \<noteq> None),
          if hit = None \<and> max_len stops > 1 then (if length text > hold then length text - hold else 0) else scan_from))"

section \<open>Streaming\<close>

definition emit_plain :: "request \<Rightarrow> nat \<Rightarrow> ('ses, 'b) decode \<Rightarrow> ('ses, 'b) decode \<times> bool" where
  "emit_plain req stream_len d =
     (if r_stream req \<and> \<not> request_uses_structured_stream req \<and> stream_len > g_plain_pos d then
        (case sse_chunk (g_net d) (Some (c_str (piece (g_text d) (g_plain_pos d) stream_len))) None of
           (w, ok) \<Rightarrow> (if ok then d\<lparr>g_net := w, g_plain_pos := stream_len\<rparr> else d\<lparr>g_net := w\<rparr>, ok))
      else (d, True))"

definition emit_anthropic :: "request \<Rightarrow> nat \<Rightarrow> ('ses, 'b) decode \<Rightarrow> ('ses, 'b) decode \<times> bool" where
  "emit_anthropic req stream_len d =
     (if r_stream req \<and> r_api req = API_ANTHROPIC then
        (case anthropic_sse_stream_update (r_has_tools req) (g_anth d) (g_net d) (g_text d) stream_len False of
           (st, w, ok) \<Rightarrow> (d\<lparr>g_anth := st, g_net := w\<rparr>, ok))
      else (d, True))"

definition emit_openai :: "gen_env \<Rightarrow> request \<Rightarrow> nat \<Rightarrow> ('ses, 'b) decode \<Rightarrow> (('ses, 'b) decode \<times> bool) option" where
  "emit_openai genv req stream_len d =
     (if request_uses_openai_live_stream req then
        map_option (\<lambda>(st, w, ok). (d\<lparr>g_open := st, g_net := w\<rparr>, ok))
          (openai_sse_stream_update (g_srv d) (ge_rnd genv) (r_has_tools req) (g_open d) (g_net d) (g_text d) stream_len False)
      else Some (d, True))"

definition emit :: "gen_env \<Rightarrow> request \<Rightarrow> nat \<Rightarrow> ('ses, 'b) decode \<Rightarrow> (('ses, 'b) decode \<times> bool) option" where
  "emit genv req stream_len d =
     (case emit_plain req stream_len d of
        (d1, False) \<Rightarrow> Some (d1, False)
      | (d1, True) \<Rightarrow>
          (case emit_anthropic req stream_len d1 of
             (d2, False) \<Rightarrow> Some (d2, False)
           | (d2, True) \<Rightarrow> emit_openai genv req stream_len d2))"

section \<open>One token\<close>

definition observe_markers :: "request \<Rightarrow> ('ses, 'b) decode \<Rightarrow> ('ses, 'b) decode" where
  "observe_markers req d =
     (if chat_tools req then
        d\<lparr>g_marks := observe_tool_markers (c_str (drop (g_tool_scan_from d) (g_text d))) ((g_marks d)\<lparr>orphan_end := False\<rparr>),
          g_tool_scan_from := (if length (g_text d) > 80 then length (g_text d) - 80 else 0)\<rparr>
      else d)"

definition log_and_store ::
  "gen_env \<Rightarrow> 'ses decode_api \<Rightarrow> request \<Rightarrow> ('ses, 'b) decode \<Rightarrow> ('ses, 'b) decode option" where
  "log_and_store genv en req d =
     (if g_completion d \<ge> g_next_log d then
        let d1 = d\<lparr>g_logged := g_completion d, g_next_log := g_next_log d + 50\<rparr> in
        if chat_tools req \<and> saw_start (g_marks d) then Some d1
        else map_option (\<lambda>s. d1\<lparr>g_srv := s\<rparr>) (kv_cache_maybe_store_continued (ge_kv genv) (de_kv en) (g_srv d))
      else Some d)"

definition token_step ::
  "gen_env \<Rightarrow> 'ses decode_api \<Rightarrow> request \<Rightarrow> int \<Rightarrow> ('ses, 'b) decode \<Rightarrow> (('ses, 'b) decode \<times> bool) option" where
  \<comment> \<open>the body of the inner loop; is decoding to stop\<close>
  "token_step genv en req token d =
     (if token = de_eos en then Some (d\<lparr>g_finish := ''stop''\<rparr>, True)
      else
        let txt = g_text d @ en_token_text (de_kv en) token;
            (hit, stream_len, scan_from) = stop_scan (r_stops req) txt (g_scan_from d) (g_plain_pos d)
        in case emit genv req stream_len (d\<lparr>g_completion := g_completion d + 1, g_text := txt, g_scan_from := scan_from\<rparr>) of
             None \<Rightarrow> None
           | Some (d1, False) \<Rightarrow> Some (d1\<lparr>g_finish := ''error'', g_err := ''client stream write failed''\<rparr>, True)
           | Some (d1, True) \<Rightarrow>
               (case log_and_store genv en req (observe_markers req d1) of
                  None \<Rightarrow> None
                | Some d2 \<Rightarrow>
                    (case hit of
                       Some pos \<Rightarrow>
                         Some (d2\<lparr>g_finish := ''stop'', g_text := take pos (g_text d2),
                                  g_srv := (g_srv d2)\<lparr>session := de_invalidate en (session (g_srv d2))\<rparr>\<rparr>, True)
                     | None \<Rightarrow>
                         if chat_tools req \<and> saw_end (g_marks d2) then Some (d2\<lparr>g_finish := ''tool_calls''\<rparr>, True)
                         else Some (d2, False))))"

fun tokens_loop ::
  "gen_env \<Rightarrow> 'ses decode_api \<Rightarrow> request \<Rightarrow> int \<Rightarrow> int list \<Rightarrow> ('ses, 'b) decode \<Rightarrow> (('ses, 'b) decode \<times> bool) option" where
  "tokens_loop genv en req max_tokens [] d = Some (d, False)"
| "tokens_loop genv en req max_tokens (t # ts) d =
     (if \<not> g_completion d < max_tokens then Some (d, False)
      else case token_step genv en req t d of
             None \<Rightarrow> None
           | Some (d1, True) \<Rightarrow> Some (d1, True)
           | Some (d1, False) \<Rightarrow> tokens_loop genv en req max_tokens ts d1)"

section \<open>The loop\<close>

definition not_positive :: "double \<Rightarrow> bool" where
  "not_positive x = (case x of Fin q \<Rightarrow> q \<le> 0 | Inf neg \<Rightarrow> neg | NaN \<Rightarrow> False)"

definition sampling :: "request \<Rightarrow> bool \<Rightarrow> double \<times> int \<times> double \<times> double" where
  \<comment> \<open>temperature, top-k, top-p, min-p\<close>
  "sampling req in_tool_call =
     (let (temperature, k, p, m) =
            (if ds4_think_mode_enabled (r_think_mode req) then (Fin 1, 0, Fin 1, Fin 0)
             else (r_temperature req, r_top_k req, r_top_p req, r_min_p req))
      in (if in_tool_call then Fin 0 else temperature, k, p, m))"

definition decode_eval ::
  "gen_env \<Rightarrow> 'ses decode_api \<Rightarrow> 'ses \<Rightarrow> double \<Rightarrow> int \<Rightarrow> int \<Rightarrow> 'ses \<times> (int list + cstr)" where
  "decode_eval genv en ses temperature token left_tokens =
     (if not_positive temperature \<and> de_mtp_draft_tokens en > 1 \<and> \<not> ge_spec_disabled genv
      then de_eval_spec en ses token left_tokens (de_eos en) 17
      else case de_eval en ses token of
             (ses1, None) \<Rightarrow> (ses1, Inl [token])
           | (ses1, Some err) \<Rightarrow> (ses1, Inr err))"

definition decode_round ::
  "gen_env \<Rightarrow> 'ses decode_api \<Rightarrow> request \<Rightarrow> int \<Rightarrow> ('ses, 'b) decode \<Rightarrow> (('ses, 'b) decode \<times> bool) option" where
  "decode_round genv en req max_tokens d =
     (let in_tool_call = (chat_tools req \<and> saw_start (g_marks d) \<and> \<not> saw_end (g_marks d));
          (temperature, k, p, m) = sampling req in_tool_call;
          (token, rng) = de_sample en (session (g_srv d)) temperature k p m (g_rng d);
          d1 = d\<lparr>g_rng := rng\<rparr>
      in if token = de_eos en then Some (d1\<lparr>g_finish := ''stop''\<rparr>, True)
         else case decode_eval genv en (session (g_srv d1)) temperature token (max_tokens - g_completion d1) of
                (ses, Inr err) \<Rightarrow>
                  Some (d1\<lparr>g_finish := ''error'', g_err := err, g_srv := (g_srv d1)\<lparr>session := ses\<rparr>\<rparr>, True)
              | (ses, Inl toks) \<Rightarrow>
                  tokens_loop genv en req max_tokens toks (d1\<lparr>g_srv := (g_srv d1)\<lparr>session := ses\<rparr>\<rparr>))"

partial_function (option) decode_loop ::
  "gen_env \<Rightarrow> 'ses decode_api \<Rightarrow> request \<Rightarrow> int \<Rightarrow> ('ses, 'b) decode \<Rightarrow> ('ses, 'b) decode option" where
  "decode_loop genv en req max_tokens d =
     (let stop = ge_stop genv (g_polls d); d0 = d\<lparr>g_polls := g_polls d + 1\<rparr> in
      if \<not> stop \<and> g_completion d < max_tokens \<and> de_pos en (session (g_srv d)) < de_ctx en (session (g_srv d)) then
        Option.bind (decode_round genv en req max_tokens d0)
          (\<lambda>(d1, stop_decode). if stop_decode then Some d1 else decode_loop genv en req max_tokens d1)
      else Some d0)"

definition decode_max :: "'ses decode_api \<Rightarrow> 'ses \<Rightarrow> request \<Rightarrow> int" where
  "decode_max en ses req =
     (let room = de_ctx en ses - de_pos en ses;
          max_tokens = (if r_max_tokens req < 0 then 0 else r_max_tokens req)
      in if max_tokens > room then room else max_tokens)"


section \<open>After the loop\<close>

definition end_decode :: "gen_env \<Rightarrow> request \<Rightarrow> ('ses, 'b) decode \<Rightarrow> ('ses, 'b) decode" where
  \<comment> \<open>the two reasons that turn the finish into an error\<close>
  "end_decode genv req d =
     (let stop = ge_stop genv (g_polls d);
          d1 = d\<lparr>g_polls := g_polls d + 1\<rparr>;
          d2 = (if stop \<and> g_finish d1 \<noteq> ''error''
                then d1\<lparr>g_finish := ''error'', g_err := ''shutdown requested''\<rparr> else d1)
      in if chat_tools req \<and> saw_start (g_marks d2) \<and> \<not> saw_end (g_marks d2) \<and> g_finish d2 \<noteq> ''error''
         then d2\<lparr>g_finish := ''error'', g_err := ''unterminated tool call''\<rparr> else d2)"

definition end_store :: "gen_env \<Rightarrow> 'ses decode_api \<Rightarrow> request \<Rightarrow> ('ses, 'b) decode \<Rightarrow> ('ses, 'b) decode option" where
  "end_store genv en req d =
     (if g_completion d > g_logged d then
        let d1 = d\<lparr>g_logged := g_completion d\<rparr> in
        if g_finish d1 \<noteq> ''error'' \<and> \<not> (chat_tools req \<and> saw_start (g_marks d1))
        then map_option (\<lambda>s. d1\<lparr>g_srv := s\<rparr>) (kv_cache_maybe_store_continued (ge_kv genv) (de_kv en) (g_srv d1))
        else Some d1
      else Some d)"

definition emit_tail :: "request \<Rightarrow> ('ses, 'b) decode \<Rightarrow> ('ses, 'b) decode" where
  "emit_tail req d =
     (if r_stream req \<and> \<not> request_uses_structured_stream req \<and> length (g_text d) > g_plain_pos d then
        (case sse_chunk (g_net d) (Some (c_str (drop (g_plain_pos d) (g_text d)))) None of
           (w, ok) \<Rightarrow> if ok then d\<lparr>g_net := w\<rparr> else d\<lparr>g_net := w, g_finish := ''error''\<rparr>)
      else d)"

record parsed =
  pa_content :: "cstr option"
  pa_reasoning :: "cstr option"
  pa_calls :: tool_calls
  pa_finish :: cstr
  pa_err :: cstr

definition parse_answer :: "request \<Rightarrow> ('ses, 'b) decode \<Rightarrow> parsed" where
  "parse_answer req d =
     (let none = \<lparr>pa_content = None, pa_reasoning = None, pa_calls = tool_calls_zero, pa_finish = g_finish d, pa_err = g_err d\<rparr> in
      if r_kind req \<noteq> REQ_CHAT then none
      else case parse_generated_message (c_str (g_text d)) tool_calls_zero of
             Some (txt, thought, cs) \<Rightarrow> none\<lparr>pa_content := Some txt, pa_reasoning := thought, pa_calls := cs\<rparr>
           | None \<Rightarrow>
               let p = none\<lparr>pa_content := Some (c_str (g_text d))\<rparr> in
               if r_has_tools req \<and> saw_start (g_marks d) \<and> pa_finish p \<noteq> ''error''
               then p\<lparr>pa_finish := ''error'', pa_err := ''invalid tool call''\<rparr> else p)"

definition keep_calls ::
  "gen_env \<Rightarrow> request \<Rightarrow> parsed \<Rightarrow> ('ses, 'b) decode \<Rightarrow> (parsed \<times> ('ses, 'b) decode) option" where
  \<comment> \<open>ids for the calls, and their text into the tool memory\<close>
  "keep_calls genv req p d =
     (if calls_v (pa_calls p) = [] then Some (p, d)
      else
        let cs = (if request_uses_openai_live_stream req then apply_openai_stream_tool_ids (pa_calls p) (g_open d) else pa_calls p);
            k = rnd_pos (g_net d)
        in do {
             (cs1, used) \<leftarrow> assign_tool_call_ids (g_srv d) cs (r_api req) (\<lambda>i. ge_rnd genv (k + i));
             s1 \<leftarrow> tool_memory_remember (g_srv d) cs1;
             Some (p\<lparr>pa_calls := cs1, pa_finish := ''tool_calls''\<rparr>,
                   d\<lparr>g_srv := s1, g_net := (g_net d)\<lparr>rnd_pos := k + used\<rparr>\<rparr>)
           })"

definition build_tool_checkpoint_suffix :: "request \<Rightarrow> cstr \<Rightarrow> cstr option \<Rightarrow> tool_calls \<Rightarrow> cstr" where
  "build_tool_checkpoint_suffix req txt thought cs =
     append_dsml_tool_calls_text
       ((if ds4_think_mode_enabled (r_think_mode req) then or_empty thought @ ''</think>'' else []) @ txt) cs @ EOS"

definition canonicalize_tool_checkpoint ::
  "kv_env \<Rightarrow> 'ses decode_api \<Rightarrow> ('ses, 'b) kv_server_scheme \<Rightarrow> request \<Rightarrow> cstr \<Rightarrow> cstr option \<Rightarrow> tool_calls \<Rightarrow>
   ('ses, 'b) kv_server_scheme option" where
  "canonicalize_tool_checkpoint kenv en s req txt thought cs =
     (case r_prompt_text req of
        None \<Rightarrow> Some s
      | Some prompt_text \<Rightarrow>
          if calls_v cs = [] then Some s
          else
            let canonical = de_tokenize en (prompt_text @ build_tool_checkpoint_suffix req txt thought cs);
                live_len = de_pos en (session s);
                common = de_common_prefix en (session s) canonical
            in if common = live_len \<and> int (length canonical) = live_len then Some s
               else if common < int (length (r_prompt req)) then Some s
               else case de_rewrite en (session s) canonical common of
                      (ses, REWRITE_REBUILD_NEEDED) \<Rightarrow>
                        do {
                          (s1, loaded, _) \<leftarrow> kv_cache_try_load_tokens kenv (de_kv en) (s\<lparr>session := ses\<rparr>) canonical;
                          let s2 = (if loaded = 0 then s1\<lparr>session := de_invalidate en (session s1)\<rparr> else s1);
                          Some (s2\<lparr>session := fst (snd (de_sync en (session s2) False canonical))\<rparr>)
                        }
                    | (ses, _) \<Rightarrow> Some (s\<lparr>session := ses\<rparr>))"

definition answer_text :: "parsed \<Rightarrow> ('ses, 'b) decode \<Rightarrow> cstr" where
  "answer_text p d = (case pa_content p of Some txt \<Rightarrow> txt | None \<Rightarrow> c_str (g_text d))"

definition respond ::
  "gen_env \<Rightarrow> request \<Rightarrow> cstr \<Rightarrow> parsed \<Rightarrow> ('ses, 'b) decode \<Rightarrow> (net \<times> bool) option" where
  "respond genv req ident p d =
     (let w = g_net d; cs = calls_v (pa_calls p); n = int (length (r_prompt req)) in
      if r_stream req then
        (if r_api req = API_ANTHROPIC then
           (case anthropic_sse_finish_live (r_has_tools req) ident (g_anth d) w (g_text d) cs (pa_finish p) (g_completion d) of
              (_, w1, ok) \<Rightarrow> Some (w1, ok))
         else if request_uses_openai_live_stream req then
           map_option (\<lambda>(_, w1, ok). (w1, ok))
             (openai_sse_finish_live (g_srv d) (ge_rnd genv) req (g_open d) w (g_text d) cs (pa_finish p) n (g_completion d))
         else if request_uses_structured_stream req then
           Some (sse_chat_finish w req (Some (answer_text p d)) (pa_reasoning p) cs (pa_finish p) n (g_completion d))
         else
           (case sse_chunk w None (Some (pa_finish p)) of
              (w1, False) \<Rightarrow> Some (w1, False)
            | (w1, True) \<Rightarrow> Some (sse_done w1 req n (g_completion d))))
      else if r_api req = API_ANTHROPIC then
        Some (anthropic_final_response w req ident (answer_text p d) (pa_reasoning p) cs (pa_finish p) n (g_completion d))
      else
        Some (final_response w (ge_now genv) req ident (answer_text p d) (pa_reasoning p) cs (pa_finish p) n (g_completion d)))"

definition finish_job ::
  "gen_env \<Rightarrow> 'ses decode_api \<Rightarrow> request \<Rightarrow> cstr \<Rightarrow> ('ses, 'b) decode \<Rightarrow> (('ses, 'b) kv_server_scheme \<times> net) option" where
  "finish_job genv en req ident d0 =
     do {
       d1 \<leftarrow> end_store genv en req (end_decode genv req d0);
       let d2 = emit_tail req d1;
       (p, d3) \<leftarrow> keep_calls genv req (parse_answer req d2) d2;
       s1 \<leftarrow> (if r_kind req = REQ_CHAT \<and> calls_v (pa_calls p) \<noteq> []
             then canonicalize_tool_checkpoint (ge_kv genv) en (g_srv d3) req (or_empty (pa_content p)) (pa_reasoning p) (pa_calls p)
             else Some (g_srv d3));
       (w, ok) \<leftarrow> respond genv req ident p (d3\<lparr>g_srv := s1\<rparr>);
       s2 \<leftarrow> (if pa_finish p \<noteq> ''error'' then kv_cache_maybe_store_continued (ge_kv genv) (de_kv en) s1 else Some s1);
       Some (s2, w)
     }"

section \<open>The job\<close>

definition anthropic_stream_zero :: anthropic_stream where
  "anthropic_stream_zero =
     \<lparr>as_mode = ANTH_STREAM_THINKING, as_open_block = ANTH_BLOCK_NONE, as_next_index = 0, as_emit_pos = 0, as_active = False,
      as_checked_think_prefix = False, as_sent_thinking = False, as_sent_text = False\<rparr>"

definition openai_stream_zero :: openai_stream where
  "openai_stream_zero =
     \<lparr>os_mode = OPENAI_STREAM_THINKING, os_emit_pos = 0, os_active = False, os_checked_think_prefix = False,
      os_sent_reasoning = False, os_sent_content = False, os_tool = openai_tool_stream_zero\<rparr>"

definition decode_start ::
  "gen_env \<Rightarrow> request \<Rightarrow> ('ses, 'b) kv_server_scheme \<Rightarrow> net \<Rightarrow> anthropic_stream \<Rightarrow> openai_stream \<Rightarrow> ('ses, 'b) decode" where
  "decode_start genv req s w anth oai =
     \<lparr>g_srv = s, g_net = w, g_text = [], g_plain_pos = 0, g_scan_from = 0, g_finish = ''length'', g_err = [],
      g_completion = 0, g_marks = \<lparr>saw_start = False, saw_end = False, orphan_end = False\<rparr>, g_tool_scan_from = 0,
      g_next_log = 50, g_logged = 0, g_anth = anth, g_open = oai,
      g_rng = (if r_seed req \<noteq> 0 then r_seed req else ge_seed genv), g_polls = 0\<rparr>"

definition stream_start :: "request \<Rightarrow> net \<Rightarrow> net \<times> anthropic_stream \<times> openai_stream \<times> bool" where
  \<comment> \<open>the frames before the text; if one fails the job is given up\<close>
  "stream_start req w =
     (if \<not> r_stream req then (w, anthropic_stream_zero, openai_stream_zero, True)
      else case sse_headers w of
        (w1, False) \<Rightarrow> (w1, anthropic_stream_zero, openai_stream_zero, False)
      | (w1, True) \<Rightarrow>
          (case (if r_api req = API_ANTHROPIC then anthropic_sse_start_live w1 req (int (length (r_prompt req)))
                 else (anthropic_stream_zero, w1, True)) of
             (anth, w2, False) \<Rightarrow> (w2, anth, openai_stream_zero, False)
           | (anth, w2, True) \<Rightarrow>
               (case (if r_api req = API_OPENAI \<and> r_kind req = REQ_CHAT then sse_chunk w2 None None else (w2, True)) of
                  (w3, False) \<Rightarrow> (w3, anth, openai_stream_zero, False)
                | (w3, True) \<Rightarrow>
                    (w3, anth, if request_uses_openai_live_stream req then openai_stream_start req else openai_stream_zero, True))))"

definition job_id :: "request \<Rightarrow> nat \<Rightarrow> cstr" where
  "job_id req seq = (if r_kind req = REQ_CHAT then ''chatcmpl-'' else ''cmpl-'') @ dec_nat seq"

definition generate_job ::
  "gen_env \<Rightarrow> 'ses decode_api \<Rightarrow> ('ses, 'b) kv_server_scheme \<Rightarrow> request \<Rightarrow> net \<Rightarrow> nat \<Rightarrow>
   (('ses, 'b) kv_server_scheme \<times> net) option" where
  \<comment> \<open>\<open>seq\<close> is the value of \<open>++s->seq\<close>\<close>
  "generate_job genv en s req w seq =
     do {
       (s1, err) \<leftarrow> prefill_job (ge_kv genv) en s (r_prompt req);
       case err of
         Some e \<Rightarrow> Some (s1, fst (http_error w 500 e))
       | None \<Rightarrow>
           (case stream_start req w of
              (w1, anth, oai, False) \<Rightarrow> Some (s1, w1)
            | (w1, anth, oai, True) \<Rightarrow>
                do {
                  d \<leftarrow> decode_loop genv en req (decode_max en (session s1) req) (decode_start genv req s1 w1 anth oai);
                  finish_job genv en req (job_id req seq) d
                })
     }"

end
