(* ===== verification/GenerateFacts.thy ===== *)
theory GenerateFacts
  imports Generate KvCacheFacts
begin

text \<open>
  What a job does: after the prompt is prefilled the session holds exactly the prompt; the text that is
  decoded holds no stop sequence, and a plain stream delivers exactly that text; no more tokens are
  decoded than asked for and fit; decoding ends.
\<close>

section \<open>The KV cache leaves the session alone\<close>

lemma rewrite_tool_map_session: "kv_cache_rewrite_tool_map env s path txt = Some s' \<Longrightarrow> session s' = session s"
  by (auto simp: kv_cache_rewrite_tool_map_def Let_def split: option.splits if_splits dest!: tool_map_write_frame)

lemma store_file_session: "store_file env en s h r = Some (s', f, ok) \<Longrightarrow> session s' = session s"
  by (auto simp: store_file_def Let_def split: prod.splits if_splits dest!: tool_map_write_frame)

definition keeps_session :: "'ses \<Rightarrow> (('ses, 'b) kv_server_scheme \<times> 'c) option \<Rightarrow> bool" where
  "keeps_session ses r \<longleftrightarrow> (\<forall>x. r = Some x \<longrightarrow> session (fst x) = ses)"

lemma keeps_session_rules:
  "(b \<Longrightarrow> keeps_session ses x) \<Longrightarrow> (\<not> b \<Longrightarrow> keeps_session ses y) \<Longrightarrow> keeps_session ses (if b then x else y)"
  "(\<And>y. y = v \<Longrightarrow> keeps_session ses (f y)) \<Longrightarrow> keeps_session ses (Let v f)"
  "(\<And>a b. p = (a, b) \<Longrightarrow> keeps_session ses (g a b)) \<Longrightarrow> keeps_session ses (case p of (a, b) \<Rightarrow> g a b)"
  "(\<And>y. m = Some y \<Longrightarrow> keeps_session ses (h y)) \<Longrightarrow> keeps_session ses (Option.bind m h)"
  "(\<And>y. m' = Some y \<Longrightarrow> session (fst (k y)) = ses) \<Longrightarrow> keeps_session ses (map_option k m')"
  "session s = ses \<Longrightarrow> keeps_session ses (Some (s, z))"
  by (auto simp: keeps_session_def Let_def split: prod.splits option.splits bind_splits)

lemma store_live_prefix_keeps: "keeps_session (session s) (kv_cache_store_live_prefix env en s tokens n reason)"
  unfolding kv_cache_store_live_prefix_def
  by (intro keeps_session_rules) (auto dest!: rewrite_tool_map_session store_file_session)

lemma store_live_prefix_session:
  "kv_cache_store_live_prefix env en s tokens n reason = Some (s', ok) \<Longrightarrow> session s' = session s"
  using store_live_prefix_keeps [of s env en tokens n reason] by (simp add: keeps_session_def)

lemma maybe_store_continued_session:
  "kv_cache_maybe_store_continued env en s = Some s' \<Longrightarrow> session s' = session s"
  by (auto simp: kv_cache_maybe_store_continued_def Let_def split: option.splits if_splits dest!: store_live_prefix_session)

lemma store_cold_session: "store_cold kenv en s prompt n = Some s' \<Longrightarrow> session s' = session s"
  by (auto simp: store_cold_def dest!: store_live_prefix_session split: if_splits)

section \<open>The prompt\<close>

definition sync_law :: "'ses decode_api \<Rightarrow> bool" where
  \<comment> \<open>what \<open>ds4_session_sync\<close> promises when it returns 0\<close>
  "sync_law en \<longleftrightarrow> (\<forall>ses p prompt. snd (snd (de_sync en ses p prompt)) = None \<longrightarrow>
     de_tokens en (fst (snd (de_sync en ses p prompt))) = Some prompt)"

lemma sync_with_progress_tokens:
  "sync_with_progress kenv en cached s prompt = Some (s', None) \<Longrightarrow> sync_law en \<Longrightarrow> de_tokens en (session s') = Some prompt"
  by (auto simp: sync_with_progress_def sync_law_def split: prod.splits) (metis fst_conv snd_conv)



section \<open>Searching the growing text\<close>

definition free_of_stops :: "stop_list \<Rightarrow> string \<Rightarrow> bool" where
  "free_of_stops stops text \<longleftrightarrow> (\<forall>v \<in> set (stop_v stops). \<forall>pos. \<not> occurs_at text v pos)"

definition scan_start :: "stop_list \<Rightarrow> string \<Rightarrow> nat" where
  "scan_start stops text = (if max_len stops > 1 then length text - (max_len stops - 1) else 0)"

lemma utf8_back_bound: "utf8_back s start p cont \<le> p"
  by (induction s start p cont rule: utf8_back.induct) (subst utf8_back.simps, auto)

lemma utf8_back_ge: "start \<le> p \<Longrightarrow> start \<le> utf8_back s start p cont"
  by (induction s start p cont rule: utf8_back.induct) (subst utf8_back.simps, auto)

lemma utf8_stream_safe_len_le: "utf8_stream_safe_len s start limit final \<le> limit"
proof -
  have "utf8_back s start limit 0 \<le> limit" "start \<le> limit \<Longrightarrow> start \<le> utf8_back s start limit 0"
    by (rule utf8_back_bound utf8_back_ge)+
  then show ?thesis by (auto simp: utf8_stream_safe_len_def Let_def)
qed

lemma safe_len_mono: "m \<le> n \<Longrightarrow> stop_list_stream_safe_len stops m \<le> stop_list_stream_safe_len stops n"
  by (auto simp: stop_list_stream_safe_len_def Let_def)

lemma safe_len_le: "stop_list_stream_safe_len stops n \<le> n"
  by (auto simp: stop_list_stream_safe_len_def Let_def)

lemma c_str_from_id: "cstring s \<Longrightarrow> c_str_from n s = s"
proof -
  assume "cstring s"
  then have "cstring (drop n s)" by (auto simp: cstring_def dest: in_set_dropD)
  then show ?thesis by (simp add: c_str_from_def c_str_id)
qed

text \<open>What is new in a text is found from where the search starts.\<close>

lemma new_occurrence:
  assumes "stop_wf stops" "free_of_stops stops text" "v \<in> set (stop_v stops)" "occurs_at (text @ p) v pos"
  shows "scan_start stops text \<le> pos" "stop_list_stream_safe_len stops (length text) \<le> pos"
proof -
  have v: "v \<noteq> []" "length v \<le> max_len stops" using assms(1,3) by (auto simp: stop_wf_def)
  have "\<not> occurs_at text v pos" using assms(2,3) by (simp add: free_of_stops_def)
  then have "length text < pos + length v" using occurs_at_append [OF assms(4)] by (meson leI)
  moreover have "0 < length v" using v(1) by simp
  ultimately show "scan_start stops text \<le> pos" "stop_list_stream_safe_len stops (length text) \<le> pos"
    using v(2) assms(3) by (auto simp: scan_start_def stop_list_stream_safe_len_def Let_def)
qed

lemma free_iff_none:
  assumes "stop_wf stops" "free_of_stops stops text"
  shows "stop_list_find_from stops (text @ p) (scan_start stops text) = None \<longleftrightarrow> free_of_stops stops (text @ p)"
    (is "?f = None \<longleftrightarrow> _")
proof -
  have le: "scan_start stops text \<le> length (text @ p)" unfolding scan_start_def length_append by presburger
  note best = stop_list_find_best [OF le, of stops]
  show ?thesis
  proof
    assume none: "?f = None"
    have "\<not> occurs_at (text @ p) v pos" if v: "v \<in> set (stop_v stops)" for v pos
    proof
      assume at: "occurs_at (text @ p) v pos"
      have "\<not> stop_occurs (stop_v stops) (text @ p) (scan_start stops text) pos (length v)"
        using best unfolding none best_stop_def by simp
      with new_occurrence(1) [OF assms v at] v at show False by (auto simp: stop_occurs_def)
    qed
    then show "free_of_stops stops (text @ p)" by (simp add: free_of_stops_def)
  next
    assume "free_of_stops stops (text @ p)"
    with best show "?f = None"
      by (cases ?f) (auto simp: best_stop_def stop_occurs_def free_of_stops_def)
  qed
qed

lemma occurs_in_take: "occurs_at (take n s) w i \<Longrightarrow> occurs_at s w i \<and> i + length w \<le> n"
proof -
  assume a: "occurs_at (take n s) w i"
  from occurs_at_length [OF a] have "i + length w \<le> n" by simp
  moreover have "occurs_at s w i"
    using a by (auto simp: occurs_at_def prefix_def drop_take) (metis append_take_drop_id append.assoc)
  ultimately show ?thesis by simp
qed

lemma free_before:
  assumes "stop_wf stops" "free_of_stops stops text"
    and hit: "stop_list_find_from stops (text @ p) (scan_start stops text) = Some (pos, n)"
  shows "free_of_stops stops (take pos (text @ p))" "stop_list_stream_safe_len stops (length text) \<le> pos" "pos < length (text @ p)"
proof -
  have le: "scan_start stops text \<le> length (text @ p)" unfolding scan_start_def length_append by presburger
  from stop_list_find_best [OF le, of stops] hit
  obtain v where v: "v \<in> set (stop_v stops)" "occurs_at (text @ p) v pos"
    and least: "\<And>w q. w \<in> set (stop_v stops) \<Longrightarrow> occurs_at (text @ p) w q \<Longrightarrow> scan_start stops text \<le> q \<Longrightarrow> pos \<le> q"
    by (auto simp: best_stop_def stop_occurs_def)
  have ne: "w \<noteq> []" if "w \<in> set (stop_v stops)" for w using that assms(1) by (auto simp: stop_wf_def)
  show "free_of_stops stops (take pos (text @ p))"
    unfolding free_of_stops_def
  proof (intro ballI allI notI)
    fix w q
    assume w: "w \<in> set (stop_v stops)" "occurs_at (take pos (text @ p)) w q"
    from occurs_in_take [OF w(2)] have q: "occurs_at (text @ p) w q" "q + length w \<le> pos" by simp_all
    with least [OF w(1) q(1) new_occurrence(1) [OF assms(1,2) w(1) q(1)]] ne [OF w(1)] show False by (cases w) simp_all
  qed
  show "stop_list_stream_safe_len stops (length text) \<le> pos" by (rule new_occurrence(2) [OF assms(1,2) v])
  have "pos + length v \<le> length (text @ p)"
    by (rule occurs_at_length [OF v(2)])
  with ne [OF v(1)] show "pos < length (text @ p)" by (cases v) auto
qed

lemma stop_scan_ok:
  assumes wf: "stop_wf stops" and free: "free_of_stops stops text" and cs: "cstring (text @ p)"
    and plain: "plain \<le> stop_list_stream_safe_len stops (length text)"
    and scan: "stop_scan stops (text @ p) (scan_start stops text) plain = (hit, len, from')"
  shows "case hit of
      None \<Rightarrow> free_of_stops stops (text @ p) \<and> from' = scan_start stops (text @ p) \<and>
        max plain len \<le> stop_list_stream_safe_len stops (length (text @ p))
    | Some pos \<Rightarrow> free_of_stops stops (take pos (text @ p)) \<and> max plain len \<le> pos \<and> pos \<le> length (text @ p)"
proof (cases "stop_list_find_from stops (text @ p) (scan_start stops text)")
  case None
  have "utf8_stream_safe_len (text @ p) plain (stop_list_stream_safe_len stops (length (text @ p))) False \<le>
      stop_list_stream_safe_len stops (length (text @ p))" by (rule utf8_stream_safe_len_le)
  moreover have "plain \<le> stop_list_stream_safe_len stops (length (text @ p))"
    using plain safe_len_mono [of "length text" "length (text @ p)" stops] by simp
  moreover have "free_of_stops stops (text @ p)" using None free_iff_none [OF wf free] by simp
  moreover have "\<not> stop_list_stream_safe_len stops (length (text @ p)) > length (text @ p)"
    using safe_len_le by (simp add: not_less)
  ultimately show ?thesis
    using scan None unfolding stop_scan_def c_str_from_id [OF cs] Let_def
    by (auto simp: scan_start_def split: if_splits)
next
  case (Some x)
  obtain pos n where x: "x = (pos, n)" by (cases x)
  note f = free_before [OF wf free Some [unfolded x]]
  have "utf8_stream_safe_len (text @ p) plain pos True = pos" by (simp add: utf8_stream_safe_len_def)
  then show ?thesis
    using scan f plain unfolding stop_scan_def c_str_from_id [OF cs] Let_def Some x by auto
qed


section \<open>One token\<close>

definition text_ok :: "request \<Rightarrow> ('ses, 'b) decode \<Rightarrow> bool" where
  "text_ok req d \<longleftrightarrow> cstring (g_text d) \<and> free_of_stops (r_stops req) (g_text d) \<and>
     g_scan_from d = scan_start (r_stops req) (g_text d) \<and>
     g_plain_pos d \<le> stop_list_stream_safe_len (r_stops req) (length (g_text d))"

definition done_ok :: "request \<Rightarrow> ('ses, 'b) decode \<Rightarrow> bool" where
  \<comment> \<open>what holds when decoding has stopped\<close>
  "done_ok req d \<longleftrightarrow> cstring (g_text d) \<and> g_plain_pos d \<le> length (g_text d) \<and>
     (free_of_stops (r_stops req) (g_text d) \<or> g_finish d = ''error'')"

definition plain_request :: "request \<Rightarrow> bool" where
  "plain_request req \<longleftrightarrow> r_stream req \<and> \<not> request_uses_structured_stream req"

definition chunks :: "string list \<Rightarrow> sse_frame list" where
  "chunks ts = map (\<lambda>t. Chunk (Some t) None) ts"

definition plain_shown :: "request \<Rightarrow> sse_frame list \<Rightarrow> ('ses, 'b) decode \<Rightarrow> bool" where
  \<comment> \<open>the client has the text up to \<open>plain_stream_pos\<close>\<close>
  "plain_shown req start d \<longleftrightarrow>
     (plain_request req \<longrightarrow> (\<exists>ts. sent (g_net d) = start @ chunks ts \<and> concat ts = take (g_plain_pos d) (g_text d)))"

lemma text_ok_done: "text_ok req d \<Longrightarrow> done_ok req d \<and> free_of_stops (r_stops req) (g_text d)"
  using safe_len_le by (auto simp: text_ok_def done_ok_def intro: le_trans)

lemma send_all_sent: "send_all w fs = (w', ok) \<Longrightarrow> sent w' = (if ok then sent w @ fs else sent w)"
  by (auto simp: send_all_def split: if_splits)

definition core :: "('ses, 'b) decode \<Rightarrow> string \<times> nat \<times> int \<times> cstr \<times> cstr \<times> nat" where
  \<comment> \<open>what streaming, watching and logging leave alone\<close>
  "core d = (g_text d, g_scan_from d, g_completion d, g_finish d, g_err d, g_polls d)"

lemma emit_plain_keeps:
  "emit_plain req n d = (d', ok) \<Longrightarrow> core d' = core d \<and> g_srv d' = g_srv d \<and> (g_plain_pos d' = g_plain_pos d \<or> g_plain_pos d' = n)"
  by (auto simp: emit_plain_def core_def split: if_splits prod.splits)

lemma emit_anthropic_keeps:
  "emit_anthropic req n d = (d', ok) \<Longrightarrow> core d' = core d \<and> g_srv d' = g_srv d \<and> g_plain_pos d' = g_plain_pos d"
  by (auto simp: emit_anthropic_def core_def split: if_splits prod.splits)

lemma emit_openai_keeps:
  "emit_openai genv req n d = Some (d', ok) \<Longrightarrow> core d' = core d \<and> g_srv d' = g_srv d \<and> g_plain_pos d' = g_plain_pos d"
  by (auto simp: emit_openai_def core_def split: if_splits prod.splits)

lemma emit_keeps:
  assumes "emit genv req n d = Some (d', ok)"
  shows "core d' = core d \<and> g_srv d' = g_srv d \<and> (g_plain_pos d' = g_plain_pos d \<or> g_plain_pos d' = n)"
proof -
  obtain d1 ok1 where d1: "emit_plain req n d = (d1, ok1)" by (cases "emit_plain req n d")
  obtain d2 ok2 where d2: "emit_anthropic req n d1 = (d2, ok2)" by (cases "emit_anthropic req n d1")
  from assms d1 d2 have "d' = d1 \<or> d' = d2 \<or> (\<exists>ok. emit_openai genv req n d2 = Some (d', ok))"
    by (cases ok1; cases ok2) (simp_all add: emit_def)
  with emit_plain_keeps [OF d1] emit_anthropic_keeps [OF d2] emit_openai_keeps [of genv req n d2 d'] show ?thesis by auto
qed

lemma emit_shown:
  assumes "emit genv req n d = Some (d', ok)" "plain_shown req start d" "cstring (g_text d)" "n \<le> length (g_text d)"
  shows "plain_shown req start d'"
proof (cases "plain_request req")
  case True
  obtain d1 ok1 where d1: "emit_plain req n d = (d1, ok1)" by (cases "emit_plain req n d")
  have "\<not> (r_stream req \<and> r_api req = API_ANTHROPIC)" "\<not> request_uses_openai_live_stream req"
    using True by (auto simp: plain_request_def request_uses_structured_stream_def request_uses_openai_live_stream_def)
  then have d': "d' = d1" using assms(1) d1 by (cases ok1) (auto simp: emit_def emit_anthropic_def emit_openai_def)
  obtain ts where ts: "sent (g_net d) = start @ chunks ts" "concat ts = take (g_plain_pos d) (g_text d)"
    using assms(2) True by (auto simp: plain_shown_def)
  have same: "c_str (piece (g_text d) (g_plain_pos d) n) = piece (g_text d) (g_plain_pos d) n"
  proof (rule c_str_id)
    show "cstring (piece (g_text d) (g_plain_pos d) n)"
      using assms(3) by (auto simp: cstring_def piece_def dest: in_set_takeD in_set_dropD)
  qed
  have "take (g_plain_pos d) (g_text d) @ piece (g_text d) (g_plain_pos d) n = take n (g_text d)" if "g_plain_pos d < n"
    using that by (metis append_take_drop_id drop_take less_imp_le_nat min.absorb1 piece_def take_take)
  then have step: "sent (g_net d') = start @ chunks (ts @ [piece (g_text d) (g_plain_pos d) n]) \<and> g_plain_pos d' = n \<and>
      concat (ts @ [piece (g_text d) (g_plain_pos d) n]) = take n (g_text d) \<and> g_text d' = g_text d \<or>
      sent (g_net d') = sent (g_net d) \<and> g_plain_pos d' = g_plain_pos d \<and> g_text d' = g_text d"
    using d1 ts unfolding d' by (auto simp: emit_plain_def sse_chunk_def same chunks_def split: if_splits prod.splits dest: send_all_sent)
  show ?thesis unfolding plain_shown_def
  proof (rule impI, use step in \<open>elim disjE conjE\<close>)
    assume "sent (g_net d') = sent (g_net d)" "g_plain_pos d' = g_plain_pos d" "g_text d' = g_text d"
    with ts show "\<exists>ts. sent (g_net d') = start @ chunks ts \<and> concat ts = take (g_plain_pos d') (g_text d')"
      by (intro exI [of _ ts]) simp
  next
    let ?ts = "ts @ [piece (g_text d) (g_plain_pos d) n]"
    assume "sent (g_net d') = start @ chunks ?ts" "g_plain_pos d' = n" "concat ?ts = take n (g_text d)" "g_text d' = g_text d"
    then show "\<exists>ts. sent (g_net d') = start @ chunks ts \<and> concat ts = take (g_plain_pos d') (g_text d')"
      by (intro exI [of _ ?ts]) simp
  qed
qed (simp add: plain_shown_def)

lemma log_and_store_keeps:
  assumes "log_and_store genv en req d = Some d'"
  shows "core d' = core d \<and> session (g_srv d') = session (g_srv d) \<and> g_plain_pos d' = g_plain_pos d \<and> g_net d' = g_net d"
  using assms by (auto simp: log_and_store_def Let_def core_def split: if_splits dest: maybe_store_continued_session)

lemma observe_keeps:
  "core (observe_markers req d) = core d \<and> g_srv (observe_markers req d) = g_srv d \<and>
   g_plain_pos (observe_markers req d) = g_plain_pos d \<and> g_net (observe_markers req d) = g_net d"
  by (simp add: observe_markers_def core_def)

lemma plain_shown_same:
  "g_net d' = g_net d \<Longrightarrow> g_plain_pos d' = g_plain_pos d \<Longrightarrow> take (g_plain_pos d) (g_text d') = take (g_plain_pos d) (g_text d) \<Longrightarrow>
    plain_shown req start d' = plain_shown req start d"
  by (simp add: plain_shown_def)

lemma token_step_ok:
  assumes wf: "stop_wf (r_stops req)" and d: "text_ok req d" "plain_shown req start d"
    and tok: "cstring (en_token_text (de_kv en) token)" and run: "token_step genv en req token d = Some (d', stop)"
  shows "plain_shown req start d' \<and> (if stop then done_ok req d' else text_ok req d') \<and>
    g_completion d' \<le> g_completion d + 1 \<and> (\<not> stop \<longrightarrow> g_completion d' = g_completion d + 1)"
proof (cases "token = de_eos en")
  case True
  then have d': "d' = d\<lparr>g_finish := ''stop''\<rparr>" "stop" using run by (simp_all add: token_step_def)
  then show ?thesis using text_ok_done [OF d(1)] d(2) by (simp add: done_ok_def plain_shown_def)
next
  case False
  let ?p = "en_token_text (de_kv en) token" and ?stops = "r_stops req"
  let ?txt = "g_text d @ ?p"
  obtain hit n from' where scan: "stop_scan ?stops ?txt (scan_start ?stops (g_text d)) (g_plain_pos d) = (hit, n, from')"
    by (cases "stop_scan ?stops ?txt (scan_start ?stops (g_text d)) (g_plain_pos d)")
  have cs: "cstring ?txt" using d(1) tok by (simp add: text_ok_def cstring_def)
  have ok: "case hit of
      None \<Rightarrow> free_of_stops ?stops ?txt \<and> from' = scan_start ?stops ?txt \<and>
        max (g_plain_pos d) n \<le> stop_list_stream_safe_len ?stops (length ?txt)
    | Some pos \<Rightarrow> free_of_stops ?stops (take pos ?txt) \<and> max (g_plain_pos d) n \<le> pos \<and> pos \<le> length ?txt"
    using d(1) by (intro stop_scan_ok [OF wf _ cs _ scan]) (auto simp: text_ok_def)
  let ?d = "d\<lparr>g_completion := g_completion d + 1, g_text := ?txt, g_scan_from := from'\<rparr>"
  have n: "n \<le> length ?txt" "g_plain_pos d \<le> length ?txt"
    using ok safe_len_le [of ?stops "length ?txt"] by (auto split: option.splits)
  from run False scan d(1) obtain d1 ok1 where e: "emit genv req n ?d = Some (d1, ok1)"
    by (cases "emit genv req n ?d") (auto simp: token_step_def text_ok_def Let_def)
  have shown0: "plain_shown req start ?d"
  proof -
    have "g_plain_pos d \<le> length (g_text d)" using text_ok_done [OF d(1)] by (simp add: done_ok_def)
    then show ?thesis using d(2) by (simp add: plain_shown_def)
  qed
  have shown1: "plain_shown req start d1" by (rule emit_shown [OF e shown0]) (use cs n in simp_all)
  note k1 = emit_keeps [OF e]
  show ?thesis
  proof (cases ok1)
    case False
    then have d': "d' = d1\<lparr>g_finish := ''error'', g_err := ''client stream write failed''\<rparr>" "stop"
      using run e scan d(1) \<open>token \<noteq> de_eos en\<close> by (simp_all add: token_step_def text_ok_def Let_def)
    then show ?thesis using k1 shown1 n cs
      by (auto simp: done_ok_def core_def plain_shown_def)
  next
    case True
    with run e scan d(1) \<open>token \<noteq> de_eos en\<close> obtain d2 where l: "log_and_store genv en req (observe_markers req d1) = Some d2"
      by (cases "log_and_store genv en req (observe_markers req d1)") (auto simp: token_step_def text_ok_def Let_def)
    have k: "core d2 = core ?d" "g_plain_pos d2 = g_plain_pos d \<or> g_plain_pos d2 = n" "plain_shown req start d2"
      using log_and_store_keeps [OF l] observe_keeps [of req d1] k1 shown1 by (auto simp: core_def plain_shown_def)
    have fin: "(case hit of
         Some pos \<Rightarrow> d' = d2\<lparr>g_finish := ''stop'', g_text := take pos (g_text d2),
                          g_srv := (g_srv d2)\<lparr>session := de_invalidate en (session (g_srv d2))\<rparr>\<rparr> \<and> stop
       | None \<Rightarrow> if stop then d' = d2\<lparr>g_finish := ''tool_calls''\<rparr> else d' = d2)"
      using run e scan d(1) l True \<open>token \<noteq> de_eos en\<close>
      by (auto simp: token_step_def text_ok_def Let_def split: option.splits if_splits)
    show ?thesis
    proof (cases hit)
      case None
      then have t: "text_ok req d2" using ok k(1,2) cs by (auto simp: text_ok_def core_def)
      with None fin k text_ok_done [OF t] show ?thesis
        by (auto simp: core_def done_ok_def plain_shown_def split: if_splits)
    next
      case (Some pos)
      then have p: "g_plain_pos d2 \<le> pos" "pos \<le> length ?txt" "free_of_stops ?stops (take pos ?txt)" using ok k(2) by auto
      have d': "d' = d2\<lparr>g_finish := ''stop'', g_text := take pos (g_text d2),
          g_srv := (g_srv d2)\<lparr>session := de_invalidate en (session (g_srv d2))\<rparr>\<rparr>" "stop" using fin Some by simp_all
      have "cstring (take pos ?txt)" using cs by (auto simp: cstring_def dest: in_set_takeD)
      moreover have "plain_shown req start d'"
        using k(3) p(1) unfolding d'(1) by (simp add: plain_shown_def min_def)
      ultimately show ?thesis using p k(1) unfolding d'(1) using d'(2) by (simp add: done_ok_def core_def)
    qed
  qed
qed


section \<open>The whole loop\<close>

definition vocab_ok :: "'ses decode_api \<Rightarrow> bool" where
  "vocab_ok en \<longleftrightarrow> (\<forall>token. cstring (en_token_text (de_kv en) token))"

lemma tokens_loop_ok:
  assumes wf: "stop_wf (r_stops req)" and vocab: "vocab_ok en"
  shows "text_ok req d \<Longrightarrow> plain_shown req start d \<Longrightarrow> g_completion d \<le> m \<Longrightarrow>
    tokens_loop genv en req m ts d = Some (d', stop) \<Longrightarrow>
    plain_shown req start d' \<and> (if stop then done_ok req d' else text_ok req d') \<and> g_completion d' \<le> m"
proof (induction ts arbitrary: d)
  case (Cons t ts)
  have tok: "cstring (en_token_text (de_kv en) t)" using vocab by (simp add: vocab_ok_def)
  show ?case
  proof (cases "g_completion d < m")
    case True
    then obtain d1 stop1 where s: "token_step genv en req t d = Some (d1, stop1)"
      using Cons.prems(4) by (cases "token_step genv en req t d") auto
    note one = token_step_ok [OF wf Cons.prems(1,2) tok s]
    show ?thesis
    proof (cases stop1)
      case True
      then show ?thesis using Cons.prems(4) s one \<open>g_completion d < m\<close> by simp
    next
      case False
      then have "tokens_loop genv en req m ts d1 = Some (d', stop)" using Cons.prems(4) s \<open>g_completion d < m\<close> by simp
      from Cons.IH [OF _ _ _ this] one False True show ?thesis by simp
    qed
  qed (use Cons.prems in simp)
qed simp

lemma text_ok_session: "text_ok req (d\<lparr>g_rng := r, g_srv := s\<rparr>) = text_ok req d" "text_ok req (d\<lparr>g_polls := k\<rparr>) = text_ok req d"
  "plain_shown req start (d\<lparr>g_rng := r, g_srv := s\<rparr>) = plain_shown req start d" "plain_shown req start (d\<lparr>g_polls := k\<rparr>) = plain_shown req start d"
  by (simp_all add: text_ok_def plain_shown_def)

lemma decode_round_ok:
  assumes wf: "stop_wf (r_stops req)" and vocab: "vocab_ok en"
    and d: "text_ok req d" "plain_shown req start d" "g_completion d \<le> m"
    and run: "decode_round genv en req m d = Some (d', stop)"
  shows "plain_shown req start d' \<and> (if stop then done_ok req d' else text_ok req d') \<and> g_completion d' \<le> m"
proof -
  obtain temperature k p q where smp: "sampling req (chat_tools req \<and> saw_start (g_marks d) \<and> \<not> saw_end (g_marks d)) = (temperature, k, p, q)"
    by (metis prod_cases4)
  obtain token rng where tok: "de_sample en (session (g_srv d)) temperature k p q (g_rng d) = (token, rng)" by fastforce
  obtain ses r where ev: "decode_eval genv en (session (g_srv d)) temperature token (m - g_completion d) = (ses, r)" by fastforce
  note ended = text_ok_done [OF d(1)]
  show ?thesis
  proof (cases "token = de_eos en")
    case True
    then show ?thesis using run smp tok ended d(2,3) by (auto simp: decode_round_def Let_def done_ok_def plain_shown_def)
  next
    case False
    show ?thesis
    proof (cases r)
      case (Inl toks)
      with run smp tok ev False have "tokens_loop genv en req m toks (d\<lparr>g_rng := rng, g_srv := (g_srv d)\<lparr>session := ses\<rparr>\<rparr>) = Some (d', stop)"
        by (simp add: decode_round_def Let_def)
      from tokens_loop_ok [OF wf vocab _ _ _ this] d show ?thesis by (simp add: text_ok_session)
    next
      case (Inr e)
      with run smp tok ev False ended d(2,3) show ?thesis by (auto simp: decode_round_def Let_def done_ok_def plain_shown_def)
    qed
  qed
qed

lemma decode_loop_ok:
  "decode_loop genv en req m d = Some d' \<Longrightarrow> stop_wf (r_stops req) \<Longrightarrow> vocab_ok en \<Longrightarrow>
    text_ok req d \<Longrightarrow> plain_shown req start d \<Longrightarrow> g_completion d \<le> m \<Longrightarrow>
    plain_shown req start d' \<and> done_ok req d' \<and> g_completion d' \<le> m"
proof (induction genv en req m d d' rule: decode_loop.raw_induct [rotated, consumes 1, case_names 1])
  case (1 loop genv en req m d d')
  let ?d0 = "d\<lparr>g_polls := g_polls d + 1\<rparr>"
  have d0: "text_ok req ?d0" "plain_shown req start ?d0" "g_completion ?d0 \<le> m"
    using "1.prems" by (simp_all add: text_ok_session)
  show ?case
  proof (cases "\<not> ge_stop genv (g_polls d) \<and> g_completion d < m \<and> de_pos en (session (g_srv d)) < de_ctx en (session (g_srv d))")
    case True
    with "1.hyps" obtain d1 stop where r: "decode_round genv en req m ?d0 = Some (d1, stop)"
      "(if stop then Some d1 else loop genv en req m d1) = Some d'"
      by (auto simp: Let_def bind_eq_Some_conv)
    note one = decode_round_ok [OF "1.prems"(1,2) d0 r(1)]
    show ?thesis
    proof (cases stop)
      case True
      with r(2) one show ?thesis by simp
    next
      case False
      with r(2) have "loop genv en req m d1 = Some d'" by simp
      from "1.IH" [OF this "1.prems"(1,2)] one False show ?thesis by simp
    qed
  next
    case False
    with "1.hyps" have "d' = ?d0" by (auto simp: Let_def)
    with d0 text_ok_done [OF d0(1)] show ?thesis by simp
  qed
qed



lemma end_keeps:
  assumes "end_store genv en req (end_decode genv req d) = Some d1"
  shows "g_text d1 = g_text d \<and> g_plain_pos d1 = g_plain_pos d \<and> g_net d1 = g_net d \<and>
    (g_finish d = ''error'' \<longrightarrow> g_finish d1 = ''error'')"
  using assms by (auto simp: end_store_def end_decode_def Let_def split: if_splits)



section \<open>Decoding ends\<close>

definition stores_return :: "gen_env \<Rightarrow> 'ses decode_api \<Rightarrow> (('ses, 'b) kv_server_scheme \<Rightarrow> bool) \<Rightarrow> bool" where
  \<comment> \<open>saving checkpoints on the way does not fault, from any server in \<open>I\<close>\<close>
  "stores_return genv en I \<longleftrightarrow>
     (\<forall>s. I s \<longrightarrow> (\<exists>s1. kv_cache_maybe_store_continued (ge_kv genv) (de_kv en) s = Some s1 \<and> I s1)) \<and>
     (\<forall>s ses. I s \<longrightarrow> I (s\<lparr>session := ses\<rparr>))"

definition spec_gives :: "'ses decode_api \<Rightarrow> bool" where
  \<comment> \<open>a speculative step that succeeds accepts at least the first token\<close>
  "spec_gives en \<longleftrightarrow> (\<forall>ses t n eos cap. snd (de_eval_spec en ses t n eos cap) \<noteq> Inl [])"

lemma stores_return_off: "stores_return genv en (\<lambda>s. \<not> kc_enabled (kv s))"
  by (simp add: stores_return_def kv_cache_maybe_store_continued_def)

lemma log_and_store_returns:
  assumes "stores_return genv en I" "I (g_srv d)"
  shows "\<exists>d'. log_and_store genv en req d = Some d' \<and> I (g_srv d')"
  using assms unfolding stores_return_def log_and_store_def Let_def by auto

lemma emit_returns:
  assumes "\<not> request_uses_openai_live_stream req"
  shows "\<exists>d' ok. emit genv req n d = Some (d', ok)"
proof -
  obtain d1 ok1 where d1: "emit_plain req n d = (d1, ok1)" by (cases "emit_plain req n d")
  obtain d2 ok2 where d2: "emit_anthropic req n d1 = (d2, ok2)" by (cases "emit_anthropic req n d1")
  show ?thesis using assms d1 d2 by (cases ok1; cases ok2) (auto simp: emit_def emit_openai_def)
qed

lemma token_step_returns:
  assumes ret: "stores_return genv en I" and live: "\<not> request_uses_openai_live_stream req" and I: "I (g_srv d)"
  shows "\<exists>d' stop. token_step genv en req t d = Some (d', stop) \<and>
    (\<not> stop \<longrightarrow> I (g_srv d') \<and> g_completion d' = g_completion d + 1)"
proof (cases "t = de_eos en")
  case True
  then show ?thesis by (auto simp: token_step_def)
next
  case False
  let ?txt = "g_text d @ en_token_text (de_kv en) t"
  obtain hit n from' where scan: "stop_scan (r_stops req) ?txt (g_scan_from d) (g_plain_pos d) = (hit, n, from')"
    by (metis prod_cases3)
  let ?d = "d\<lparr>g_completion := g_completion d + 1, g_text := ?txt, g_scan_from := from'\<rparr>"
  obtain d1 ok where e: "emit genv req n ?d = Some (d1, ok)"
    using emit_returns [OF live] by blast
  note k = emit_keeps [OF e]
  show ?thesis
  proof (cases ok)
    case True
    have "I (g_srv (observe_markers req d1))" using k I observe_keeps [of req d1] by simp
    from log_and_store_returns [OF ret this, of req] obtain d2 where
      l: "log_and_store genv en req (observe_markers req d1) = Some d2" "I (g_srv d2)" by blast
    have "g_completion d2 = g_completion d + 1"
      using log_and_store_keeps [OF l(1)] observe_keeps [of req d1] k by (simp add: core_def)
    then show ?thesis using False scan e True l by (auto simp: token_step_def split: option.splits)
  qed (use False scan e in \<open>auto simp: token_step_def\<close>)
qed

lemma tokens_loop_returns:
  assumes ret: "stores_return genv en I" and live: "\<not> request_uses_openai_live_stream req"
  shows "I (g_srv d) \<Longrightarrow> \<exists>d' stop. tokens_loop genv en req m ts d = Some (d', stop) \<and>
    (\<not> stop \<longrightarrow> I (g_srv d') \<and> g_completion d \<le> g_completion d' \<and> (ts \<noteq> [] \<longrightarrow> g_completion d < m \<longrightarrow> g_completion d < g_completion d'))"
proof (induction ts arbitrary: d)
  case (Cons t ts)
  from token_step_returns [OF ret live Cons.prems] obtain d1 stop where s: "token_step genv en req t d = Some (d1, stop)"
    "\<not> stop \<longrightarrow> I (g_srv d1) \<and> g_completion d1 = g_completion d + 1" by blast
  show ?case
  proof (cases "g_completion d < m \<and> \<not> stop")
    case True
    with Cons.IH [of d1] s show ?thesis by fastforce
  next
    case False
    with s Cons.prems show ?thesis by (cases stop) auto
  qed
qed auto

lemma decode_round_returns:
  assumes ret: "stores_return genv en I" and live: "\<not> request_uses_openai_live_stream req" and spec: "spec_gives en"
    and I: "I (g_srv d)" and more: "g_completion d < m"
  shows "\<exists>d' stop. decode_round genv en req m d = Some (d', stop) \<and> (\<not> stop \<longrightarrow> I (g_srv d') \<and> g_completion d < g_completion d')"
proof -
  obtain temperature k p q where smp: "sampling req (chat_tools req \<and> saw_start (g_marks d) \<and> \<not> saw_end (g_marks d)) = (temperature, k, p, q)"
    by (metis prod_cases4)
  obtain token rng where tok: "de_sample en (session (g_srv d)) temperature k p q (g_rng d) = (token, rng)" by fastforce
  obtain ses r where ev: "decode_eval genv en (session (g_srv d)) temperature token (m - g_completion d) = (ses, r)" by fastforce
  have "r \<noteq> Inl []"
    using ev spec by (auto simp: decode_eval_def spec_gives_def split: if_splits prod.splits option.splits) (metis snd_conv)
  let ?d = "d\<lparr>g_rng := rng, g_srv := (g_srv d)\<lparr>session := ses\<rparr>\<rparr>"
  have "I (g_srv ?d)" using ret I by (simp add: stores_return_def)
  note loop = tokens_loop_returns [OF ret live this, of m]
  show ?thesis
  proof (cases "token = de_eos en")
    case True
    then show ?thesis using smp tok by (auto simp: decode_round_def)
  next
    case False
    show ?thesis
    proof (cases r)
      case (Inl toks)
      with \<open>r \<noteq> Inl []\<close> loop [of toks] smp tok ev False more show ?thesis by (auto simp: decode_round_def)
    next
      case (Inr e)
      with smp tok ev False show ?thesis by (auto simp: decode_round_def)
    qed
  qed
qed

lemma decode_loop_returns:
  assumes ret: "stores_return genv en I" and live: "\<not> request_uses_openai_live_stream req" and spec: "spec_gives en"
  shows "I (g_srv d) \<Longrightarrow> decode_loop genv en req m d \<noteq> None"
proof (induction "nat (m - g_completion d)" arbitrary: d rule: less_induct)
  case less
  let ?d0 = "d\<lparr>g_polls := g_polls d + 1\<rparr>"
  show ?case
  proof (cases "\<not> ge_stop genv (g_polls d) \<and> g_completion d < m \<and> de_pos en (session (g_srv d)) < de_ctx en (session (g_srv d))")
    case True
    from decode_round_returns [OF ret live spec, of ?d0 m] less.prems True obtain d1 stop where
      r: "decode_round genv en req m ?d0 = Some (d1, stop)" "\<not> stop \<longrightarrow> I (g_srv d1) \<and> g_completion d < g_completion d1" by auto
    show ?thesis
    proof (cases stop)
      case False
      with r True have "nat (m - g_completion d1) < nat (m - g_completion d)" "I (g_srv d1)" by auto
      from less.hyps [OF this] show ?thesis using True r(1) False by (subst decode_loop.simps) (simp add: Let_def)
    qed (use True r(1) in \<open>subst decode_loop.simps, simp add: Let_def\<close>)
  qed (subst decode_loop.simps, auto simp: Let_def)
qed



section \<open>A small engine\<close>

text \<open>Its session is the list of its tokens, and what it generates after the prompt [9] spells ''ab END c''.\<close>

definition toy_text :: "int \<Rightarrow> cstr" where
  "toy_text t = (if t = 1 then ''ab '' else if t = 2 then ''EN'' else if t = 3 then ''D'' else ''c'')"

definition toy_engine :: "int list decode_api" where
  "toy_engine =
     \<lparr>de_kv = \<lparr>en_quant_bits = 2, en_token_text = toy_text, en_tokens = Some, en_ctx = \<lambda>_. 100, en_payload_bytes = \<lambda>_. 0,
               en_save = \<lambda>_. ([], True), en_load = \<lambda>l bs n. (l, None), en_invalidate = \<lambda>_. []\<rparr>,
      de_pos = \<lambda>l. int (length l), de_common_prefix = \<lambda>l p. int (length (longest_common_prefix l p)),
      de_sync = \<lambda>l cb p. ([(int (length p), p)], p, None), de_rewrite = \<lambda>l p n. (p, REWRITE_OK),
      de_sample = \<lambda>l _ _ _ _ rng. (int (length l), rng), de_eval = \<lambda>l t. (l @ [t], None),
      de_eval_spec = \<lambda>l t n eos cap. (l @ [t], Inl [t]), de_eos = 50, de_mtp_draft_tokens = 0,
      de_tokenize = \<lambda>_. [9]\<rparr>"

definition toy_request :: request where
  "toy_request = (request_init REQ_COMPLETION 20)\<lparr>r_prompt := [9], r_stream := True,
     r_stops := stop_list_push \<lparr>stop_v = [], max_len = 0\<rparr> ''END''\<rparr>"

definition toy_env :: gen_env where
  "toy_env = \<lparr>ge_kv = sample_env, ge_stop = \<lambda>_. False, ge_spec_disabled = False, ge_seed = 1, ge_now = 0, ge_rnd = \<lambda>_. []\<rparr>"

definition toy_server :: "int list kv_server" where
  "toy_server = \<lparr>tool_mem = tool_memory_zero, disable_exact_dsml_tool_replay = True, kv = kv_cache_zero, session = [9], files = []\<rparr>"

definition toy_net :: net where
  "toy_net = \<lparr>sent = [], writes_left = 100, rnd_pos = 0\<rparr>"

abbreviation toy_start :: "(int list, unit) decode" where
  "toy_start \<equiv> decode_start toy_env toy_request toy_server toy_net anthropic_stream_zero openai_stream_zero"

lemma toy_facts: "stop_wf (r_stops toy_request)" "vocab_ok toy_engine" "plain_request toy_request"
  "sync_law toy_engine" "spec_gives toy_engine" "\<not> request_uses_openai_live_stream toy_request"
  "\<not> kc_enabled (kv toy_server)"
  by (auto simp: toy_request_def toy_engine_def toy_text_def toy_server_def request_init_def stop_wf_def stop_list_push_def
      vocab_ok_def cstring_def plain_request_def request_uses_structured_stream_def request_uses_openai_live_stream_def
      sync_law_def spec_gives_def kv_cache_zero_def)


lemma toy_decodes: "\<exists>d. decode_loop toy_env toy_engine toy_request 20 toy_start = Some d"
proof -
  have "decode_loop toy_env toy_engine toy_request 20 toy_start \<noteq> None"
    by (rule decode_loop_returns [OF stores_return_off]) (use toy_facts in \<open>simp_all add: decode_start_def\<close>)
  then show ?thesis by auto
qed




section \<open>Tool-call markers\<close>

text \<open>
  An end marker without a start is meant to be ignored, but it stays within the 80 bytes that are searched
  again: when a tool call opens right after it, the next token finds that old end marker and takes the new
  block as closed, so decoding stops inside it. (The parse then fails: ``invalid tool call''.)
\<close>

theorem orphan_end_closes_next_block:
  "\<exists>req text1 piece d1 d2.
     d1 = observe_markers req ((decode_start toy_env req toy_server toy_net anthropic_stream_zero openai_stream_zero)\<lparr>g_text := text1\<rparr>) \<and>
     d2 = observe_markers req (d1\<lparr>g_text := text1 @ piece\<rparr>) \<and>
     saw_start (g_marks d1) \<and> \<not> saw_end (g_marks d1) \<and> saw_end (g_marks d2) \<and>
     (\<exists>i. find_any_tool_start (text1 @ piece) = Some i \<and> find_any_tool_end (drop i (text1 @ piece)) = None)"
proof -
  let ?text = "''</tool_calls> <tool_calls>''" and ?piece = "''<invoke''"
  let ?req = "(request_init REQ_CHAT 20)\<lparr>r_has_tools := True\<rparr>"
  have ct: "chat_tools ?req" by (simp add: chat_tools_def request_init_def)
  have m1: "observe_tool_markers ?text \<lparr>saw_start = False, saw_end = False, orphan_end = False\<rparr> =
      \<lparr>saw_start = True, saw_end = False, orphan_end = False\<rparr>" by code_simp
  have m2: "observe_tool_markers (?text @ ?piece) \<lparr>saw_start = True, saw_end = False, orphan_end = False\<rparr> =
      \<lparr>saw_start = True, saw_end = True, orphan_end = False\<rparr>" by code_simp
  have c: "c_str ?text = ?text" "c_str (?text @ ?piece) = ?text @ ?piece" by code_simp+
  have f: "find_any_tool_start (?text @ ?piece) = Some 14" "find_any_tool_end (drop 14 (?text @ ?piece)) = None" by code_simp+
  show ?thesis
    by (rule exI [of _ ?req], rule exI [of _ ?text], rule exI [of _ ?piece])
      (use ct m1 m2 c f in \<open>simp add: observe_markers_def decode_start_def\<close>)
qed

text \<open>
  A tool block without a call ends the job with the finish reason ``tool_calls'' and no tool call.
\<close>

theorem empty_block_finishes_tool_calls:
  "\<exists>d :: (int list, unit) decode. g_text d = ''<tool_calls></tool_calls>'' \<and> saw_end (g_marks d) \<and>
     pa_finish (parse_answer ((request_init REQ_CHAT 20)\<lparr>r_has_tools := True\<rparr>) d) = ''tool_calls'' \<and>
     calls_v (pa_calls (parse_answer ((request_init REQ_CHAT 20)\<lparr>r_has_tools := True\<rparr>) d)) = []"
proof -
  let ?d = "toy_start\<lparr>g_text := ''<tool_calls></tool_calls>'', g_finish := ''tool_calls'',
    g_marks := \<lparr>saw_start = True, saw_end = True, orphan_end = False\<rparr>\<rparr>"
  have c: "c_str ''<tool_calls></tool_calls>'' = ''<tool_calls></tool_calls>''" by code_simp
  have "map_option (\<lambda>(_, _, cs). calls_v cs) (parse_generated_message ''<tool_calls></tool_calls>'' tool_calls_zero) = Some []" by code_simp
  then obtain a b cs where p: "parse_generated_message ''<tool_calls></tool_calls>'' tool_calls_zero = Some (a, b, cs)" "calls_v cs = []" by auto
  show ?thesis
    by (rule exI [of _ ?d]) (use c p in \<open>simp add: parse_answer_def request_init_def decode_start_def\<close>)
qed

end
