(* ===== verification/Sampler.thy ===== *)
theory Sampler
  imports Json "HOL-Library.Multiset"
begin

unbundle bit_operations_syntax

text \<open>
  Choosing the next token from the logits (ds4.c): the greedy choice, the xorshift generator, and sampling
  with top-k, top-p and min-p. Floats are the exact values of \<open>double\<close> rounded to a C float after every
  operation (a zero has no sign, which no test here sees); \<open>expf\<close> is a parameter, and so is \<open>qsort\<close>,
  which may order equal elements as it likes.
\<close>

section \<open>Float arithmetic\<close>

fun finite_float :: "double \<Rightarrow> bool" where
  "finite_float (Fin _) = True"
| "finite_float _ = False"

fun rat_of :: "double \<Rightarrow> rat" where
  "rat_of (Fin q) = q"
| "rat_of _ = 0"

fun fadd :: "double \<Rightarrow> double \<Rightarrow> double" where
  "fadd (Fin a) (Fin b) = float_cast (Fin (a + b))"
| "fadd NaN _ = NaN"
| "fadd _ NaN = NaN"
| "fadd (Inf m) (Inf n) = (if m = n then Inf m else NaN)"
| "fadd (Inf m) (Fin _) = Inf m"
| "fadd (Fin _) (Inf n) = Inf n"

fun fneg :: "double \<Rightarrow> double" where
  "fneg (Fin a) = Fin (- a)"
| "fneg (Inf m) = Inf (\<not> m)"
| "fneg NaN = NaN"

definition fsub :: "double \<Rightarrow> double \<Rightarrow> double" where
  "fsub a b = fadd a (fneg b)"

fun fmul :: "double \<Rightarrow> double \<Rightarrow> double" where
  "fmul (Fin a) (Fin b) = float_cast (Fin (a * b))"
| "fmul NaN _ = NaN"
| "fmul _ NaN = NaN"
| "fmul (Inf m) (Inf n) = Inf (m \<noteq> n)"
| "fmul (Inf m) (Fin b) = (if b = 0 then NaN else Inf (m \<noteq> (b < 0)))"
| "fmul (Fin a) (Inf n) = (if a = 0 then NaN else Inf ((a < 0) \<noteq> n))"

fun fdiv :: "double \<Rightarrow> double \<Rightarrow> double" where
  "fdiv (Fin a) (Fin b) = (if b = 0 then (if a = 0 then NaN else Inf (a < 0)) else float_cast (Fin (a / b)))"
| "fdiv NaN _ = NaN"
| "fdiv _ NaN = NaN"
| "fdiv (Inf _) (Inf _) = NaN"
| "fdiv (Inf m) (Fin b) = Inf (m \<noteq> (b < 0))"
| "fdiv (Fin _) (Inf _) = Fin 0"

definition dle :: "double \<Rightarrow> double \<Rightarrow> bool" where
  "dle a b \<longleftrightarrow> dless a b \<or> a = b \<and> a \<noteq> NaN"

definition DS4_NEG_INF :: double where
  "DS4_NEG_INF = float_cast (Fin (- (10 ^ 30)))"

section \<open>The greedy choice\<close>

fun argmax_loop :: "nat \<Rightarrow> nat \<Rightarrow> double \<Rightarrow> double list \<Rightarrow> nat" where
  "argmax_loop i best best_v [] = best"
| "argmax_loop i best best_v (v # vs) =
     (if dless best_v v then argmax_loop (i + 1) i v vs else argmax_loop (i + 1) best best_v vs)"

definition sample_argmax :: "double list \<Rightarrow> nat" where
  "sample_argmax logits = argmax_loop 0 0 DS4_NEG_INF logits"

fun top2_loop :: "nat \<Rightarrow> int \<times> double \<times> int \<times> double \<Rightarrow> double list \<Rightarrow> int \<times> double \<times> int \<times> double" where
  "top2_loop i t [] = t"
| "top2_loop i (b0, v0, b1, v1) (v # vs) =
     top2_loop (i + 1)
       (if dless v0 v then (int i, v, b0, v0) else if dless v1 v then (b0, v0, int i, v) else (b0, v0, b1, v1)) vs"

definition logits_top2 :: "double list \<Rightarrow> int \<times> double \<times> int \<times> double" where
  "logits_top2 logits = top2_loop 0 (- 1, DS4_NEG_INF, - 1, DS4_NEG_INF) logits"

section \<open>The generator\<close>

definition sample_rng_next :: "u64 \<Rightarrow> u64 \<times> u64" where
  \<comment> \<open>the number and the new state\<close>
  "sample_rng_next state =
     (let x0 = (if state = 0 then 0x9e3779b97f4a7c15 else state);
          x1 = x0 XOR drop_bit 12 x0;
          x2 = x1 XOR push_bit 25 x1;
          x3 = x2 XOR drop_bit 27 x2
      in (x3 * 0x2545f4914f6cdd1d, x3))"

definition sample_rng_f32 :: "u64 \<Rightarrow> double \<times> u64" where
  "sample_rng_f32 state =
     (case sample_rng_next state of (x, s) \<Rightarrow> (Fin (of_nat (unat (drop_bit 40 x AND 0xffffff)) / 16777216), s))"

section \<open>The loops that the two samplers share\<close>

record sample_candidate =
  c_id :: nat
  c_logit :: double
  c_prob :: double

definition finite_logits :: "double list \<Rightarrow> (nat \<times> double) list" where
  \<comment> \<open>the turns of a loop over the logits that are not skipped by \<open>!isfinite(v)\<close>\<close>
  "finite_logits logits = filter (\<lambda>(i, v). finite_float v) (enumerate 0 logits)"

definition with_prob :: "(double \<Rightarrow> double) \<Rightarrow> double \<Rightarrow> double \<Rightarrow> nat \<times> double \<Rightarrow> sample_candidate" where
  "with_prob expf temperature max_logit iv =
     \<lparr>c_id = fst iv, c_logit = snd iv, c_prob = expf (fdiv (fsub (snd iv) max_logit) temperature)\<rparr>"

definition sum_probs :: "sample_candidate list \<Rightarrow> double" where
  "sum_probs cs = foldl (\<lambda>s c. fadd s (c_prob c)) (Fin 0) cs"

definition bad_sum :: "double \<Rightarrow> bool" where
  "bad_sum s \<longleftrightarrow> dle s (Fin 0) \<or> \<not> finite_float s"

text \<open>The nucleus: how many candidates are kept and the sum of their probabilities.\<close>

fun filter_loop ::
  "double \<Rightarrow> double \<Rightarrow> double \<Rightarrow> nat \<Rightarrow> double \<Rightarrow> sample_candidate list \<Rightarrow> nat \<times> double" where
  "filter_loop mass min_prob top_p i fsum [] = (i, fsum)"
| "filter_loop mass min_prob top_p i fsum (c # cs) =
     (if i > 0 \<and> dless (fdiv (c_prob c) mass) min_prob then (i, fsum)
      else let fsum1 = fadd fsum (c_prob c) in
           if dle top_p (fdiv fsum1 mass) then (i + 1, fsum1)
           else filter_loop mass min_prob top_p (i + 1) fsum1 cs)"

fun pick_loop :: "double \<Rightarrow> sample_candidate list \<Rightarrow> nat option" where
  "pick_loop r [] = None"
| "pick_loop r (c # cs) =
     (let r1 = fsub r (c_prob c) in if dle r1 (Fin 0) then Some (c_id c) else pick_loop r1 cs)"

definition nucleus ::
  "double \<Rightarrow> double \<Rightarrow> double \<Rightarrow> nat \<Rightarrow> sample_candidate list \<Rightarrow> u64 \<Rightarrow> nat \<times> u64" where
  \<comment> \<open>both samplers: filter the ranked candidates and draw one\<close>
  "nucleus mass min_p top_p best ranked rng =
     (let min_prob = fmul (fdiv (c_prob (hd ranked)) mass) min_p;
          (filtered, fsum) = filter_loop mass min_prob top_p 0 (Fin 0) ranked
      in if filtered = 0 then (best, rng)
         else case sample_rng_f32 rng of
           (u, rng1) \<Rightarrow>
             ((case pick_loop (fmul u fsum) (take filtered ranked) of
                 Some i \<Rightarrow> i | None \<Rightarrow> c_id (ranked ! (filtered - 1))), rng1))"

section \<open>The whole vocabulary\<close>

fun best_loop :: "double \<Rightarrow> nat \<Rightarrow> (nat \<times> double) list \<Rightarrow> double \<times> nat" where
  "best_loop max_logit best [] = (max_logit, best)"
| "best_loop max_logit best ((i, v) # ivs) =
     (if dless max_logit v then best_loop v i ivs else best_loop max_logit best ivs)"

definition sample_full_vocab ::
  "(double \<Rightarrow> double) \<Rightarrow> (sample_candidate list \<Rightarrow> sample_candidate list) \<Rightarrow> double list \<Rightarrow>
   double \<Rightarrow> double \<Rightarrow> double \<Rightarrow> u64 \<Rightarrow> nat \<times> u64" where
  "sample_full_vocab expf qsort logits temperature top_p min_p rng =
     (let fin = finite_logits logits;
          (max_logit, best) = best_loop DS4_NEG_INF 0 fin;
          cand = map (with_prob expf temperature max_logit) fin
      in if fin = [] then (sample_argmax logits, rng)
         else if dle (Fin 1) top_p then
           let min_rel = (if dless (Fin 0) min_p then min_p else Fin 0);
               kept = filter (\<lambda>c. \<not> dless (c_prob c) min_rel) cand;
               mass = sum_probs kept
           in if bad_sum mass then (best, rng)
              else case sample_rng_f32 rng of
                (u, rng1) \<Rightarrow> ((case pick_loop (fmul u mass) kept of Some i \<Rightarrow> i | None \<Rightarrow> best), rng1)
         else
           let mass = sum_probs cand in
           if bad_sum mass then (best, rng)
           else nucleus mass (if dless (Fin 0) min_p then min_p else Fin 0) top_p best (qsort cand) rng)"

section \<open>Top-k\<close>

definition top_k_insert :: "nat \<times> double \<Rightarrow> (nat \<times> double) list \<Rightarrow> (nat \<times> double) list" where
  \<comment> \<open>the while loop: from the end, smaller values move up one place\<close>
  "top_k_insert x buf =
     (let small = takeWhile (\<lambda>y. dless (snd y) (snd x)) (rev buf)
      in take (length buf - length small) buf @ [x] @ rev small)"

fun top_k_loop :: "nat \<Rightarrow> (nat \<times> double) list \<Rightarrow> (nat \<times> double) list \<Rightarrow> (nat \<times> double) list" where
  "top_k_loop k buf [] = buf"
| "top_k_loop k buf (x # xs) =
     (if length buf = k \<and> dle (snd x) (snd (last buf)) then top_k_loop k buf xs
      else top_k_loop k (top_k_insert x (if length buf < k then buf else butlast buf)) xs)"

definition sample_top ::
  "(double \<Rightarrow> double) \<Rightarrow> double \<Rightarrow> double \<Rightarrow> double \<Rightarrow> (nat \<times> double) list \<Rightarrow> u64 \<Rightarrow> nat \<times> u64" where
  \<comment> \<open>once the buffer is filled\<close>
  "sample_top expf temperature top_p min_p topk rng =
     (let cand = map (with_prob expf temperature (snd (hd topk))) topk;
          mass = sum_probs cand
      in if bad_sum mass then (c_id (hd cand), rng) else nucleus mass min_p top_p (c_id (hd cand)) cand rng)"

definition sample_top_p_min_p ::
  "(double \<Rightarrow> double) \<Rightarrow> (sample_candidate list \<Rightarrow> sample_candidate list) \<Rightarrow> double list \<Rightarrow>
   double \<Rightarrow> int \<Rightarrow> double \<Rightarrow> double \<Rightarrow> u64 \<Rightarrow> nat \<times> u64" where
  "sample_top_p_min_p expf qsort logits temperature top_k top_p0 min_p0 rng =
     (if dle temperature (Fin 0) then (sample_argmax logits, rng)
      else
        let top_p = (if dle top_p0 (Fin 0) \<or> dless (Fin 1) top_p0 then Fin 1 else top_p0);
            min_p = (if dless min_p0 (Fin 0) then Fin 0 else min_p0)
        in if top_k \<le> 0 then sample_full_vocab expf qsort logits temperature top_p min_p rng
           else
             let k = min (min (nat top_k) 1024) (length logits);
                 topk = top_k_loop k [] (finite_logits logits)
             in if topk = [] then (sample_argmax logits, rng) else sample_top expf temperature top_p min_p topk rng)"

section \<open>Top log-probabilities\<close>

text \<open>The insertion of \<open>ds4_session_top_logprobs\<close>: \<open>k\<close> slots, the free ones with the id -1.\<close>

fun logprob_insert :: "int \<times> double \<Rightarrow> (int \<times> double) list \<Rightarrow> (int \<times> double) list" where
  "logprob_insert x [] = []"
| "logprob_insert x (y # ys) = (if fst y < 0 \<or> dless (snd y) (snd x) then x # butlast (y # ys) else y # logprob_insert x ys)"

definition top_logits :: "nat \<Rightarrow> double list \<Rightarrow> (int \<times> double) list" where
  "top_logits k logits =
     foldl (\<lambda>out (i, v). logprob_insert (int i, v) out) (replicate k (- 1, DS4_NEG_INF)) (finite_logits logits)"

end
