(* ===== verification/SamplerFacts.thy ===== *)
theory SamplerFacts
  imports Sampler
begin

text \<open>
  What is sampled: the greedy choice is the first largest logit; the top-k buffer holds the \<open>k\<close> largest
  finite logits in order; and whatever \<open>expf\<close>, the roundings and the generator do, a sampled token is one
  of the candidates. The generator never gets stuck, and its floats lie below 1.
\<close>

section \<open>The order of floats\<close>

lemma dless_trans: "dless a b \<Longrightarrow> dless b c \<Longrightarrow> dless a c"
  by (cases a; cases b; cases c) (auto split: if_splits)

lemma dless_NaN: "dless a b \<Longrightarrow> a \<noteq> NaN \<and> b \<noteq> NaN"
  by (cases a; cases b) auto

lemma dless_irrefl [simp]: "\<not> dless a a"
  by (cases a) auto

lemma dless_asym: "dless a b \<Longrightarrow> \<not> dless b a"
  using dless_trans [of a b a] by auto

lemma dless_linear: "a \<noteq> NaN \<Longrightarrow> b \<noteq> NaN \<Longrightarrow> dless a b \<or> a = b \<or> dless b a"
  by (cases a; cases b) auto

lemma finite_float_iff: "finite_float v \<longleftrightarrow> (\<exists>q. v = Fin q)"
  by (cases v) auto

lemma finite_dless: "finite_float a \<Longrightarrow> finite_float b \<Longrightarrow> dless a b \<longleftrightarrow> rat_of a < rat_of b"
  by (auto simp: finite_float_iff)

lemma finite_dle: "finite_float a \<Longrightarrow> finite_float b \<Longrightarrow> dle a b \<longleftrightarrow> rat_of a \<le> rat_of b"
  by (auto simp: finite_float_iff dle_def)

section \<open>The greedy choice\<close>

definition first_largest :: "double list \<Rightarrow> nat \<Rightarrow> bool" where
  "first_largest logits r \<longleftrightarrow> r < length logits \<and> (\<forall>v \<in> set logits. \<not> dless (logits ! r) v) \<and>
     (\<forall>j < r. \<not> dle (logits ! r) (logits ! j))"

definition argmax_state :: "double list \<Rightarrow> nat \<Rightarrow> double \<Rightarrow> bool" where
  \<comment> \<open>what the loop has found in the logits it has seen\<close>
  "argmax_state pre best best_v \<longleftrightarrow> best_v \<noteq> NaN \<and> (\<forall>v \<in> set pre. \<not> dless best_v v) \<and>
     (if \<exists>v \<in> set pre. dless DS4_NEG_INF v then best < length pre \<and> pre ! best = best_v \<and> first_largest pre best
      else best = 0 \<and> best_v = DS4_NEG_INF)"

lemma first_largest_snoc:
  "first_largest pre r \<Longrightarrow> \<not> dless (pre ! r) v \<Longrightarrow> first_largest (pre @ [v]) r"
  by (auto simp: first_largest_def nth_append)

lemma argmax_state_step:
  assumes "argmax_state pre best best_v"
  shows "argmax_state (pre @ [v]) (if dless best_v v then length pre else best) (if dless best_v v then v else best_v)"
proof (cases "dless best_v v")
  case True
  have s: "\<forall>u \<in> set pre. \<not> dless best_v u" using assms by (simp add: argmax_state_def)
  have neg: "dless DS4_NEG_INF v"
  proof (cases "best_v = DS4_NEG_INF")
    case False
    then have "\<exists>u \<in> set pre. dless DS4_NEG_INF u" "pre ! best = best_v" "first_largest pre best"
      using assms by (auto simp: argmax_state_def split: if_splits)
    then obtain u where "dless DS4_NEG_INF u" "\<not> dless best_v u" "u \<noteq> NaN" "best_v \<noteq> NaN"
      using assms dless_NaN by (auto simp: argmax_state_def)
    with dless_linear [of best_v u] True show ?thesis using dless_trans by blast
  qed (use True in simp)
  have less: "\<not> dless v u" if "u \<in> set pre" for u using s that True dless_trans by blast
  have "\<not> dle v u" if "u \<in> set pre" for u
    using s that True less by (auto simp: dle_def)
  then have "first_largest (pre @ [v]) (length pre)"
    using less by (auto simp: first_largest_def nth_append)
  then show ?thesis using True neg less dless_NaN [OF True] by (auto simp: argmax_state_def)
next
  case False
  show ?thesis
  proof (cases "\<exists>u \<in> set pre. dless DS4_NEG_INF u")
    case True
    then have "best < length pre" "pre ! best = best_v" "first_largest pre best" using assms by (simp_all add: argmax_state_def)
    with False True assms show ?thesis
      using first_largest_snoc [of pre best v] by (auto simp: argmax_state_def nth_append)
  next
    case none: False
    then have "best = 0" "best_v = DS4_NEG_INF" using assms by (auto simp: argmax_state_def)
    with False none assms show ?thesis by (auto simp: argmax_state_def)
  qed
qed

lemma argmax_loop_state:
  "argmax_state pre best best_v \<Longrightarrow> \<exists>best_v'. argmax_state (pre @ vs) (argmax_loop (length pre) best best_v vs) best_v'"
proof (induction vs arbitrary: pre best best_v)
  case Nil
  then show ?case by auto
next
  case (Cons v vs)
  from Cons.IH [OF argmax_state_step [OF Cons.prems, of v]] show ?case by (cases "dless best_v v") simp_all
qed

text \<open>
  C33. The greedy choice is the first of the largest logits, NaN left aside, as soon as one logit lies above
  the start value -1e30; otherwise it is token 0.
\<close>

theorem argmax_is_first_largest:
  "if \<exists>v \<in> set logits. dless DS4_NEG_INF v then first_largest logits (sample_argmax logits) else sample_argmax logits = 0"
proof -
  have "argmax_state [] 0 DS4_NEG_INF" by (auto simp: argmax_state_def DS4_NEG_INF_def round_binary_def Let_def)
  from argmax_loop_state [OF this, of logits] obtain best_v where "argmax_state logits (sample_argmax logits) best_v"
    by (auto simp: sample_argmax_def)
  then show ?thesis by (cases "\<exists>v \<in> set logits. dless DS4_NEG_INF v") (simp_all add: argmax_state_def)
qed

section \<open>The k largest\<close>

definition down :: "nat \<times> double \<Rightarrow> rat" where
  "down x = - rat_of (snd x)"

definition ins :: "nat \<times> double \<Rightarrow> (nat \<times> double) list \<Rightarrow> (nat \<times> double) list" where
  \<comment> \<open>behind the equal ones\<close>
  "ins x s = takeWhile (\<lambda>y. down y \<le> down x) s @ x # dropWhile (\<lambda>y. down y \<le> down x) s"

lemma takeWhile_sorted:
  "sorted (map down s) \<Longrightarrow> \<forall>y \<in> set (dropWhile (\<lambda>y. down y \<le> c) s). c < down y"
proof (induction s)
  case (Cons a s)
  then show ?case by (auto simp: not_le)
qed simp

lemma ins_sorted: "sorted (map down s) \<Longrightarrow> sorted (map down (ins x s))"
proof -
  assume s: "sorted (map down s)"
  have "sorted (map down (takeWhile (\<lambda>y. down y \<le> down x) s))" "sorted (map down (dropWhile (\<lambda>y. down y \<le> down x) s))"
    using s by (metis map_append sorted_append takeWhile_dropWhile_id)+
  moreover have "\<forall>y \<in> set (takeWhile (\<lambda>y. down y \<le> down x) s). down y \<le> down x" by (auto dest: set_takeWhileD)
  ultimately show ?thesis using takeWhile_sorted [OF s, of "down x"] by (fastforce simp: ins_def sorted_append)
qed

lemma ins_is_sort: "sort_key down (xs @ [x]) = ins x (sort_key down xs)"
proof (rule properties_for_sort_key)
  show "mset (ins x (sort_key down xs)) = mset (xs @ [x])"
  proof -
    have "mset (ins x s) = add_mset x (mset s)" for s
    proof -
      have "mset s = mset (takeWhile (\<lambda>y. down y \<le> down x) s) + mset (dropWhile (\<lambda>y. down y \<le> down x) s)"
        by (metis mset_append takeWhile_dropWhile_id)
      then show ?thesis by (simp add: ins_def)
    qed
    then show ?thesis by simp
  qed
  show "sorted (map down (ins x (sort_key down xs)))" by (rule ins_sorted) simp
next
  fix k
  let ?s = "sort_key down xs" and ?P = "\<lambda>y. down y \<le> down x"
  have eq: "filter (\<lambda>y. down k = down y) ?s = filter (\<lambda>y. down k = down y) xs"
    using sort_key_stable [of down "down k" xs] by (simp add: eq_commute)
  have "filter (\<lambda>y. down x = down y) (dropWhile ?P ?s) = []"
    using takeWhile_sorted [of ?s "down x"] by (auto simp: filter_empty_conv)
  moreover have "filter (\<lambda>y. down k = down y) (ins x ?s) =
      filter (\<lambda>y. down k = down y) (takeWhile ?P ?s) @ (if down k = down x then [x] else []) @ filter (\<lambda>y. down k = down y) (dropWhile ?P ?s)"
    by (simp add: ins_def)
  moreover have "filter (\<lambda>y. down k = down y) ?s = filter (\<lambda>y. down k = down y) (takeWhile ?P ?s) @ filter (\<lambda>y. down k = down y) (dropWhile ?P ?s)"
    by (metis filter_append takeWhile_dropWhile_id)
  ultimately show "filter (\<lambda>y. down k = down y) (ins x ?s) = filter (\<lambda>y. down k = down y) (xs @ [x])"
    using eq by auto
qed


lemma top_k_insert_ins:
  assumes s: "sorted (map down buf)" and f: "\<forall>y \<in> set (x # buf). finite_float (snd y)"
  shows "top_k_insert x buf = ins x buf"
proof -
  let ?P = "\<lambda>y. down y \<le> down x"
  have P: "\<And>y. y \<in> set buf \<Longrightarrow> dless (snd y) (snd x) = (\<not> ?P y)" using f by (auto simp: finite_dless down_def)
  have split: "rev buf = rev (dropWhile ?P buf) @ rev (takeWhile ?P buf)" by (metis rev_append takeWhile_dropWhile_id)
  have "takeWhile (\<lambda>y. dless (snd y) (snd x)) (rev buf) = rev (dropWhile ?P buf)"
  proof -
    have "takeWhile (\<lambda>y. dless (snd y) (snd x)) (rev buf) = takeWhile (\<lambda>y. \<not> ?P y) (rev buf)"
      using P by (intro takeWhile_cong) auto
    also have "\<dots> = rev (dropWhile ?P buf) @ takeWhile (\<lambda>y. \<not> ?P y) (rev (takeWhile ?P buf))"
      unfolding split using takeWhile_sorted [OF s, of "down x"] by (intro takeWhile_append2) auto
    also have "takeWhile (\<lambda>y. \<not> ?P y) (rev (takeWhile ?P buf)) = []"
      by (cases "takeWhile ?P buf" rule: rev_cases) (auto dest: set_takeWhileD simp: takeWhile_eq_Nil_iff,
          metis in_set_conv_decomp set_takeWhileD)
    finally show ?thesis by simp
  qed
  moreover have "take (length buf - length (dropWhile ?P buf)) buf = takeWhile ?P buf"
  proof -
    have "length buf = length (takeWhile ?P buf) + length (dropWhile ?P buf)" by (metis length_append takeWhile_dropWhile_id)
    then show ?thesis by (metis add_diff_cancel_right' append_eq_conv_conj takeWhile_dropWhile_id)
  qed
  ultimately show ?thesis by (simp add: top_k_insert_def ins_def)
qed

lemma ins_split:
  "\<forall>y \<in> set A. down y \<le> down x \<Longrightarrow> B = [] \<or> \<not> down (hd B) \<le> down x \<Longrightarrow> ins x (A @ B) = A @ x # B"
  by (cases B) (auto simp: ins_def takeWhile_append2 dropWhile_append2)

lemma take_ins:
  assumes "length (takeWhile (\<lambda>y. down y \<le> down x) s) \<le> m"
  shows "take (Suc m) (ins x s) = ins x (take m s)"
proof -
  define A where "A = takeWhile (\<lambda>y. down y \<le> down x) s"
  define B where "B = dropWhile (\<lambda>y. down y \<le> down x) s"
  have s: "s = A @ B" by (simp add: A_def B_def)
  have A: "\<forall>y \<in> set A. down y \<le> down x" by (auto simp: A_def dest: set_takeWhileD)
  have B: "B = [] \<or> \<not> down (hd B) \<le> down x" using hd_dropWhile [of "\<lambda>y. down y \<le> down x" s] by (auto simp: B_def)
  have "length A \<le> m" using assms by (simp add: A_def)
  then have t: "take m s = A @ take (m - length A) B" by (simp add: s)
  have "take (m - length A) B = [] \<or> \<not> down (hd (take (m - length A) B)) \<le> down x" using B by (cases "m - length A"; cases B) auto
  then have "ins x (take m s) = A @ x # take (m - length A) B" unfolding t by (rule ins_split [OF A])
  then show ?thesis unfolding s ins_split [OF A B] using \<open>length A \<le> m\<close> by (simp add: Suc_diff_le)
qed

lemma top_k_step:
  assumes s: "sorted (map down s)" and f: "\<forall>y \<in> set (x # s). finite_float (snd y)" and k: "0 < k"
  shows "(if length (take k s) = k \<and> dle (snd x) (snd (last (take k s))) then take k s
      else top_k_insert x (if length (take k s) < k then take k s else butlast (take k s))) = take k (ins x s)"
proof -
  let ?P = "\<lambda>y. down y \<le> down x"
  have fin: "y \<in> set (take n s) \<Longrightarrow> finite_float (snd y)" for y n using f by (auto dest: in_set_takeD)
  have sn: "sorted (map down (take n s))" for n using s by (metis sorted_wrt_take take_map)
  show ?thesis
  proof (cases "length s < k")
    case True
    then have "length (ins x s) \<le> k" by (metis (no_types) Suc_leI add_Suc_right ins_def length_Cons length_append takeWhile_dropWhile_id)
    then show ?thesis using True top_k_insert_ins [OF s f] by simp
  next
    case False
    then obtain m where m: "k = Suc m" "m < length s" using k by (cases k) auto
    have tk: "take k s = take m s @ [s ! m]" using m by (simp add: take_Suc_conv_app_nth)
    have xf: "finite_float (snd x)" "finite_float (snd (s ! m))" using f m by auto
    have len: "length s = length (takeWhile ?P s) + length (dropWhile ?P s)" by (metis length_append takeWhile_dropWhile_id)
    show ?thesis
    proof (cases "dle (snd x) (snd (s ! m))")
      case True
      then have "down (s ! m) \<le> down x" using xf by (simp add: finite_dle down_def)
      moreover have "down (s ! j) \<le> down (s ! m)" if "j \<le> m" for j
        using sorted_nth_mono [OF s that] m(2) that by simp
      ultimately have "\<forall>j \<le> m. ?P (s ! j)" by (meson order_trans)
      have all: "\<forall>y \<in> set (take k s). ?P y"
      proof
        fix y assume "y \<in> set (take k s)"
        then obtain j where "j < k" "y = s ! j" using m by (auto simp: in_set_conv_nth)
        with \<open>\<forall>j \<le> m. ?P (s ! j)\<close> m(1) show "?P y" by simp
      qed
      then have "takeWhile ?P (take k s @ drop k s) = take k s @ takeWhile ?P (drop k s)"
        by (intro takeWhile_append2) blast
      then have "takeWhile ?P s = take k s @ takeWhile ?P (drop k s)" by simp
      then have "take k (ins x s) = take k s" using m by (simp add: ins_def)
      then show ?thesis using True m tk by simp
    next
      case False
      then have "\<not> ?P (s ! m)" using xf by (simp add: finite_dle down_def)
      then have "length (takeWhile ?P s) \<le> m" by (metis nth_length_takeWhile leI takeWhile_nth set_takeWhileD nth_mem)
      then have "take k (ins x s) = ins x (take m s)" using take_ins m(1) by blast
      moreover have "top_k_insert x (take m s) = ins x (take m s)" using top_k_insert_ins [OF sn] fin f by simp
      ultimately show ?thesis using False m tk by simp
    qed
  qed
qed

lemma top_k_loop_sorts:
  "0 < k \<Longrightarrow> \<forall>y \<in> set (ys @ xs). finite_float (snd y) \<Longrightarrow>
    top_k_loop k (take k (sort_key down ys)) xs = take k (sort_key down (ys @ xs))"
proof (induction xs arbitrary: ys)
  case (Cons x xs)
  have f: "\<forall>y \<in> set (x # sort_key down ys). finite_float (snd y)" using Cons.prems(2) by simp
  have step: "top_k_loop k (take k (sort_key down ys)) (x # xs) = top_k_loop k (take k (ins x (sort_key down ys))) xs"
    using top_k_step [OF sorted_sort_key f Cons.prems(1)] by (auto split: if_splits)
  show ?case unfolding step ins_is_sort [symmetric] using Cons.IH [of "ys @ [x]"] Cons.prems by simp
qed simp


lemma finite_logits_facts: "(i, v) \<in> set (finite_logits logits) \<Longrightarrow> i < length logits \<and> logits ! i = v \<and> finite_float v"
  by (auto simp: finite_logits_def in_set_enumerate_eq)

lemma finite_logits_finite: "\<forall>y \<in> set (finite_logits logits). finite_float (snd y)"
  by (auto simp: finite_logits_def)

lemma top_k_is_sorted_lemma:
  "0 < k \<Longrightarrow> top_k_loop k [] (finite_logits logits) = take k (sort_key down (finite_logits logits))"
  using top_k_loop_sorts [of k "[]" "finite_logits logits"] finite_logits_finite [of logits] by simp

text \<open>
  C15. The top-k buffer, filled by shifting in one pass over the vocabulary, is the sorted list of the finite
  logits cut at \<open>k\<close>: the largest first, and of equal ones the one with the smaller token first.
\<close>

theorem top_k_is_sorted_prefix:
  "0 < k \<Longrightarrow> top_k_loop k [] (finite_logits logits) = take k (sort_key down (finite_logits logits))"
  using top_k_loop_sorts [of k "[]" "finite_logits logits"] finite_logits_finite [of logits] by simp

lemma top_k_is_sorted_prefix_witness:
  "top_k_loop 2 [] (finite_logits [Fin 1, NaN, Fin 3, Fin 2, Fin 3]) = [(2, Fin 3), (4, Fin 3)]"
proof -
  have "take 2 (sort_key down (finite_logits [Fin 1, NaN, Fin 3, Fin 2, Fin 3])) = [(2, Fin 3), (4, Fin 3)]" by code_simp
  then show ?thesis by (simp add: top_k_is_sorted_prefix)
qed

section \<open>Sampled tokens are candidates\<close>

lemma filter_loop_bound: "fst (filter_loop m p t i f cs) \<le> i + length cs"
proof (induction cs arbitrary: i f)
  case (Cons c cs)
  show ?case using Cons [of "i + 1" "fadd f (c_prob c)"] by (auto simp: Let_def)
qed simp

lemma pick_loop_member: "pick_loop r cs = Some i \<Longrightarrow> i \<in> c_id ` set cs"
  by (induction cs arbitrary: r) (auto simp: Let_def split: if_splits)

lemma nucleus_member: "fst (nucleus m mp tp best ranked rng) \<in> insert best (c_id ` set ranked)"
proof -
  obtain n f where f: "filter_loop m (fmul (fdiv (c_prob (hd ranked)) m) mp) tp 0 (Fin 0) ranked = (n, f)" by fastforce
  obtain u rng1 where u: "sample_rng_f32 rng = (u, rng1)" by fastforce
  show ?thesis
  proof (cases "n = 0")
    case False
    have "n \<le> length ranked" using filter_loop_bound f by (metis add_0 fst_conv)
    then have "c_id (ranked ! (n - 1)) \<in> c_id ` set ranked" using False by auto
    then show ?thesis using f u False
      by (auto simp: nucleus_def Let_def split: option.splits dest!: pick_loop_member dest: in_set_takeD)
  qed (use f in \<open>simp add: nucleus_def Let_def\<close>)
qed

lemma with_prob_ids: "c_id ` set (map (with_prob expf temperature m) ivs) = fst ` set ivs"
  by (force simp: with_prob_def)

lemma best_loop_member:
  "(\<exists>x \<in> set ivs. dless m (snd x)) \<Longrightarrow> snd (best_loop m b ivs) \<in> fst ` set ivs"
proof (induction m b ivs rule: best_loop.induct)
  case (2 m b i v ivs)
  have keep: "\<not> (\<exists>x \<in> set ivs. dless n (snd x)) \<Longrightarrow> best_loop n c ivs = (n, c)" for n c
    by (induction ivs) auto
  show ?case
  proof (cases "dless m v")
    case True
    then show ?thesis using 2(1) keep [of v i] by (cases "\<exists>x \<in> set ivs. dless v (snd x)") auto
  next
    case False
    then show ?thesis using 2(2,3) by auto
  qed
qed simp

lemma full_vocab_member:
  assumes q: "\<And>cs. mset (qsort cs) = mset cs" and big: "\<exists>x \<in> set (finite_logits logits). dless DS4_NEG_INF (snd x)"
  shows "fst (sample_full_vocab expf qsort logits temperature top_p min_p rng) \<in> fst ` set (finite_logits logits)"
proof -
  let ?fin = "finite_logits logits"
  obtain m best where b: "best_loop DS4_NEG_INF 0 ?fin = (m, best)" by fastforce
  have best: "best \<in> fst ` set ?fin" using best_loop_member [OF big, of 0] b by simp
  have ne: "?fin \<noteq> []" using big by auto
  let ?cand = "map (with_prob expf temperature m) ?fin"
  have kept: "pick_loop r (filter P ?cand) = Some i \<Longrightarrow> i \<in> fst ` set ?fin" for r P i
    using pick_loop_member [of r "filter P ?cand" i] with_prob_ids [of expf temperature m ?fin] by auto
  have ids: "c_id ` set (qsort ?cand) = fst ` set ?fin"
    using mset_eq_setD [OF q [of ?cand]] with_prob_ids [of expf temperature m ?fin] by simp
  have nuc: "fst (nucleus mass mp tp best (qsort ?cand) r) \<in> fst ` set ?fin" for mass mp tp r
    using nucleus_member [of mass mp tp best "qsort ?cand" r] best ids by auto
  show ?thesis
  proof (cases "dle (Fin 1) top_p")
    case True
    then show ?thesis using ne best b kept
      by (auto simp: sample_full_vocab_def Let_def split: prod.splits option.splits)
  next
    case False
    then show ?thesis using ne best b nuc by (auto simp: sample_full_vocab_def Let_def)
  qed
qed

lemma sample_top_member:
  assumes "topk \<noteq> []"
  shows "fst (sample_top expf temperature tp mp topk rng) \<in> fst ` set topk"
proof -
  let ?cand = "map (with_prob expf temperature (snd (hd topk))) topk"
  have hd: "c_id (hd ?cand) \<in> c_id ` set ?cand" using assms by (cases topk) auto
  have "fst (sample_top expf temperature tp mp topk rng) \<in> insert (c_id (hd ?cand)) (c_id ` set ?cand)"
    using nucleus_member [of "sum_probs ?cand" mp tp "c_id (hd ?cand)" ?cand rng]
    unfolding sample_top_def Let_def by (cases "bad_sum (sum_probs ?cand)") (simp_all only: if_True if_False fst_conv insertI1)
  with hd show ?thesis unfolding with_prob_ids [symmetric, of topk expf temperature "snd (hd topk)"] by (metis insertE)
qed

text \<open>
  C14. Whatever \<open>expf\<close> returns, however the sums are rounded and whatever the generator draws: with a
  temperature above 0 the sampled token has a finite logit, and with top-k it is one of the \<open>k\<close> largest (at
  most 1024). (One logit is assumed to lie above -1e30, the start value of the search for the largest.)
\<close>

theorem sampled_token_is_candidate:
  assumes q: "\<And>cs. mset (qsort cs) = mset cs" and t: "\<not> dle temperature (Fin 0)"
    and big: "\<exists>v \<in> set logits. finite_float v \<and> dless DS4_NEG_INF v"
    and s: "sample_top_p_min_p expf qsort logits temperature top_k top_p min_p rng = (token, rng')"
  shows "token < length logits \<and> finite_float (logits ! token) \<and>
    (0 < top_k \<longrightarrow> token \<in> fst ` set (take (min (nat top_k) 1024) (sort_key down (finite_logits logits))))"
proof -
  let ?fin = "finite_logits logits" and ?k = "min (min (nat top_k) 1024) (length logits)"
  obtain j where j: "j < length logits" "finite_float (logits ! j)" "dless DS4_NEG_INF (logits ! j)"
    using big by (metis in_set_conv_nth)
  then have "(j, logits ! j) \<in> set ?fin" by (auto simp: finite_logits_def in_set_enumerate_eq)
  then have big': "\<exists>x \<in> set ?fin. dless DS4_NEG_INF (snd x)" using j(3) by force
  have fin: "i \<in> fst ` set ?fin \<Longrightarrow> i < length logits \<and> finite_float (logits ! i)" for i
    using finite_logits_facts [of i _ logits] by auto
  show ?thesis
  proof (cases "0 < top_k")
    case False
    then have "\<exists>tp mp. sample_full_vocab expf qsort logits temperature tp mp rng = (token, rng')"
      using s t by (auto simp: sample_top_p_min_p_def Let_def not_less)
    then have "token \<in> fst ` set ?fin" using full_vocab_member [OF q big'] by (metis fst_conv)
    with fin False show ?thesis by blast
  next
    case True
    have k: "0 < ?k" using True j(1) by (cases logits) auto
    let ?topk = "take ?k (sort_key down ?fin)"
    have "?fin \<noteq> []" using big' by auto
    have "length (sort_key down ?fin) = length ?fin" by simp
    with \<open>?fin \<noteq> []\<close> have "sort_key down ?fin \<noteq> []" by (metis length_0_conv)
    then have ne: "?topk \<noteq> []" using k by simp
    have topk: "top_k_loop ?k [] ?fin = ?topk" by (rule top_k_is_sorted_lemma [OF k])
    have "\<exists>tp mp. sample_top expf temperature tp mp ?topk rng = (token, rng')"
      using s unfolding sample_top_p_min_p_def Let_def topk if_not_P [OF t] if_not_P [OF ne] if_not_P [OF True [unfolded not_le [symmetric]]]
      by blast
    then have tok: "token \<in> fst ` set ?topk" using sample_top_member [OF ne] by (metis fst_conv)
    have "set ?topk \<subseteq> set ?fin" by (metis set_sort set_take_subset)
    with tok fin have "token < length logits \<and> finite_float (logits ! token)" by blast
    moreover have "set ?topk \<subseteq> set (take (min (nat top_k) 1024) (sort_key down ?fin))" by (rule set_take_subset_set_take) linarith
    ultimately show ?thesis using tok by blast
  qed
qed


lemma above_neg_inf: "0 < a \<Longrightarrow> dless DS4_NEG_INF (Fin a)"
proof -
  assume a: "0 < a"
  have "0 \<le> round_half_even q" if "0 \<le> q" for q using that by (auto simp: round_half_even_def Let_def)
  moreover have "0 < pow2 e" for e by (simp add: pow2_def)
  ultimately have "0 \<le> rat_of_int (round_half_even (q / pow2 e)) * pow2 e" if "0 \<le> q" for q e
    using that by (simp add: less_imp_le)
  then have "0 \<le> rat_of_int (round_half_even (\<bar>- (10 ^ 30)\<bar> / pow2 e)) * pow2 e" for e by (metis abs_ge_zero)
  then show ?thesis using a unfolding DS4_NEG_INF_def float_cast.simps round_binary_def Let_def
    by (auto simp del: abs_minus_cancel) (meson le_less_trans neg_le_0_iff_le)+
qed

lemma sampled_token_is_candidate_witness:
  "\<exists>token rng'. sample_top_p_min_p (\<lambda>_. Fin 1) id [Fin 1, NaN, Fin 3, Fin 2] (Fin 1) 2 (Fin 1) (Fin 0) 5 = (token, rng') \<and>
     token \<in> {2, 3}"
proof -
  let ?l = "[Fin 1, NaN, Fin 3, Fin 2]"
  obtain token rng' where s: "sample_top_p_min_p (\<lambda>_. Fin 1) id ?l (Fin 1) 2 (Fin 1) (Fin 0) 5 = (token, rng')" by (rule prod.exhaust)
  have big: "\<exists>v \<in> set ?l. finite_float v \<and> dless DS4_NEG_INF v" by (simp add: above_neg_inf)
  have t: "\<not> dle (Fin 1) (Fin 0)" by code_simp
  have "fst ` set (take (min (nat 2) 1024) (sort_key down (finite_logits ?l))) = {2, 3}"
  proof -
    have "sort_key down (finite_logits ?l) = [(2, Fin 3), (3, Fin 2), (0, Fin 1)]" by code_simp
    then show ?thesis by auto
  qed
  with sampled_token_is_candidate [of id, OF _ t big s] s show ?thesis by simp
qed

section \<open>The generator\<close>

lemma shift_right_zero:
  assumes "0 < n" "x XOR drop_bit n x = (0 :: u64)"
  shows "x = 0"
proof -
  have "x = (x XOR drop_bit n x) XOR drop_bit n x" by (simp add: xor.assoc)
  also have "\<dots> = drop_bit n x" unfolding assms(2) by simp
  finally have "unat x = unat (drop_bit n x)" by (rule arg_cong)
  also have "\<dots> = unat x div 2 ^ n" unfolding unat_drop_bit_eq by (simp only: drop_bit_eq_div)
  finally have u: "unat x = unat x div 2 ^ n" .
  have "2 ^ 1 \<le> (2 :: nat) ^ n" using assms(1) by (intro power_increasing) auto
  then have "unat x div 2 ^ n < unat x \<or> unat x = 0" by (cases "unat x = 0") auto
  then have "unat x = 0" using u by linarith
  then show ?thesis by (simp add: unat_eq_zero)
qed

lemma shift_left_zero:
  assumes "0 < n" "x XOR push_bit n x = (0 :: u64)"
  shows "x = 0"
proof (rule ccontr)
  assume "x \<noteq> 0"
  then have ex: "\<exists>i. bit x i" using bit_eq_iff [of x 0] by auto
  have "x = (x XOR push_bit n x) XOR push_bit n x" by (simp add: xor.assoc)
  also have "\<dots> = push_bit n x" unfolding assms(2) by simp
  finally have eq: "bit x i = bit (push_bit n x) i" for i by (rule arg_cong)
  let ?i = "LEAST i. bit x i"
  have i: "bit x ?i" using LeastI_ex [OF ex] .
  then have "bit (push_bit n x) ?i" unfolding eq [symmetric] .
  then have "n \<le> ?i \<and> bit x (?i - n)" by (simp add: bit_push_bit_iff)
  moreover from this have "?i \<le> ?i - n" by (intro Least_le) blast
  ultimately show False using assms(1) by linarith
qed

text \<open>
  C34. The generator never falls into the zero state, from which it would not get out, whatever seed it
  starts from; and its floats are exact, between 0 and below 1, so that the drawn weight never exceeds the
  sum of the weights before rounding.
\<close>

theorem generator_never_stuck:
  "snd (sample_rng_next state) \<noteq> 0 \<and>
   (\<exists>n. fst (sample_rng_f32 state) = Fin (of_nat n / 16777216) \<and> n < 16777216)"
proof
  let ?x0 = "if state = 0 then 0x9e3779b97f4a7c15 else state :: u64"
  have x0: "?x0 \<noteq> 0" by simp
  have r: "y \<noteq> 0 \<Longrightarrow> y XOR drop_bit (Suc m) y \<noteq> 0" for y :: u64 and m using shift_right_zero [of "Suc m" y] by blast
  have l: "y \<noteq> 0 \<Longrightarrow> y XOR push_bit (Suc m) y \<noteq> 0" for y :: u64 and m using shift_left_zero [of "Suc m" y] by blast
  note steps = r [OF l [OF r [OF x0, of 11], of 24], of 26]
  then show "snd (sample_rng_next state) \<noteq> 0" unfolding sample_rng_next_def Let_def snd_conv by simp
next
  have "unat (w AND 0xffffff) < 16777216" for w :: u64
  proof -
    have "w AND 0xffffff \<le> 0xffffff" by (rule word_and_le1)
    then have "unat (w AND 0xffffff) \<le> unat (0xffffff :: u64)" by (simp add: word_le_nat_alt)
    then show ?thesis by simp
  qed
  then show "\<exists>n. fst (sample_rng_f32 state) = Fin (of_nat n / 16777216) \<and> n < 16777216"
    unfolding sample_rng_f32_def
    by (intro exI [of _ "unat (drop_bit 40 (fst (sample_rng_next state)) AND 0xffffff)"]) (simp add: split_def)
qed

end
