(* ===== verification/Spec2Isabelle.thy ===== *)
theory Spec2Isabelle
  imports ToolRoundtrip RequestFacts ToolStreamFacts VocabFacts HttpFacts JobQueueFacts GenerateFacts SamplerFacts
begin

text \<open>
  A verification library for the C server of go-ds4: ds4_server.c (an HTTP server with the OpenAI and
  Anthropic chat interfaces in front of one inference session) and the parts of ds4.c its logic rests
  on.

  The program. A client connection is parsed into a request; its JSON body goes through the server's
  own JSON reader into messages, tool calls and controls; the conversation is rendered as prompt text;
  the engine generates text, which is streamed with stop sequences and UTF-8 boundaries respected,
  and finally parsed back into reasoning, content and tool calls. The exact text of sampled tool calls
  is remembered (tool-call memory) so that later prompts repeat it byte for byte, and live sessions
  are saved to a disk cache from which later prompts with the same prefix are resumed.

  Theories, in the order of their imports:

    \<^item> \<open>Prelude\<close>: bytes, C strings, suffixes as pointers, \<open>strstr\<close>.
    \<^item> \<open>Json\<close>, \<open>JsonValue\<close>, \<open>JsonLoops\<close>: the JSON reader (\<open>json_*\<close>), values it skips, and the loops
      over members and elements that all request parsers share, with the locales of their handlers.
    \<^item> \<open>Controls\<close>: thinking modes, stop sequences (\<open>stop_list_*\<close>), \<open>utf8_stream_safe_len\<close>.
    \<^item> \<open>DsmlText\<close>: JSON and DSML escaping; \<open>Messages\<close>, \<open>Anthropic\<close>: messages, tool calls, schemas;
      \<open>Render\<close>: the prompt text; \<open>DsmlParse\<close>: \<open>parse_generated_message\<close>; \<open>ToolRoundtrip\<close>: what the
      parser reads back is what the renderer wrote.
    \<^item> \<open>ToolMemory\<close>: the tool-call memory with its pointers; \<open>ToolMemoryLists\<close>, \<open>ToolMemoryInv\<close>,
      \<open>ToolMemoryAdd\<close>, \<open>ToolMemoryRefine\<close>: its invariant and that it refines a bounded
      least-recently-used list; \<open>ToolReplay\<close>, \<open>ToolReplayFacts\<close>: its users (locale \<open>lru_memory\<close>).
    \<^item> \<open>Requests\<close>, \<open>RequestLoop\<close>, \<open>RequestFacts\<close>: the three request parsers with what they own and free.
    \<^item> \<open>Sse\<close>, \<open>OpenaiStream\<close>, \<open>AnthropicStream\<close>: responses, frames and the incremental streams;
      \<open>StreamSplit\<close>, \<open>OpenaiStreamFacts\<close>, \<open>AnthropicFacts\<close>, \<open>ToolStreamFacts\<close>: what was streamed is the
      parsed message however the text was cut, and the blocks are well numbered.
    \<^item> \<open>StrTable\<close>, \<open>Tokenizer\<close>, \<open>ByteCodec\<close>, \<open>TokenizerFacts\<close>: ds4.c's string table (locale
      \<open>string_map\<close>), the BPE tokenizer, and that it loses nothing and merges by rank.
    \<^item> \<open>Gguf\<close>, \<open>GgufFacts\<close>, \<open>GgufFile\<close>: the GGUF reader of ds4.c, its bounds, and files it reads back;
      \<open>Vocab\<close>, \<open>VocabFacts\<close>: the vocabulary loaded from a file fits the tokenizer.
    \<^item> \<open>Sha1\<close>: the hash that names cache files. \<open>KvFile\<close>, \<open>KvFileFacts\<close>: the cache file format.
      \<open>KvCache\<close>, \<open>KvCacheFacts\<close>, \<open>KvStore\<close>: scanning, eviction, storing, finding, loading.
    \<^item> \<open>Http\<close>, \<open>HttpFacts\<close>: reading an HTTP request from a socket and routing it, up to the job queue.
    \<^item> \<open>JobQueue\<close>, \<open>JobQueueFacts\<close>: the linked queue (locale \<open>fifo\<close>) and the main, worker and client
      threads over all schedules: no use after free, served in order, the shutdown comes to an end.
    \<^item> \<open>EngineApi\<close>, \<open>Generate\<close>, \<open>GenerateFacts\<close>: \<open>generate_job\<close>, what the worker does with a request:
      prefill, decoding with stop sequences and streams, the finish, the rewriting of the checkpoint.
    \<^item> \<open>Sampler\<close>, \<open>SamplerFacts\<close>: ds4.c's greedy choice, generator, and top-k, top-p and min-p sampling.

  Conventions. A C string is a \<open>char list\<close> without NUL, a \<open>const char *\<close> into it the suffix it points
  to; a parser returns None where the C function returns false. Machine integers are words where
  their width matters (code points, hashes, header fields, clocks); lengths and counters far below
  their limits are naturals or integers. Functions of heap structures return None on a read of freed
  memory or an endless loop, so that a result \<open>Some\<close> is a proof of safety and termination.

  Fuel and bounds. \<open>sha1_pad\<close> takes 64 steps of fuel, more than the 63 zeros a block can need
  (\<open>sha1_pad_rep\<close>). All other loops are structural, have a measure (the rest of the input), or are
  \<open>partial_function\<close>s shown to return.

  Parameters. The vendored radix tree (rax.c) is a finite map; /dev/urandom is a sequence of blocks;
  the inference engine is the record \<open>engine_api\<close>,
  extended to \<open>decode_api\<close>; \<open>expf\<close> and \<open>qsort\<close> are functions; what system calls answer is the record \<open>kv_env\<close>;
  double arithmetic is exact arithmetic followed by a rounding function.

  Not modelled: tensor kernels and the CPU and Metal graph (floating-point and GPU code), the vendored
  line editor and radix tree, socket options, signals, command-line options, logging, memory exhaustion (the program
  exits), the command-line client.
\<close>

end
